(* ===== verification/Prelude.thy ===== *)
theory Prelude
  imports Main "HOL-Library.Char_ord" "HOL-Library.List_Lexorder" "HOL-Library.Sublist"
    "HOL-Library.Word"
begin

text \<open>
  The shared vocabulary of the development.  A Go string is a byte sequence, so it is a
  \<^typ>\<open>string\<close> (a list of 8-bit characters) and \<^const>\<open>length\<close> is Go's \<^verbatim>\<open>len\<close>;
  the order on strings is the bytewise lexicographic one of \<^verbatim>\<open>HOL-Library.List_Lexorder\<close>
  over \<^verbatim>\<open>Char_ord\<close>, which is Go's.  A \<^verbatim>\<open>map[string]string\<close> is an association list and a
  nil map is \<^const>\<open>None\<close>; \<open>wf_gomap\<close> says its keys are distinct, which holds of every Go map.
  A \<^verbatim>\<open>time.Time\<close> is the number of nanoseconds since Go's zero time; \<^verbatim>\<open>uint64\<close> is a 64-bit word.
  A call that may fail returns \<open>error + value\<close> with \<^const>\<open>Inl\<close> for the error.
  The functions of the Go packages \<^verbatim>\<open>strings\<close>, \<^verbatim>\<open>strconv\<close> and \<^verbatim>\<open>slices\<close> that the sources call
  are defined here, with the lemmas the components share.
\<close>

named_theorems gostr \<open>characterisations of the string functions\<close>
named_theorems store_defs \<open>definitions of the store operations, for unfolding a handler\<close>

type_synonym scope = string
type_synonym uint64 = "64 word"
type_synonym gomap = "(string \<times> string) list"
type_synonym time = int

abbreviation LF :: char where "LF \<equiv> CHR 0x0A"
abbreviation CR :: char where "CR \<equiv> CHR 0x0D"
abbreviation TAB :: char where "TAB \<equiv> CHR 0x09"

section \<open>Strings\<close>

definition HasPrefix :: "string \<Rightarrow> string \<Rightarrow> bool" where
  "HasPrefix s p \<longleftrightarrow> take (length p) s = p"

definition HasSuffix :: "string \<Rightarrow> string \<Rightarrow> bool" where
  "HasSuffix s p \<longleftrightarrow> length p \<le> length s \<and> drop (length s - length p) s = p"

definition TrimPrefix :: "string \<Rightarrow> string \<Rightarrow> string" where
  "TrimPrefix s p = (if HasPrefix s p then drop (length p) s else s)"

definition TrimSuffix :: "string \<Rightarrow> string \<Rightarrow> string" where
  "TrimSuffix s p = (if HasSuffix s p then take (length s - length p) s else s)"

definition TrimLeft :: "string \<Rightarrow> string \<Rightarrow> string" where
  "TrimLeft s cutset = dropWhile (\<lambda>c. c \<in> set cutset) s"

definition TrimRight :: "string \<Rightarrow> string \<Rightarrow> string" where
  "TrimRight s cutset = rev (dropWhile (\<lambda>c. c \<in> set cutset) (rev s))"

definition Trim :: "string \<Rightarrow> string \<Rightarrow> string" where
  "Trim s cutset = TrimRight (TrimLeft s cutset) cutset"

definition ContainsAny :: "string \<Rightarrow> string \<Rightarrow> bool" where
  "ContainsAny s chars \<longleftrightarrow> (\<exists>c\<in>set s. c \<in> set chars)"

fun Contains :: "string \<Rightarrow> string \<Rightarrow> bool" where
  "Contains [] w \<longleftrightarrow> w = []"
| "Contains (c # s) w \<longleftrightarrow> HasPrefix (c # s) w \<or> Contains s w"

text \<open>\<^verbatim>\<open>strings.Index\<close>: the first position of a substring, \<^const>\<open>None\<close> for -1.\<close>

fun Index :: "string \<Rightarrow> string \<Rightarrow> nat option" where
  "Index [] w = (if w = [] then Some 0 else None)"
| "Index (c # s) w = (if HasPrefix (c # s) w then Some 0 else map_option Suc (Index s w))"

text \<open>\<^verbatim>\<open>strings.Count\<close> and \<^verbatim>\<open>strings.Replace(s, old, new, 1)\<close> for a nonempty \<open>old\<close>: the
  occurrences counted do not overlap.\<close>

function Count :: "string \<Rightarrow> string \<Rightarrow> nat" where
  "Count s w =
     (if w = [] then length s + 1
      else case Index s w of None \<Rightarrow> 0 | Some i \<Rightarrow> Suc (Count (drop (i + length w) s) w))"
  by pat_completeness auto

definition Replace1 :: "string \<Rightarrow> string \<Rightarrow> string \<Rightarrow> string" where
  "Replace1 s old new =
     (case Index s old of None \<Rightarrow> s | Some i \<Rightarrow> take i s @ new @ drop (i + length old) s)"

fun Join :: "string list \<Rightarrow> string \<Rightarrow> string" where
  "Join [] sep = []"
| "Join [x] sep = x"
| "Join (x # y # xs) sep = x @ sep @ Join (y # xs) sep"

definition Repeat :: "string \<Rightarrow> nat \<Rightarrow> string" where
  "Repeat s n = concat (replicate n s)"

text \<open>\<^verbatim>\<open>strconv.Itoa\<close>, which is also \<^verbatim>\<open>%d\<close>, and \<^verbatim>\<open>%*d\<close>, padded with spaces on the left.\<close>

definition digit :: "nat \<Rightarrow> char" where
  "digit n = ''0123456789'' ! (n mod 10)"

fun utoa :: "nat \<Rightarrow> string" where
  "utoa n = (if n < 10 then [digit n] else utoa (n div 10) @ [digit (n mod 10)])"

declare utoa.simps [simp del]

definition Itoa :: "int \<Rightarrow> string" where
  "Itoa i = (if i < 0 then CHR ''-'' # utoa (nat (- i)) else utoa (nat i))"

definition pad_d :: "nat \<Rightarrow> int \<Rightarrow> string" where
  "pad_d w i = (let s = Itoa i in replicate (w - length s) (CHR '' '') @ s)"

section \<open>Maps\<close>

definition wf_gomap :: "gomap option \<Rightarrow> bool" where
  "wf_gomap m \<longleftrightarrow> (case m of None \<Rightarrow> True | Some xs \<Rightarrow> distinct (map fst xs))"

definition mitems :: "gomap option \<Rightarrow> gomap" where
  "mitems m = (case m of None \<Rightarrow> [] | Some xs \<Rightarrow> xs)"

definition mlen :: "gomap option \<Rightarrow> nat" where
  "mlen m = length (mitems m)"

definition mlookup :: "gomap option \<Rightarrow> string \<Rightarrow> string option" where
  "mlookup m k = map_of (mitems m) k"

lemma mitems_simps [simp]: "mitems None = []" "mitems (Some xs) = xs"
  by (simp_all add: mitems_def)

lemma wf_gomap_items: "wf_gomap m \<longleftrightarrow> distinct (map fst (mitems m))"
  by (simp add: wf_gomap_def split: option.splits)

lemma mlen_0 [simp]: "mlen m = 0 \<longleftrightarrow> mitems m = []"
  by (simp add: mlen_def)

section \<open>Facts about the string functions\<close>

lemma HasPrefix_iff [gostr]: "HasPrefix s p \<longleftrightarrow> (\<exists>t. s = p @ t)"
  unfolding HasPrefix_def
  by (metis append_eq_conv_conj)

lemma HasPrefix_prefix: "HasPrefix s p \<longleftrightarrow> prefix p s"
  by (auto simp: HasPrefix_iff prefix_def)

lemma HasPrefix_Nil [simp]: "HasPrefix s []"
  by (simp add: HasPrefix_def)

lemma HasPrefix_append [simp]: "HasPrefix (p @ t) p"
  by (simp add: HasPrefix_def)

lemma HasSuffix_iff [gostr]: "HasSuffix s p \<longleftrightarrow> (\<exists>t. s = t @ p)"
proof
  assume "HasSuffix s p"
  then have "s = take (length s - length p) s @ p"
    unfolding HasSuffix_def by (metis append_take_drop_id)
  then show "\<exists>t. s = t @ p" ..
next
  assume "\<exists>t. s = t @ p"
  then show "HasSuffix s p" by (auto simp: HasSuffix_def)
qed

lemma Contains_iff [gostr]: "Contains s w \<longleftrightarrow> (\<exists>a b. s = a @ w @ b)"
proof (induction s)
  case Nil
  show ?case by auto
next
  case (Cons c s)
  have "Contains (c # s) w \<longleftrightarrow> (\<exists>b. c # s = w @ b) \<or> (\<exists>a b. s = a @ w @ b)"
    by (simp add: HasPrefix_iff Cons)
  also have "\<dots> \<longleftrightarrow> (\<exists>a b. c # s = a @ w @ b)"
    by (metis append.left_neutral append_Cons append_eq_Cons_conv)
  finally show ?case .
qed

lemma Contains_sublist: "Contains s w \<longleftrightarrow> sublist w s"
  by (simp add: Contains_iff sublist_def)

lemma Index_Some: "Index s w = Some i \<Longrightarrow> s = take i s @ w @ drop (i + length w) s"
proof (induction s arbitrary: i)
  case Nil
  then show ?case by (simp split: if_splits)
next
  case (Cons c s)
  show ?case
  proof (cases "HasPrefix (c # s) w")
    case True
    with Cons.prems have "i = 0" by simp
    with True show ?thesis
      by (simp add: HasPrefix_def) (metis append_take_drop_id)
  next
    case False
    with Cons.prems obtain j where "Index s w = Some j" "i = Suc j" by auto
    with Cons.IH show ?thesis by fastforce
  qed
qed

lemma Index_Some_le: "Index s w = Some i \<Longrightarrow> i + length w \<le> length s"
proof (induction s arbitrary: i)
  case Nil
  then show ?case by (simp split: if_splits)
next
  case (Cons c s)
  show ?case
  proof (cases "HasPrefix (c # s) w")
    case True
    with Cons.prems show ?thesis by (auto simp: HasPrefix_iff dest: arg_cong [of _ _ length])
  next
    case False
    with Cons show ?thesis by fastforce
  qed
qed

lemma Index_None: "Index s w = None \<longleftrightarrow> \<not> Contains s w"
  by (induction s) auto

termination Count
proof (relation "measure (\<lambda>(s, w). length s)")
  fix s w :: string and i
  assume "w \<noteq> []" and "Index s w = Some i"
  then have "0 < length w" and "i + length w \<le> length s" by (auto dest: Index_Some_le)
  then have "length s - (i + length w) < length s" by linarith
  then show "((drop (i + length w) s, w), (s, w)) \<in> measure (\<lambda>(s, w). length s)"
    by simp
qed simp

declare Count.simps [simp del]

lemma TrimLeft_split: "\<exists>p. s = p @ TrimLeft s cs \<and> set p \<subseteq> set cs"
  unfolding TrimLeft_def
  by (metis set_takeWhileD subsetI takeWhile_dropWhile_id)

lemma length_TrimLeft: "length (TrimLeft s cs) \<le> length s"
  by (simp add: TrimLeft_def length_dropWhile_le)

lemma run_length: "length s - length (TrimLeft s cs) = length (takeWhile (\<lambda>c. c \<in> set cs) s)"
  unfolding TrimLeft_def
  by (metis add_diff_cancel_right' length_append takeWhile_dropWhile_id)

lemma dropWhile_all_iff: "(\<forall>c \<in> set (dropWhile P s). P c) \<longleftrightarrow> (\<forall>c \<in> set s. P c)"
  by (induction s) auto

lemma Trim_Nil_iff [gostr]: "Trim s cs = [] \<longleftrightarrow> set s \<subseteq> set cs"
  using dropWhile_all_iff [of "\<lambda>c. c \<in> set cs" s]
  by (auto simp: Trim_def TrimRight_def TrimLeft_def subset_iff)

lemma length_Join: "xs \<noteq> [] \<Longrightarrow>
    length (Join xs sep) = sum_list (map length xs) + length sep * (length xs - 1)"
  by (induction xs sep rule: Join.induct) auto

lemma Join_append:
  "xs \<noteq> [] \<Longrightarrow> ys \<noteq> [] \<Longrightarrow> Join (xs @ ys) sep = Join xs sep @ sep @ Join ys sep"
proof (induction xs sep rule: Join.induct)
  case (2 x sep)
  then show ?case by (cases ys) auto
qed auto

section \<open>Decimal numerals\<close>

lemma utoa_small [simp]: "n < 10 \<Longrightarrow> utoa n = [digit n]"
  by (simp add: utoa.simps)

lemma utoa_large: "10 \<le> n \<Longrightarrow> utoa n = utoa (n div 10) @ [digit (n mod 10)]"
  by (simp add: utoa.simps)

lemma utoa_not_Nil [simp]: "utoa n \<noteq> []"
  by (subst utoa.simps) simp

lemma length_utoa_mono: "m \<le> n \<Longrightarrow> length (utoa m) \<le> length (utoa n)"
proof (induction n arbitrary: m rule: less_induct)
  case (less n)
  show ?case
  proof (cases "m < 10")
    case True
    then show ?thesis by (simp add: Suc_le_eq)
  next
    case False
    with less.prems have "length (utoa (m div 10)) \<le> length (utoa (n div 10))"
      by (intro less.IH) (auto simp: div_le_mono)
    with False less.prems show ?thesis by (simp add: utoa_large)
  qed
qed

lemma length_utoa_pos [simp]: "0 < length (utoa n)"
  by simp

lemma length_Itoa_mono: "0 \<le> i \<Longrightarrow> i \<le> j \<Longrightarrow> length (Itoa i) \<le> length (Itoa j)"
  by (simp add: Itoa_def length_utoa_mono)

lemma length_pad_d: "length (pad_d w i) = max w (length (Itoa i))"
  by (simp add: pad_d_def Let_def)

definition digit_val :: "char \<Rightarrow> int" where
  "digit_val c = of_char c - 48"

definition digits_val :: "string \<Rightarrow> int" where
  "digits_val s = foldl (\<lambda>a c. 10 * a + digit_val c) 0 s"

lemma less_10: "k < (10::nat) \<longleftrightarrow> k \<in> {0, 1, 2, 3, 4, 5, 6, 7, 8, 9}"
  by auto

lemma digit_in: "digit n \<in> set ''0123456789''"
  unfolding digit_def by (rule nth_mem) simp

lemma digit_val_digit: "digit_val (digit n) = int (n mod 10)"
proof -
  have "n mod 10 < 10" by simp
  then have "n mod 10 \<in> {0, 1, 2, 3, 4, 5, 6, 7, 8, 9}" unfolding less_10 .
  then show ?thesis unfolding digit_def digit_val_def by (elim insertE emptyE) simp_all
qed

lemma digits_val_snoc [simp]: "digits_val (s @ [c]) = 10 * digits_val s + digit_val c"
  by (simp add: digits_val_def)

lemma digits_val_utoa [simp]: "digits_val (utoa n) = int n"
proof (induction n rule: less_induct)
  case (less n)
  show ?case
  proof (cases "n < 10")
    case True
    then show ?thesis by (simp add: digits_val_def digit_val_digit)
  next
    case False
    then have "digits_val (utoa (n div 10)) = int (n div 10)" by (intro less) simp
    with False show ?thesis by (simp add: utoa_large digit_val_digit) presburger
  qed
qed

lemma set_utoa: "set (utoa n) \<subseteq> set ''0123456789''"
proof (induction n rule: less_induct)
  case (less n)
  show ?case
  proof (cases "n < 10")
    case True
    then show ?thesis using digit_in [of n] by simp
  next
    case False
    then have "set (utoa (n div 10)) \<subseteq> set ''0123456789''" by (intro less) simp
    with False digit_in [of "n mod 10"] show ?thesis by (simp add: utoa_large)
  qed
qed

lemma length_utoa_le: "n < 10 ^ k \<Longrightarrow> 0 < k \<Longrightarrow> length (utoa n) \<le> k"
proof (induction k arbitrary: n)
  case (Suc k)
  show ?case
  proof (cases "n < 10")
    case False
    with Suc.prems have "0 < k" by (cases k) auto
    moreover have "n div 10 < 10 ^ k" using Suc.prems(1) by (simp add: less_mult_imp_div_less mult.commute)
    ultimately show ?thesis using Suc.IH [of "n div 10"] False by (simp add: utoa_large)
  qed simp
qed simp

lemma utoa_inj: "utoa m = utoa n \<longleftrightarrow> m = n"
  by (metis digits_val_utoa of_nat_eq_iff)

lemma hyphen_not_utoa: "CHR ''-'' \<notin> set (utoa n)"
  using set_utoa [of n] by auto

lemma Itoa_sign: "i < 0 \<Longrightarrow> \<not> j < 0 \<Longrightarrow> Itoa i \<noteq> Itoa j"
proof
  assume "i < 0" "\<not> j < 0" "Itoa i = Itoa j"
  then have "utoa (nat j) = CHR ''-'' # utoa (nat (- i))" by (simp add: Itoa_def)
  then have "CHR ''-'' \<in> set (utoa (nat j))" by (simp only: list.set_intros)
  then show False using hyphen_not_utoa by blast
qed

lemma Itoa_inj: "Itoa i = Itoa j \<longleftrightarrow> i = j"
proof (cases "i < 0 \<longleftrightarrow> j < 0")
  case True
  then show ?thesis by (auto simp: Itoa_def utoa_inj)
next
  case False
  then show ?thesis using Itoa_sign [of i j] Itoa_sign [of j i] by auto
qed

lemma set_Itoa: "set (Itoa i) \<subseteq> insert (CHR ''-'') (set ''0123456789'')"
proof (cases "i < 0")
  case True
  then have "set (Itoa i) = insert (CHR ''-'') (set (utoa (nat (- i))))" by (simp add: Itoa_def)
  then show ?thesis using set_utoa by (simp only: insert_mono)
next
  case False
  then have "set (Itoa i) = set (utoa (nat i))" by (simp add: Itoa_def)
  then show ?thesis using set_utoa by (simp only: subset_insertI2)
qed

text \<open>For evaluation the digits are computed on integers.\<close>

function itoa_pos :: "int \<Rightarrow> string" where
  "itoa_pos i = (if i < 10 then [''0123456789'' ! nat i] else itoa_pos (i div 10) @ [''0123456789'' ! nat (i mod 10)])"
  by pat_completeness auto
termination by (relation "measure nat") auto

declare itoa_pos.simps [simp del]

lemma itoa_pos_utoa: "itoa_pos (int n) = utoa n"
proof (induction n rule: less_induct)
  case (less n)
  show ?case
  proof (cases "n < 10")
    case True
    then show ?thesis by (simp add: itoa_pos.simps [of "int n"] digit_def)
  next
    case False
    then have "itoa_pos (int (n div 10)) = utoa (n div 10)" by (intro less) simp
    moreover have "nat (int n mod 10) = n mod 10" by (simp add: nat_mod_distrib)
    ultimately show ?thesis using False
      by (simp add: itoa_pos.simps [of "int n"] utoa_large digit_def zdiv_int)
  qed
qed

lemma Itoa_code [code]: "Itoa i = (if i < 0 then CHR ''-'' # itoa_pos (- i) else itoa_pos i)"
  using itoa_pos_utoa [of "nat i"] itoa_pos_utoa [of "nat (- i)"] by (cases "i < 0") (simp_all add: Itoa_def)

end
