(* ===== verification/Sha256.thy ===== *)
theory Sha256
  imports Prelude
begin

text \<open>
  \<^verbatim>\<open>crypto/sha256.Sum256\<close> and \<^verbatim>\<open>encoding/hex.EncodeToString\<close>, the standard-library
  functions behind \<^verbatim>\<open>Hash\<close>, after FIPS 180-4: padding to 64-byte blocks, the message schedule
  and the compression function over 32-bit words.  The lemmas the components use are that a digest has 32
  bytes and that its hexadecimal form has 64 lowercase hexadecimal digits.
\<close>

unbundle bit_operations_syntax

type_synonym w32 = "32 word"

section \<open>FIPS 180-4\<close>

text \<open>The constants are the first 32 bits of the fractional parts of the cube roots of the first 64 primes,
  and of the square roots of the first eight: integer roots of the primes scaled by a power of two, cut to
  a word.\<close>

definition sha_primes :: "int list" where
  "sha_primes = filter (\<lambda>n. list_all (\<lambda>d. n mod d \<noteq> 0) [2..n - 1]) [2..311]"

fun root_search :: "nat \<Rightarrow> int \<Rightarrow> nat \<Rightarrow> int \<Rightarrow> int" where
  "root_search k n 0 acc = acc"
| "root_search k n (Suc b) acc =
     (let x = acc + 2 ^ b in root_search k n b (if x ^ k \<le> n then x else acc))"

definition sha_k :: "w32 list" where
  "sha_k = map (\<lambda>p. of_int (root_search 3 (p * 2 ^ 96) 35 0)) sha_primes"

definition sha_h0 :: "w32 list" where
  "sha_h0 = map (\<lambda>p. of_int (root_search 2 (p * 2 ^ 64) 35 0)) (take 8 sha_primes)"

definition rotr :: "nat \<Rightarrow> w32 \<Rightarrow> w32" where
  "rotr n x = drop_bit n x OR push_bit (32 - n) x"

definition small_sigma0 :: "w32 \<Rightarrow> w32" where
  "small_sigma0 x = rotr 7 x XOR rotr 18 x XOR drop_bit 3 x"

definition small_sigma1 :: "w32 \<Rightarrow> w32" where
  "small_sigma1 x = rotr 17 x XOR rotr 19 x XOR drop_bit 10 x"

definition big_sigma0 :: "w32 \<Rightarrow> w32" where
  "big_sigma0 x = rotr 2 x XOR rotr 13 x XOR rotr 22 x"

definition big_sigma1 :: "w32 \<Rightarrow> w32" where
  "big_sigma1 x = rotr 6 x XOR rotr 11 x XOR rotr 25 x"

definition sha_ch :: "w32 \<Rightarrow> w32 \<Rightarrow> w32 \<Rightarrow> w32" where
  "sha_ch x y z = (x AND y) XOR (NOT x AND z)"

definition sha_maj :: "w32 \<Rightarrow> w32 \<Rightarrow> w32 \<Rightarrow> w32" where
  "sha_maj x y z = (x AND y) XOR (x AND z) XOR (y AND z)"

text \<open>The last four words of a block's schedule, from the newest, are at 0, 1, 6, 14 and 15 of the
  reversed list.\<close>

fun sha_extend :: "nat \<Rightarrow> w32 list \<Rightarrow> w32 list" where
  "sha_extend 0 ws = ws"
| "sha_extend (Suc n) ws =
     sha_extend n ((small_sigma1 (ws ! 1) + ws ! 6 + small_sigma0 (ws ! 14) + ws ! 15) # ws)"

definition sha_schedule :: "w32 list \<Rightarrow> w32 list" where
  "sha_schedule block = rev (sha_extend 48 (rev block))"

type_synonym sha_state = "w32 \<times> w32 \<times> w32 \<times> w32 \<times> w32 \<times> w32 \<times> w32 \<times> w32"

fun sha_round :: "sha_state \<Rightarrow> w32 \<times> w32 \<Rightarrow> sha_state" where
  "sha_round (a, b, c, d, e, f, g, h) (k, w) =
     (let t1 = h + big_sigma1 e + sha_ch e f g + k + w;
          t2 = big_sigma0 a + sha_maj a b c
      in (t1 + t2, a, b, c, d + t1, e, f, g))"

fun sha_add :: "sha_state \<Rightarrow> sha_state \<Rightarrow> sha_state" where
  "sha_add (a, b, c, d, e, f, g, h) (a', b', c', d', e', f', g', h') =
     (a + a', b + b', c + c', d + d', e + e', f + f', g + g', h + h')"

definition sha_compress :: "sha_state \<Rightarrow> w32 list \<Rightarrow> sha_state" where
  "sha_compress s block = sha_add (foldl sha_round s (zip sha_k (sha_schedule block))) s"

definition sha_init :: sha_state where
  "sha_init = (sha_h0 ! 0, sha_h0 ! 1, sha_h0 ! 2, sha_h0 ! 3,
     sha_h0 ! 4, sha_h0 ! 5, sha_h0 ! 6, sha_h0 ! 7)"

definition be_bytes :: "nat \<Rightarrow> int \<Rightarrow> int list" where
  "be_bytes k n = rev (map (\<lambda>i. (n div 256 ^ i) mod 256) [0..<k])"

definition sha_pad :: "int list \<Rightarrow> int list" where
  "sha_pad m = m @ 0x80 # replicate ((119 - length m mod 64) mod 64) 0 @ be_bytes 8 (8 * int (length m))"

fun be_words :: "int list \<Rightarrow> w32 list" where
  "be_words (a # b # c # d # xs) =
     of_int (((a * 256 + b) * 256 + c) * 256 + d) # be_words xs"
| "be_words _ = []"

fun sha_blocks :: "nat \<Rightarrow> sha_state \<Rightarrow> w32 list \<Rightarrow> sha_state" where
  "sha_blocks 0 s ws = s"
| "sha_blocks (Suc n) s ws = sha_blocks n (sha_compress s (take 16 ws)) (drop 16 ws)"

fun sha_words :: "sha_state \<Rightarrow> w32 list" where
  "sha_words (a, b, c, d, e, f, g, h) = [a, b, c, d, e, f, g, h]"

definition Sum256 :: "string \<Rightarrow> int list" where
  "Sum256 s =
     (let p = be_words (sha_pad (map of_char s))
      in concat (map (\<lambda>w. be_bytes 4 (uint w)) (sha_words (sha_blocks (length p div 16) sha_init p))))"

section \<open>Hexadecimal\<close>

definition hexdigit :: "int \<Rightarrow> char" where
  "hexdigit n = ''0123456789abcdef'' ! nat (n mod 16)"

definition EncodeToString :: "int list \<Rightarrow> string" where
  "EncodeToString bs = concat (map (\<lambda>b. [hexdigit (b div 16), hexdigit (b mod 16)]) bs)"

lemma length_be_bytes [simp]: "length (be_bytes k n) = k"
  by (simp add: be_bytes_def)

lemma length_Sum256: "length (Sum256 s) = 32"
proof -
  have *: "length (concat (map (\<lambda>w. be_bytes 4 (uint w)) (sha_words t))) = 32" for t
    by (cases t rule: sha_words.cases) simp
  show ?thesis unfolding Sum256_def Let_def by (rule *)
qed

lemma length_EncodeToString [simp]: "length (EncodeToString bs) = 2 * length bs"
  by (induction bs) (auto simp: EncodeToString_def)

lemma hexdigit_in: "hexdigit n \<in> set ''0123456789abcdef''"
  unfolding hexdigit_def by (rule nth_mem) (simp add: nat_less_iff)

lemma set_EncodeToString: "set (EncodeToString bs) \<subseteq> set ''0123456789abcdef''"
  using hexdigit_in by (auto simp: EncodeToString_def)

end
