(* ===== verification/Utf8.thy ===== *)
theory Utf8
  imports Prelude
begin

text \<open>
  The parts of Go's \<^verbatim>\<open>unicode/utf8\<close>, \<^verbatim>\<open>unicode\<close> and \<^verbatim>\<open>strings\<close> that look at a string as runes:
  decoding from the front and from the back, validity, white space, \<^verbatim>\<open>TrimSpace\<close>, \<^verbatim>\<open>Fields\<close> and
  \<^verbatim>\<open>ToLower\<close>.  Decoding follows the accept ranges of \<^verbatim>\<open>utf8.DecodeRuneInString\<close>, so overlong
  forms, surrogates and values above U+10FFFF are errors of width one.  The lower-case
  mapping of the runes above ASCII is Unicode table data and is an argument, \<open>ulower\<close>, of the
  functions that use it.  The lemmas show that an ASCII byte always stands alone, so that
  decoding, and with it \<^verbatim>\<open>ToLower\<close>, commutes with cutting a string at one.
\<close>

abbreviation byte :: "char \<Rightarrow> int" where "byte c \<equiv> of_char c"

definition RuneError :: int where "RuneError = 0xFFFD"

definition cont :: "int \<Rightarrow> int \<Rightarrow> char \<Rightarrow> bool" where
  "cont lo hi c \<longleftrightarrow> lo \<le> byte c \<and> byte c \<le> hi"

section \<open>Decoding and encoding\<close>

definition DecodeRune :: "string \<Rightarrow> int \<times> nat" where
  "DecodeRune s = (case s of
     [] \<Rightarrow> (RuneError, 0)
   | c0 # s1 \<Rightarrow> (let b0 = byte c0 in
       if b0 < 0x80 then (b0, 1)
       else if 0xC2 \<le> b0 \<and> b0 \<le> 0xDF then
         (case s1 of
            c1 # _ \<Rightarrow> if cont 0x80 0xBF c1 then (b0 mod 32 * 64 + byte c1 mod 64, 2) else (RuneError, 1)
          | [] \<Rightarrow> (RuneError, 1))
       else if 0xE0 \<le> b0 \<and> b0 \<le> 0xEF then
         (case s1 of
            c1 # c2 # _ \<Rightarrow>
              if cont (if b0 = 0xE0 then 0xA0 else 0x80) (if b0 = 0xED then 0x9F else 0xBF) c1
                 \<and> cont 0x80 0xBF c2
              then ((b0 mod 16 * 64 + byte c1 mod 64) * 64 + byte c2 mod 64, 3)
              else (RuneError, 1)
          | _ \<Rightarrow> (RuneError, 1))
       else if 0xF0 \<le> b0 \<and> b0 \<le> 0xF4 then
         (case s1 of
            c1 # c2 # c3 # _ \<Rightarrow>
              if cont (if b0 = 0xF0 then 0x90 else 0x80) (if b0 = 0xF4 then 0x8F else 0xBF) c1
                 \<and> cont 0x80 0xBF c2 \<and> cont 0x80 0xBF c3
              then (((b0 mod 8 * 64 + byte c1 mod 64) * 64 + byte c2 mod 64) * 64 + byte c3 mod 64, 4)
              else (RuneError, 1)
          | _ \<Rightarrow> (RuneError, 1))
       else (RuneError, 1)))"

definition width :: "string \<Rightarrow> nat" where
  "width s = snd (DecodeRune s)"

lemma width_pos: "s \<noteq> [] \<Longrightarrow> 0 < width s"
  by (auto simp: width_def DecodeRune_def Let_def split: list.splits)

lemma width_le: "width s \<le> length s"
  by (auto simp: width_def DecodeRune_def Let_def split: list.splits)

text \<open>A string as its runes, each with the bytes it was decoded from.\<close>

function runes :: "string \<Rightarrow> (int \<times> string) list" where
  "runes s = (if s = [] then []
     else (fst (DecodeRune s), take (width s) s) # runes (drop (width s) s))"
  by pat_completeness auto
termination
proof (relation "measure length")
  fix s :: string
  assume "s \<noteq> []"
  then have "0 < width s" and "0 < length s" by (auto simp: width_pos)
  then have "length s - width s < length s" by linarith
  then show "(drop (width s) s, s) \<in> measure length" by simp
qed simp

declare runes.simps [simp del]

definition ValidString :: "string \<Rightarrow> bool" where
  "ValidString s \<longleftrightarrow> list_all (\<lambda>(r, b). \<not> (r = RuneError \<and> length b = 1)) (runes s)"

definition EncodeRune :: "int \<Rightarrow> string" where
  "EncodeRune r0 =
     (let r = (if r0 < 0 \<or> 0x10FFFF < r0 \<or> 0xD800 \<le> r0 \<and> r0 \<le> 0xDFFF then RuneError else r0)
      in map char_of
        (if r < 0x80 then [r]
         else if r < 0x800 then [0xC0 + r div 64, 0x80 + r mod 64]
         else if r < 0x10000 then [0xE0 + r div 4096, 0x80 + r div 64 mod 64, 0x80 + r mod 64]
         else [0xF0 + r div 262144, 0x80 + r div 4096 mod 64, 0x80 + r div 64 mod 64, 0x80 + r mod 64]))"

text \<open>\<^verbatim>\<open>utf8.DecodeLastRuneInString\<close>: back to the last byte that can start a rune, at most four
  bytes from the end, and forward again.\<close>

definition RuneStart :: "char \<Rightarrow> bool" where
  "RuneStart c \<longleftrightarrow> \<not> (0x80 \<le> byte c \<and> byte c \<le> 0xBF)"

definition last_start :: "string \<Rightarrow> nat" where
  "last_start s =
     (let n = length s; lim = n - 4
      in case List.find (\<lambda>i. RuneStart (s ! i)) (rev [lim..<n - 1]) of
           Some i \<Rightarrow> i | None \<Rightarrow> lim - 1)"

definition DecodeLastRune :: "string \<Rightarrow> int \<times> nat" where
  "DecodeLastRune s =
     (if s = [] then (RuneError, 0)
      else if byte (last s) < 0x80 then (byte (last s), 1)
      else let start = last_start s; (r, n) = DecodeRune (drop start s)
           in if start + n \<noteq> length s then (RuneError, 1) else (r, n))"

lemma DecodeLastRune_le: "snd (DecodeLastRune s) \<le> length s"
  by (auto simp: DecodeLastRune_def Let_def Suc_le_eq split: prod.splits if_splits)

lemma find_mem: "List.find P xs = Some x \<Longrightarrow> x \<in> set xs"
  by (auto simp: find_Some_iff)

lemma last_start_less: "s \<noteq> [] \<Longrightarrow> last_start s < length s"
proof (cases "List.find (\<lambda>i. RuneStart (s ! i)) (rev [length s - 4..<length s - 1])")
  case None
  assume "s \<noteq> []"
  then have "0 < length s" by simp
  then have "length s - 4 - 1 < length s" by linarith
  with None show ?thesis by (simp add: last_start_def Let_def)
next
  case (Some i)
  then have "i < length s" by (auto dest!: find_mem)
  with Some show ?thesis by (simp add: last_start_def Let_def)
qed

lemma DecodeLastRune_pos: "s \<noteq> [] \<Longrightarrow> 0 < snd (DecodeLastRune s)"
  using width_pos [of "drop (last_start s) s"] last_start_less [of s]
  by (auto simp: DecodeLastRune_def Let_def width_def split: prod.splits if_splits)

section \<open>White space\<close>

definition IsSpace :: "int \<Rightarrow> bool" where
  "IsSpace r \<longleftrightarrow> r \<in> {0x09, 0x0A, 0x0B, 0x0C, 0x0D, 0x20, 0x85, 0xA0, 0x1680, 0x2028, 0x2029, 0x202F, 0x205F, 0x3000}
     \<or> 0x2000 \<le> r \<and> r \<le> 0x200A"

definition TrimLeftSpace :: "string \<Rightarrow> string" where
  "TrimLeftSpace s = concat (map snd (dropWhile (IsSpace \<circ> fst) (runes s)))"

function TrimRightSpace :: "string \<Rightarrow> string" where
  "TrimRightSpace s =
     (if s \<noteq> [] \<and> IsSpace (fst (DecodeLastRune s))
      then TrimRightSpace (take (length s - snd (DecodeLastRune s)) s) else s)"
  by pat_completeness auto
termination
proof (relation "measure length")
  fix s :: string
  assume "s \<noteq> [] \<and> IsSpace (fst (DecodeLastRune s))"
  then have "0 < snd (DecodeLastRune s)" and "0 < length s" by (auto simp: DecodeLastRune_pos)
  then have "length s - snd (DecodeLastRune s) < length s" by linarith
  then show "(take (length s - snd (DecodeLastRune s)) s, s) \<in> measure length" by simp
qed simp

declare TrimRightSpace.simps [simp del]

definition TrimSpace :: "string \<Rightarrow> string" where
  "TrimSpace s = TrimRightSpace (TrimLeftSpace s)"

text \<open>\<^verbatim>\<open>strings.Fields\<close>: the maximal runs of runes that are not white space.\<close>

fun fields_runes :: "(int \<times> string) list \<Rightarrow> string \<Rightarrow> string list" where
  "fields_runes [] w = (if w = [] then [] else [w])"
| "fields_runes ((r, b) # rs) w =
     (if IsSpace r then (if w = [] then fields_runes rs [] else w # fields_runes rs [])
      else fields_runes rs (w @ b))"

definition Fields :: "string \<Rightarrow> string list" where
  "Fields s = fields_runes (runes s) []"

section \<open>Lower case\<close>

definition lower_rune :: "(int \<Rightarrow> int) \<Rightarrow> int \<Rightarrow> int" where
  "lower_rune ulower r =
     (if r < 0x80 then (if 0x41 \<le> r \<and> r \<le> 0x5A then r + 32 else r) else ulower r)"

definition ToLower :: "(int \<Rightarrow> int) \<Rightarrow> string \<Rightarrow> string" where
  "ToLower ulower s = concat (map (\<lambda>(r, b). EncodeRune (lower_rune ulower r)) (runes s))"

section \<open>An ASCII byte stands alone\<close>

lemma runes_Nil [simp]: "runes [] = []"
  by (simp add: runes.simps)

lemma runes_step: "s \<noteq> [] \<Longrightarrow> runes s = (fst (DecodeRune s), take (width s) s) # runes (drop (width s) s)"
  by (simp add: runes.simps)

lemma DecodeRune_ascii: "byte c < 0x80 \<Longrightarrow> DecodeRune (c # s) = (byte c, 1)"
  by (simp add: DecodeRune_def Let_def)

lemma runes_ascii: "byte c < 0x80 \<Longrightarrow> runes (c # s) = (byte c, [c]) # runes s"
  by (simp add: runes_step width_def DecodeRune_ascii)

lemma concat_runes: "concat (map snd (runes s)) = s"
proof (induction s rule: runes.induct)
  case (1 s)
  then show ?case
    by (cases "s = []") (simp_all add: runes_step)
qed

lemma cont_ascii: "byte c < 0x80 \<Longrightarrow> 0x80 \<le> lo \<Longrightarrow> \<not> cont lo hi c"
  by (simp add: cont_def)

lemma DecodeRune_cut:
  assumes "byte c < 0x80" and "a \<noteq> []"
  shows "DecodeRune (a @ c # b) = DecodeRune a"
proof -
  have n: "\<not> cont lo hi c" if "0x80 \<le> lo" for lo hi
    using assms(1) that by (rule cont_ascii)
  from assms(2) consider x where "a = [x]" | x y where "a = [x, y]" | x y z where "a = [x, y, z]"
    | x y z w t where "a = x # y # z # w # t"
    by (metis list.exhaust)
  then show ?thesis
  proof cases
    case 1
    then show ?thesis by (cases b; cases "tl b") (auto simp: DecodeRune_def Let_def n)
  next
    case 2
    then show ?thesis by (cases b) (auto simp: DecodeRune_def Let_def n)
  next
    case 3
    then show ?thesis by (auto simp: DecodeRune_def Let_def n)
  next
    case 4
    then show ?thesis by (simp add: DecodeRune_def Let_def)
  qed
qed

lemma runes_cut:
  assumes "byte c < 0x80"
  shows "runes (a @ c # b) = runes a @ (byte c, [c]) # runes b"
proof (induction a rule: runes.induct)
  case (1 a)
  show ?case
  proof (cases "a = []")
    case True
    with assms show ?thesis by (simp add: runes_ascii)
  next
    case False
    with assms have w: "DecodeRune (a @ c # b) = DecodeRune a" "width (a @ c # b) = width a"
      by (simp_all add: DecodeRune_cut width_def)
    from 1 [OF False] False show ?thesis
      by (simp add: runes_step [of "a @ c # b"] runes_step [of a] w width_le)
  qed
qed

lemma ToLower_Nil [simp]: "ToLower u [] = []"
  by (simp add: ToLower_def)

lemma ToLower_cut:
  "byte c < 0x80 \<Longrightarrow> ToLower u (a @ c # b) = ToLower u a @ EncodeRune (lower_rune u (byte c)) @ ToLower u b"
  by (simp add: ToLower_def runes_cut)

lemma ToLower_LF: "ToLower u (a @ LF # b) = ToLower u a @ LF # ToLower u b"
proof -
  have "EncodeRune (lower_rune u (byte LF)) = [LF]"
    by (simp add: EncodeRune_def lower_rune_def char_of_def)
  then show ?thesis by (simp add: ToLower_cut)
qed

text \<open>A rune other than the line feed is not decoded from bytes that hold one.\<close>

lemma DecodeRune_no_LF:
  assumes "s \<noteq> []" and "fst (DecodeRune s) \<noteq> 10"
  shows "LF \<notin> set (take (width s) s)"
proof
  assume "LF \<in> set (take (width s) s)"
  then obtain a b where ab: "take (width s) s = a @ LF # b" by (auto simp: in_set_conv_decomp)
  then have s: "s = a @ LF # b @ drop (width s) s" by (metis append.assoc append_Cons append_take_drop_id)
  show False
  proof (cases "a = []")
    case True
    define d where "d = b @ drop (width s) s"
    from True s have "s = LF # d" by (simp add: d_def)
    then have "DecodeRune s = (10, 1)" using DecodeRune_ascii [of LF d] by simp
    with assms(2) show False by simp
  next
    case False
    define d where "d = b @ drop (width s) s"
    from s have "s = a @ LF # d" by (simp add: d_def)
    then have "DecodeRune s = DecodeRune a" using DecodeRune_cut [OF _ False, of LF d] by simp
    then have "width s = width a" by (simp add: width_def)
    with width_le [of a] have "length (take (width s) s) \<le> length a" by simp
    with ab show False by simp
  qed
qed

lemma runes_no_LF: "(r, b) \<in> set (runes s) \<Longrightarrow> r \<noteq> 10 \<Longrightarrow> LF \<notin> set b"
proof (induction s rule: runes.induct)
  case (1 s)
  show ?case
  proof (cases "s = []")
    case False
    with 1 show ?thesis by (auto simp: runes_step DecodeRune_no_LF)
  qed (use 1 in simp)
qed

lemma fields_runes_no_LF:
  "(\<And>r b. (r, b) \<in> set rs \<Longrightarrow> r \<noteq> 10 \<Longrightarrow> LF \<notin> set b) \<Longrightarrow> LF \<notin> set w \<Longrightarrow>
     f \<in> set (fields_runes rs w) \<Longrightarrow> LF \<notin> set f"
proof (induction rs w rule: fields_runes.induct)
  case (2 r b rs w)
  have sp: "IsSpace 10" by (simp add: IsSpace_def)
  show ?case
  proof (cases "IsSpace r")
    case True
    with 2 show ?thesis by (auto split: if_splits)
  next
    case False
    with sp have "r \<noteq> 10" by auto
    with "2.prems"(1,2) have "LF \<notin> set (w @ b)" by auto
    with "2.IH"(3) [OF False] "2.prems" False show ?thesis by auto
  qed
qed (auto split: if_splits)

lemma Fields_no_LF: "w \<in> set (Fields s) \<Longrightarrow> LF \<notin> set w"
  unfolding Fields_def using fields_runes_no_LF [of "runes s" "[]" w] runes_no_LF by auto

lemma Fields_not_Nil: "w \<in> set (Fields s) \<Longrightarrow> w \<noteq> []"
proof -
  have "w \<in> set (fields_runes rs v) \<Longrightarrow> (\<forall>(r, b) \<in> set rs. b \<noteq> []) \<Longrightarrow> w \<noteq> []" for rs v
    by (induction rs v rule: fields_runes.induct) (auto split: if_splits)
  moreover have "\<forall>(r, b) \<in> set (runes t). b \<noteq> []" for t
  proof (induction t rule: runes.induct)
    case (1 t)
    then show ?case by (cases "t = []") (auto simp: runes_step dest: width_pos)
  qed
  ultimately show "w \<in> set (Fields s) \<Longrightarrow> w \<noteq> []" unfolding Fields_def by blast
qed

end
