(* ===== verification/Memory.thy ===== *)
theory Memory
  imports Prelude Sha256 Utf8
begin

text \<open>
  The data model of \<^verbatim>\<open>memory.go\<close>: entries, journal records, put options, the errors a store
  returns, content and metadata hashes, the grammar of names and the checks every store runs
  before it writes.  A Go \<^verbatim>\<open>error\<close> result is an \<^typ>\<open>'a option\<close> with \<^const>\<open>None\<close> for nil.
  The iteration order of a Go map is unspecified; the model iterates in the order of the
  association list, and \<open>CheckEntry_None\<close> shows that what is accepted does not depend on it.
\<close>

section \<open>Entries, changes and options\<close>

record Entry =
  eScope :: scope
  eName :: string
  eContent :: string
  eMeta :: "gomap option"
  eHash :: string
  eMetaHash :: string
  eUpdated :: time
  eDeleted :: bool

definition MetaDescription :: string where "MetaDescription = ''description''"

definition Description :: "Entry \<Rightarrow> string" where
  "Description e = (case mlookup (eMeta e) MetaDescription of None \<Rightarrow> [] | Some v \<Rightarrow> v)"

definition Size :: "Entry \<Rightarrow> nat" where
  "Size e = length (eContent e)"

record Change =
  cSeq :: uint64
  cEntry :: Entry
  cPrev :: string
  cReplaced :: string
  cSession :: string
  cSource :: string
  cAt :: time

definition SourceReconciled :: string where "SourceReconciled = ''reconciled''"

definition DefaultMaxEntryBytes :: int where "DefaultMaxEntryBytes = 4096"

record PutOptions =
  pIfHash :: string
  pConditional :: bool
  pBase :: string
  pHasBase :: bool
  pIfMetaHash :: string
  pMetaConditional :: bool

type_synonym PutOption = "PutOptions \<Rightarrow> PutOptions"

definition IfHash :: "string \<Rightarrow> PutOption" where
  "IfHash h = (\<lambda>po. po\<lparr>pIfHash := h, pConditional := True\<rparr>)"

definition BasedOn :: "string \<Rightarrow> PutOption" where
  "BasedOn h = (\<lambda>po. po\<lparr>pBase := h, pHasBase := True\<rparr>)"

definition IfMetaHash :: "string \<Rightarrow> PutOption" where
  "IfMetaHash h = (\<lambda>po. po\<lparr>pIfMetaHash := h, pMetaConditional := True\<rparr>)"

definition zeroPutOptions :: PutOptions where
  "zeroPutOptions = \<lparr>pIfHash = [], pConditional = False, pBase = [], pHasBase = False,
     pIfMetaHash = [], pMetaConditional = False\<rparr>"

definition ResolvePutOptions :: "PutOption list \<Rightarrow> PutOptions" where
  "ResolvePutOptions opts = foldl (\<lambda>po opt. opt po) zeroPutOptions opts"

section \<open>Errors\<close>

record SizeError =
  sScope :: scope
  sName :: string
  sSize :: int
  sLimit :: int
  sStored :: int

record ConflictError =
  kScope :: scope
  kName :: string
  kWant :: string
  kHave :: string
  kMeta :: bool

text \<open>A scope or a name that is not kebab-case is refused with one of two texts: \<open>BadScope\<close> and \<open>BadName\<close> stand for the long one of \<^verbatim>\<open>CheckScope\<close>,
  \<^verbatim>\<open>CheckRef\<close> and \<^verbatim>\<open>CheckEntry\<close>, which says what kebab-case is and names the length bound, \<open>ScopeNotKebab\<close> and \<open>NameNotKebab\<close> for the short one that
  the SQLite store, the file store and the renderer write themselves.\<close>

datatype invalid =
    BadScope scope
  | BadName string
  | ScopeNotKebab scope
  | NameNotKebab string
  | NoContent scope string
  | ContentNotUTF8 scope string
  | BadMetaKey scope string string
  | ReservedMetaKey scope string string
  | MetaSpansLines scope string string
  | MetaOuterSpace scope string string
  | MetaNotUTF8 scope string string
  | MetaTooLarge scope string nat
  | ScopeTwice scope
  | BadSearchKey string

datatype budget =
    BoundUnderOne int
  | CapUnderZero scope int
  | FixedOverBound nat int int

text \<open>The sentinel errors of the package, each with the detail it is wrapped with, and the errors
  that are text alone.\<close>

datatype error =
    ErrNotFound scope string
  | ErrInvalid invalid
  | ErrTooLarge SizeError
  | ErrConflict ConflictError
  | ErrUnsupported string
  | ErrBudget budget
  | ErrManifestBase string
  | ErrBlockDropped
  | ErrText string

definition orNone :: "string \<Rightarrow> string" where
  "orNone h = (if h = [] then ''none'' else h)"

definition SizeError_Error :: "SizeError \<Rightarrow> string" where
  "SizeError_Error e =
     (let msg = ''agentmemory: entry '' @ sScope e @ ''/'' @ sName e @ '' is '' @ Itoa (sSize e)
            @ '' bytes, over the '' @ Itoa (sLimit e) @ '' byte limit'';
          msg = (if sStored e \<ge> 0 then msg @ ''; it holds '' @ Itoa (sStored e) @ '' bytes now'' else msg)
      in msg @ ''; split it or trim it'')"

definition ConflictError_Error :: "ConflictError \<Rightarrow> string" where
  "ConflictError_Error e =
     (let pre = ''agentmemory: entry '' @ kScope e @ ''/'' @ kName e
      in if kMeta e then pre @ '' metadata has hash '' @ orNone (kHave e) @ '', not '' @ orNone (kWant e) @ ''; read it again''
         else if kWant e = [] then pre @ '' already exists with hash '' @ kHave e
         else if kHave e = [] then pre @ '' no longer exists; expected hash '' @ kWant e
         else pre @ '' has hash '' @ kHave e @ '', not '' @ kWant e @ ''; read it again'')"

section \<open>Hashes\<close>

definition Hash :: "string \<Rightarrow> string" where
  "Hash content = ''sha256:'' @ EncodeToString (Sum256 content)"

definition metaText :: "gomap \<Rightarrow> string" where
  "metaText m =
     concat (map (\<lambda>k. k @ CHR ''='' # (case map_of m k of None \<Rightarrow> [] | Some v \<Rightarrow> v) @ [LF])
       (sort (map fst m)))"

definition MetaHash :: "gomap option \<Rightarrow> string" where
  "MetaHash meta = (if mlen meta = 0 then [] else Hash (metaText (mitems meta)))"

section \<open>Preconditions of a put\<close>

definition BaseFor :: "PutOptions \<Rightarrow> Entry option \<Rightarrow> string" where
  "BaseFor po stored =
     (if pConditional po then pIfHash po
      else if pHasBase po then pBase po
      else case stored of Some e \<Rightarrow> eHash e | None \<Rightarrow> [])"

definition Check :: "PutOptions \<Rightarrow> scope \<Rightarrow> string \<Rightarrow> Entry option \<Rightarrow> error option" where
  "Check po scope name stored =
     (let have = (case stored of None \<Rightarrow> [] | Some e \<Rightarrow> eHash e);
          mhave = (case stored of None \<Rightarrow> [] | Some e \<Rightarrow> MetaHash (eMeta e))
      in if pConditional po \<and> have \<noteq> pIfHash po
         then Some (ErrConflict \<lparr>kScope = scope, kName = name, kWant = pIfHash po, kHave = have, kMeta = False\<rparr>)
         else if pMetaConditional po \<and> mhave \<noteq> pIfMetaHash po
         then Some (ErrConflict \<lparr>kScope = scope, kName = name, kWant = pIfMetaHash po, kHave = mhave, kMeta = True\<rparr>)
         else None)"

section \<open>Names and entries\<close>

definition MaxNameBytes :: nat where "MaxNameBytes = 64"
definition MaxMetaBytes :: nat where "MaxMetaBytes = 1024"

definition name_char :: "char \<Rightarrow> bool" where
  "name_char c \<longleftrightarrow> c \<ge> CHR ''a'' \<and> c \<le> CHR ''z'' \<or> c \<ge> CHR ''0'' \<and> c \<le> CHR ''9''"

fun valid_name_loop :: "char \<Rightarrow> string \<Rightarrow> bool" where
  "valid_name_loop prev [] = (prev \<noteq> CHR ''-'')"
| "valid_name_loop prev (c # s) =
     (if name_char c then valid_name_loop c s
      else if c = CHR ''-'' \<and> prev \<noteq> CHR ''-'' then valid_name_loop c s
      else False)"

definition ValidName :: "string \<Rightarrow> bool" where
  "ValidName s \<longleftrightarrow> (if s = [] \<or> length s > MaxNameBytes then False else valid_name_loop (CHR ''-'') s)"

definition ValidScope :: "scope \<Rightarrow> bool" where
  "ValidScope s \<longleftrightarrow> ValidName s"

definition CheckScope :: "scope \<Rightarrow> error option" where
  "CheckScope scope = (if \<not> ValidScope scope then Some (ErrInvalid (BadScope scope)) else None)"

definition CheckRef :: "scope \<Rightarrow> string \<Rightarrow> error option" where
  "CheckRef scope name =
     (case CheckScope scope of
        Some err \<Rightarrow> Some err
      | None \<Rightarrow> if \<not> ValidName name then Some (ErrInvalid (BadName name)) else None)"

definition reservedMetaKeys :: "string list" where
  "reservedMetaKeys = [''name'', ''updated'']"

fun check_meta :: "scope \<Rightarrow> string \<Rightarrow> gomap \<Rightarrow> nat \<Rightarrow> error + nat" where
  "check_meta sc n [] metaBytes = Inr metaBytes"
| "check_meta sc n ((k, v) # kvs) metaBytes =
     (if \<not> ValidName k then Inl (ErrInvalid (BadMetaKey sc n k))
      else if k \<in> set reservedMetaKeys then Inl (ErrInvalid (ReservedMetaKey sc n k))
      else if ContainsAny v [CR, LF] then Inl (ErrInvalid (MetaSpansLines sc n k))
      else if TrimSpace v \<noteq> v then Inl (ErrInvalid (MetaOuterSpace sc n k))
      else if \<not> ValidString v then Inl (ErrInvalid (MetaNotUTF8 sc n k))
      else check_meta sc n kvs (metaBytes + length k + length v))"

definition CheckEntry :: "Entry \<Rightarrow> int \<Rightarrow> Entry option \<Rightarrow> error option" where
  "CheckEntry e limit stored =
     (if \<not> ValidScope (eScope e) then Some (ErrInvalid (BadScope (eScope e)))
      else if \<not> ValidName (eName e) then Some (ErrInvalid (BadName (eName e)))
      else if eContent e = [] then Some (ErrInvalid (NoContent (eScope e) (eName e)))
      else if \<not> ValidString (eContent e) then Some (ErrInvalid (ContentNotUTF8 (eScope e) (eName e)))
      else case check_meta (eScope e) (eName e) (mitems (eMeta e)) 0 of
             Inl err \<Rightarrow> Some err
           | Inr metaBytes \<Rightarrow>
               if metaBytes > MaxMetaBytes then Some (ErrInvalid (MetaTooLarge (eScope e) (eName e) metaBytes))
               else if limit > 0 \<and> int (length (eContent e)) > limit
               then Some (ErrTooLarge \<lparr>sScope = eScope e, sName = eName e,
                      sSize = int (length (eContent e)), sLimit = limit,
                      sStored = (case stored of None \<Rightarrow> - 1 | Some se \<Rightarrow> int (Size se))\<rparr>)
               else None)"

section \<open>The session on the context\<close>

record Context =
  ctxSession :: "string option"

definition WithSession :: "Context \<Rightarrow> string \<Rightarrow> Context" where
  "WithSession ctx sid = ctx\<lparr>ctxSession := Some sid\<rparr>"

definition SessionFrom :: "'a Context_scheme \<Rightarrow> string" where
  "SessionFrom ctx = (case ctxSession ctx of None \<Rightarrow> [] | Some sid \<Rightarrow> sid)"

section \<open>Names\<close>

text \<open>The reference grammar: groups of lowercase letters and digits joined by single hyphens.\<close>

definition kebab :: "string \<Rightarrow> bool" where
  "kebab s \<longleftrightarrow> (\<exists>gs. gs \<noteq> [] \<and> (\<forall>g \<in> set gs. g \<noteq> [] \<and> (\<forall>c \<in> set g. name_char c)) \<and> s = Join gs ''-'')"

lemma not_name_char_hyphen [simp]: "\<not> name_char (CHR ''-'')"
  by code_simp

lemma valid_name_loop_group:
  "\<forall>c \<in> set g. name_char c \<Longrightarrow> valid_name_loop p (g @ s) = valid_name_loop (last (p # g)) s"
  by (induction g arbitrary: p) auto

lemma valid_name_loop_Join:
  "gs \<noteq> [] \<Longrightarrow> \<forall>g \<in> set gs. g \<noteq> [] \<and> (\<forall>c \<in> set g. name_char c) \<Longrightarrow> valid_name_loop p (Join gs ''-'')"
proof (induction gs "''-''" arbitrary: p rule: Join.induct)
  case (2 x)
  then have "last x \<noteq> CHR ''-''" using last_in_set by fastforce
  with 2 show ?case using valid_name_loop_group [of x p "[]"] by simp
next
  case (3 x y xs)
  then have "last x \<noteq> CHR ''-''" using last_in_set by fastforce
  with 3 show ?case using valid_name_loop_group [of x p] by simp
qed simp

lemma valid_name_loop_split:
  "valid_name_loop p s \<Longrightarrow> \<exists>g r. s = g @ r \<and> (\<forall>c \<in> set g. name_char c) \<and>
     (p = CHR ''-'' \<longrightarrow> g \<noteq> []) \<and>
     (r = [] \<or> (\<exists>r'. r = CHR ''-'' # r' \<and> valid_name_loop (CHR ''-'') r'))"
proof (induction s arbitrary: p)
  case Nil
  then show ?case by (intro exI [of _ "[]"]) auto
next
  case (Cons c s)
  show ?case
  proof (cases "name_char c")
    case True
    with Cons.prems have "valid_name_loop c s" by simp
    from Cons.IH [OF this] obtain g r where gr: "s = g @ r" "\<forall>c \<in> set g. name_char c"
      "r = [] \<or> (\<exists>r'. r = CHR ''-'' # r' \<and> valid_name_loop (CHR ''-'') r')" by blast
    with True show ?thesis by (intro exI [of _ "c # g"] exI [of _ r]) auto
  next
    case False
    with Cons.prems have "c = CHR ''-''" "p \<noteq> CHR ''-''" "valid_name_loop (CHR ''-'') s"
      by (auto split: if_splits)
    then show ?thesis by (intro exI [of _ "[]"] exI [of _ "c # s"]) auto
  qed
qed

lemma valid_name_loop_kebab: "valid_name_loop (CHR ''-'') s \<Longrightarrow> kebab s"
proof (induction "length s" arbitrary: s rule: less_induct)
  case less
  from valid_name_loop_split [OF less.prems] obtain g r where
    gr: "s = g @ r" "\<forall>c \<in> set g. name_char c" "g \<noteq> []"
      "r = [] \<or> (\<exists>r'. r = CHR ''-'' # r' \<and> valid_name_loop (CHR ''-'') r')" by blast
  from gr(4) show ?case
  proof
    assume "r = []"
    with gr show ?thesis unfolding kebab_def by (intro exI [of _ "[g]"]) auto
  next
    assume "\<exists>r'. r = CHR ''-'' # r' \<and> valid_name_loop (CHR ''-'') r'"
    then obtain r' where r': "r = CHR ''-'' # r'" "valid_name_loop (CHR ''-'') r'" by blast
    with gr less.hyps have "kebab r'" by simp
    then obtain gs where gs: "gs \<noteq> []" "\<forall>g \<in> set gs. g \<noteq> [] \<and> (\<forall>c \<in> set g. name_char c)" "r' = Join gs ''-''"
      unfolding kebab_def by blast
    with gr r' have "s = Join (g # gs) ''-''" by (cases gs) auto
    with gs gr show ?thesis unfolding kebab_def by (intro exI [of _ "g # gs"]) auto
  qed
qed

lemma kebab_nonempty: "kebab s \<Longrightarrow> s \<noteq> []"
  unfolding kebab_def using Join.elims by (metis append_is_Nil_conv list.set_intros(1) neq_Nil_conv)

lemma ValidName_kebab: "ValidName s \<longleftrightarrow> kebab s \<and> length s \<le> MaxNameBytes"
proof
  assume "ValidName s"
  then show "kebab s \<and> length s \<le> MaxNameBytes"
    by (auto simp: ValidName_def valid_name_loop_kebab split: if_splits)
next
  assume s: "kebab s \<and> length s \<le> MaxNameBytes"
  then have "valid_name_loop (CHR ''-'') s"
    unfolding kebab_def using valid_name_loop_Join by blast
  with s show "ValidName s" by (simp add: ValidName_def kebab_nonempty)
qed

lemma valid_name_loop_chars: "valid_name_loop p s \<Longrightarrow> c \<in> set s \<Longrightarrow> name_char c \<or> c = CHR ''-''"
  by (induction s arbitrary: p) (auto split: if_splits)

lemma ValidName_chars: "ValidName s \<Longrightarrow> c \<in> set s \<Longrightarrow> name_char c \<or> c = CHR ''-''"
  by (auto simp: ValidName_def dest: valid_name_loop_chars split: if_splits)

lemma ValidName_not_Nil [simp]: "\<not> ValidName []"
  by (simp add: ValidName_def)

lemma ValidName_excludes:
  assumes "ValidName s"
  shows "CHR ''/'' \<notin> set s" "CHR '':'' \<notin> set s" "CHR ''='' \<notin> set s" "LF \<notin> set s" "CHR '' '' \<notin> set s"
proof -
  have "\<not> name_char (CHR ''/'')" "\<not> name_char (CHR '':'')" "\<not> name_char (CHR ''='')" "\<not> name_char LF" "\<not> name_char (CHR '' '')"
    by code_simp+
  then show "CHR ''/'' \<notin> set s" "CHR '':'' \<notin> set s" "CHR ''='' \<notin> set s" "LF \<notin> set s" "CHR '' '' \<notin> set s"
    using ValidName_chars [OF assms] by fastforce+
qed

section \<open>What an entry check accepts\<close>

definition pair_ok :: "string \<Rightarrow> string \<Rightarrow> bool" where
  "pair_ok k v \<longleftrightarrow> ValidName k \<and> k \<notin> set reservedMetaKeys \<and>
     \<not> ContainsAny v [CR, LF] \<and> TrimSpace v = v \<and> ValidString v"

definition meta_ok :: "gomap \<Rightarrow> bool" where
  "meta_ok m \<longleftrightarrow> (\<forall>(k, v) \<in> set m. pair_ok k v)"

definition meta_bytes :: "gomap \<Rightarrow> nat" where
  "meta_bytes m = sum_list (map (\<lambda>(k, v). length k + length v) m)"

definition entry_ok :: "Entry \<Rightarrow> int \<Rightarrow> bool" where
  "entry_ok e limit \<longleftrightarrow> ValidName (eScope e) \<and> ValidName (eName e) \<and> eContent e \<noteq> [] \<and>
     ValidString (eContent e) \<and> meta_ok (mitems (eMeta e)) \<and> meta_bytes (mitems (eMeta e)) \<le> MaxMetaBytes \<and>
     (limit > 0 \<longrightarrow> int (Size e) \<le> limit)"

lemma check_meta_Inr:
  "check_meta sc n m k = Inr j \<longleftrightarrow> meta_ok m \<and> j = k + meta_bytes m"
proof (induction sc n m k rule: check_meta.induct)
  case (1 sc n k)
  show ?case by (auto simp: meta_ok_def meta_bytes_def)
next
  case (2 sc n k v kvs b)
  show ?case
  proof (cases "pair_ok k v")
    case True
    with 2 show ?thesis
      by (simp add: pair_ok_def meta_ok_def meta_bytes_def add.assoc)
  next
    case False
    then have "check_meta sc n ((k, v) # kvs) b \<noteq> Inr j" by (auto simp: pair_ok_def)
    moreover from False have "\<not> meta_ok ((k, v) # kvs)" by (simp add: meta_ok_def)
    ultimately show ?thesis by blast
  qed
qed

lemma check_meta_Inl: "check_meta sc n m k = Inl err \<Longrightarrow> \<not> meta_ok m"
  using check_meta_Inr [of sc n m k] by auto

lemma CheckEntry_None: "CheckEntry e limit stored = None \<longleftrightarrow> entry_ok e limit"
proof (cases "check_meta (eScope e) (eName e) (mitems (eMeta e)) 0")
  case (Inl err)
  then have "\<not> meta_ok (mitems (eMeta e))" by (rule check_meta_Inl)
  with Inl show ?thesis by (simp add: CheckEntry_def entry_ok_def)
next
  case (Inr j)
  then have "meta_ok (mitems (eMeta e))" "j = meta_bytes (mitems (eMeta e))"
    using check_meta_Inr by auto
  with Inr show ?thesis by (simp add: CheckEntry_def entry_ok_def ValidScope_def Size_def not_less)
qed

lemma meta_ok_perm: "set m = set m' \<Longrightarrow> meta_ok m = meta_ok m'"
  by (simp add: meta_ok_def)

section \<open>Hashes\<close>

lemma Hash_not_Nil [simp]: "Hash c \<noteq> []"
  by (simp add: Hash_def)

lemma Nil_not_Hash [simp]: "[] \<noteq> Hash c"
  by (simp add: Hash_def)

lemma MetaHash_None [simp]: "MetaHash None = []"
  by (simp add: MetaHash_def)

lemma MetaHash_Nil_iff: "MetaHash m = [] \<longleftrightarrow> mitems m = []"
  by (simp add: MetaHash_def)

lemma cut_unique:
  "x \<notin> set a \<Longrightarrow> x \<notin> set b \<Longrightarrow> a @ x # c = b @ x # d \<longleftrightarrow> a = b \<and> c = d"
proof (induction a arbitrary: b)
  case Nil
  then show ?case by (cases b) auto
next
  case (Cons y a)
  then show ?case by (cases b) auto
qed

lemma lines_unique:
  "concat (map (\<lambda>(k, v). k @ CHR ''='' # v @ [LF]) kvs) = concat (map (\<lambda>(k, v). k @ CHR ''='' # v @ [LF]) kvs') \<Longrightarrow>
   \<forall>(k, v) \<in> set kvs \<union> set kvs'. CHR ''='' \<notin> set k \<and> LF \<notin> set v \<Longrightarrow> kvs = kvs'"
proof (induction kvs arbitrary: kvs')
  case Nil
  then show ?case by (cases kvs') auto
next
  case (Cons kv kvs)
  obtain k v where kv: "kv = (k, v)" by (cases kv)
  from Cons.prems(1) kv obtain k' v' t where k': "kvs' = (k', v') # t"
    by (cases kvs') auto
  from Cons.prems kv k' have n: "CHR ''='' \<notin> set k" "CHR ''='' \<notin> set k'" "LF \<notin> set v" "LF \<notin> set v'" by auto
  from Cons.prems(1) kv k'
  have "k @ CHR ''='' # v @ LF # concat (map (\<lambda>(k, v). k @ CHR ''='' # v @ [LF]) kvs)
      = k' @ CHR ''='' # v' @ LF # concat (map (\<lambda>(k, v). k @ CHR ''='' # v @ [LF]) t)" by simp
  then have "k = k' \<and> v = v' \<and> concat (map (\<lambda>(k, v). k @ CHR ''='' # v @ [LF]) kvs)
      = concat (map (\<lambda>(k, v). k @ CHR ''='' # v @ [LF]) t)"
    using n by (simp add: cut_unique)
  with Cons.IH [of t] Cons.prems(2) kv k' show ?case by auto
qed

definition sorted_items :: "gomap \<Rightarrow> gomap" where
  "sorted_items m = map (\<lambda>k. (k, case map_of m k of None \<Rightarrow> [] | Some v \<Rightarrow> v)) (sort (map fst m))"

lemma metaText_sorted_items: "metaText m = concat (map (\<lambda>(k, v). k @ CHR ''='' # v @ [LF]) (sorted_items m))"
  by (simp add: metaText_def sorted_items_def comp_def)

lemma sorted_items_in: "(k, v) \<in> set (sorted_items m) \<Longrightarrow> distinct (map fst m) \<Longrightarrow> (k, v) \<in> set m"
  by (auto simp: sorted_items_def)

lemma map_of_sorted_items: "map_of (sorted_items m) = map_of m"
proof
  fix k
  have "map_of (map (\<lambda>k. (k, f k)) ks) k = (if k \<in> set ks then Some (f k) else None)" for f :: "string \<Rightarrow> string" and ks
    by (induction ks) auto
  then have "map_of (sorted_items m) k =
      (if k \<in> fst ` set m then Some (case map_of m k of None \<Rightarrow> [] | Some v \<Rightarrow> v) else None)"
    by (simp add: sorted_items_def)
  then show "map_of (sorted_items m) k = map_of m k"
    using map_of_eq_None_iff [of m k] by (cases "map_of m k") auto
qed

lemma pair_ok_chars: "pair_ok k v \<Longrightarrow> CHR ''='' \<notin> set k \<and> LF \<notin> set v"
  using ValidName_excludes(3) by (auto simp: pair_ok_def ContainsAny_def)

lemma sorted_items_chars:
  assumes "distinct (map fst m)" "meta_ok m" "(k, v) \<in> set (sorted_items m)"
  shows "CHR ''='' \<notin> set k \<and> LF \<notin> set v"
proof -
  have "(k, v) \<in> set m" using assms(3,1) by (rule sorted_items_in)
  with assms(2) have "pair_ok k v" unfolding meta_ok_def by blast
  then show ?thesis by (rule pair_ok_chars)
qed

lemma metaText_inj:
  assumes "distinct (map fst m)" "distinct (map fst m')" "meta_ok m" "meta_ok m'"
    and "metaText m = metaText m'"
  shows "map_of m = map_of m'"
proof -
  have "sorted_items m = sorted_items m'"
    by (rule lines_unique)
       (use assms in \<open>auto simp: metaText_sorted_items dest: sorted_items_chars\<close>)
  then show ?thesis by (metis map_of_sorted_items)
qed

section \<open>Properties\<close>

text \<open>\<^verbatim>\<open>ValidName\<close> accepts exactly the kebab-case names: groups of lowercase letters and digits
  joined by single hyphens, of at most 64 bytes.\<close>

theorem valid_names: "ValidName s \<longleftrightarrow> kebab s \<and> length s \<le> 64"
  by (simp add: ValidName_kebab MaxNameBytes_def)

text \<open>\<^verbatim>\<open>CheckEntry\<close> accepts an entry exactly when its scope and name are valid, its content is
  nonempty UTF-8 within the limit when there is one, every metadata pair is well formed and the
  metadata is within its bound; neither the stored entry nor the order the metadata is iterated
  in matters.\<close>

theorem check_entry_accepts:
  "CheckEntry e limit stored = None \<longleftrightarrow>
     ValidName (eScope e) \<and> ValidName (eName e) \<and> eContent e \<noteq> [] \<and> ValidString (eContent e) \<and>
     (limit > 0 \<longrightarrow> int (length (eContent e)) \<le> limit) \<and>
     (\<forall>(k, v) \<in> set (mitems (eMeta e)). pair_ok k v) \<and>
     sum_list (map (\<lambda>(k, v). length k + length v) (mitems (eMeta e))) \<le> 1024"
  by (auto simp: CheckEntry_None entry_ok_def meta_ok_def meta_bytes_def MaxMetaBytes_def Size_def)

theorem check_entry_accepts_witness:
  "CheckEntry \<lparr>eScope = ''user'', eName = ''a-1'', eContent = ''hello'', eMeta = Some [(''description'', ''d'')],
     eHash = [], eMetaHash = [], eUpdated = 0, eDeleted = False\<rparr> 5 None = None"
  unfolding check_entry_accepts by code_simp

text \<open>The text \<^verbatim>\<open>MetaHash\<close> hashes determines the metadata: two maps that pass the entry check and
  have the same text hold the same pairs, so metadata hashes differ unless SHA-256 collides.\<close>

theorem meta_text_injective:
  assumes "wf_gomap (Some m)" "wf_gomap (Some m')" "meta_ok m" "meta_ok m'" "metaText m = metaText m'"
  shows "map_of m = map_of m'"
  using assms by (intro metaText_inj) (auto simp: wf_gomap_def)

theorem meta_text_injective_witness:
  "map_of [(''a'', ''x''), (''b'', ''y'')] = map_of [(''b'', ''y''), (''a'', ''x'')]"
  by (rule meta_text_injective) (simp add: wf_gomap_def, simp add: wf_gomap_def, code_simp, code_simp, code_simp)

end
