(* ===== verification/Search.thy ===== *)
theory Search
  imports Memory
begin

text \<open>
  The reference search of \<^verbatim>\<open>search.go\<close> and \<^verbatim>\<open>Match\<close> of \<^verbatim>\<open>memory.go\<close>: the options of one search and
  their check, the filter over listed entries, the words of a query and the count of those an
  entry holds.  The Go code joins the metadata values in map order; \<open>matchCount_text\<close> shows that
  the count depends only on which of the name, the values and the content hold a word.
\<close>

definition SearchAny :: string where "SearchAny = ''any''"
definition SearchMeta :: string where "SearchMeta = ''meta''"
definition SearchUpdatedAfter :: string where "SearchUpdatedAfter = ''updated_after''"
definition SearchUpdatedBefore :: string where "SearchUpdatedBefore = ''updated_before''"

definition AllSearchOptions :: "string list" where
  "AllSearchOptions = [SearchAny, SearchMeta, SearchUpdatedAfter, SearchUpdatedBefore]"

record SearchOptions =
  oAny :: bool
  oMeta :: "gomap option"
  oUpdatedAfter :: time
  oUpdatedBefore :: time

definition zeroSearchOptions :: SearchOptions where
  "zeroSearchOptions = \<lparr>oAny = False, oMeta = None, oUpdatedAfter = 0, oUpdatedBefore = 0\<rparr>"

definition IsZero :: "time \<Rightarrow> bool" where "IsZero t \<longleftrightarrow> t = 0"

definition Names :: "SearchOptions \<Rightarrow> string list" where
  "Names so =
     (if oAny so then [SearchAny] else []) @
     (if oMeta so \<noteq> None then [SearchMeta] else []) @
     (if \<not> IsZero (oUpdatedAfter so) then [SearchUpdatedAfter] else []) @
     (if \<not> IsZero (oUpdatedBefore so) then [SearchUpdatedBefore] else [])"

definition CheckOptions :: "SearchOptions \<Rightarrow> string list \<Rightarrow> error option" where
  "CheckOptions so supported =
     (case List.find (\<lambda>n. n \<notin> set supported) (Names so) of
        Some n \<Rightarrow> Some (ErrUnsupported n)
      | None \<Rightarrow> (case List.find (\<lambda>(k, v). \<not> ValidName k) (mitems (oMeta so)) of
            Some (k, v) \<Rightarrow> Some (ErrInvalid (BadSearchKey k))
          | None \<Rightarrow> None))"

definition Keep :: "SearchOptions \<Rightarrow> Entry \<Rightarrow> bool" where
  "Keep so e \<longleftrightarrow>
     (if \<not> list_all (\<lambda>(k, v). mlookup (eMeta e) k = Some v) (mitems (oMeta so)) then False
      else if \<not> IsZero (oUpdatedAfter so) \<and> \<not> eUpdated e > oUpdatedAfter so then False
      else if \<not> IsZero (oUpdatedBefore so) \<and> \<not> eUpdated e < oUpdatedBefore so then False
      else True)"

definition queryWords :: "(int \<Rightarrow> int) \<Rightarrow> string \<Rightarrow> string list" where
  "queryWords ulower query =
     foldl (\<lambda>out w. if w \<in> set out then out else out @ [w]) [] (Fields (ToLower ulower query))"

definition match_text :: "Entry \<Rightarrow> string" where
  "match_text e = eName e @ concat (map (\<lambda>(k, v). LF # v) (mitems (eMeta e))) @ LF # eContent e"

definition matchCount :: "(int \<Rightarrow> int) \<Rightarrow> Entry \<Rightarrow> string list \<Rightarrow> nat" where
  "matchCount ulower e words =
     (if words = [] then 0
      else length (filter (Contains (ToLower ulower (match_text e))) words))"

definition Match :: "(int \<Rightarrow> int) \<Rightarrow> Entry \<Rightarrow> string \<Rightarrow> bool" where
  "Match ulower e query \<longleftrightarrow>
     (let words = queryWords ulower query in matchCount ulower e words = length words)"

fun filter_loop :: "(int \<Rightarrow> int) \<Rightarrow> SearchOptions \<Rightarrow> string list \<Rightarrow> int \<Rightarrow> Entry list \<Rightarrow>
    (Entry \<times> nat) list \<Rightarrow> (Entry \<times> nat) list" where
  "filter_loop u so words limit [] hits = hits"
| "filter_loop u so words limit (e # es) hits =
     (if \<not> Keep so e then filter_loop u so words limit es hits
      else let n = matchCount u e words in
        if words \<noteq> [] \<and> (oAny so \<and> n = 0 \<or> \<not> oAny so \<and> n < length words)
        then filter_loop u so words limit es hits
        else let hits = hits @ [(e, n)] in
          if \<not> oAny so \<and> limit > 0 \<and> int (length hits) = limit then hits
          else filter_loop u so words limit es hits)"

definition FilterEntries :: "(int \<Rightarrow> int) \<Rightarrow> SearchOptions \<Rightarrow> Entry list \<Rightarrow> string \<Rightarrow> int \<Rightarrow> Entry list" where
  "FilterEntries u so entries query limit =
     (let words = queryWords u query;
          hits = filter_loop u so words limit entries [];
          hits = (if oAny so then sort_key (\<lambda>(e, n). - int n) hits else hits);
          hits = (if limit > 0 \<and> int (length hits) > limit then take (nat limit) hits else hits)
      in map fst hits)"

section \<open>The words of a query\<close>

lemma dedup_foldl:
  "set (foldl (\<lambda>out w. if w \<in> set out then out else out @ [w]) acc ws) = set acc \<union> set ws"
  "distinct acc \<Longrightarrow> distinct (foldl (\<lambda>out w. if w \<in> set out then out else out @ [w]) acc ws)"
  by (induction ws arbitrary: acc) auto

lemma set_queryWords [simp]: "set (queryWords u q) = set (Fields (ToLower u q))"
  by (simp add: queryWords_def dedup_foldl)

lemma distinct_queryWords [simp]: "distinct (queryWords u q)"
  by (simp add: queryWords_def dedup_foldl)

section \<open>What matches\<close>

definition holds_word :: "(int \<Rightarrow> int) \<Rightarrow> Entry \<Rightarrow> string \<Rightarrow> bool" where
  "holds_word u e w \<longleftrightarrow> Contains (ToLower u (eName e)) w \<or>
     (\<exists>(k, v) \<in> set (mitems (eMeta e)). Contains (ToLower u v) w) \<or> Contains (ToLower u (eContent e)) w"

lemma Contains_cut:
  assumes "x \<notin> set w" and "w \<noteq> []"
  shows "Contains (a @ x # b) w \<longleftrightarrow> Contains a w \<or> Contains b w"
proof
  assume "Contains (a @ x # b) w"
  then obtain p q where pq: "a @ x # b = p @ w @ q" by (auto simp: Contains_iff)
  show "Contains a w \<or> Contains b w"
  proof (cases "length p + length w \<le> length a")
    case True
    from pq have "take (length p + length w) (a @ x # b) = p @ w" by simp
    with True have "take (length p + length w) a = p @ w" by simp
    then have "a = p @ w @ drop (length p + length w) a" by (metis append.assoc append_take_drop_id)
    then show ?thesis by (auto simp: Contains_iff)
  next
    case False
    show ?thesis
    proof (cases "length p \<le> length a")
      case True
      have lt: "length a - length p < length w" using True False by linarith
      have "(a @ x # b) ! length a = (p @ w @ q) ! length a" using pq by simp
      then have "x = w ! (length a - length p)" using True lt by (simp add: nth_append)
      with lt show ?thesis using assms(1) nth_mem by metis
    next
      case False
      then have "length (a @ [x]) \<le> length p" by simp
      moreover from pq have "drop (length (a @ [x])) (a @ x # b) = drop (length (a @ [x])) (p @ w @ q)" by simp
      ultimately have "b = drop (length (a @ [x])) p @ w @ q" by simp
      then show ?thesis by (auto simp: Contains_iff)
    qed
  qed
next
  assume "Contains a w \<or> Contains b w"
  then show "Contains (a @ x # b) w"
    by (auto simp: Contains_iff) (metis append.assoc append_Cons)+
qed

lemma ToLower_match_text:
  "ToLower u (a @ concat (map (\<lambda>(k, v). LF # v) m) @ LF # c) =
     ToLower u a @ concat (map (\<lambda>(k, v). LF # ToLower u v) m) @ LF # ToLower u c"
proof (induction m arbitrary: a)
  case Nil
  show ?case by (simp add: ToLower_LF)
next
  case (Cons kv m)
  obtain k v where kv: "kv = (k, v)" by (cases kv)
  have "ToLower u (a @ LF # v @ concat (map (\<lambda>(k, v). LF # v) m) @ LF # c)
      = ToLower u a @ LF # ToLower u (v @ concat (map (\<lambda>(k, v). LF # v) m) @ LF # c)"
    by (rule ToLower_LF)
  then show ?case by (simp add: kv Cons)
qed

lemma Contains_values:
  assumes "LF \<notin> set w" and "w \<noteq> []"
  shows "Contains (a @ concat (map (\<lambda>(k, v). LF # f v) m) @ LF # c) w \<longleftrightarrow>
     Contains a w \<or> (\<exists>(k, v) \<in> set m. Contains (f v) w) \<or> Contains c w"
proof (induction m arbitrary: a)
  case Nil
  show ?case using assms by (simp add: Contains_cut)
next
  case (Cons kv m)
  obtain k v where kv: "kv = (k, v)" by (cases kv)
  have "Contains (a @ LF # (f v @ concat (map (\<lambda>(k, v). LF # f v) m) @ LF # c)) w \<longleftrightarrow>
      Contains a w \<or> Contains (f v @ concat (map (\<lambda>(k, v). LF # f v) m) @ LF # c) w"
    using assms by (rule Contains_cut)
  then show ?case by (simp add: kv Cons)
qed

lemma Contains_match_text:
  assumes "LF \<notin> set w" and "w \<noteq> []"
  shows "Contains (ToLower u (match_text e)) w \<longleftrightarrow> holds_word u e w"
  unfolding match_text_def ToLower_match_text holds_word_def
  using assms by (rule Contains_values)

lemma matchCount_text:
  assumes "\<forall>w \<in> set ws. LF \<notin> set w \<and> w \<noteq> []"
  shows "matchCount u e ws = length (filter (holds_word u e) ws)"
proof -
  have "filter (Contains (ToLower u (match_text e))) ws = filter (holds_word u e) ws"
    using assms by (intro filter_cong) (auto simp: Contains_match_text)
  then show ?thesis by (simp add: matchCount_def)
qed

lemma queryWords_chars: "\<forall>w \<in> set (queryWords u q). LF \<notin> set w \<and> w \<noteq> []"
  using Fields_no_LF Fields_not_Nil by auto

lemma matchCount_queryWords:
  "matchCount u e (queryWords u q) = length (filter (holds_word u e) (queryWords u q))"
  using queryWords_chars by (rule matchCount_text)

lemma length_filter_all: "length (filter P xs) = length xs \<longleftrightarrow> (\<forall>x \<in> set xs. P x)"
proof (induction xs)
  case (Cons x xs)
  have "length (filter P xs) \<le> length xs" by simp
  then have "length (filter P xs) \<noteq> Suc (length xs)" by linarith
  with Cons show ?case by simp
qed simp

lemma Match_words: "Match u e q \<longleftrightarrow> (\<forall>w \<in> set (Fields (ToLower u q)). holds_word u e w)"
  unfolding Match_def Let_def matchCount_queryWords
  by (simp add: length_filter_all)

section \<open>The filter\<close>

definition hit :: "(int \<Rightarrow> int) \<Rightarrow> SearchOptions \<Rightarrow> string list \<Rightarrow> Entry \<Rightarrow> bool" where
  "hit u so words e \<longleftrightarrow> Keep so e \<and>
     (words = [] \<or> (if oAny so then 0 < matchCount u e words else length words \<le> matchCount u e words))"

lemma filter_loop_all:
  assumes "oAny so \<or> limit \<le> 0"
  shows "filter_loop u so words limit es hits =
     hits @ map (\<lambda>e. (e, matchCount u e words)) (filter (hit u so words) es)"
proof (induction es arbitrary: hits)
  case (Cons e es)
  then show ?case using assms by (auto simp: hit_def Let_def)
qed simp

lemma filter_loop_limit:
  assumes "\<not> oAny so" and "limit > 0" and "int (length hits) < limit"
  shows "filter_loop u so words limit es hits =
     hits @ take (nat limit - length hits)
       (map (\<lambda>e. (e, matchCount u e words)) (filter (hit u so words) es))"
  using assms(3)
proof (induction es arbitrary: hits)
  case (Cons e es)
  show ?case
  proof (cases "hit u so words e")
    case False
    then have "filter_loop u so words limit (e # es) hits = filter_loop u so words limit es hits"
      using assms(1) by (auto simp: hit_def Let_def)
    with False Cons show ?thesis by simp
  next
    case True
    let ?n = "matchCount u e words"
    from True assms(1) have step: "filter_loop u so words limit (e # es) hits =
      (if int (length hits + 1) = limit then hits @ [(e, ?n)]
       else filter_loop u so words limit es (hits @ [(e, ?n)]))"
      using assms(2) by (auto simp: hit_def Let_def)
    show ?thesis
    proof (cases "int (length hits + 1) = limit")
      case eq: True
      then have "nat limit - length hits = 1" by linarith
      with step eq True show ?thesis by simp
    next
      case False
      with Cons.prems have "int (length (hits @ [(e, ?n)])) < limit" by simp
      moreover have "nat limit - length hits = Suc (nat limit - length (hits @ [(e, ?n)]))"
        using Cons.prems by simp
      ultimately show ?thesis using Cons.IH step False True by simp
    qed
  qed
qed simp

lemma FilterEntries_plain:
  assumes "\<not> oAny so"
  shows "FilterEntries u so es q limit =
     (let r = filter (\<lambda>e. Keep so e \<and> Match u e q) es in if limit > 0 then take (nat limit) r else r)"
proof -
  let ?ws = "queryWords u q"
  have le: "matchCount u e ?ws \<le> length ?ws" for e by (simp add: matchCount_def)
  have "hit u so ?ws e \<longleftrightarrow> Keep so e \<and> Match u e q" for e
    using assms le [of e] by (auto simp: hit_def Match_def Let_def matchCount_def)
  then have h: "filter (hit u so ?ws) es = filter (\<lambda>e. Keep so e \<and> Match u e q) es"
    by (intro filter_cong) auto
  show ?thesis
  proof (cases "limit > 0")
    case True
    then show ?thesis
      using assms filter_loop_limit [of so limit "[]" u ?ws es]
      by (simp add: FilterEntries_def Let_def h take_map comp_def)
  next
    case False
    then show ?thesis
      using assms filter_loop_all [of so limit u ?ws es "[]"]
      by (simp add: FilterEntries_def Let_def h comp_def)
  qed
qed

lemma FilterEntries_any:
  assumes "oAny so"
  shows "FilterEntries u so es q limit =
     (let r = map fst (sort_key (\<lambda>(e, n). - int n)
         (map (\<lambda>e. (e, matchCount u e (queryWords u q))) (filter (hit u so (queryWords u q)) es)))
      in if limit > 0 then take (nat limit) r else r)"
  using assms by (auto simp: FilterEntries_def Let_def filter_loop_all take_map nat_le_iff)

lemma sort_key_map_fst:
  "map fst (sort_key (\<lambda>(e, n). g n) (map (\<lambda>e. (e, f e)) es)) = sort_key (g \<circ> f) es"
proof -
  have form: "insort_key (\<lambda>(e, n). g n) (x, f x) (map (\<lambda>e. (e, f e)) xs)
      = map (\<lambda>e. (e, f e)) (insort_key (g \<circ> f) x xs)" for x xs
    by (induction xs) auto
  have "sort_key (\<lambda>(e, n). g n) (map (\<lambda>e. (e, f e)) es) = map (\<lambda>e. (e, f e)) (sort_key (g \<circ> f) es)"
    by (induction es) (simp_all add: form del: comp_apply)
  then show ?thesis by (simp add: comp_def)
qed

lemma FilterEntries_any_ranked:
  assumes "oAny so"
  shows "FilterEntries u so es q limit =
     (let r = sort_key (\<lambda>e. - int (matchCount u e (queryWords u q))) (filter (hit u so (queryWords u q)) es)
      in if limit > 0 then take (nat limit) r else r)"
  using assms by (simp add: FilterEntries_any sort_key_map_fst [of "\<lambda>n. - int n"] comp_def)

section \<open>Properties\<close>

text \<open>\<^verbatim>\<open>Match\<close> holds exactly when every word of the query, in lower case, is contained in the
  lower-cased name, one metadata value or the content.\<close>

theorem match_every_word:
  "Match u e q \<longleftrightarrow> (\<forall>w \<in> set (Fields (ToLower u q)).
     Contains (ToLower u (eName e)) w \<or> (\<exists>(k, v) \<in> set (mitems (eMeta e)). Contains (ToLower u v) w) \<or>
     Contains (ToLower u (eContent e)) w)"
  unfolding Match_words holds_word_def ..

theorem match_every_word_witness:
  "\<not> Match (\<lambda>r. r) \<lparr>eScope = ''s'', eName = ''n'', eContent = ''Go code'', eMeta = None, eHash = [], eMetaHash = [], eUpdated = 0, eDeleted = False\<rparr> ''go rust''"
  unfolding match_every_word by code_simp

text \<open>Without the any option, the search filter returns the kept entries that match, in the order
  given, and stops at the limit when there is one.\<close>

theorem filter_all_words:
  assumes "\<not> oAny so"
  shows "FilterEntries u so es q limit =
     (let r = filter (\<lambda>e. Keep so e \<and> Match u e q) es in if limit > 0 then take (nat limit) r else r)"
  using assms by (rule FilterEntries_plain)

definition search_sample :: "string \<Rightarrow> string \<Rightarrow> Entry" where
  "search_sample n c = \<lparr>eScope = ''s'', eName = n, eContent = c, eMeta = None, eHash = [], eMetaHash = [], eUpdated = 0, eDeleted = False\<rparr>"

theorem filter_all_words_witness:
  "FilterEntries (\<lambda>r. r) zeroSearchOptions [search_sample ''a'' ''Go code'', search_sample ''b'' ''rust'', search_sample ''c'' ''go''] ''go'' 1 =
     [search_sample ''a'' ''Go code'']"
proof -
  have "\<not> oAny zeroSearchOptions" by (simp add: zeroSearchOptions_def)
  show ?thesis unfolding filter_all_words [OF \<open>\<not> oAny zeroSearchOptions\<close>] by code_simp
qed

text \<open>With the any option, the filter returns the kept entries that hold at least one word, those
  holding more words first and in the order given among equals, cut at the limit.\<close>

theorem filter_any_word:
  assumes "oAny so"
  shows "FilterEntries u so es q limit =
     (let ws = queryWords u q; count = (\<lambda>e. length (filter (holds_word u e) ws));
          r = sort_key (\<lambda>e. - int (count e)) (filter (\<lambda>e. Keep so e \<and> (ws = [] \<or> 0 < count e)) es)
      in if limit > 0 then take (nat limit) r else r)"
proof -
  have "hit u so (queryWords u q) =
      (\<lambda>e. Keep so e \<and> (queryWords u q = [] \<or> 0 < length (filter (holds_word u e) (queryWords u q))))"
    using assms by (simp add: fun_eq_iff hit_def matchCount_queryWords)
  then show ?thesis using assms by (simp only: FilterEntries_any_ranked matchCount_queryWords Let_def)
qed

theorem filter_any_word_witness:
  "FilterEntries (\<lambda>r. r) (zeroSearchOptions\<lparr>oAny := True\<rparr>) [search_sample ''a'' ''rust'', search_sample ''b'' ''go rust''] ''go rust'' 0 =
     [search_sample ''b'' ''go rust'', search_sample ''a'' ''rust'']"
proof -
  have any: "oAny (zeroSearchOptions\<lparr>oAny := True\<rparr>)" by simp
  show ?thesis unfolding filter_any_word [OF any] by code_simp
qed

end
