(* ===== verification/Store.thy ===== *)
theory Store
  imports Memory Search
begin

text \<open>
  The \<^verbatim>\<open>Store\<close> interface of \<^verbatim>\<open>memory.go\<close>, with the optional \<^verbatim>\<open>Searcher\<close> and \<^verbatim>\<open>LastSeqer\<close>
  interfaces, as a record of operations on a store state \<open>'s\<close>; an operation that writes takes
  the context and the reading of the store's clock and returns the new state beside its
  result.  A journal iterator is the list of what it yields, \<^const>\<open>Inl\<close> for a record it
  cannot read.  \<open>AbsStore\<close> is the abstract specification: the live entries as a map, and the
  journal.  Its invariant says that the journal chains, that replaying it gives the live
  entries, and that every live entry satisfies the entry check and carries its own hash.
  The locale \<open>memory_store\<close> states that an implementation refines \<open>AbsStore\<close>; the stores
  interpret it and the clients of a store are proved inside it.
\<close>

section \<open>The interface\<close>

record 's Searcher =
  ssOptions :: "string list"
  ssSearchWith :: "scope list \<Rightarrow> string \<Rightarrow> int \<Rightarrow> SearchOptions \<Rightarrow> 's \<Rightarrow> error + Entry list"

record 's Store =
  sGet :: "scope \<Rightarrow> string \<Rightarrow> 's \<Rightarrow> error + Entry"
  sList :: "scope \<Rightarrow> 's \<Rightarrow> error + Entry list"
  sPut :: "string \<Rightarrow> time \<Rightarrow> Entry \<Rightarrow> PutOption list \<Rightarrow> 's \<Rightarrow> (error + Change) \<times> 's"
  sForget :: "string \<Rightarrow> time \<Rightarrow> scope \<Rightarrow> string \<Rightarrow> 's \<Rightarrow> (error + Change) \<times> 's"
  sSearch :: "scope list \<Rightarrow> string \<Rightarrow> int \<Rightarrow> 's \<Rightarrow> error + Entry list"
  sJournal :: "uint64 \<Rightarrow> 's \<Rightarrow> (error + Change) list"
  sMaxEntryBytes :: "'s \<Rightarrow> int"
  sSearcher :: "'s Searcher option"
  sLastSeqer :: "('s \<Rightarrow> error + uint64) option"

definition SearchSupport :: "'s Store \<Rightarrow> string list" where
  "SearchSupport S = (case sSearcher S of Some ss \<Rightarrow> ssOptions ss | None \<Rightarrow> [])"

definition SearchWith :: "'s Store \<Rightarrow> scope list \<Rightarrow> string \<Rightarrow> int \<Rightarrow> SearchOptions \<Rightarrow> 's \<Rightarrow> error + Entry list" where
  "SearchWith S scopes query limit opts s =
     (case sSearcher S of
        Some ss \<Rightarrow> ssSearchWith ss scopes query limit opts s
      | None \<Rightarrow> (case CheckOptions opts [] of
            Some err \<Rightarrow> Inl err
          | None \<Rightarrow> sSearch S scopes query limit s))"

text \<open>\<^verbatim>\<open>cloneEntry\<close> of \<^verbatim>\<open>memstore.go\<close>: an empty metadata map becomes nil.  The copy it takes of
  the map has no counterpart here, since a value of the model is never mutated.\<close>

definition cloneEntry :: "Entry \<Rightarrow> Entry" where
  "cloneEntry e = (if mlen (eMeta e) = 0 then e\<lparr>eMeta := None\<rparr> else e)"

section \<open>The abstract store\<close>

record AbsStore =
  aMax :: int
  aLive :: "scope \<Rightarrow> string \<Rightarrow> Entry option"
  aJournal :: "Change list"

definition hash_of :: "Entry option \<Rightarrow> string" where
  "hash_of stored = (case stored of None \<Rightarrow> [] | Some e \<Rightarrow> eHash e)"

definition next_seq :: "Change list \<Rightarrow> uint64" where
  "next_seq js = (if js = [] then 1 else cSeq (last js) + 1)"

definition stored_form :: "time \<Rightarrow> Entry \<Rightarrow> Entry" where
  "stored_form now e = (cloneEntry e)\<lparr>eHash := Hash (eContent e), eMetaHash := MetaHash (eMeta e),
     eUpdated := now, eDeleted := False\<rparr>"

definition abs_get :: "scope \<Rightarrow> string \<Rightarrow> AbsStore \<Rightarrow> error + Entry" where
  "abs_get scope name a =
     (case CheckRef scope name of
        Some err \<Rightarrow> Inl err
      | None \<Rightarrow> (case aLive a scope name of None \<Rightarrow> Inl (ErrNotFound scope name) | Some e \<Rightarrow> Inr e))"

definition abs_put :: "string \<Rightarrow> time \<Rightarrow> Entry \<Rightarrow> PutOption list \<Rightarrow> AbsStore \<Rightarrow> (error + Change) \<times> AbsStore" where
  "abs_put session now e opts a =
     (let po = ResolvePutOptions opts; sc = eScope e; n = eName e; stored = aLive a sc n in
      case CheckEntry e (aMax a) stored of
        Some err \<Rightarrow> (Inl err, a)
      | None \<Rightarrow> (case Check po sc n stored of
            Some err \<Rightarrow> (Inl err, a)
          | None \<Rightarrow>
              let e' = stored_form now e;
                  c = \<lparr>cSeq = next_seq (aJournal a), cEntry = e', cPrev = BaseFor po stored,
                       cReplaced = hash_of stored, cSession = session, cSource = [], cAt = now\<rparr>
              in (Inr c, a\<lparr>aLive := (aLive a)(sc := (aLive a sc)(n \<mapsto> e')), aJournal := aJournal a @ [c]\<rparr>)))"

definition abs_forget :: "string \<Rightarrow> time \<Rightarrow> scope \<Rightarrow> string \<Rightarrow> AbsStore \<Rightarrow> (error + Change) \<times> AbsStore" where
  "abs_forget session now sc n a =
     (case CheckRef sc n of
        Some err \<Rightarrow> (Inl err, a)
      | None \<Rightarrow> (case aLive a sc n of
            None \<Rightarrow> (Inl (ErrNotFound sc n), a)
          | Some e \<Rightarrow>
              let c = \<lparr>cSeq = next_seq (aJournal a), cEntry = e\<lparr>eDeleted := True, eUpdated := now\<rparr>,
                       cPrev = eHash e, cReplaced = eHash e, cSession = session, cSource = [], cAt = now\<rparr>
              in (Inr c, a\<lparr>aLive := (aLive a)(sc := (aLive a sc)(n := None)), aJournal := aJournal a @ [c]\<rparr>)))"

section \<open>Chaining and replay\<close>

definition ckey :: "Change \<Rightarrow> scope \<times> string" where
  "ckey c = (eScope (cEntry c), eName (cEntry c))"

definition after_hash :: "Change \<Rightarrow> string" where
  "after_hash c = (if eDeleted (cEntry c) then [] else eHash (cEntry c))"

definition note_hash :: "(scope \<times> string \<Rightarrow> string) \<Rightarrow> Change \<Rightarrow> (scope \<times> string \<Rightarrow> string)" where
  "note_hash h c = h(ckey c := after_hash c)"

definition held :: "Change list \<Rightarrow> scope \<times> string \<Rightarrow> string" where
  "held js = foldl note_hash (\<lambda>_. []) js"

fun chained_from :: "(scope \<times> string \<Rightarrow> string) \<Rightarrow> Change list \<Rightarrow> bool" where
  "chained_from h [] \<longleftrightarrow> True"
| "chained_from h (c # cs) \<longleftrightarrow> cReplaced c = h (ckey c) \<and> chained_from (note_hash h c) cs"

definition chained :: "Change list \<Rightarrow> bool" where
  "chained js \<longleftrightarrow> chained_from (\<lambda>_. []) js"

definition replay_step :: "(scope \<times> string \<Rightarrow> Entry option) \<Rightarrow> Change \<Rightarrow> (scope \<times> string \<Rightarrow> Entry option)" where
  "replay_step m c = m(ckey c := (if eDeleted (cEntry c) then None else Some (cEntry c)))"

definition replay :: "Change list \<Rightarrow> scope \<times> string \<Rightarrow> Entry option" where
  "replay js = foldl replay_step (\<lambda>_. None) js"

definition numbered :: "Change list \<Rightarrow> bool" where
  "numbered js \<longleftrightarrow> (\<forall>i < length js. cSeq (js ! i) = of_nat (Suc i))"

lemma chained_from_append:
  "chained_from h (js @ ks) \<longleftrightarrow> chained_from h js \<and> chained_from (foldl note_hash h js) ks"
  by (induction js arbitrary: h) auto

lemma chained_snoc: "chained (js @ [c]) \<longleftrightarrow> chained js \<and> cReplaced c = held js (ckey c)"
  by (simp add: chained_def held_def chained_from_append)

lemma chained_Nil [simp]: "chained []"
  by (simp add: chained_def)

lemma held_snoc: "held (js @ [c]) = (held js)(ckey c := after_hash c)"
  by (simp add: held_def note_hash_def)

lemma replay_snoc:
  "replay (js @ [c]) = (replay js)(ckey c := (if eDeleted (cEntry c) then None else Some (cEntry c)))"
  by (simp add: replay_def replay_step_def)

lemma held_replay: "held js k = hash_of (replay js k)"
proof (induction js rule: rev_induct)
  case Nil
  show ?case by (simp add: held_def replay_def hash_of_def)
next
  case (snoc c js)
  then show ?case by (simp add: held_snoc replay_snoc after_hash_def hash_of_def)
qed

lemma replay_key: "replay js (sc, n) = Some e \<Longrightarrow> eScope e = sc \<and> eName e = n \<and> \<not> eDeleted e"
  by (induction js rule: rev_induct)
     (auto simp: replay_def replay_step_def ckey_def split: if_splits)

lemma numbered_snoc: "numbered (js @ [c]) \<longleftrightarrow> numbered js \<and> cSeq c = of_nat (Suc (length js))"
  by (auto simp: numbered_def nth_append less_Suc_eq)

lemma numbered_next_seq: "numbered js \<Longrightarrow> next_seq js = of_nat (Suc (length js))"
proof (cases js rule: rev_cases)
  case (snoc ks c)
  assume "numbered js"
  with snoc show ?thesis by (simp add: next_seq_def numbered_snoc)
qed (simp add: next_seq_def)

section \<open>The invariant\<close>

text \<open>An entry as a store writes it: checked, hashed, its empty metadata nil.\<close>

definition normal_entry :: "int \<Rightarrow> Entry \<Rightarrow> bool" where
  "normal_entry limit e \<longleftrightarrow> entry_ok e limit \<and> eHash e = Hash (eContent e) \<and>
     eMetaHash e = MetaHash (eMeta e) \<and> eMeta e \<noteq> Some []"

definition abs_inv :: "AbsStore \<Rightarrow> bool" where
  "abs_inv a \<longleftrightarrow> chained (aJournal a) \<and> numbered (aJournal a) \<and>
     (\<forall>sc n. aLive a sc n = replay (aJournal a) (sc, n)) \<and>
     (\<forall>c \<in> set (aJournal a). normal_entry (aMax a) (cEntry c))"

lemma replay_in: "replay js k = Some e \<Longrightarrow> \<exists>c \<in> set js. cEntry c = e \<and> \<not> eDeleted e"
  by (induction js rule: rev_induct) (auto simp: replay_def replay_step_def split: if_splits)

lemma abs_inv_live:
  assumes "abs_inv a" and "aLive a sc n = Some e"
  shows "eScope e = sc" "eName e = n" "\<not> eDeleted e" "normal_entry (aMax a) e"
proof -
  from assms have r: "replay (aJournal a) (sc, n) = Some e" by (simp add: abs_inv_def)
  from replay_key [OF r] show "eScope e = sc" "eName e = n" "\<not> eDeleted e" by simp_all
  from replay_in [OF r] assms(1) show "normal_entry (aMax a) e" by (auto simp: abs_inv_def)
qed

lemma abs_inv_held: "abs_inv a \<Longrightarrow> held (aJournal a) (sc, n) = hash_of (aLive a sc n)"
  by (simp add: abs_inv_def held_replay)

lemma cloneEntry_simps [simp]:
  "eScope (cloneEntry e) = eScope e" "eName (cloneEntry e) = eName e"
  "eContent (cloneEntry e) = eContent e" "eHash (cloneEntry e) = eHash e"
  "eMetaHash (cloneEntry e) = eMetaHash e" "eUpdated (cloneEntry e) = eUpdated e"
  "eDeleted (cloneEntry e) = eDeleted e" "mitems (eMeta (cloneEntry e)) = mitems (eMeta e)"
  "eMeta (cloneEntry e) \<noteq> Some []"
  by (auto simp: cloneEntry_def)

lemma cloneEntry_normal: "eMeta e \<noteq> Some [] \<Longrightarrow> cloneEntry e = e"
  by (cases "eMeta e") (auto simp: cloneEntry_def mlen_def)

lemma stored_form_simps [simp]:
  "eScope (stored_form now e) = eScope e" "eName (stored_form now e) = eName e"
  "eContent (stored_form now e) = eContent e" "eHash (stored_form now e) = Hash (eContent e)"
  "eMetaHash (stored_form now e) = MetaHash (eMeta e)" "eUpdated (stored_form now e) = now"
  "\<not> eDeleted (stored_form now e)" "mitems (eMeta (stored_form now e)) = mitems (eMeta e)"
  "eMeta (stored_form now e) \<noteq> Some []"
  by (auto simp: stored_form_def)

lemma MetaHash_items: "mitems m = mitems m' \<Longrightarrow> MetaHash m = MetaHash m'"
  by (simp add: MetaHash_def mlen_def)

lemma normal_stored_form: "entry_ok e limit \<Longrightarrow> normal_entry limit (stored_form now e)"
  by (auto simp: normal_entry_def entry_ok_def Size_def intro: MetaHash_items)

lemma abs_put_cases:
  assumes "abs_put session now e opts a = (r, a')"
  obtains (err) err where "r = Inl err" "a' = a"
      "CheckEntry e (aMax a) (aLive a (eScope e) (eName e)) = Some err \<or>
       entry_ok e (aMax a) \<and> Check (ResolvePutOptions opts) (eScope e) (eName e) (aLive a (eScope e) (eName e)) = Some err"
  | (ok) c where "r = Inr c" "entry_ok e (aMax a)"
      "Check (ResolvePutOptions opts) (eScope e) (eName e) (aLive a (eScope e) (eName e)) = None"
      "a' = a\<lparr>aLive := (aLive a)(eScope e := (aLive a (eScope e))(eName e \<mapsto> stored_form now e)),
              aJournal := aJournal a @ [c]\<rparr>"
      "cSeq c = next_seq (aJournal a)" "cEntry c = stored_form now e"
      "cPrev c = BaseFor (ResolvePutOptions opts) (aLive a (eScope e) (eName e))"
      "cReplaced c = hash_of (aLive a (eScope e) (eName e))" "cSession c = session" "cSource c = []" "cAt c = now"
proof (cases "CheckEntry e (aMax a) (aLive a (eScope e) (eName e))")
  case (Some err)
  with assms show ?thesis by (intro that(1)) (auto simp: abs_put_def Let_def)
next
  case None
  then have ok: "entry_ok e (aMax a)" by (simp add: CheckEntry_None)
  show ?thesis
  proof (cases "Check (ResolvePutOptions opts) (eScope e) (eName e) (aLive a (eScope e) (eName e))")
    case (Some err)
    with None ok assms show ?thesis by (intro that(1)) (auto simp: abs_put_def Let_def)
  next
    case c: None
    from None c assms show ?thesis
      by (intro that(2)) (auto simp: abs_put_def Let_def ok)
  qed
qed

lemma abs_forget_cases:
  assumes "abs_forget session now sc n a = (r, a')"
  obtains (err) err where "r = Inl err" "a' = a" "CheckRef sc n = Some err \<or> err = ErrNotFound sc n \<and> aLive a sc n = None"
  | (ok) c e where "r = Inr c" "aLive a sc n = Some e" "CheckRef sc n = None"
      "a' = a\<lparr>aLive := (aLive a)(sc := (aLive a sc)(n := None)), aJournal := aJournal a @ [c]\<rparr>"
      "cSeq c = next_seq (aJournal a)" "cEntry c = e\<lparr>eDeleted := True, eUpdated := now\<rparr>"
      "cPrev c = eHash e" "cReplaced c = eHash e" "cSession c = session" "cSource c = []" "cAt c = now"
proof (cases "CheckRef sc n")
  case (Some err)
  with assms show ?thesis by (intro that(1)) (auto simp: abs_forget_def)
next
  case None
  show ?thesis
  proof (cases "aLive a sc n")
    case l: None
    with None assms show ?thesis by (intro that(1)) (auto simp: abs_forget_def)
  next
    case (Some e)
    with None assms show ?thesis by (intro that(2)) (auto simp: abs_forget_def Let_def)
  qed
qed

lemma normal_entry_deleted: "normal_entry m e \<Longrightarrow> normal_entry m (e\<lparr>eDeleted := d, eUpdated := t\<rparr>)"
  by (simp add: normal_entry_def entry_ok_def Size_def)

lemma abs_put_inv:
  assumes "abs_inv a" and "abs_put session now e opts a = (r, a')"
  shows "abs_inv a'"
  using assms(2)
proof (cases rule: abs_put_cases)
  case err
  with assms(1) show ?thesis by simp
next
  case (ok c)
  then have k: "ckey c = (eScope e, eName e)" by (simp add: ckey_def)
  with ok assms(1) show ?thesis
    by (auto simp: abs_inv_def chained_snoc numbered_snoc numbered_next_seq replay_snoc held_replay normal_stored_form)
qed

lemma abs_forget_inv:
  assumes "abs_inv a" and "abs_forget session now sc n a = (r, a')"
  shows "abs_inv a'"
  using assms(2)
proof (cases rule: abs_forget_cases)
  case err
  with assms(1) show ?thesis by simp
next
  case (ok c e)
  note live = abs_inv_live [OF assms(1) ok(2)]
  with ok have k: "ckey c = (sc, n)" by (simp add: ckey_def)
  from ok assms(1) have "hash_of (replay (aJournal a) (sc, n)) = eHash e"
    by (simp add: abs_inv_def hash_of_def)
  with ok k live assms(1) show ?thesis
    by (auto simp: abs_inv_def chained_snoc numbered_snoc numbered_next_seq replay_snoc held_replay normal_entry_deleted)
qed

section \<open>Two wordings of a refusal\<close>

text \<open>A store outside the process refuses a scope or a name that is not kebab-case with the short text, the in-memory store with the long one.  \<open>plain\<close> puts
  the short text for the long one and leaves every other error and every result as it is.\<close>

fun plain_invalid :: "invalid \<Rightarrow> invalid" where
  "plain_invalid (BadScope sc) = ScopeNotKebab sc"
| "plain_invalid (BadName n) = NameNotKebab n"
| "plain_invalid p = p"

fun plain_error :: "error \<Rightarrow> error" where
  "plain_error (ErrInvalid p) = ErrInvalid (plain_invalid p)"
| "plain_error err = err"

definition plain :: "error + 'a \<Rightarrow> error + 'a" where
  "plain = map_sum plain_error id"

lemma plain_simps [simp]: "plain (Inl err) = Inl (plain_error err)" "plain (Inr x) = Inr x"
  by (simp_all add: plain_def)

lemma plain_Inr [simp]: "plain r = Inr x \<longleftrightarrow> r = Inr x"
  by (cases r) simp_all

lemma plain_error_NotFound [simp]: "plain_error err = ErrNotFound sc n \<longleftrightarrow> err = ErrNotFound sc n"
  by (cases err) simp_all

lemma plain_NotFound [simp]: "plain r = Inl (ErrNotFound sc n) \<longleftrightarrow> r = Inl (ErrNotFound sc n)"
  by (cases r) simp_all

lemma plain_error_idem [simp]: "plain_error (plain_error err) = plain_error err"
proof (cases err)
  case (ErrInvalid p)
  then show ?thesis by (cases p) simp_all
qed simp_all

lemma plain_idem [simp]: "plain (plain r) = plain r"
  by (cases r) simp_all

section \<open>The contract of an implementation\<close>

text \<open>An implementation refines the abstract store through \<open>view\<close>: every operation gives the
  result of the abstract one and leaves a state whose view is the abstract result's.\<close>

locale memory_store =
  fixes S :: "'s Store" and inv :: "'s \<Rightarrow> bool" and view :: "'s \<Rightarrow> AbsStore"
  assumes inv_view: "inv s \<Longrightarrow> abs_inv (view s)"
    and get_refines: "inv s \<Longrightarrow> sGet S sc n s = abs_get sc n (view s)"
    and list_bad: "inv s \<Longrightarrow> \<not> ValidScope sc \<Longrightarrow> sList S sc s = Inl (ErrInvalid (BadScope sc))"
    and list_ok: "inv s \<Longrightarrow> ValidScope sc \<Longrightarrow>
      \<exists>es. sList S sc s = Inr es \<and> sorted_wrt (<) (map eName es) \<and>
        (\<forall>e. e \<in> set es \<longleftrightarrow> aLive (view s) sc (eName e) = Some e)"
    and put_refines: "inv s \<Longrightarrow> sPut S session now e opts s = (r, s') \<Longrightarrow>
      inv s' \<and> abs_put session now e opts (view s) = (r, view s')"
    and forget_refines: "inv s \<Longrightarrow> sForget S session now sc n s = (r, s') \<Longrightarrow>
      inv s' \<and> abs_forget session now sc n (view s) = (r, view s')"
    and journal_from: "inv s \<Longrightarrow> length (aJournal (view s)) < 2 ^ 64 \<Longrightarrow>
      sJournal S after s = map Inr (drop (unat after) (aJournal (view s)))"
    and max_view: "sMaxEntryBytes S s = aMax (view s)"
begin

lemma journal_all: "inv s \<Longrightarrow> length (aJournal (view s)) < 2 ^ 64 \<Longrightarrow> sJournal S 0 s = map Inr (aJournal (view s))"
  by (simp add: journal_from)

lemma put_error_frame:
  "inv s \<Longrightarrow> sPut S session now e opts s = (Inl err, s') \<Longrightarrow> view s' = view s"
  using put_refines [of s session now e opts "Inl err" s']
  by (auto elim: abs_put_cases)

lemma get_after_put:
  assumes "inv s" and "sPut S session now e opts s = (Inr c, s')"
  shows "sGet S (eScope e) (eName e) s' = Inr (stored_form now e)"
proof -
  from put_refines [OF assms] have i: "inv s'" and p: "abs_put session now e opts (view s) = (Inr c, view s')" by simp_all
  from p show ?thesis
  proof (cases rule: abs_put_cases)
    case (ok c')
    with i show ?thesis
      by (simp add: get_refines abs_get_def CheckRef_def CheckScope_def ValidScope_def entry_ok_def)
  qed simp
qed

lemma get_frame_put:
  assumes "inv s" and "sPut S session now e opts s = (r, s')" and "(sc, n) \<noteq> (eScope e, eName e)"
  shows "sGet S sc n s' = sGet S sc n s"
proof -
  from put_refines [OF assms(1,2)] have i: "inv s'" and p: "abs_put session now e opts (view s) = (r, view s')" by simp_all
  from p have "aLive (view s') sc n = aLive (view s) sc n"
    by (cases rule: abs_put_cases) (use assms(3) in \<open>auto simp: fun_upd_def\<close>)
  with assms(1) i show ?thesis by (simp add: get_refines abs_get_def split: option.split)
qed

lemma get_after_forget:
  assumes "inv s" and "sForget S session now sc n s = (Inr c, s')"
  shows "sGet S sc n s' = Inl (ErrNotFound sc n)"
proof -
  from forget_refines [OF assms] have i: "inv s'" and p: "abs_forget session now sc n (view s) = (Inr c, view s')" by simp_all
  from p have "aLive (view s') sc n = None" "CheckRef sc n = None"
    by (cases rule: abs_forget_cases; simp)+
  with i show ?thesis by (simp add: get_refines abs_get_def)
qed

end

end
