(* ===== verification/MemStore.thy ===== *)
theory MemStore
  imports Store "HOL-Library.AList"
begin

text \<open>
  The in-memory store of \<^verbatim>\<open>memstore.go\<close>.  The nested map of live entries is an association
  list of association lists, the journal a list; every method runs under the mutex, so it is
  one atomic function of the state.  The clock reading and the session on the context are
  arguments.  The store interprets \<open>memory_store\<close>: it refines the abstract store, its
  invariant holds of a new store and every operation keeps it.
\<close>

record MemStore =
  mMax :: int
  mLive :: "(scope \<times> (string \<times> Entry) list) list"
  mJournal :: "Change list"

type_synonym MemOption = "MemStore \<Rightarrow> MemStore"

definition WithMaxEntryBytes :: "int \<Rightarrow> MemOption" where
  "WithMaxEntryBytes n = (\<lambda>m. m\<lparr>mMax := n\<rparr>)"

definition NewMemStore :: "MemOption list \<Rightarrow> MemStore" where
  "NewMemStore opts =
     foldl (\<lambda>m opt. opt m) \<lparr>mMax = DefaultMaxEntryBytes, mLive = [], mJournal = []\<rparr> opts"

definition MemMaxEntryBytes :: "MemStore \<Rightarrow> int" where
  "MemMaxEntryBytes m = mMax m"

definition live_scope :: "MemStore \<Rightarrow> scope \<Rightarrow> (string \<times> Entry) list" where
  "live_scope m scope = (case map_of (mLive m) scope of None \<Rightarrow> [] | Some t \<Rightarrow> t)"

definition MemGet :: "scope \<Rightarrow> string \<Rightarrow> MemStore \<Rightarrow> error + Entry" where
  "MemGet scope name m =
     (case CheckRef scope name of
        Some err \<Rightarrow> Inl err
      | None \<Rightarrow> (case map_of (live_scope m scope) name of
            None \<Rightarrow> Inl (ErrNotFound scope name)
          | Some e \<Rightarrow> Inr (cloneEntry e)))"

definition listLocked :: "MemStore \<Rightarrow> scope \<Rightarrow> Entry list" where
  "listLocked m scope = sort_key eName (map (\<lambda>(n, e). cloneEntry e) (live_scope m scope))"

definition MemList :: "scope \<Rightarrow> MemStore \<Rightarrow> error + Entry list" where
  "MemList scope m = (case CheckScope scope of Some err \<Rightarrow> Inl err | None \<Rightarrow> Inr (listLocked m scope))"

definition appendLocked :: "string \<Rightarrow> Entry \<Rightarrow> string \<Rightarrow> string \<Rightarrow> time \<Rightarrow> MemStore \<Rightarrow> Change \<times> MemStore" where
  "appendLocked session e prev replaced at m =
     (let c = \<lparr>cSeq = of_nat (length (mJournal m)) + 1, cEntry = cloneEntry e, cPrev = prev,
               cReplaced = replaced, cSession = session, cSource = [], cAt = at\<rparr>
      in (c\<lparr>cEntry := cloneEntry (cEntry c)\<rparr>, m\<lparr>mJournal := mJournal m @ [c]\<rparr>))"

definition MemPut :: "string \<Rightarrow> time \<Rightarrow> Entry \<Rightarrow> PutOption list \<Rightarrow> MemStore \<Rightarrow> (error + Change) \<times> MemStore" where
  "MemPut session now e opts m =
     (let po = ResolvePutOptions opts; stored = map_of (live_scope m (eScope e)) (eName e) in
      case CheckEntry e (mMax m) stored of
        Some err \<Rightarrow> (Inl err, m)
      | None \<Rightarrow> (case Check po (eScope e) (eName e) stored of
            Some err \<Rightarrow> (Inl err, m)
          | None \<Rightarrow>
              let e = cloneEntry e;
                  e = e\<lparr>eHash := Hash (eContent e), eMetaHash := MetaHash (eMeta e), eUpdated := now, eDeleted := False\<rparr>;
                  m = m\<lparr>mLive := AList.update (eScope e) (AList.update (eName e) e (live_scope m (eScope e))) (mLive m)\<rparr>;
                  replaced = (case stored of None \<Rightarrow> [] | Some se \<Rightarrow> eHash se);
                  (c, m) = appendLocked session e (BaseFor po stored) replaced now m
              in (Inr c, m)))"

definition MemForget :: "string \<Rightarrow> time \<Rightarrow> scope \<Rightarrow> string \<Rightarrow> MemStore \<Rightarrow> (error + Change) \<times> MemStore" where
  "MemForget session now scope name m =
     (case CheckRef scope name of
        Some err \<Rightarrow> (Inl err, m)
      | None \<Rightarrow> (case map_of (live_scope m scope) name of
            None \<Rightarrow> (Inl (ErrNotFound scope name), m)
          | Some e \<Rightarrow>
              let m = m\<lparr>mLive := AList.update scope (AList.delete name (live_scope m scope)) (mLive m)\<rparr>;
                  e = e\<lparr>eDeleted := True, eUpdated := now\<rparr>;
                  (c, m) = appendLocked session e (eHash e) (eHash e) now m
              in (Inr c, m)))"

definition MemSearchWith :: "(int \<Rightarrow> int) \<Rightarrow> scope list \<Rightarrow> string \<Rightarrow> int \<Rightarrow> SearchOptions \<Rightarrow> MemStore \<Rightarrow> error + Entry list" where
  "MemSearchWith ulower scopes query limit opts m =
     (case List.find (\<lambda>sc. CheckScope sc \<noteq> None) scopes of
        Some sc \<Rightarrow> Inl (the (CheckScope sc))
      | None \<Rightarrow> (case CheckOptions opts AllSearchOptions of
            Some err \<Rightarrow> Inl err
          | None \<Rightarrow> Inr (FilterEntries ulower opts (concat (map (listLocked m) scopes)) query limit)))"

definition MemSearch :: "(int \<Rightarrow> int) \<Rightarrow> scope list \<Rightarrow> string \<Rightarrow> int \<Rightarrow> MemStore \<Rightarrow> error + Entry list" where
  "MemSearch ulower scopes query limit m = MemSearchWith ulower scopes query limit zeroSearchOptions m"

definition MemJournal :: "uint64 \<Rightarrow> MemStore \<Rightarrow> (error + Change) list" where
  "MemJournal after m =
     (let changes = (if after < of_nat (length (mJournal m)) then drop (unat after) (mJournal m) else [])
      in map (\<lambda>c. Inr (c\<lparr>cEntry := cloneEntry (cEntry c)\<rparr>)) changes)"

definition MemLastSeq :: "MemStore \<Rightarrow> error + uint64" where
  "MemLastSeq m = Inr (of_nat (length (mJournal m)))"

definition memStore :: "(int \<Rightarrow> int) \<Rightarrow> MemStore Store" where
  "memStore ulower = \<lparr>sGet = MemGet, sList = MemList, sPut = MemPut, sForget = MemForget,
     sSearch = MemSearch ulower, sJournal = MemJournal, sMaxEntryBytes = MemMaxEntryBytes,
     sSearcher = Some \<lparr>ssOptions = AllSearchOptions, ssSearchWith = MemSearchWith ulower\<rparr>,
     sLastSeqer = Some MemLastSeq\<rparr>"

section \<open>The store refines its specification\<close>

definition mem_view :: "MemStore \<Rightarrow> AbsStore" where
  "mem_view m = \<lparr>aMax = mMax m, aLive = (\<lambda>sc n. map_of (live_scope m sc) n), aJournal = mJournal m\<rparr>"

definition mem_wf :: "MemStore \<Rightarrow> bool" where
  "mem_wf m \<longleftrightarrow> (\<forall>sc. distinct (map fst (live_scope m sc)))"

text \<open>The journal of a process is in its memory, so it holds fewer than \<open>2 ^ 64\<close> records; nothing
  below needs that, except that a cursor separates records when sequence numbers do not wrap.\<close>

definition mem_inv :: "MemStore \<Rightarrow> bool" where
  "mem_inv m \<longleftrightarrow> mem_wf m \<and> abs_inv (mem_view m)"

lemma mem_view_simps [simp]:
  "aMax (mem_view m) = mMax m" "aLive (mem_view m) sc n = map_of (live_scope m sc) n"
  "aJournal (mem_view m) = mJournal m"
  by (simp_all add: mem_view_def)

lemma live_scope_update:
  "live_scope (m\<lparr>mLive := AList.update sc t (mLive m)\<rparr>) sc' = (if sc' = sc then t else live_scope m sc')"
  by (simp add: live_scope_def update_conv')

lemma live_scope_journal [simp]: "live_scope (m\<lparr>mJournal := js\<rparr>) sc = live_scope m sc"
  by (simp add: live_scope_def)

lemma mem_live_clone:
  assumes "mem_inv m" and "map_of (live_scope m sc) n = Some e"
  shows "cloneEntry e = e" "eScope e = sc" "eName e = n"
proof -
  have "abs_inv (mem_view m)" "aLive (mem_view m) sc n = Some e"
    using assms by (simp_all add: mem_inv_def)
  note l = abs_inv_live [OF this]
  show "eScope e = sc" "eName e = n" by (fact l)+
  from l(4) show "cloneEntry e = e" by (simp add: normal_entry_def cloneEntry_normal)
qed

lemma clone_stored_form: "cloneEntry (stored_form now e) = stored_form now e"
  by (simp add: cloneEntry_normal)

lemma MemPut_refines:
  assumes "mem_inv m"
  shows "MemPut session now e opts m = (r, m') \<Longrightarrow>
     mem_wf m' \<and> abs_put session now e opts (mem_view m) = (r, mem_view m')"
proof -
  assume put: "MemPut session now e opts m = (r, m')"
  let ?st = "map_of (live_scope m (eScope e)) (eName e)"
  have sf: "(cloneEntry e)\<lparr>eHash := Hash (eContent e), eMetaHash := MetaHash (eMeta (cloneEntry e)), eUpdated := now,
      eDeleted := False\<rparr> = stored_form now e"
    by (simp add: stored_form_def) (rule arg_cong [where f = "\<lambda>h. (cloneEntry e)\<lparr>eHash := _, eMetaHash := h, eUpdated := _, eDeleted := _\<rparr>"], rule MetaHash_items, simp)
  from assms have seq: "of_nat (length (mJournal m)) + 1 = next_seq (mJournal m)"
    by (simp add: mem_inv_def abs_inv_def numbered_next_seq)
  show ?thesis
  proof (cases "CheckEntry e (mMax m) ?st")
    case (Some err)
    with put assms show ?thesis by (auto simp: MemPut_def abs_put_def Let_def mem_inv_def)
  next
    case ce: None
    show ?thesis
    proof (cases "Check (ResolvePutOptions opts) (eScope e) (eName e) ?st")
      case (Some err)
      with ce put assms show ?thesis by (auto simp: MemPut_def abs_put_def Let_def mem_inv_def)
    next
      case None
      let ?m = "m\<lparr>mLive := AList.update (eScope e) (AList.update (eName e) (stored_form now e) (live_scope m (eScope e))) (mLive m)\<rparr>"
      let ?c = "\<lparr>cSeq = next_seq (mJournal m), cEntry = stored_form now e, cPrev = BaseFor (ResolvePutOptions opts) ?st,
               cReplaced = hash_of ?st, cSession = session, cSource = [], cAt = now\<rparr>"
      from put ce None have r: "r = Inr ?c" and m': "m' = ?m\<lparr>mJournal := mJournal m @ [?c]\<rparr>"
        by (auto simp: MemPut_def Let_def appendLocked_def sf clone_stored_form seq hash_of_def)
      have l: "live_scope m' = (live_scope m)(eScope e := AList.update (eName e) (stored_form now e) (live_scope m (eScope e)))"
        by (auto simp: m' live_scope_update)
      have "mem_wf m'" using assms by (simp add: mem_wf_def mem_inv_def l distinct_update)
      moreover have "abs_put session now e opts (mem_view m) = (r, mem_view m')"
        using ce None by (simp add: abs_put_def Let_def r) (simp add: mem_view_def m' live_scope_update update_conv' fun_eq_iff)
      ultimately show ?thesis ..
    qed
  qed
qed

lemma MemForget_refines:
  assumes "mem_inv m"
  shows "MemForget session now sc n m = (r, m') \<Longrightarrow>
     mem_wf m' \<and> abs_forget session now sc n (mem_view m) = (r, mem_view m')"
proof -
  assume fg: "MemForget session now sc n m = (r, m')"
  from assms have seq: "of_nat (length (mJournal m)) + 1 = next_seq (mJournal m)"
    by (simp add: mem_inv_def abs_inv_def numbered_next_seq)
  show ?thesis
  proof (cases "CheckRef sc n")
    case (Some err)
    with fg assms show ?thesis by (auto simp: MemForget_def abs_forget_def mem_inv_def)
  next
    case cr: None
    show ?thesis
    proof (cases "map_of (live_scope m sc) n")
      case None
      with cr fg assms show ?thesis by (auto simp: MemForget_def abs_forget_def mem_inv_def)
    next
      case (Some e)
      have cl: "cloneEntry (e\<lparr>eDeleted := d, eUpdated := t\<rparr>) = e\<lparr>eDeleted := d, eUpdated := t\<rparr>" for d t
        using assms Some abs_inv_live(4) [of "mem_view m" sc n e]
        by (intro cloneEntry_normal) (auto simp: mem_inv_def normal_entry_def)
      let ?m = "m\<lparr>mLive := AList.update sc (AList.delete n (live_scope m sc)) (mLive m)\<rparr>"
      let ?c = "\<lparr>cSeq = next_seq (mJournal m), cEntry = e\<lparr>eDeleted := True, eUpdated := now\<rparr>, cPrev = eHash e,
               cReplaced = eHash e, cSession = session, cSource = [], cAt = now\<rparr>"
      from fg cr Some have r: "r = Inr ?c" and m': "m' = ?m\<lparr>mJournal := mJournal m @ [?c]\<rparr>"
        by (auto simp: MemForget_def Let_def appendLocked_def cl seq)
      have l: "live_scope m' = (live_scope m)(sc := AList.delete n (live_scope m sc))"
        by (auto simp: m' live_scope_update)
      have "mem_wf m'" using assms by (simp add: mem_wf_def mem_inv_def l distinct_delete)
      moreover have "abs_forget session now sc n (mem_view m) = (r, mem_view m')"
        using cr Some by (simp add: abs_forget_def Let_def r) (simp add: mem_view_def m' live_scope_update delete_conv' fun_eq_iff)
      ultimately show ?thesis ..
    qed
  qed
qed

lemma MemPut_inv: "mem_inv m \<Longrightarrow> MemPut session now e opts m = (r, m') \<Longrightarrow> mem_inv m'"
  using MemPut_refines [of m session now e opts r m'] abs_put_inv by (auto simp: mem_inv_def)

lemma MemForget_inv: "mem_inv m \<Longrightarrow> MemForget session now sc n m = (r, m') \<Longrightarrow> mem_inv m'"
  using MemForget_refines [of m session now sc n r m'] abs_forget_inv by (auto simp: mem_inv_def)

lemma MemGet_refines: "mem_inv m \<Longrightarrow> MemGet sc n m = abs_get sc n (mem_view m)"
  by (auto simp: MemGet_def abs_get_def mem_live_clone split: option.split)

lemma listLocked_clone: "mem_inv m \<Longrightarrow> listLocked m sc = sort_key eName (map snd (live_scope m sc))"
proof -
  assume inv: "mem_inv m"
  have "cloneEntry e = e" if "(n, e) \<in> set (live_scope m sc)" for n e
    using that inv by (intro mem_live_clone(1)) (auto simp: mem_inv_def mem_wf_def intro: map_of_is_SomeI)
  then have "map (\<lambda>(n, e). cloneEntry e) (live_scope m sc) = map snd (live_scope m sc)" by auto
  then show ?thesis by (simp only: listLocked_def)
qed

lemma listLocked_set: "mem_inv m \<Longrightarrow> e \<in> set (listLocked m sc) \<longleftrightarrow> map_of (live_scope m sc) (eName e) = Some e"
proof
  assume inv: "mem_inv m" and "e \<in> set (listLocked m sc)"
  then obtain n where n: "(n, e) \<in> set (live_scope m sc)" by (auto simp: listLocked_clone)
  with inv have "map_of (live_scope m sc) n = Some e" by (auto simp: mem_inv_def mem_wf_def intro: map_of_is_SomeI)
  with mem_live_clone(3) [OF inv this] show "map_of (live_scope m sc) (eName e) = Some e" by simp
next
  assume "mem_inv m" and "map_of (live_scope m sc) (eName e) = Some e"
  then show "e \<in> set (listLocked m sc)" by (force simp: listLocked_clone dest: map_of_SomeD)
qed

lemma listLocked_sorted: "mem_inv m \<Longrightarrow> sorted_wrt (<) (map eName (listLocked m sc))"
proof -
  assume inv: "mem_inv m"
  have "map eName (map snd (live_scope m sc)) = map fst (live_scope m sc)"
  proof (simp, intro ballI, clarsimp)
    fix n e assume "(n, e) \<in> set (live_scope m sc)"
    with inv have "map_of (live_scope m sc) n = Some e" by (auto simp: mem_inv_def mem_wf_def intro: map_of_is_SomeI)
    then show "eName e = n" using inv by (rule mem_live_clone(3) [rotated])
  qed
  moreover have "distinct (map fst (live_scope m sc))" using inv by (simp add: mem_inv_def mem_wf_def)
  ultimately have "distinct (map eName (listLocked m sc))"
    by (simp add: listLocked_clone [OF inv] distinct_map inj_on_def) (metis)
  moreover have "sorted (map eName (listLocked m sc))" by (simp add: listLocked_def)
  ultimately show ?thesis by (simp add: strict_sorted_iff)
qed

lemma MemJournal_inv:
  assumes "mem_inv m"
  shows "MemJournal after m = map Inr (if after < of_nat (length (mJournal m)) then drop (unat after) (mJournal m) else [])"
proof -
  have "c\<lparr>cEntry := cloneEntry (cEntry c)\<rparr> = c" if "c \<in> set (mJournal m)" for c
    using that assms by (simp add: mem_inv_def abs_inv_def normal_entry_def cloneEntry_normal)
  then show ?thesis by (auto simp: MemJournal_def Let_def dest: in_set_dropD)
qed

lemma mem_inv_new: "mem_inv \<lparr>mMax = k, mLive = [], mJournal = []\<rparr>"
  by (simp add: mem_inv_def mem_wf_def abs_inv_def live_scope_def numbered_def replay_def)

section \<open>The interpretation\<close>

lemma memStore_simps [simp]:
  "sGet (memStore u) = MemGet" "sList (memStore u) = MemList" "sPut (memStore u) = MemPut"
  "sForget (memStore u) = MemForget" "sJournal (memStore u) = MemJournal"
  "sMaxEntryBytes (memStore u) = MemMaxEntryBytes" "sSearch (memStore u) = MemSearch u"
  "sSearcher (memStore u) = Some \<lparr>ssOptions = AllSearchOptions, ssSearchWith = MemSearchWith u\<rparr>"
  "sLastSeqer (memStore u) = Some MemLastSeq"
  by (simp_all add: memStore_def)

interpretation mem: memory_store "memStore u" mem_inv mem_view for u
proof (unfold_locales, goal_cases)
  case (1 s)
  then show ?case by (simp add: mem_inv_def)
next
  case (2 s sc n)
  then show ?case by (simp add: MemGet_refines)
next
  case (3 s sc)
  then show ?case by (simp add: MemList_def CheckScope_def)
next
  case (4 s sc)
  then show ?case by (simp add: MemList_def CheckScope_def listLocked_set listLocked_sorted)
next
  case (5 s session now e opts r s')
  then show ?case using MemPut_refines [of s session now e opts r s'] MemPut_inv by simp
next
  case (6 s session now sc n r s')
  then show ?case using MemForget_refines [of s session now sc n r s'] MemForget_inv by simp
next
  case (7 s after)
  then have "unat (of_nat (length (mJournal s)) :: uint64) = length (mJournal s)" by (simp only: unat_of_nat) simp
  with 7 show ?case by (simp add: MemJournal_inv word_less_nat_alt)
next
  case (8 s)
  then show ?case by (simp add: MemMaxEntryBytes_def)
qed

section \<open>Runs\<close>

text \<open>A step is a call of an operation that writes, whatever its arguments and result.\<close>

inductive mem_step :: "MemStore \<Rightarrow> MemStore \<Rightarrow> bool" where
  put: "MemPut session now e opts m = (r, m') \<Longrightarrow> mem_step m m'"
| forget: "MemForget session now sc n m = (r, m') \<Longrightarrow> mem_step m m'"

inductive_cases mem_stepE: "mem_step m m'"

lemma mem_step_inv: "mem_step m m' \<Longrightarrow> mem_inv m \<Longrightarrow> mem_inv m'"
  by (erule mem_stepE) (auto intro: MemPut_inv MemForget_inv)

lemma mem_steps_inv: "mem_step\<^sup>*\<^sup>* m m' \<Longrightarrow> mem_inv m \<Longrightarrow> mem_inv m'"
  by (induction rule: rtranclp_induct) (auto intro: mem_step_inv)

lemma mem_inv_New: "mem_inv (NewMemStore [WithMaxEntryBytes k])"
  by (simp add: NewMemStore_def WithMaxEntryBytes_def mem_inv_new)

definition sample_entry :: Entry where
  "sample_entry = \<lparr>eScope = ''user'', eName = ''tea'', eContent = ''green'', eMeta = Some [(''description'', ''what to drink'')],
     eHash = [], eMetaHash = [], eUpdated = 0, eDeleted = False\<rparr>"

lemma sample_entry_ok: "entry_ok sample_entry 4096"
  by code_simp

lemma sample_entry_key [simp]: "eScope sample_entry = ''user''" "eName sample_entry = ''tea''"
  by (simp_all add: sample_entry_def)

lemma sample_put:
  assumes "Check (ResolvePutOptions opts) ''user'' ''tea'' None = None"
  shows "\<exists>c m. MemPut session now sample_entry opts (NewMemStore [WithMaxEntryBytes 4096]) = (Inr c, m)"
proof -
  have "CheckEntry sample_entry 4096 None = None" using sample_entry_ok by (simp add: CheckEntry_None)
  with assms show ?thesis
    by (simp add: MemPut_def NewMemStore_def WithMaxEntryBytes_def live_scope_def Let_def split: prod.split)
qed

lemma sample_put_plain:
  "\<exists>c m. MemPut session now sample_entry [] (NewMemStore [WithMaxEntryBytes 4096]) = (Inr c, m)"
  by (rule sample_put) (simp add: Check_def ResolvePutOptions_def zeroPutOptions_def)

lemma mem_journal_numbered: "mem_inv m \<Longrightarrow> numbered (mJournal m)"
  by (simp add: mem_inv_def abs_inv_def)

lemma filter_drop:
  assumes "numbered js" and "length js < 2 ^ 64"
  shows "filter (\<lambda>c. after < cSeq c) js = (if after < of_nat (length js) then drop (unat after) js else [])"
  using assms
proof (induction js rule: rev_induct)
  case (snoc c js)
  have u: "unat (of_nat (length js) :: uint64) = length js" "unat (of_nat (Suc (length js)) :: uint64) = Suc (length js)"
    using snoc.prems(2) by (simp_all only: unat_of_nat) simp_all
  have c: "cSeq c = of_nat (Suc (length js))" and n: "numbered js" using snoc.prems(1) by (simp_all add: numbered_snoc)
  from snoc.IH [OF n] snoc.prems(2) have IH: "filter (\<lambda>c. after < cSeq c) js =
      (if after < of_nat (length js) then drop (unat after) js else [])" by simp
  show ?case
    unfolding filter_append IH using u
    by (auto simp: c word_less_nat_alt simp del: of_nat_Suc)
qed simp

section \<open>Properties\<close>

text \<open>C12: in every state the in-memory store reaches from a new one, the journal is numbered from one
  without gaps, every record replaces what the records before it left, replaying it gives exactly
  the live entries, and every live entry passes the entry check and carries the hash of its
  content and of its metadata.\<close>

theorem mem_store_invariant:
  assumes "mem_step\<^sup>*\<^sup>* (NewMemStore [WithMaxEntryBytes k]) m"
  shows "numbered (mJournal m) \<and> chained (mJournal m) \<and>
    (\<forall>sc n. map_of (live_scope m sc) n = replay (mJournal m) (sc, n)) \<and>
    (\<forall>sc n e. map_of (live_scope m sc) n = Some e \<longrightarrow> eScope e = sc \<and> eName e = n \<and> entry_ok e (mMax m) \<and>
       eHash e = Hash (eContent e) \<and> eMetaHash e = MetaHash (eMeta e))"
proof -
  have i: "abs_inv (mem_view m)" using mem_steps_inv [OF assms mem_inv_New] by (simp add: mem_inv_def)
  with abs_inv_live [OF i] show ?thesis by (auto simp: abs_inv_def normal_entry_def)
qed

theorem mem_store_invariant_witness:
  "\<exists>c m. MemPut ''s1'' 7 sample_entry [] (NewMemStore [WithMaxEntryBytes 4096]) = (Inr c, m) \<and> chained (mJournal m)"
proof -
  obtain c m where p: "MemPut ''s1'' 7 sample_entry [] (NewMemStore [WithMaxEntryBytes 4096]) = (Inr c, m)"
    using sample_put_plain by blast
  then have "mem_step\<^sup>*\<^sup>* (NewMemStore [WithMaxEntryBytes 4096]) m" by (blast intro: mem_step.put)
  with p mem_store_invariant show ?thesis by blast
qed

text \<open>C13: \<^verbatim>\<open>Put\<close> of the in-memory store does what the abstract store's put does: the same result, record or
  error, and the same live entries and journal afterwards.\<close>

theorem mem_put_refines:
  assumes "mem_inv m" "MemPut session now e opts m = (r, m')"
  shows "abs_put session now e opts (mem_view m) = (r, mem_view m') \<and> mem_inv m'"
  using mem.put_refines [where u = "\<lambda>r. r" and s = m] assms by simp

theorem mem_put_refines_witness:
  "\<exists>c m. abs_put ''s1'' 7 sample_entry [] (mem_view (NewMemStore [WithMaxEntryBytes 4096])) = (Inr c, mem_view m)"
proof -
  obtain c m where p: "MemPut ''s1'' 7 sample_entry [] (NewMemStore [WithMaxEntryBytes 4096]) = (Inr c, m)"
    using sample_put_plain by blast
  from mem_put_refines [OF mem_inv_New this] show ?thesis by blast
qed

text \<open>\<^verbatim>\<open>Forget\<close> refines the abstract store's forget: it removes a live entry and journals its last
  content as deleted, and refuses a bad reference or an absent entry leaving everything as it was.\<close>

theorem mem_forget_refines:
  assumes "mem_inv m" "MemForget session now sc n m = (r, m')"
  shows "abs_forget session now sc n (mem_view m) = (r, mem_view m') \<and> mem_inv m'"
  using mem.forget_refines [where u = "\<lambda>r. r" and s = m] assms by simp

theorem mem_forget_refines_witness:
  "\<exists>r m. abs_forget ''s1'' 7 ''user'' ''tea'' (mem_view (NewMemStore [WithMaxEntryBytes 4096])) = (r, mem_view m)"
proof -
  obtain r m where "MemForget ''s1'' 7 ''user'' ''tea'' (NewMemStore [WithMaxEntryBytes 4096]) = (r, m)" by fastforce
  from mem_forget_refines [OF mem_inv_New this] show ?thesis by blast
qed

text \<open>After a put that succeeded, \<^verbatim>\<open>Get\<close> returns the entry as stored, with its hashes and time, and
  every other entry reads as before.\<close>

theorem mem_get_after_put:
  assumes "mem_inv m" "MemPut session now e opts m = (Inr c, m')"
  shows "MemGet (eScope e) (eName e) m' = Inr (stored_form now e) \<and> cEntry c = stored_form now e \<and>
    (\<forall>sc n. (sc, n) \<noteq> (eScope e, eName e) \<longrightarrow> MemGet sc n m' = MemGet sc n m)"
proof -
  have p: "sPut (memStore (\<lambda>r. r)) session now e opts m = (Inr c, m')" using assms(2) by simp
  have "MemGet sc n m' = MemGet sc n m" if "(sc, n) \<noteq> (eScope e, eName e)" for sc n
    using mem.get_frame_put [OF assms(1) p that] by simp
  moreover have "cEntry c = stored_form now e"
    using MemPut_refines [OF assms] by (auto elim: abs_put_cases)
  ultimately show ?thesis using mem.get_after_put [OF assms(1) p] by simp
qed

theorem mem_get_after_put_witness:
  "\<exists>c m. MemPut ''s1'' 7 sample_entry [] (NewMemStore [WithMaxEntryBytes 4096]) = (Inr c, m) \<and>
     MemGet ''user'' ''tea'' m = Inr (stored_form 7 sample_entry)"
proof -
  obtain c m where p: "MemPut ''s1'' 7 sample_entry [] (NewMemStore [WithMaxEntryBytes 4096]) = (Inr c, m)"
    using sample_put_plain by blast
  with mem_get_after_put [OF mem_inv_New p] show ?thesis by auto
qed

text \<open>The options of a compare-and-swap: on the content alone, or on the content and the metadata.\<close>

definition swap_options :: "string \<Rightarrow> string option \<Rightarrow> PutOption list" where
  "swap_options h mh = IfHash h # (case mh of None \<Rightarrow> [] | Some k \<Rightarrow> [IfMetaHash k])"

definition meta_hash_of :: "Entry option \<Rightarrow> string" where
  "meta_hash_of st = (case st of None \<Rightarrow> [] | Some e \<Rightarrow> MetaHash (eMeta e))"

lemma Check_swap:
  "Check (ResolvePutOptions (swap_options h mh)) sc n st =
     (if hash_of st \<noteq> h then Some (ErrConflict \<lparr>kScope = sc, kName = n, kWant = h, kHave = hash_of st, kMeta = False\<rparr>)
      else case mh of None \<Rightarrow> None
        | Some k \<Rightarrow> if meta_hash_of st \<noteq> k then Some (ErrConflict \<lparr>kScope = sc, kName = n, kWant = k, kHave = meta_hash_of st, kMeta = True\<rparr>) else None)"
  by (cases st; cases mh) (simp_all add: Check_def Let_def swap_options_def hash_of_def meta_hash_of_def ResolvePutOptions_def zeroPutOptions_def IfHash_def IfMetaHash_def)

lemma BaseFor_swap: "BaseFor (ResolvePutOptions (swap_options h mh)) st = h"
  by (cases mh) (simp_all add: BaseFor_def swap_options_def ResolvePutOptions_def zeroPutOptions_def IfHash_def IfMetaHash_def)

text \<open>C14: a conditional put is a compare-and-swap, on the content hash alone or on the content hash and the metadata hash, \<open>[]\<close> meaning no entry.  Of an
  entry that passes the entry check it succeeds exactly when every hash given is the one stored: then the journal gains the one record of the write, based on and
  replacing the content given, a read returns the new entry, and every other entry is as it was.  Otherwise it fails with the conflict that names both hashes, the
  content's before the metadata's, and changes nothing.\<close>

theorem mem_put_cas:
  assumes "mem_inv m" "entry_ok e (mMax m)"
  shows "let stored = map_of (live_scope m (eScope e)) (eName e) in
     if hash_of stored \<noteq> h then MemPut session now e (swap_options h mh) m =
       (Inl (ErrConflict \<lparr>kScope = eScope e, kName = eName e, kWant = h, kHave = hash_of stored, kMeta = False\<rparr>), m)
     else if mh \<noteq> None \<and> meta_hash_of stored \<noteq> the mh then MemPut session now e (swap_options h mh) m =
       (Inl (ErrConflict \<lparr>kScope = eScope e, kName = eName e, kWant = the mh, kHave = meta_hash_of stored, kMeta = True\<rparr>), m)
     else \<exists>c m'. MemPut session now e (swap_options h mh) m = (Inr c, m') \<and>
       c = \<lparr>cSeq = next_seq (mJournal m), cEntry = stored_form now e, cPrev = h, cReplaced = h, cSession = session, cSource = [], cAt = now\<rparr> \<and>
       mJournal m' = mJournal m @ [c] \<and> MemGet (eScope e) (eName e) m' = Inr (stored_form now e) \<and>
       (\<forall>sc n. (sc, n) \<noteq> (eScope e, eName e) \<longrightarrow> MemGet sc n m' = MemGet sc n m)"
proof -
  let ?st = "map_of (live_scope m (eScope e)) (eName e)" and ?opts = "swap_options h mh"
  have ok: "CheckEntry e (mMax m) ?st = None" using assms(2) by (simp add: CheckEntry_None)
  show ?thesis
  proof (cases "Check (ResolvePutOptions ?opts) (eScope e) (eName e) ?st")
    case (Some err)
    then have "MemPut session now e ?opts m = (Inl err, m)" using ok by (simp add: MemPut_def Let_def)
    with Some show ?thesis by (auto simp: Let_def Check_swap split: if_splits option.splits)
  next
    case None
    then have hashes: "hash_of ?st = h" "\<not> (mh \<noteq> None \<and> meta_hash_of ?st \<noteq> the mh)" by (auto simp: Check_swap split: if_splits option.splits)
    obtain r m' where p: "MemPut session now e ?opts m = (r, m')" by fastforce
    note q = MemPut_refines [OF assms(1) p]
    let ?c = "\<lparr>cSeq = next_seq (mJournal m), cEntry = stored_form now e, cPrev = h, cReplaced = h, cSession = session, cSource = [], cAt = now\<rparr>"
    have r: "r = Inr ?c" "mJournal m' = mJournal m @ [?c]"
      using q ok None hashes(1) by (auto simp: abs_put_def Let_def mem_view_def BaseFor_swap)
    have "MemGet (eScope e) (eName e) m' = Inr (stored_form now e)" using mem.get_after_put [where u = "\<lambda>r. r", OF assms(1), of session now e ?opts ?c m'] p r(1) by simp
    moreover have "MemGet sc n m' = MemGet sc n m" if "(sc, n) \<noteq> (eScope e, eName e)" for sc n
      using mem.get_frame_put [where u = "\<lambda>r. r", OF assms(1), of session now e ?opts r m' sc n] p that by simp
    ultimately show ?thesis using p r hashes by (auto simp: Let_def)
  qed
qed

theorem mem_put_cas_witness:
  "(\<exists>c m. MemPut ''s1'' 7 sample_entry (swap_options [] (Some [])) (NewMemStore [WithMaxEntryBytes 4096]) = (Inr c, m) \<and>
      mJournal m = [c] \<and> MemGet ''user'' ''tea'' m = Inr (stored_form 7 sample_entry)) \<and>
   MemPut ''s1'' 7 sample_entry (swap_options [] (Some ''k'')) (NewMemStore [WithMaxEntryBytes 4096]) =
      (Inl (ErrConflict \<lparr>kScope = ''user'', kName = ''tea'', kWant = ''k'', kHave = [], kMeta = True\<rparr>), NewMemStore [WithMaxEntryBytes 4096])"
proof -
  have ok: "entry_ok sample_entry (mMax (NewMemStore [WithMaxEntryBytes 4096]))"
    using sample_entry_ok by (simp add: NewMemStore_def WithMaxEntryBytes_def)
  have new: "map_of (live_scope (NewMemStore [WithMaxEntryBytes 4096]) sc) n = None" "mJournal (NewMemStore [WithMaxEntryBytes 4096]) = []" for sc n
    by (simp_all add: live_scope_def NewMemStore_def WithMaxEntryBytes_def)
  have none: "hash_of None = []" "meta_hash_of None = []" by (simp_all add: hash_of_def meta_hash_of_def)
  from mem_put_cas [OF mem_inv_New ok, of "[]" "''s1''" 7 "Some []"] mem_put_cas [OF mem_inv_New ok, of "[]" "''s1''" 7 "Some ''k''"]
  show ?thesis by (auto simp: Let_def new none)
qed

text \<open>\<^verbatim>\<open>List\<close> of a valid scope returns every live entry of it once, in strictly ascending name order.\<close>

theorem mem_list_sorted:
  assumes "mem_inv m" "ValidScope sc"
  shows "\<exists>es. MemList sc m = Inr es \<and> sorted_wrt (<) (map eName es) \<and>
    (\<forall>e. e \<in> set es \<longleftrightarrow> MemGet sc (eName e) m = Inr e)"
proof -
  obtain es where es: "MemList sc m = Inr es" "sorted_wrt (<) (map eName es)"
      "\<And>e. e \<in> set es \<longleftrightarrow> aLive (mem_view m) sc (eName e) = Some e"
    using mem.list_ok [OF assms] by auto
  have i: "abs_inv (mem_view m)" using assms(1) by (simp add: mem_inv_def)
  have "aLive (mem_view m) sc (eName e) = Some e \<longleftrightarrow> MemGet sc (eName e) m = Inr e" for e
    using abs_inv_live(2,4) [OF i, of sc "eName e" e] assms
    by (auto simp: MemGet_refines abs_get_def CheckRef_def CheckScope_def normal_entry_def entry_ok_def split: option.splits)
  with es show ?thesis by blast
qed

theorem mem_list_sorted_witness:
  "\<exists>c m es. MemPut ''s1'' 7 sample_entry [] (NewMemStore [WithMaxEntryBytes 4096]) = (Inr c, m) \<and>
     MemList ''user'' m = Inr es \<and> sorted_wrt (<) (map eName es)"
proof -
  obtain c m where p: "MemPut ''s1'' 7 sample_entry [] (NewMemStore [WithMaxEntryBytes 4096]) = (Inr c, m)"
    using sample_put_plain by blast
  have "ValidScope ''user''" by code_simp
  with mem_list_sorted [OF MemPut_inv [OF mem_inv_New p]] p show ?thesis by blast
qed

text \<open>Reading the journal after a cursor gives exactly the records with a greater sequence number,
  in order, as long as the numbers have not wrapped.\<close>

theorem mem_journal_cursor:
  assumes "mem_inv m" "length (mJournal m) < 2 ^ 64"
  shows "MemJournal after m = map Inr (filter (\<lambda>c. after < cSeq c) (mJournal m))"
  using MemJournal_inv [OF assms(1)] filter_drop [OF mem_journal_numbered [OF assms(1)] assms(2)] by simp

theorem mem_journal_cursor_witness:
  "\<exists>c m. MemPut ''s1'' 7 sample_entry [] (NewMemStore [WithMaxEntryBytes 4096]) = (Inr c, m) \<and> MemJournal 0 m = [Inr c]"
proof -
  obtain c m where p: "MemPut ''s1'' 7 sample_entry [] (NewMemStore [WithMaxEntryBytes 4096]) = (Inr c, m)"
    using sample_put_plain by blast
  have j: "mJournal m = [c]" and s: "cSeq c = 1"
    using MemPut_refines [OF mem_inv_New p]
    by (auto elim!: abs_put_cases simp: NewMemStore_def WithMaxEntryBytes_def next_seq_def mem_view_def)
  have "MemJournal 0 m = map Inr (filter (\<lambda>c. 0 < cSeq c) (mJournal m))"
    using mem_journal_cursor [OF MemPut_inv [OF mem_inv_New p]] j by simp
  with p j s show ?thesis by simp
qed

end
