(* ===== verification/LostUpdate.thy ===== *)
theory LostUpdate
  imports Store MemStore
begin

text \<open>
  \<^verbatim>\<open>lostupdate.go\<close>: the reader that lists the journal records that lost an update, and the
  journal's last sequence number.  The loop over the iterator is a fold over what it yields;
  the variables it carries are the record \<open>lu_state\<close>.  The lemmas show that every fork is
  reported wherever it lies, that every error comes back, that a break marked as after damage
  follows a record that could not be read, and that on a whole journal the list is empty
  exactly when the journal chains and every write was built on what it replaced.
\<close>

record LostUpdateRec =
  luChange :: Change
  luOver :: string
  luBreak :: bool
  luAfterDamage :: bool

record lu_state =
  luLast :: "(string \<times> (string \<times> nat)) list"
  luDamage :: nat
  luStart :: bool
  luFirst :: bool
  luErrs :: "error list"
  luOut :: "LostUpdateRec list"

definition lu_key :: "Change \<Rightarrow> string" where
  "lu_key c = eScope (cEntry c) @ ''/'' @ eName (cEntry c)"

definition lu_held :: "lu_state \<Rightarrow> bool \<Rightarrow> string \<Rightarrow> (string \<times> nat) option" where
  "lu_held st start k =
     (case map_of (luLast st) k of
        Some h \<Rightarrow> Some h
      | None \<Rightarrow> if start then Some ([], 0) else None)"

definition lu_record :: "Change \<Rightarrow> (string \<times> nat) option \<Rightarrow> nat \<Rightarrow> LostUpdateRec" where
  "lu_record c h damage =
     (case h of
        None \<Rightarrow> \<lparr>luChange = c, luOver = cReplaced c, luBreak = False, luAfterDamage = False\<rparr>
      | Some (hash, d) \<Rightarrow> \<lparr>luChange = c, luOver = hash, luBreak = cReplaced c \<noteq> hash,
            luAfterDamage = cReplaced c \<noteq> hash \<and> damage > d\<rparr>)"

fun lu_step :: "lu_state \<Rightarrow> error + Change \<Rightarrow> lu_state" where
  "lu_step st (Inl err) = st\<lparr>luErrs := luErrs st @ [err], luDamage := luDamage st + 1\<rparr>"
| "lu_step st (Inr c) =
     (let start = (if luFirst st \<and> cSeq c > of_nat (luDamage st) + 1 then False else luStart st);
          key = lu_key c;
          lu = lu_record c (lu_held st start key) (luDamage st);
          out = (if luBreak lu \<or> cPrev c \<noteq> cReplaced c then luOut st @ [lu] else luOut st);
          next = ((if eDeleted (cEntry c) then [] else eHash (cEntry c)), luDamage st)
      in st\<lparr>luStart := start, luFirst := False, luOut := out, luLast := AList.update key next (luLast st)\<rparr>)"

definition lu_init :: "uint64 \<Rightarrow> lu_state" where
  "lu_init after = \<lparr>luLast = [], luDamage = 0, luStart = (after = 0), luFirst = True, luErrs = [], luOut = []\<rparr>"

definition lost_updates :: "uint64 \<Rightarrow> (error + Change) list \<Rightarrow> LostUpdateRec list \<times> error list" where
  "lost_updates after ys = (let st = foldl lu_step (lu_init after) ys in (luOut st, luErrs st))"

definition LostUpdates :: "'s Store \<Rightarrow> uint64 \<Rightarrow> 's \<Rightarrow> LostUpdateRec list \<times> error list" where
  "LostUpdates S after s = lost_updates after (sJournal S after s)"

fun last_seq_step :: "uint64 \<times> error list \<Rightarrow> error + Change \<Rightarrow> uint64 \<times> error list" where
  "last_seq_step (seq, errs) (Inl err) = (seq, errs @ [err])"
| "last_seq_step (seq, errs) (Inr c) = (max seq (cSeq c), errs)"

definition read_last_seq :: "(error + Change) list \<Rightarrow> uint64 \<times> error list" where
  "read_last_seq ys = foldl last_seq_step (0, []) ys"

definition LastSeq :: "'s Store \<Rightarrow> 's \<Rightarrow> uint64 \<times> error list" where
  "LastSeq S s =
     (case sLastSeqer S of
        Some f \<Rightarrow> (case f s of Inl err \<Rightarrow> (0, [err]) | Inr n \<Rightarrow> (n, []))
      | None \<Rightarrow> read_last_seq (sJournal S 0 s))"

section \<open>Any journal\<close>

lemma luErrs_fold: "luErrs (foldl lu_step st ys) = luErrs st @ [e. Inl e \<leftarrow> ys]"
  by (induction ys arbitrary: st rule: list.induct) (auto simp: Let_def split: sum.splits)

lemma luDamage_fold: "luDamage (foldl lu_step st ys) = luDamage st + length [e. Inl e \<leftarrow> ys]"
  by (induction ys arbitrary: st rule: list.induct) (auto simp: Let_def split: sum.splits)

lemma lu_record_change [simp]: "luChange (lu_record c h d) = c"
  by (simp add: lu_record_def split: option.splits prod.splits)

lemma luOut_step_mono: "set (luOut st) \<subseteq> set (luOut (lu_step st y))"
  by (cases y) (auto simp: Let_def)

lemma luOut_mono: "set (luOut st) \<subseteq> set (luOut (foldl lu_step st ys))"
  by (induction ys arbitrary: st) (use luOut_step_mono in fastforce)+

lemma fork_reported:
  assumes "Inr c \<in> set ys" and "cPrev c \<noteq> cReplaced c"
  shows "\<exists>lu \<in> set (luOut (foldl lu_step st ys)). luChange lu = c"
  using assms(1)
proof (induction ys arbitrary: st)
  case (Cons y ys)
  show ?case
  proof (cases "y = Inr c")
    case True
    with assms(2) have "\<exists>lu \<in> set (luOut (lu_step st y)). luChange lu = c"
      by (auto simp: Let_def)
    then show ?thesis using luOut_mono [of "lu_step st y" ys] by auto
  next
    case False
    with Cons show ?thesis by simp
  qed
qed simp

text \<open>What a reported record satisfies: it is a fork or a break, and a break after damage has an
  unreadable record before it.\<close>

definition lu_good :: "(error + Change) list \<Rightarrow> LostUpdateRec \<Rightarrow> bool" where
  "lu_good ys lu \<longleftrightarrow> (\<exists>pre post. ys = pre @ Inr (luChange lu) # post \<and>
     (luBreak lu \<or> cPrev (luChange lu) \<noteq> cReplaced (luChange lu)) \<and>
     (luBreak lu \<longleftrightarrow> cReplaced (luChange lu) \<noteq> luOver lu) \<and>
     (luAfterDamage lu \<longrightarrow> luBreak lu \<and> (\<exists>err. Inl err \<in> set pre)))"

lemma lu_good_append: "lu_good ys lu \<Longrightarrow> lu_good (ys @ zs) lu"
  unfolding lu_good_def by (elim exE conjE) (rule exI, rule exI, auto)

lemma errs_Nil: "[e. Inl e \<leftarrow> ys] = [] \<longleftrightarrow> (\<forall>err. Inl err \<notin> set ys)"
  by (induction ys rule: list.induct) (auto split: sum.splits)

lemma lu_good_fold: "\<forall>lu \<in> set (luOut (foldl lu_step (lu_init after) ys)). lu_good ys lu"
proof (induction ys rule: rev_induct)
  case Nil
  show ?case by (simp add: lu_init_def)
next
  case (snoc y ys)
  let ?st = "foldl lu_step (lu_init after) ys"
  show ?case
  proof (cases y)
    case (Inl err)
    with snoc show ?thesis by (auto intro: lu_good_append)
  next
    case (Inr c)
    define start where "start = (if luFirst ?st \<and> cSeq c > of_nat (luDamage ?st) + 1 then False else luStart ?st)"
    let ?lu = "lu_record c (lu_held ?st start (lu_key c)) (luDamage ?st)"
    have d: "luDamage ?st > 0 \<Longrightarrow> \<exists>err. Inl err \<in> set ys"
      using luDamage_fold [of "lu_init after" ys] errs_Nil [of ys] by (auto simp: lu_init_def)
    have new: "lu_good (ys @ [y]) ?lu" if "luBreak ?lu \<or> cPrev c \<noteq> cReplaced c"
      unfolding lu_good_def Inr
      using that d
      by (intro exI [of _ ys] exI [of _ "[]"]) (auto simp: lu_record_def split: option.splits prod.splits)
    have "set (luOut (lu_step ?st y)) \<subseteq> set (luOut ?st) \<union> (if luBreak ?lu \<or> cPrev c \<noteq> cReplaced c then {?lu} else {})"
      by (auto simp: Inr Let_def start_def)
    with new snoc show ?thesis by (auto intro: lu_good_append split: if_splits)
  qed
qed

section \<open>A whole journal\<close>

definition named :: "Change \<Rightarrow> bool" where
  "named c \<longleftrightarrow> ValidName (eScope (cEntry c)) \<and> ValidName (eName (cEntry c))"

lemma lu_key_inj: "named c \<Longrightarrow> named d \<Longrightarrow> lu_key c = lu_key d \<longleftrightarrow> ckey c = ckey d"
  using ValidName_excludes(1) by (auto simp: named_def lu_key_def ckey_def cut_unique)

text \<open>The map of states the reader holds stands for the hash each entry has.\<close>

definition lu_known :: "lu_state \<Rightarrow> string \<Rightarrow> string \<times> nat" where
  "lu_known st k = (case map_of (luLast st) k of None \<Rightarrow> ([], 0) | Some h \<Rightarrow> h)"

lemma lu_held_True [simp]: "lu_held st True k = Some (lu_known st k)"
  by (simp add: lu_held_def lu_known_def split: option.split)

lemma lu_known_update:
  "lu_known (st\<lparr>luStart := a, luFirst := b, luOut := out, luLast := AList.update k v (luLast st)\<rparr>) k' =
     (if k' = k then v else lu_known st k')"
  by (simp add: lu_known_def update_conv')

definition holds_hashes :: "lu_state \<Rightarrow> (scope \<times> string \<Rightarrow> string) \<Rightarrow> bool" where
  "holds_hashes st h \<longleftrightarrow> luStart st \<and> luDamage st = 0 \<and>
     (\<forall>c. named c \<longrightarrow> fst (lu_known st (lu_key c)) = h (ckey c))"

lemma holds_hashes_step:
  assumes "holds_hashes st h" and "named c" and "luFirst st \<longrightarrow> cSeq c \<le> 1"
  shows "holds_hashes (lu_step st (Inr c)) (note_hash h c)"
  using assms lu_key_inj [OF _ assms(2)]
  by (auto simp: holds_hashes_def Let_def lu_known_update note_hash_def after_hash_def not_less)

definition lu_fork :: "Change \<Rightarrow> LostUpdateRec" where
  "lu_fork c = \<lparr>luChange = c, luOver = cReplaced c, luBreak = False, luAfterDamage = False\<rparr>"

lemma lu_whole_chained:
  assumes "holds_hashes st h" and "\<forall>c \<in> set cs. named c" and "luFirst st \<longrightarrow> cs = [] \<or> cSeq (hd cs) \<le> 1"
    and "chained_from h cs"
  shows "luOut (foldl lu_step st (map Inr cs)) =
     luOut st @ map lu_fork (filter (\<lambda>c. cPrev c \<noteq> cReplaced c) cs)"
  using assms
proof (induction cs arbitrary: st h)
  case (Cons c cs)
  have n: "named c" and f: "luFirst st \<longrightarrow> cSeq c \<le> 1" using Cons.prems by auto
  note hh = holds_hashes_step [OF Cons.prems(1) n f]
  obtain d where d: "lu_known st (lu_key c) = (cReplaced c, d)"
    using Cons.prems(1,4) n by (cases "lu_known st (lu_key c)") (auto simp: holds_hashes_def)
  have "luOut (lu_step st (Inr c)) = luOut st @ (if cPrev c \<noteq> cReplaced c then [lu_fork c] else [])"
    using Cons.prems(1) f d by (auto simp: holds_hashes_def Let_def lu_record_def lu_fork_def not_less)
  moreover have "\<not> luFirst (lu_step st (Inr c))" by (simp add: Let_def)
  ultimately show ?case using Cons.IH [OF hh] Cons.prems by simp
qed simp

lemma lu_whole_broken:
  assumes "holds_hashes st h" and "\<forall>c \<in> set cs. named c" and "luFirst st \<longrightarrow> cs = [] \<or> cSeq (hd cs) \<le> 1"
    and "\<not> chained_from h cs"
  shows "\<exists>lu \<in> set (luOut (foldl lu_step st (map Inr cs))). luBreak lu"
  using assms
proof (induction cs arbitrary: st h)
  case (Cons c cs)
  have n: "named c" and f: "luFirst st \<longrightarrow> cSeq c \<le> 1" using Cons.prems by auto
  note hh = holds_hashes_step [OF Cons.prems(1) n f]
  show ?case
  proof (cases "cReplaced c = h (ckey c)")
    case True
    moreover have "\<not> luFirst (lu_step st (Inr c))" by (simp add: Let_def)
    ultimately show ?thesis using Cons.IH [OF hh] Cons.prems by simp
  next
    case False
    obtain d where d: "lu_known st (lu_key c) = (h (ckey c), d)"
      using Cons.prems(1) n by (cases "lu_known st (lu_key c)") (auto simp: holds_hashes_def)
    have "\<exists>lu \<in> set (luOut (lu_step st (Inr c))). luBreak lu"
      using Cons.prems(1) f d False by (auto simp: holds_hashes_def Let_def lu_record_def not_less)
    then show ?thesis using luOut_mono [of "lu_step st (Inr c)" "map Inr cs"] by (auto simp del: lu_step.simps)
  qed
qed simp

lemma holds_hashes_init: "holds_hashes (lu_init 0) (\<lambda>_. [])"
  by (simp add: holds_hashes_def lu_init_def lu_known_def)

lemma lost_updates_chained:
  assumes "\<forall>c \<in> set cs. named c" and "cs = [] \<or> cSeq (hd cs) \<le> 1" and "chained cs"
  shows "lost_updates 0 (map Inr cs) = (map lu_fork (filter (\<lambda>c. cPrev c \<noteq> cReplaced c) cs), [])"
proof -
  have "luOut (foldl lu_step (lu_init 0) (map Inr cs)) =
      luOut (lu_init 0) @ map lu_fork (filter (\<lambda>c. cPrev c \<noteq> cReplaced c) cs)"
    using assms by (intro lu_whole_chained [OF holds_hashes_init]) (auto simp: chained_def)
  moreover have "[e. Inl e \<leftarrow> map Inr cs] = ([] :: error list)"
    by (simp add: errs_Nil image_iff)
  ultimately show ?thesis
    by (simp add: lost_updates_def Let_def luErrs_fold) (simp add: lu_init_def)
qed

lemma lost_updates_whole_iff:
  assumes "\<forall>c \<in> set cs. named c" and "cs = [] \<or> cSeq (hd cs) \<le> 1"
  shows "fst (lost_updates 0 (map Inr cs)) = [] \<longleftrightarrow> chained cs \<and> (\<forall>c \<in> set cs. cPrev c = cReplaced c)"
proof (cases "chained cs")
  case True
  with assms show ?thesis by (simp add: lost_updates_chained filter_empty_conv)
next
  case False
  then have "\<exists>lu \<in> set (luOut (foldl lu_step (lu_init 0) (map Inr cs))). luBreak lu"
    using assms by (intro lu_whole_broken [OF holds_hashes_init]) (auto simp: chained_def)
  with False show ?thesis by (auto simp: lost_updates_def Let_def)
qed

section \<open>The journal of a store\<close>

lemma abs_inv_named: "abs_inv a \<Longrightarrow> c \<in> set (aJournal a) \<Longrightarrow> named c"
  by (auto simp: abs_inv_def normal_entry_def entry_ok_def named_def)

lemma numbered_hd: "numbered js \<Longrightarrow> js = [] \<or> cSeq (hd js) \<le> 1"
  by (cases js) (auto simp: numbered_def)

context memory_store
begin

lemma LostUpdates_forks:
  assumes "inv s" and "length (aJournal (view s)) < 2 ^ 64"
  shows "LostUpdates S 0 s =
    (map lu_fork (filter (\<lambda>c. cPrev c \<noteq> cReplaced c) (aJournal (view s))), [])"
proof -
  have a: "abs_inv (view s)" using assms(1) by (rule inv_view)
  then show ?thesis
    unfolding LostUpdates_def journal_all [OF assms]
    by (intro lost_updates_chained) (auto simp: abs_inv_named abs_inv_def numbered_hd)
qed

end

section \<open>The last sequence number\<close>

lemma read_last_seq_map_Inr:
  "foldl last_seq_step (n, errs) (map Inr cs) = (foldl max n (map cSeq cs), errs)"
  by (induction cs arbitrary: n) auto

lemma foldl_max_numbered:
  assumes "numbered js" and "length js < 2 ^ 64"
  shows "foldl max 0 (map cSeq js) = of_nat (length js)"
  using assms
proof (induction js rule: rev_induct)
  case (snoc c js)
  then have "unat (of_nat (length js) :: uint64) = length js" "unat (of_nat (Suc (length js)) :: uint64) = Suc (length js)"
    by (simp_all only: unat_of_nat) simp_all
  then have "(of_nat (length js) :: uint64) \<le> of_nat (Suc (length js))" by (simp add: word_le_nat_alt del: of_nat_Suc)
  with snoc show ?case by (simp add: numbered_snoc max_absorb2 del: of_nat_Suc)
qed simp

lemma memory_read_last_seq:
  assumes "mem_inv m" and "length (mJournal m) < 2 ^ 64"
  shows "read_last_seq (MemJournal 0 m) = (of_nat (length (mJournal m)), [])"
proof -
  have "MemJournal 0 m = map Inr (mJournal m)"
    using mem.journal_all [OF assms(1)] assms(2) by simp
  moreover have "numbered (mJournal m)" using assms(1) by (simp add: mem_inv_def abs_inv_def)
  ultimately show ?thesis using assms(2)
    by (simp add: read_last_seq_def read_last_seq_map_Inr foldl_max_numbered)
qed

section \<open>Properties\<close>

text \<open>C15: whatever the journal yields, damaged records included, every record built on something other
  than what it replaced is reported, and every error of the iteration is returned.\<close>

theorem forks_reported:
  assumes "Inr c \<in> set ys" "cPrev c \<noteq> cReplaced c"
  shows "(\<exists>lu \<in> set (fst (lost_updates after ys)). luChange lu = c) \<and> snd (lost_updates after ys) = [e. Inl e \<leftarrow> ys]"
  using fork_reported [OF assms] luErrs_fold [of "lu_init after" ys]
  by (simp add: lost_updates_def Let_def lu_init_def)

definition sample_change :: "string \<Rightarrow> string \<Rightarrow> Change" where
  "sample_change prev replaced = \<lparr>cSeq = 1, cEntry = sample_entry, cPrev = prev, cReplaced = replaced, cSession = [], cSource = [], cAt = 0\<rparr>"

theorem forks_reported_witness:
  "\<exists>lu \<in> set (fst (lost_updates 0 [Inl (ErrText ''bad line''), Inr (sample_change ''h1'' ''h2'')])). luChange lu = sample_change ''h1'' ''h2''"
  using forks_reported [of "sample_change ''h1'' ''h2''" "[Inl (ErrText ''bad line''), Inr (sample_change ''h1'' ''h2'')]" 0]
  by (simp add: sample_change_def)

text \<open>Nothing is reported without cause: a reported record is in the journal and is a fork or a break,
  a break is a record that replaced something other than what the entry was known to hold, and one
  marked as after damage has an unreadable record before it.\<close>

theorem reports_have_cause:
  assumes "lu \<in> set (fst (lost_updates after ys))"
  shows "\<exists>pre post. ys = pre @ Inr (luChange lu) # post \<and>
    (luBreak lu \<or> cPrev (luChange lu) \<noteq> cReplaced (luChange lu)) \<and>
    (luBreak lu \<longleftrightarrow> cReplaced (luChange lu) \<noteq> luOver lu) \<and>
    (luAfterDamage lu \<longrightarrow> luBreak lu \<and> (\<exists>err. Inl err \<in> set pre))"
  using lu_good_fold [of after ys] assms by (auto simp: lost_updates_def Let_def lu_good_def)

theorem reports_have_cause_witness:
  "\<exists>lu \<in> set (fst (lost_updates 0 [Inr (sample_change ''h1'' ''h2'')])). \<exists>pre post.
     ([Inr (sample_change ''h1'' ''h2'')] :: (error + Change) list) = pre @ Inr (luChange lu) # post"
proof -
  obtain lu where "lu \<in> set (fst (lost_updates 0 [Inr (sample_change ''h1'' ''h2'')]))"
    using fork_reported [of "sample_change ''h1'' ''h2''" "[Inr (sample_change ''h1'' ''h2'')]" "lu_init 0"]
    by (auto simp: lost_updates_def Let_def sample_change_def simp del: lu_step.simps)
  from this reports_have_cause [OF this] show ?thesis by blast
qed

text \<open>Over a whole readable journal of validly named entries, no update is reported exactly when every
  record replaced what the one before it on the entry left and was built on what it replaced.\<close>

theorem whole_journal_clean:
  assumes "\<forall>c \<in> set cs. named c" "cs = [] \<or> cSeq (hd cs) \<le> 1"
  shows "fst (lost_updates 0 (map Inr cs)) = [] \<longleftrightarrow> chained cs \<and> (\<forall>c \<in> set cs. cPrev c = cReplaced c)"
  using assms by (rule lost_updates_whole_iff)

theorem whole_journal_clean_witness: "fst (lost_updates 0 (map Inr [sample_change [] []])) = []"
proof -
  have "named (sample_change [] [])" unfolding named_def by code_simp
  then have "\<forall>c \<in> set [sample_change [] []]. named c" "[sample_change [] []] = [] \<or> cSeq (hd [sample_change [] []]) \<le> 1"
    by (simp_all add: sample_change_def)
  from whole_journal_clean [OF this] show ?thesis by (simp add: chained_def sample_change_def)
qed

text \<open>C16: over the in-memory store's journal the reader lists exactly the writes built on a state other than
  the one they replaced, in journal order, none of them a break, and no error.\<close>

theorem mem_lost_updates:
  assumes "mem_inv m" "length (mJournal m) < 2 ^ 64"
  shows "LostUpdates (memStore u) 0 m =
    (map (\<lambda>c. \<lparr>luChange = c, luOver = cReplaced c, luBreak = False, luAfterDamage = False\<rparr>)
       (filter (\<lambda>c. cPrev c \<noteq> cReplaced c) (mJournal m)), [])"
  using mem.LostUpdates_forks [of m u] assms by (simp add: lu_fork_def)

theorem mem_lost_updates_witness:
  "\<exists>c m. MemPut ''s1'' 7 sample_entry [BasedOn ''sha256:old''] (NewMemStore [WithMaxEntryBytes 4096]) = (Inr c, m) \<and>
     map luChange (fst (LostUpdates (memStore (\<lambda>r. r)) 0 m)) = [c]"
proof -
  obtain c m where p: "MemPut ''s1'' 7 sample_entry [BasedOn ''sha256:old''] (NewMemStore [WithMaxEntryBytes 4096]) = (Inr c, m)"
    using sample_put [of "[BasedOn ''sha256:old'']" "''s1''" 7]
    by (auto simp: Check_def ResolvePutOptions_def zeroPutOptions_def BasedOn_def)
  have j: "mJournal m = [c]" and f: "cPrev c = ''sha256:old''" "cReplaced c = []"
    using MemPut_refines [OF mem_inv_New p]
    by (auto elim!: abs_put_cases simp: NewMemStore_def WithMaxEntryBytes_def mem_view_def live_scope_def hash_of_def
        BaseFor_def ResolvePutOptions_def zeroPutOptions_def BasedOn_def)
  from mem_lost_updates [OF MemPut_inv [OF mem_inv_New p], of "\<lambda>r. r"] j f p show ?thesis by simp
qed

text \<open>The sequence number a store answers with \<^verbatim>\<open>LastSeq\<close> is the one reading its whole journal gives.\<close>

theorem mem_last_seq:
  assumes "mem_inv m" "length (mJournal m) < 2 ^ 64"
  shows "LastSeq (memStore u) m = read_last_seq (MemJournal 0 m)"
  using memory_read_last_seq [OF assms] by (simp add: LastSeq_def MemLastSeq_def)

theorem mem_last_seq_witness:
  "LastSeq (memStore (\<lambda>r. r)) (NewMemStore [WithMaxEntryBytes 4096]) = read_last_seq (MemJournal 0 (NewMemStore [WithMaxEntryBytes 4096]))"
  by (rule mem_last_seq [OF mem_inv_New]) (simp add: NewMemStore_def WithMaxEntryBytes_def)

end
