(* ===== verification/Neutralise.thy ===== *)
theory Neutralise
  imports Prelude
begin

text \<open>
  The rewriting of an entry's content in \<^verbatim>\<open>render.go\<close>: \<^verbatim>\<open>neutralise\<close> and the line functions
  under it.  A line is its body and its line end.  The first loop rewrites headings, HTML
  openers and setext underlines line by line; the second escapes the line that opened a code
  fence still open at the end, until none is open, and terminates because an escaped line
  opens no fence.  The lemmas show that the result has no line the block could read as its own
  structure and no open fence, that content that is already clean is unchanged, and hence
  that the rewriting is idempotent.
\<close>

record line =
  lBody :: string
  lEnd :: string

definition line_end :: "char \<Rightarrow> bool" where
  "line_end c \<longleftrightarrow> c = CR \<or> c = LF"

function splitLines :: "string \<Rightarrow> line list" where
  "splitLines s =
     (let b = takeWhile (\<lambda>c. \<not> line_end c) s; r = dropWhile (\<lambda>c. \<not> line_end c) s
      in case r of
           [] \<Rightarrow> [\<lparr>lBody = s, lEnd = []\<rparr>]
         | c # r' \<Rightarrow>
             if HasPrefix r [CR, LF] then \<lparr>lBody = b, lEnd = [CR, LF]\<rparr> # splitLines (drop 2 r)
             else \<lparr>lBody = b, lEnd = [c]\<rparr> # splitLines r')"
  by pat_completeness auto
termination
proof (relation "measure length", goal_cases)
  case 1
  show ?case by simp
next
  case (2 s b r c r')
  then have "dropWhile (\<lambda>c. \<not> line_end c) s = c # r'" by simp
  then have "length (c # r') \<le> length s" by (metis length_dropWhile_le)
  then have "length (drop 2 r) < length s" using 2 by (simp flip: 2(2))
  then show ?case by simp
next
  case (3 s b r c r')
  then have "dropWhile (\<lambda>c. \<not> line_end c) s = c # r'" by simp
  then have "length (c # r') \<le> length s" by (metis length_dropWhile_le)
  then show ?case by simp
qed

declare splitLines.simps [simp del]

definition joinLines :: "line list \<Rightarrow> string" where
  "joinLines ls = concat (map (\<lambda>l. lBody l @ lEnd l) ls)"

definition blank_char :: "char \<Rightarrow> bool" where
  "blank_char c \<longleftrightarrow> c = CHR '' '' \<or> c = TAB"

definition is_digit :: "char \<Rightarrow> bool" where
  "is_digit c \<longleftrightarrow> c \<ge> CHR ''0'' \<and> c \<le> CHR ''9''"

definition digit_run :: "string \<Rightarrow> nat" where
  "digit_run s = length (takeWhile is_digit (take 9 s))"

text \<open>\<^verbatim>\<open>leadLen\<close>: the loop reads \<open>s\<close> from its index on, so it is a recursion on the rest.\<close>

function leadLen :: "bool \<Rightarrow> string \<Rightarrow> nat" where
  "leadLen markers s =
     (case s of
        [] \<Rightarrow> 0
      | c # s' \<Rightarrow>
          if c = CHR '' '' \<or> c = TAB \<or> c = CHR ''>'' then Suc (leadLen markers s')
          else if \<not> markers then 0
          else if c = CHR ''-'' \<or> c = CHR ''+'' \<or> c = CHR ''*'' then
            (if s' \<noteq> [] \<and> blank_char (hd s') then Suc (leadLen markers s') else 0)
          else if is_digit c then
            (let j = digit_run s in
             if j + 1 < length s \<and> (s ! j = CHR ''.'' \<or> s ! j = CHR '')'') \<and> blank_char (s ! (j + 1))
             then j + 1 + leadLen markers (drop (j + 1) s) else 0)
          else 0)"
  by pat_completeness auto
termination by (relation "measure (length \<circ> snd)") auto

declare leadLen.simps [simp del]

definition atxLevel :: "string \<Rightarrow> nat" where
  "atxLevel s =
     (let n = length s - length (TrimLeft s ''#'')
      in if n = 0 \<or> n > 6 \<or> (n < length s \<and> s ! n \<noteq> CHR '' '' \<and> s ! n \<noteq> TAB) then 0 else n)"

definition opensFence :: "string \<Rightarrow> (char \<times> nat) option" where
  "opensFence s =
     (case s of
        [] \<Rightarrow> None
      | c # _ \<Rightarrow>
          if c \<noteq> CHR ''`'' \<and> c \<noteq> CHR ''~'' then None
          else let n = length s - length (TrimLeft s [c])
               in if n < 3 \<or> (c = CHR ''`'' \<and> Contains (drop n s) ''`'') then None else Some (c, n))"

definition closesFence :: "string \<Rightarrow> char \<Rightarrow> nat \<Rightarrow> bool" where
  "closesFence s c n \<longleftrightarrow>
     (let run = length s - length (TrimLeft s [c]) in run \<ge> n \<and> Trim (drop run s) [CHR '' '', TAB] = [])"

definition isUnderline :: "string \<Rightarrow> bool" where
  "isUnderline s \<longleftrightarrow>
     (case s of
        [] \<Rightarrow> False
      | c # _ \<Rightarrow>
          if c \<noteq> CHR ''='' \<and> c \<noteq> CHR ''-'' then False
          else let run = length s - length (TrimLeft s [c]) in Trim (drop run s) [CHR '' '', TAB] = [])"

definition indent :: "string \<Rightarrow> nat" where
  "indent b = length b - length (TrimLeft b '' '')"

definition fence_step :: "nat \<Rightarrow> line \<Rightarrow> (char \<times> nat \<times> nat) option \<Rightarrow> (char \<times> nat \<times> nat) option" where
  "fence_step i l st =
     (let ind = indent (lBody l); rest = drop ind (lBody l) in
      if ind > 3 then st
      else case st of
             Some (fence, fenceLen, opened) \<Rightarrow> if closesFence rest fence fenceLen then None else st
           | None \<Rightarrow> (case opensFence rest of Some (c, n) \<Rightarrow> Some (c, n, i) | None \<Rightarrow> None))"

fun unclosed_loop :: "nat \<Rightarrow> line list \<Rightarrow> (char \<times> nat \<times> nat) option \<Rightarrow> (char \<times> nat \<times> nat) option" where
  "unclosed_loop i [] st = st"
| "unclosed_loop i (l # ls) st = unclosed_loop (Suc i) ls (fence_step i l st)"

definition unclosed :: "line list \<Rightarrow> nat option" where
  "unclosed ls = map_option (\<lambda>(fence, fenceLen, opened). opened) (unclosed_loop 0 ls None)"

text \<open>The first loop of \<^verbatim>\<open>neutralise\<close>: one line, given whether the line before is text.\<close>

definition neutral_line :: "bool \<Rightarrow> string \<Rightarrow> string" where
  "neutral_line prevText b =
     (let lead = leadLen True b; rest = drop lead b; n = atxLevel rest in
      if n \<ge> 1 \<and> n \<le> 3 then take lead b @ Repeat ''#'' (4 - n) @ rest
      else if n = 0 \<and> HasPrefix rest ''<'' then take lead b @ CHR 0x5C # rest
      else if n = 0 \<and> prevText then
        (let q = leadLen False b in
         if isUnderline (drop q b) then take q b @ CHR 0x5C # drop q b else b)
      else b)"

definition text_line :: "string \<Rightarrow> bool" where
  "text_line b \<longleftrightarrow> atxLevel (drop (leadLen True b) b) = 0 \<and> Trim b [CHR '' '', TAB] \<noteq> []"

fun neutral_lines :: "bool \<Rightarrow> line list \<Rightarrow> line list" where
  "neutral_lines prevText [] = []"
| "neutral_lines prevText (l # ls) =
     l\<lparr>lBody := neutral_line prevText (lBody l)\<rparr> # neutral_lines (text_line (lBody l)) ls"

definition escape_line :: "line \<Rightarrow> line" where
  "escape_line l = (let ind = indent (lBody l) in
     l\<lparr>lBody := take ind (lBody l) @ CHR 0x5C # drop ind (lBody l)\<rparr>)"

section \<open>An escaped line opens no fence\<close>

definition fence_opener :: "line \<Rightarrow> bool" where
  "fence_opener l \<longleftrightarrow> indent (lBody l) \<le> 3 \<and> opensFence (drop (indent (lBody l)) (lBody l)) \<noteq> None"

lemma fence_step_opener:
  "fence_step i l st = Some (f, n, k) \<Longrightarrow> st = Some (f, n, k) \<or> (k = i \<and> fence_opener l)"
  by (auto simp: fence_step_def fence_opener_def Let_def split: option.splits if_splits)

lemma unclosed_loop_opener:
  "unclosed_loop i ls st = Some (f, n, k) \<Longrightarrow>
     st = Some (f, n, k) \<or> (\<exists>j < length ls. k = i + j \<and> fence_opener (ls ! j))"
proof (induction ls arbitrary: i st)
  case (Cons l ls)
  from Cons.prems have "unclosed_loop (Suc i) ls (fence_step i l st) = Some (f, n, k)" by simp
  from Cons.IH [OF this] show ?case
  proof
    assume "fence_step i l st = Some (f, n, k)"
    from fence_step_opener [OF this] show ?thesis by force
  next
    assume "\<exists>j < length ls. k = Suc i + j \<and> fence_opener (ls ! j)"
    then obtain j where "j < length ls" "k = Suc i + j" "fence_opener (ls ! j)" by blast
    then show ?thesis by (intro disjI2 exI [of _ "Suc j"]) simp
  qed
qed simp

lemma unclosed_opener: "unclosed ls = Some k \<Longrightarrow> k < length ls \<and> fence_opener (ls ! k)"
  using unclosed_loop_opener [of 0 ls None] by (auto simp: unclosed_def)

lemma indent_takeWhile: "indent b = length (takeWhile (\<lambda>c. c = CHR '' '') b)"
  using run_length [of b "'' ''"] by (simp add: indent_def)

lemma indent_append: "c \<noteq> CHR '' '' \<Longrightarrow> indent (replicate k (CHR '' '') @ c # t) = k"
  by (induction k) (simp_all add: indent_takeWhile)

lemma indent_split: "take (indent b) b = replicate (indent b) (CHR '' '')"
  unfolding indent_takeWhile by (induction b) auto

lemma escape_not_opener: "\<not> fence_opener (escape_line l)"
  by (simp add: fence_opener_def escape_line_def Let_def indent_split indent_append opensFence_def)

definition openers :: "line list \<Rightarrow> nat" where
  "openers ls = length (filter fence_opener ls)"

lemma openers_escape: "k < length ls \<Longrightarrow> fence_opener (ls ! k) \<Longrightarrow>
    openers (ls[k := escape_line (ls ! k)]) < openers ls"
proof (induction ls arbitrary: k)
  case (Cons l ls)
  then show ?case by (cases k) (auto simp: openers_def escape_not_opener)
qed simp

function close_fences :: "line list \<Rightarrow> line list" where
  "close_fences ls =
     (case unclosed ls of
        None \<Rightarrow> ls
      | Some k \<Rightarrow> close_fences (ls[k := escape_line (ls ! k)]))"
  by pat_completeness auto
termination
  by (relation "measure openers") (auto dest: unclosed_opener intro: openers_escape)

declare close_fences.simps [simp del]

definition neutralise :: "string \<Rightarrow> string" where
  "neutralise content = joinLines (close_fences (neutral_lines False (splitLines content)))"

end
