(* ===== verification/NeutraliseProofs.thy ===== *)
theory NeutraliseProofs
  imports Neutralise
begin

text \<open>
  What \<^verbatim>\<open>neutralise\<close> guarantees: the grammar of a line's lead, the lines the rewriting
  leaves clean, the fences it closes, and that cutting its result into lines gives back
  exactly the rewritten lines.
\<close>

section \<open>The lead of a line\<close>

inductive lead_run :: "bool \<Rightarrow> string \<Rightarrow> bool" where
  nil: "lead_run m []"
| space: "c = CHR '' '' \<or> c = TAB \<or> c = CHR ''>'' \<Longrightarrow> lead_run m p \<Longrightarrow> lead_run m (c # p)"
| bullet: "c = CHR ''-'' \<or> c = CHR ''+'' \<or> c = CHR ''*'' \<Longrightarrow> blank_char d \<Longrightarrow> lead_run True (d # p) \<Longrightarrow>
    lead_run True (c # d # p)"
| ordinal: "ds \<noteq> [] \<Longrightarrow> length ds \<le> 9 \<Longrightarrow> \<forall>c \<in> set ds. is_digit c \<Longrightarrow> x = CHR ''.'' \<or> x = CHR '')'' \<Longrightarrow>
    blank_char d \<Longrightarrow> lead_run True (d # p) \<Longrightarrow> lead_run True (ds @ x # d # p)"

definition plain_char :: "char \<Rightarrow> bool" where
  "plain_char c \<longleftrightarrow> c \<notin> {CHR '' '', TAB, CHR ''>'', CHR ''-'', CHR ''+'', CHR ''*''} \<and> \<not> is_digit c"

lemma plain_chars [simp]:
  "plain_char (CHR ''#'')" "plain_char (CHR 0x5C)" "plain_char (CHR ''`'')" "plain_char (CHR ''~'')" "plain_char (CHR ''<'')"
  by code_simp+

lemma digits_not [simp]:
  "\<not> is_digit (CHR '' '')" "\<not> is_digit TAB" "\<not> is_digit (CHR ''>'')" "\<not> is_digit (CHR ''-'')"
  "\<not> is_digit (CHR ''+'')" "\<not> is_digit (CHR ''*'')" "\<not> is_digit (CHR ''.'')" "\<not> is_digit (CHR '')'')"
  by code_simp+

lemma leadLen_Nil [simp]: "leadLen m [] = 0"
  by (simp add: leadLen.simps)

lemma leadLen_space: "c = CHR '' '' \<or> c = TAB \<or> c = CHR ''>'' \<Longrightarrow> leadLen m (c # s) = Suc (leadLen m s)"
  by (simp add: leadLen.simps [of m "c # s"])

lemma leadLen_plain: "plain_char c \<Longrightarrow> leadLen m (c # s) = 0"
  by (simp add: leadLen.simps [of m "c # s"] plain_char_def)

lemma leadLen_bullet:
  "c = CHR ''-'' \<or> c = CHR ''+'' \<or> c = CHR ''*'' \<Longrightarrow> blank_char d \<Longrightarrow>
     leadLen True (c # d # s) = Suc (leadLen True (d # s))"
  by (subst leadLen.simps) auto

lemma digit_run_exact:
  assumes "length ds \<le> 9" and "\<forall>c \<in> set ds. is_digit c" and "\<not> is_digit x"
  shows "digit_run (ds @ x # t) = length ds"
proof (cases "length ds = 9")
  case True
  then have "take 9 (ds @ x # t) = ds" by simp
  then show ?thesis using assms(2) by (simp add: digit_run_def takeWhile_eq_all_conv [THEN iffD2])
next
  case False
  with assms(1) obtain k where k: "9 - length ds = Suc k" by (metis Suc_diff_Suc le_neq_implies_less)
  then have "take 9 (ds @ x # t) = ds @ x # take k t" using assms(1) by simp
  then show ?thesis using assms(2,3) by (simp add: digit_run_def takeWhile_append2)
qed

lemma leadLen_ordinal:
  assumes "ds \<noteq> []" "length ds \<le> 9" "\<forall>c \<in> set ds. is_digit c" "x = CHR ''.'' \<or> x = CHR '')''" "blank_char d"
  shows "leadLen True (ds @ x # d # s) = length ds + 1 + leadLen True (d # s)"
proof -
  obtain c ds' where ds: "ds = c # ds'" using assms(1) by (cases ds) auto
  have nx: "\<not> is_digit x" using assms(4) by auto
  have j: "digit_run (c # ds' @ x # d # s) = Suc (length ds')"
    using digit_run_exact [OF assms(2,3) nx, of "d # s"] ds by simp
  have c: "is_digit c" "c \<noteq> CHR '' ''" "c \<noteq> TAB" "c \<noteq> CHR ''>''" "c \<noteq> CHR ''-''" "c \<noteq> CHR ''+''" "c \<noteq> CHR ''*''"
    using assms(3) ds digits_not by auto
  show ?thesis using assms(4,5) c
    by (subst leadLen.simps) (simp add: ds j Let_def nth_append)
qed

lemma leadLen_run: "lead_run m p \<Longrightarrow> leadLen m (p @ r) = length p + leadLen m r"
  by (induction rule: lead_run.induct)
     (simp_all add: leadLen_space leadLen_bullet leadLen_ordinal)

lemma digit_run_props:
  "j = digit_run s \<Longrightarrow> j \<le> 9 \<and> j \<le> length s \<and> (\<forall>c \<in> set (take j s). is_digit c)"
proof -
  assume j: "j = digit_run s"
  have le: "j \<le> length (take 9 s)" unfolding j digit_run_def by (rule length_takeWhile_le)
  then have "j \<le> 9" by simp
  have "takeWhile is_digit (take 9 s) = take j (take 9 s)"
    unfolding j digit_run_def by (metis takeWhile_eq_take)
  also have "\<dots> = take j s" using \<open>j \<le> 9\<close> by (simp add: min_absorb1)
  finally have "\<forall>c \<in> set (take j s). is_digit c" by (metis set_takeWhileD)
  with le show ?thesis by simp
qed

lemma leadLen_split: "\<exists>p r. s = p @ r \<and> lead_run m p \<and> leadLen m s = length p"
proof (induction m s rule: leadLen.induct)
  case (1 m s)
  show ?case
  proof (cases s)
    case Nil
    then show ?thesis by (intro exI [of _ "[]"]) (auto intro: lead_run.nil)
  next
    case (Cons c s')
    let ?sp = "c = CHR '' '' \<or> c = TAB \<or> c = CHR ''>''"
    let ?bu = "c = CHR ''-'' \<or> c = CHR ''+'' \<or> c = CHR ''*''"
    let ?j = "digit_run s"
    let ?num = "?j + 1 < length s \<and> (s ! ?j = CHR ''.'' \<or> s ! ?j = CHR '')'') \<and> blank_char (s ! (?j + 1))"
    have "\<not> ?sp \<Longrightarrow> \<not> (m \<and> ?bu \<and> s' \<noteq> [] \<and> blank_char (hd s')) \<Longrightarrow> \<not> (m \<and> \<not> ?bu \<and> is_digit c \<and> ?num) \<Longrightarrow>
        leadLen m s = 0"
      unfolding Cons leadLen.simps [of m "c # s'"] Let_def list.case by (simp only: if_False if_True refl split: if_split) blast
    then consider (sp) "?sp" | (bu) "\<not> ?sp" "m" "?bu" "s' \<noteq> [] \<and> blank_char (hd s')"
      | (num) "\<not> ?sp" "m" "\<not> ?bu" "is_digit c" "?num" | (stop) "leadLen m s = 0"
      by argo
    then show ?thesis
    proof cases
      case sp
      with 1(1) [OF Cons] obtain p r where "s' = p @ r" "lead_run m p" "leadLen m s' = length p" by auto
      with sp Cons show ?thesis by (intro exI [of _ "c # p"] exI [of _ r]) (auto simp: leadLen_space intro: lead_run.space)
    next
      case bu
      with 1(2) [OF Cons] obtain p r where pr: "s' = p @ r" "lead_run m p" "leadLen m s' = length p" by auto
      from bu obtain d t where d: "s' = d # t" "blank_char d" by (cases s') auto
      then have "leadLen m s' \<noteq> 0" by (auto simp: leadLen_space blank_char_def)
      with pr d obtain p' where p': "p = d # p'" by (cases p) auto
      have "lead_run m (c # d # p')" using bu(2,3) d(2) pr(2) p' by (auto intro: lead_run.bullet)
      moreover have "leadLen m s = Suc (leadLen m s')" using Cons d bu(2,3) by (simp add: leadLen_bullet)
      ultimately show ?thesis using pr p' Cons by (intro exI [of _ "c # d # p'"] exI [of _ r]) simp
    next
      case num
      define ds where "ds = take ?j s"
      define t where "t = drop (?j + 1) s"
      note dr = digit_run_props [OF refl, of s]
      have jpos: "0 < ?j" using num(4) Cons by (simp add: digit_run_def)
      have s: "s = ds @ s ! ?j # t" using num(5) by (simp add: ds_def t_def id_take_nth_drop)
      have t: "t \<noteq> []" "hd t = s ! (?j + 1)" using num(5) by (simp_all add: t_def hd_drop_conv_nth)
      then obtain d t' where d: "t = d # t'" "blank_char d" using num(5) by (cases t) auto
      from num 1(3) [OF Cons] obtain p r where pr: "t = p @ r" "lead_run m p" "leadLen m t = length p"
        by (auto simp: t_def)
      from d have "leadLen m t \<noteq> 0" by (auto simp: leadLen_space blank_char_def)
      with pr d obtain p' where p': "p = d # p'" by (cases p) auto
      have dsp: "ds \<noteq> []" "length ds \<le> 9" "\<forall>c \<in> set ds. is_digit c" using jpos dr Cons by (auto simp: ds_def)
      have "lead_run m (ds @ s ! ?j # d # p')"
        using num(2,5) dsp d(2) pr(2) p' lead_run.ordinal [OF dsp, of "s ! ?j" d p'] by simp
      moreover have "leadLen m s = length ds + 1 + leadLen m t"
        using leadLen_ordinal [OF dsp, of "s ! ?j" d t'] num(2,5) d s by simp
      ultimately show ?thesis using s pr p'
        by (intro exI [of _ "ds @ s ! ?j # d # p'"] exI [of _ r]) auto
    next
      case stop
      then show ?thesis by (intro exI [of _ "[]"] exI [of _ s]) (auto intro: lead_run.nil)
    qed
  qed
qed

lemma leadLen_take: "lead_run m (take (leadLen m s) s)" "leadLen m s \<le> length s"
  using leadLen_split [of s m] by auto

lemma lead_run_False: "lead_run False p \<Longrightarrow> set p \<subseteq> {CHR '' '', TAB, CHR ''>''} \<and> lead_run m p"
  by (induction "False" p rule: lead_run.induct) (auto intro: lead_run.intros)

lemma leadLen_insert:
  assumes "lead_run m p" and "plain_char c"
  shows "leadLen m (p @ c # t) = length p"
  using leadLen_run [OF assms(1), of "c # t"] leadLen_plain [OF assms(2), of m t] by simp

section \<open>Headings and underlines\<close>

lemma takeWhile_replicate: "takeWhile (\<lambda>c. c = x) s = replicate (length (takeWhile (\<lambda>c. c = x) s)) x"
  by (induction s) auto

lemma atx_run: "length s - length (TrimLeft s ''#'') = length (takeWhile (\<lambda>c. c = CHR ''#'') s)"
  using run_length [of s "''#''"] by simp

lemma atxLevel_pos:
  assumes "atxLevel s = n" and "n > 0"
  obtains t where "s = replicate n (CHR ''#'') @ t" "n \<le> 6" "t = [] \<or> blank_char (hd t)"
proof -
  let ?k = "length (takeWhile (\<lambda>c. c = CHR ''#'') s)"
  let ?t = "dropWhile (\<lambda>c. c = CHR ''#'') s"
  from assms have k: "?k = n" "n \<le> 6" "\<not> (n < length s \<and> s ! n \<noteq> CHR '' '' \<and> s ! n \<noteq> TAB)"
    unfolding atxLevel_def atx_run Let_def by (auto split: if_splits)
  have s: "s = replicate n (CHR ''#'') @ ?t"
    using takeWhile_dropWhile_id [of "\<lambda>c. c = CHR ''#''" s] takeWhile_replicate [of "CHR ''#''" s] k(1) by metis
  have "?t = [] \<or> blank_char (hd ?t)"
  proof (cases "?t = []")
    case False
    then have "n < length s" "s ! n = hd ?t" using s by (metis length_append length_replicate less_add_same_cancel1 length_greater_0_conv, metis False hd_conv_nth nth_append_length_plus length_replicate add.right_neutral)
    with k(3) show ?thesis by (auto simp: blank_char_def)
  qed simp
  with s k(2) show thesis by (rule that)
qed

lemma atxLevel_replicate:
  assumes "n > 0" "n \<le> 6" "t = [] \<or> blank_char (hd t)"
  shows "atxLevel (replicate n (CHR ''#'') @ t) = n"
proof -
  have "takeWhile (\<lambda>c. c = CHR ''#'') t = []" using assms(3) by (cases t) (auto simp: blank_char_def)
  then have tw: "takeWhile (\<lambda>c. c = CHR ''#'') (replicate n (CHR ''#'') @ t) = replicate n (CHR ''#'')"
    by (induction n) simp_all
  have nx: "\<not> (n < length (replicate n (CHR ''#'') @ t) \<and> (replicate n (CHR ''#'') @ t) ! n \<noteq> CHR '' '' \<and>
      (replicate n (CHR ''#'') @ t) ! n \<noteq> TAB)"
    using assms(3) by (cases t) (auto simp: nth_append blank_char_def)
  show ?thesis using assms(1,2) nx unfolding atxLevel_def atx_run Let_def tw length_replicate by auto
qed

lemma atxLevel_other: "c \<noteq> CHR ''#'' \<Longrightarrow> atxLevel (c # s) = 0"
  unfolding atxLevel_def atx_run Let_def by simp

lemma isUnderline_chars: "isUnderline s \<Longrightarrow> \<exists>c \<in> {CHR ''='', CHR ''-''}. c \<in> set s \<and> set s \<subseteq> {c, CHR '' '', TAB}"
proof -
  assume u: "isUnderline s"
  then obtain c t where s: "s = c # t" by (cases s) (auto simp: isUnderline_def)
  with u have c: "c \<in> {CHR ''='', CHR ''-''}" by (auto simp: isUnderline_def split: if_splits)
  let ?r = "length s - length (TrimLeft s [c])"
  have "Trim (drop ?r s) [CHR '' '', TAB] = []"
    using u s by (auto simp: isUnderline_def Let_def split: if_splits)
  then have b: "set (drop ?r s) \<subseteq> {CHR '' '', TAB}" by (simp add: Trim_Nil_iff)
  have "?r = length (takeWhile (\<lambda>x. x = c) s)" using run_length [of s "[c]"] by simp
  then have "take ?r s = takeWhile (\<lambda>x. x = c) s" by (metis takeWhile_eq_take)
  then have "set (take ?r s) \<subseteq> {c}" by (auto dest: set_takeWhileD)
  moreover have "set s = set (take ?r s) \<union> set (drop ?r s)" by (metis append_take_drop_id set_append)
  ultimately have "set s \<subseteq> {c, CHR '' '', TAB}" using b by blast
  with c s show ?thesis by auto
qed

lemma not_underline_backslash: "CHR 0x5C \<in> set s \<Longrightarrow> \<not> isUnderline s"
  using isUnderline_chars by fastforce

lemma backslash_after_quote_lead:
  assumes "CHR 0x5C \<in> set b"
  shows "\<not> isUnderline (drop (leadLen False b) b)"
proof -
  have "set (take (leadLen False b) b) \<subseteq> {CHR '' '', TAB, CHR ''>''}"
    using lead_run_False leadLen_take(1) by blast
  then have "CHR 0x5C \<notin> set (take (leadLen False b) b)" by auto
  with assms have "CHR 0x5C \<in> set (drop (leadLen False b) b)"
    by (metis Un_iff append_take_drop_id set_append)
  then show ?thesis by (rule not_underline_backslash)
qed

section \<open>Clean lines\<close>

definition clean_line :: "bool \<Rightarrow> string \<Rightarrow> bool" where
  "clean_line prevText b \<longleftrightarrow>
     (let rest = drop (leadLen True b) b; n = atxLevel rest in
      \<not> (1 \<le> n \<and> n \<le> 3) \<and> \<not> HasPrefix rest ''<'' \<and>
      \<not> (n = 0 \<and> prevText \<and> isUnderline (drop (leadLen False b) b)))"

fun clean_lines :: "bool \<Rightarrow> line list \<Rightarrow> bool" where
  "clean_lines prevText [] \<longleftrightarrow> True"
| "clean_lines prevText (l # ls) \<longleftrightarrow> clean_line prevText (lBody l) \<and> clean_lines (text_line (lBody l)) ls"

lemma HasPrefix_lt_atx: "HasPrefix s ''<'' \<Longrightarrow> atxLevel s = 0"
  by (cases s) (auto simp: HasPrefix_iff atxLevel_other)

lemma neutral_line_clean_id: "clean_line prev b \<Longrightarrow> neutral_line prev b = b"
  by (auto simp: clean_line_def neutral_line_def Let_def)

lemma escaped_clean:
  assumes "lead_run True p"
  shows "clean_line prev (p @ CHR 0x5C # t)" "text_line (p @ CHR 0x5C # t)"
proof -
  have l: "leadLen True (p @ CHR 0x5C # t) = length p" by (rule leadLen_insert [OF assms]) simp
  show "clean_line prev (p @ CHR 0x5C # t)"
    using backslash_after_quote_lead [of "p @ CHR 0x5C # t"]
    by (simp add: clean_line_def l atxLevel_other HasPrefix_iff)
  show "text_line (p @ CHR 0x5C # t)"
    by (simp add: text_line_def l atxLevel_other Trim_Nil_iff)
qed

lemma Repeat_char: "Repeat [c] n = replicate n c"
  by (induction n) (simp_all add: Repeat_def)

lemma atx_line:
  assumes "lead_run True p" and "4 \<le> n" "n \<le> 6" and "t = [] \<or> blank_char (hd t)"
  shows "clean_line prev (p @ replicate n (CHR ''#'') @ t)" "\<not> text_line (p @ replicate n (CHR ''#'') @ t)"
proof -
  obtain k where k: "n = Suc k" using assms(2) by (cases n) auto
  have l: "leadLen True (p @ replicate n (CHR ''#'') @ t) = length p"
    using leadLen_insert [OF assms(1), of "CHR ''#''"] k by simp
  have a: "atxLevel (replicate n (CHR ''#'') @ t) = n" using assms by (intro atxLevel_replicate) auto
  have "\<not> HasPrefix (replicate n (CHR ''#'') @ t) ''<''" by (simp add: HasPrefix_def k)
  then show "clean_line prev (p @ replicate n (CHR ''#'') @ t)"
    using assms(2) a by (simp add: clean_line_def l)
  show "\<not> text_line (p @ replicate n (CHR ''#'') @ t)"
    using assms(2) a by (simp add: text_line_def l)
qed

lemma neutral_line_clean:
  "clean_line prev (neutral_line prev b) \<and> text_line (neutral_line prev b) = text_line b"
proof -
  let ?lead = "leadLen True b"
  let ?rest = "drop ?lead b"
  let ?n = "atxLevel ?rest"
  let ?q = "leadLen False b"
  have p: "lead_run True (take ?lead b)" by (rule leadLen_take)
  consider (atx) "1 \<le> ?n" "?n \<le> 3" | (html) "?n = 0" "HasPrefix ?rest ''<''"
    | (under) "?n = 0" "\<not> HasPrefix ?rest ''<''" prev "isUnderline (drop ?q b)"
    | (clean) "clean_line prev b"
    using HasPrefix_lt_atx [of ?rest] by (auto simp: clean_line_def Let_def)
  then show ?thesis
  proof cases
    case atx
    then obtain t where t: "?rest = replicate ?n (CHR ''#'') @ t" "t = [] \<or> blank_char (hd t)"
      using atxLevel_pos [of ?rest ?n] by auto
    from atx have "replicate (4 - ?n) (CHR ''#'') @ replicate ?n (CHR ''#'') = replicate 4 (CHR ''#'')"
      by (simp flip: replicate_add)
    then have rp: "Repeat ''#'' (4 - ?n) @ ?rest = replicate 4 (CHR ''#'') @ t"
      by (subst t(1)) (simp only: Repeat_char flip: append_assoc)
    have nl: "neutral_line prev b = take ?lead b @ replicate 4 (CHR ''#'') @ t"
      unfolding neutral_line_def Let_def using atx by (simp only: rp if_True simp_thms)
    have "\<not> text_line b" using atx by (simp add: text_line_def)
    moreover note atx_line [OF p le_refl [of 4] _ t(2)]
    ultimately show ?thesis unfolding nl by (auto simp del: replicate.simps)
  next
    case html
    have nl: "neutral_line prev b = take ?lead b @ CHR 0x5C # ?rest"
      using html by (simp add: neutral_line_def Let_def)
    have "CHR ''<'' \<in> set ?rest" using html(2) by (auto simp: HasPrefix_iff)
    then have "CHR ''<'' \<in> set b" by (rule in_set_dropD)
    then have "text_line b" using html(1) by (auto simp: text_line_def Trim_Nil_iff)
    then show ?thesis unfolding nl using escaped_clean [OF p] by simp
  next
    case under
    have nl: "neutral_line prev b = take ?q b @ CHR 0x5C # drop ?q b"
      using under by (simp add: neutral_line_def Let_def)
    have q: "lead_run True (take ?q b)" using lead_run_False leadLen_take(1) by blast
    obtain c where "c \<in> {CHR ''='', CHR ''-''}" "c \<in> set (drop ?q b)" using isUnderline_chars [OF under(4)] by auto
    then have "\<not> set b \<subseteq> set [CHR '' '', TAB]" by (auto dest!: in_set_dropD)
    then have "text_line b" using under(1) by (simp add: text_line_def Trim_Nil_iff)
    then show ?thesis unfolding nl using escaped_clean [OF q] by simp
  next
    case clean
    then show ?thesis by (simp add: neutral_line_clean_id)
  qed
qed

lemma clean_neutral_lines: "clean_lines prev (neutral_lines prev ls)"
  by (induction prev ls rule: neutral_lines.induct) (simp_all add: neutral_line_clean)

lemma neutral_lines_id: "clean_lines prev ls \<Longrightarrow> neutral_lines prev ls = ls"
  by (induction prev ls rule: neutral_lines.induct) (simp_all add: neutral_line_clean_id)

section \<open>Fences\<close>

lemma lead_run_spaces: "lead_run m (replicate k (CHR '' ''))"
  by (induction k) (auto intro: lead_run.intros)

lemma opener_text: "fence_opener l \<Longrightarrow> text_line (lBody l)"
proof -
  assume "fence_opener l"
  then obtain c t where ct: "drop (indent (lBody l)) (lBody l) = c # t" "c = CHR ''`'' \<or> c = CHR ''~''"
    by (auto simp: fence_opener_def opensFence_def split: list.splits if_splits)
  then have b: "lBody l = replicate (indent (lBody l)) (CHR '' '') @ c # t"
    by (metis append_take_drop_id indent_split)
  have "leadLen True (lBody l) = indent (lBody l)"
    using ct(2) b leadLen_insert [OF lead_run_spaces [of True "indent (lBody l)"], of c t] plain_chars
    by (metis length_replicate)
  moreover have "atxLevel (c # t) = 0" "c \<notin> {CHR '' '', TAB}" using ct(2) by (auto simp: atxLevel_other)
  moreover have "c \<in> set (lBody l)" by (subst b) simp
  ultimately show ?thesis using ct(1) by (auto simp: text_line_def Trim_Nil_iff)
qed

lemma escape_line_clean: "clean_line prev (lBody (escape_line l))" "text_line (lBody (escape_line l))"
  using escaped_clean [OF lead_run_spaces] by (simp_all add: escape_line_def Let_def indent_split)

lemma clean_lines_escape:
  "clean_lines prev ls \<Longrightarrow> k < length ls \<Longrightarrow> fence_opener (ls ! k) \<Longrightarrow>
     clean_lines prev (ls[k := escape_line (ls ! k)])"
proof (induction ls arbitrary: prev k)
  case (Cons l ls)
  then show ?case by (cases k) (auto simp: escape_line_clean dest: opener_text)
qed simp

lemma clean_close_fences: "clean_lines prev ls \<Longrightarrow> clean_lines prev (close_fences ls)"
proof (induction ls rule: close_fences.induct)
  case (1 ls)
  then show ?case
    by (subst close_fences.simps) (auto dest: unclosed_opener intro: clean_lines_escape split: option.split)
qed

lemma unclosed_close_fences: "unclosed (close_fences ls) = None"
proof (induction ls rule: close_fences.induct)
  case (1 ls)
  then show ?case by (subst close_fences.simps) (simp split: option.split)
qed

lemma close_fences_id: "unclosed ls = None \<Longrightarrow> close_fences ls = ls"
  by (subst close_fences.simps) simp

section \<open>Cutting and joining lines\<close>

definition no_ends :: "string \<Rightarrow> bool" where
  "no_ends s \<longleftrightarrow> (\<forall>c \<in> set s. \<not> line_end c)"

text \<open>A list of lines as \<^verbatim>\<open>splitLines\<close> makes one: only the last has no line end, and a lone carriage
  return is not followed by a line feed.\<close>

fun wf_lines :: "line list \<Rightarrow> bool" where
  "wf_lines [] \<longleftrightarrow> False"
| "wf_lines [l] \<longleftrightarrow> no_ends (lBody l) \<and> lEnd l = []"
| "wf_lines (l # l' # ls) \<longleftrightarrow> no_ends (lBody l) \<and> lEnd l \<in> {[LF], [CR], [CR, LF]} \<and>
     (lEnd l = [CR] \<and> lBody l' = [] \<longrightarrow> take 1 (lEnd l') \<noteq> [LF]) \<and> wf_lines (l' # ls)"

lemma joinLines_Cons: "joinLines (l # ls) = lBody l @ lEnd l @ joinLines ls"
  by (simp add: joinLines_def)

lemma splitLines_last: "no_ends s \<Longrightarrow> splitLines s = [\<lparr>lBody = s, lEnd = []\<rparr>]"
  by (subst splitLines.simps) (simp add: no_ends_def Let_def dropWhile_eq_Nil_conv [THEN iffD2])

lemma splitLines_step:
  assumes "no_ends b" and "line_end c"
  shows "splitLines (b @ c # t) =
    (if c = CR \<and> take 1 t = [LF] then \<lparr>lBody = b, lEnd = [CR, LF]\<rparr> # splitLines (drop 1 t)
     else \<lparr>lBody = b, lEnd = [c]\<rparr> # splitLines t)"
proof -
  have "takeWhile (\<lambda>c. \<not> line_end c) (b @ c # t) = b" "dropWhile (\<lambda>c. \<not> line_end c) (b @ c # t) = c # t"
    using assms by (auto simp: no_ends_def takeWhile_append2 dropWhile_append2)
  moreover have "HasPrefix (c # t) [CR, LF] \<longleftrightarrow> c = CR \<and> take 1 t = [LF]"
    by (cases t) (auto simp: HasPrefix_def)
  ultimately show ?thesis by (subst splitLines.simps) (simp add: Let_def)
qed

lemma line_end_simps [simp]: "line_end CR" "line_end LF"
  by (simp_all add: line_end_def)

lemma wf_lines_not_Nil: "wf_lines ls \<Longrightarrow> ls \<noteq> []"
  by auto

lemma take1_joinLines:
  assumes "wf_lines (l' # ls)" and "lBody l' \<noteq> [] \<or> take 1 (lEnd l') \<noteq> [LF]"
  shows "take 1 (joinLines (l' # ls)) \<noteq> [LF]"
proof (cases "lBody l'")
  case (Cons c t)
  from assms(1) have "no_ends (lBody l')" by (cases ls) auto
  with Cons have "c \<noteq> LF" by (auto simp: no_ends_def)
  then show ?thesis by (simp add: joinLines_Cons Cons)
next
  case Nil
  show ?thesis
  proof (cases ls)
    case N: Nil
    with assms(1) Nil show ?thesis by (simp add: joinLines_def)
  next
    case (Cons l2 ls2)
    with assms(1) have "lEnd l' \<in> {[LF], [CR], [CR, LF]}" by simp
    with assms(2) Nil show ?thesis by (auto simp: joinLines_Cons)
  qed
qed

lemma split_join: "wf_lines ls \<Longrightarrow> splitLines (joinLines ls) = ls"
proof (induction ls rule: wf_lines.induct)
  case (2 l)
  then show ?case by (simp add: joinLines_def splitLines_last)
next
  case (3 l l' ls)
  let ?j = "joinLines (l' # ls)"
  from 3 have IH: "splitLines ?j = l' # ls" by simp
  have nb: "no_ends (lBody l)" using 3 by simp
  consider "lEnd l = [LF]" | "lEnd l = [CR]" | "lEnd l = [CR, LF]" using 3 by auto
  then show ?case
  proof cases
    case 1
    then show ?thesis using splitLines_step [OF nb, of LF ?j] IH
      by (simp add: joinLines_Cons [of l])
  next
    case 2
    have "take 1 ?j \<noteq> [LF]" using 3 2 by (intro take1_joinLines) auto
    then show ?thesis using 2 splitLines_step [OF nb, of CR ?j] IH by (simp add: joinLines_Cons [of l])
  next
    case 3
    then show ?thesis using splitLines_step [OF nb, of CR "LF # ?j"] IH by (simp add: joinLines_Cons [of l])
  qed
qed simp

lemma splitLines_cases:
  obtains "no_ends s" "splitLines s = [\<lparr>lBody = s, lEnd = []\<rparr>]"
  | b t e where "s = b @ e @ t" "no_ends b" "e \<in> {[LF], [CR], [CR, LF]}" "e = [CR] \<longrightarrow> take 1 t \<noteq> [LF]"
      "splitLines s = \<lparr>lBody = b, lEnd = e\<rparr> # splitLines t"
proof (cases "dropWhile (\<lambda>c. \<not> line_end c) s")
  case Nil
  then have "no_ends s" by (simp add: no_ends_def dropWhile_eq_Nil_conv)
  with splitLines_last show ?thesis by (metis that(1))
next
  case (Cons c t)
  let ?b = "takeWhile (\<lambda>c. \<not> line_end c) s"
  have s: "s = ?b @ c # t" using Cons by (metis takeWhile_dropWhile_id)
  have b: "no_ends ?b" by (auto simp: no_ends_def dest: set_takeWhileD)
  have c: "line_end c" using Cons by (metis hd_dropWhile list.sel(1) list.distinct(1))
  show ?thesis
  proof (cases "c = CR \<and> take 1 t = [LF]")
    case True
    then obtain t' where "t = LF # t'" by (cases t) auto
    with True s b splitLines_step [OF b c, of t] show ?thesis by (intro that(2) [of ?b "[CR, LF]" t']) auto
  next
    case False
    with s b c splitLines_step [OF b c, of t] show ?thesis
      by (intro that(2) [of ?b "[c]" t]) (auto simp: line_end_def)
  qed
qed

lemma length_splitLines_step: "e \<in> {[LF], [CR], [CR, LF]} \<Longrightarrow> length t < length (b @ e @ t)"
  by auto

lemma wf_split: "wf_lines (splitLines s) \<and> joinLines (splitLines s) = s"
proof (induction s rule: length_induct)
  case (1 s)
  show ?case
  proof (cases s rule: splitLines_cases)
    case 1
    then show ?thesis by (simp add: joinLines_def)
  next
    case (2 b t e)
    from 1 2 have IH: "wf_lines (splitLines t)" "joinLines (splitLines t) = t"
      by (auto dest: length_splitLines_step)
    then obtain l' ls where ls: "splitLines t = l' # ls" by (cases "splitLines t") auto
    have "e = [CR] \<and> lBody l' = [] \<longrightarrow> take 1 (lEnd l') \<noteq> [LF]"
      using 2(4) IH(2) ls by (auto simp: joinLines_Cons)
    with 2 IH ls show ?thesis by (simp add: joinLines_Cons)
  qed
qed

section \<open>The rewriting keeps the cut\<close>

text \<open>A rewritten line keeps its end, keeps its body free of line ends and is empty only if it was.\<close>

definition kept :: "line \<Rightarrow> line \<Rightarrow> bool" where
  "kept l l' \<longleftrightarrow> lEnd l' = lEnd l \<and> (no_ends (lBody l) \<longrightarrow> no_ends (lBody l')) \<and> (lBody l' = [] \<longrightarrow> lBody l = [])"

lemma wf_kept: "list_all2 kept ls ls' \<Longrightarrow> wf_lines ls \<Longrightarrow> wf_lines ls'"
proof (induction ls arbitrary: ls' rule: wf_lines.induct)
  case (2 l)
  then show ?case by (auto simp: list_all2_Cons1 kept_def)
next
  case (3 l l' ls)
  from 3(2) obtain m m' ms where ls': "ls' = m # m' # ms" and k: "kept l m" "kept l' m'" "list_all2 kept ls ms"
    by (auto simp: list_all2_Cons1)
  then have "wf_lines (m' # ms)" using 3(1) [of "m' # ms"] 3(3) by simp
  with 3(3) k(1,2) show ?case by (auto simp: ls' kept_def)
qed simp

lemma kept_refl [simp]: "kept l l"
  by (simp add: kept_def)

lemma kept_trans: "kept a b \<Longrightarrow> kept b c \<Longrightarrow> kept a c"
  by (auto simp: kept_def)

lemma no_ends_cut: "no_ends b \<Longrightarrow> no_ends (take k b) \<and> no_ends (drop k b)"
  by (auto simp: no_ends_def dest: in_set_takeD in_set_dropD)

lemma no_ends_append [simp]: "no_ends (a @ b) \<longleftrightarrow> no_ends a \<and> no_ends b"
  "no_ends (c # a) \<longleftrightarrow> \<not> line_end c \<and> no_ends a" "no_ends []"
  by (auto simp: no_ends_def)

lemma no_ends_hashes: "no_ends (Repeat ''#'' n)"
  by (simp add: Repeat_char no_ends_def line_end_def)

lemma kept_neutral: "kept l (l\<lparr>lBody := neutral_line prev (lBody l)\<rparr>)"
proof -
  let ?b = "lBody l"
  have "no_ends ?b \<Longrightarrow> no_ends (neutral_line prev ?b)"
    using no_ends_cut [of ?b] no_ends_hashes
    by (auto simp: neutral_line_def Let_def line_end_def)
  moreover have "neutral_line prev ?b = [] \<Longrightarrow> ?b = []"
    by (auto simp: neutral_line_def Let_def split: if_splits)
  ultimately show ?thesis by (simp add: kept_def)
qed

lemma kept_escape: "kept l (escape_line l)"
  using no_ends_cut [of "lBody l" "indent (lBody l)"]
  by (auto simp: kept_def escape_line_def Let_def line_end_def)

lemma kept_neutral_lines: "list_all2 kept ls (neutral_lines prev ls)"
  by (induction prev ls rule: neutral_lines.induct) (simp_all add: kept_neutral)

lemma kept_close_fences: "list_all2 kept ls (close_fences ls)"
proof (induction ls rule: close_fences.induct)
  case (1 ls)
  show ?case
  proof (cases "unclosed ls")
    case None
    then show ?thesis by (subst close_fences.simps) (simp add: list_all2_refl)
  next
    case (Some k)
    have "kept (ls ! i) (ls[k := escape_line (ls ! k)] ! i)" if "i < length ls" for i
      using that by (cases "i = k") (simp_all add: kept_escape)
    then have "list_all2 kept ls (ls[k := escape_line (ls ! k)])"
      by (simp add: list_all2_conv_all_nth)
    from list_all2_trans [OF kept_trans this 1 [OF Some]]
    have "list_all2 kept ls (close_fences (ls[k := escape_line (ls ! k)]))" .
    with Some show ?thesis by (subst close_fences.simps) simp
  qed
qed

section \<open>The result\<close>

lemma split_neutralise:
  "splitLines (neutralise content) = close_fences (neutral_lines False (splitLines content))"
proof -
  have "wf_lines (neutral_lines False (splitLines content))"
    using wf_kept [OF kept_neutral_lines] wf_split by blast
  then have "wf_lines (close_fences (neutral_lines False (splitLines content)))"
    by (rule wf_kept [OF kept_close_fences])
  then show ?thesis by (simp add: neutralise_def split_join)
qed

definition neutral :: "string \<Rightarrow> bool" where
  "neutral content \<longleftrightarrow> clean_lines False (splitLines content) \<and> unclosed (splitLines content) = None"

lemma neutral_neutralise: "neutral (neutralise content)"
  by (simp add: neutral_def split_neutralise clean_close_fences clean_neutral_lines unclosed_close_fences)

lemma neutralise_neutral: "neutral content \<Longrightarrow> neutralise content = content"
  by (simp add: neutral_def neutralise_def neutral_lines_id close_fences_id wf_split)

section \<open>Properties\<close>

text \<open>C17: whatever an entry's content is, after \<^verbatim>\<open>neutralise\<close> no line of it reads as a heading of level one
  to three, opens an HTML block or underlines a line before it as a heading, and no code fence is
  left open.\<close>

theorem neutralise_clean:
  "clean_lines False (splitLines (neutralise content)) \<and> unclosed (splitLines (neutralise content)) = None"
  using neutral_neutralise [of content] by (simp add: neutral_def)

text \<open>Content that is already clean is returned unchanged, so rewriting twice is rewriting once.\<close>

theorem neutralise_idempotent:
  "(clean_lines False (splitLines content) \<and> unclosed (splitLines content) = None \<longrightarrow> neutralise content = content) \<and>
   neutralise (neutralise content) = neutralise content"
  using neutralise_neutral [of content] neutralise_neutral [OF neutral_neutralise [of content]] by (simp add: neutral_def)

theorem neutralise_idempotent_witness: "neutralise ''plain text'' = ''plain text''"
proof -
  have "clean_lines False (splitLines ''plain text'') \<and> unclosed (splitLines ''plain text'') = None" by code_simp
  with neutralise_idempotent [of "''plain text''"] show ?thesis by blast
qed

end
