(* ===== verification/Manifest.thy ===== *)
theory Manifest
  imports Memory
begin

text \<open>
  The manifest of \<^verbatim>\<open>render.go\<close>: what a block held and what it left out, its identity, and the
  delta of one manifest on another.  A Go slice is a list; nil and empty slices are not told
  apart by any operation here.  A \<^verbatim>\<open>manifestOp\<close> is its keep count and the entry its embedded
  pointer holds, if any.  The main facts are that the identity text determines the manifest
  and that applying the delta \<^verbatim>\<open>manifestDiff\<close> writes gives back the list it was written from.
\<close>

record ManifestEntry =
  meScope :: scope
  meName :: string
  meHash :: string
  meBytes :: int
  meReason :: string

record Manifest =
  mnEntries :: "ManifestEntry list"
  mnOmitted :: "ManifestEntry list"
  mnLeftOut :: bool

definition OmitBudget :: string where "OmitBudget = ''budget''"
definition OmitBlock :: string where "OmitBlock = ''block''"

definition zeroManifest :: Manifest where
  "zeroManifest = \<lparr>mnEntries = [], mnOmitted = [], mnLeftOut = False\<rparr>"

definition LeaveOut :: "Manifest \<Rightarrow> Manifest" where
  "LeaveOut m = \<lparr>mnEntries = [],
     mnOmitted = map (\<lambda>e. e\<lparr>meReason := OmitBlock\<rparr>) (mnEntries m @ mnOmitted m), mnLeftOut = True\<rparr>"

definition Dropped :: "Manifest \<Rightarrow> bool" where
  "Dropped m \<longleftrightarrow>
     (if mnLeftOut m then True
      else if length (mnEntries m) > 0 \<or> length (mnOmitted m) = 0 then False
      else list_all (\<lambda>e. meReason e = OmitBlock) (mnOmitted m))"

definition entryLine :: "ManifestEntry \<Rightarrow> string" where
  "entryLine e = ''+ '' @ meScope e @ ''/'' @ meName e @ '' '' @ meHash e @ '' '' @ Itoa (meBytes e) @ [LF]"

definition omittedLine :: "ManifestEntry \<Rightarrow> string" where
  "omittedLine e = ''- '' @ meScope e @ ''/'' @ meName e @ '' '' @ meHash e @ '' '' @ Itoa (meBytes e) @ '' '' @ meReason e @ [LF]"

definition manifestText :: "Manifest \<Rightarrow> string" where
  "manifestText m = concat (map entryLine (mnEntries m)) @ concat (map omittedLine (mnOmitted m)) @
     (if mnLeftOut m then ''x block'' @ [LF] else [])"

definition ManifestHash :: "Manifest \<Rightarrow> string" where
  "ManifestHash m = Hash (manifestText m)"

section \<open>Deltas\<close>

record manifestOp =
  opKeep :: int
  opEntry :: "ManifestEntry option"

record manifestDelta =
  dBase :: string
  dHash :: string
  dEntries :: "manifestOp list"
  dOmitted :: "manifestOp list"
  dDropped :: bool

type_synonym manifestKey = "scope \<times> string"

definition mkey :: "ManifestEntry \<Rightarrow> manifestKey" where
  "mkey e = (meScope e, meName e)"

fun manifest_index_loop :: "nat \<Rightarrow> (manifestKey \<rightharpoonup> nat) \<Rightarrow> ManifestEntry list \<Rightarrow> (manifestKey \<rightharpoonup> nat) option" where
  "manifest_index_loop i at [] = Some at"
| "manifest_index_loop i at (e # es) =
     (if at (mkey e) \<noteq> None then None else manifest_index_loop (Suc i) (at(mkey e \<mapsto> i)) es)"

definition manifestIndex :: "ManifestEntry list \<Rightarrow> (manifestKey \<rightharpoonup> nat) option" where
  "manifestIndex es = manifest_index_loop 0 (\<lambda>_. None) es"

text \<open>The variables of \<^verbatim>\<open>manifestDiff\<close>: the operations written, the cursor and the run.\<close>

type_synonym diff_state = "manifestOp list \<times> nat \<times> nat"

definition keepOp :: "nat \<Rightarrow> manifestOp" where
  "keepOp n = \<lparr>opKeep = int n, opEntry = None\<rparr>"

definition entryOp :: "ManifestEntry \<Rightarrow> manifestOp" where
  "entryOp e = \<lparr>opKeep = 0, opEntry = Some e\<rparr>"

fun diff_flush :: "diff_state \<Rightarrow> diff_state" where
  "diff_flush (out, cursor, run) =
     (if run > 0 then (out @ [keepOp run], cursor + run, 0) else (out, cursor, run))"

fun diff_step :: "ManifestEntry list \<Rightarrow> (manifestKey \<rightharpoonup> nat) \<Rightarrow> diff_state \<Rightarrow> ManifestEntry \<Rightarrow> diff_state" where
  "diff_step prev at (out, cursor, run) e =
     (case at (mkey e) of
        Some j \<Rightarrow>
          if prev ! j = e \<and> j = cursor + run then (out, cursor, run + 1)
          else (case diff_flush (out, cursor, run) of (out, cursor, run) \<Rightarrow> (out @ [entryOp e], j + 1, run))
      | None \<Rightarrow> (case diff_flush (out, cursor, run) of (out, cursor, run) \<Rightarrow> (out @ [entryOp e], cursor, run)))"

definition manifestDiff :: "ManifestEntry list \<Rightarrow> ManifestEntry list \<Rightarrow> manifestOp list option" where
  "manifestDiff prev next =
     (case manifestIndex prev of
        None \<Rightarrow> None
      | Some at \<Rightarrow> (case manifestIndex next of
            None \<Rightarrow> None
          | Some _ \<Rightarrow> Some (fst (diff_flush (foldl (diff_step prev at) ([], 0, 0) next)))))"

fun apply_step :: "ManifestEntry list \<Rightarrow> (manifestKey \<rightharpoonup> nat) \<Rightarrow> nat \<Rightarrow> manifestOp \<Rightarrow>
    ManifestEntry list \<times> nat \<Rightarrow> string + ManifestEntry list \<times> nat" where
  "apply_step prev at i op (out, cursor) =
     (case opEntry op of
        Some e \<Rightarrow>
          if opKeep op \<noteq> 0 then Inl (''element '' @ Itoa (int i) @ '' is both a keep and an entry'')
          else if meScope e = [] \<or> meName e = [] then Inl (''element '' @ Itoa (int i) @ '' names no entry'')
          else Inr (out @ [e], case at (mkey e) of Some j \<Rightarrow> j + 1 | None \<Rightarrow> cursor)
      | None \<Rightarrow>
          if opKeep op > 0 \<and> opKeep op \<le> int (length prev) - int cursor
          then Inr (out @ take (nat (opKeep op)) (drop cursor prev), cursor + nat (opKeep op))
          else if opKeep op > 0
          then Inl (''element '' @ Itoa (int i) @ '' keeps '' @ Itoa (opKeep op) @ '' entries and ''
                 @ Itoa (int (length prev) - int cursor) @ '' are left'')
          else Inl (''element '' @ Itoa (int i) @ '' is neither a positive keep nor an entry''))"

fun apply_loop :: "ManifestEntry list \<Rightarrow> (manifestKey \<rightharpoonup> nat) \<Rightarrow> nat \<Rightarrow> manifestOp list \<Rightarrow>
    ManifestEntry list \<times> nat \<Rightarrow> string + ManifestEntry list \<times> nat" where
  "apply_loop prev at i [] st = Inr st"
| "apply_loop prev at i (op # ops) st =
     (case apply_step prev at i op st of Inl err \<Rightarrow> Inl err | Inr st \<Rightarrow> apply_loop prev at (Suc i) ops st)"

definition manifestApply :: "ManifestEntry list \<Rightarrow> manifestOp list \<Rightarrow> string + ManifestEntry list" where
  "manifestApply prev ops =
     (case manifestIndex prev of
        None \<Rightarrow> Inl ''the manifest in force names an entry twice''
      | Some at \<Rightarrow> (case apply_loop prev at 0 ops ([], 0) of Inl err \<Rightarrow> Inl err | Inr (out, cursor) \<Rightarrow> Inr out))"

definition applyManifestDelta :: "Manifest \<Rightarrow> manifestDelta \<Rightarrow> error + Manifest" where
  "applyManifestDelta m d =
     (case manifestApply (mnEntries m) (dEntries d) of
        Inl err \<Rightarrow> Inl (ErrText (''agentmemory: manifest delta entries: '' @ err))
      | Inr es \<Rightarrow> (case manifestApply (mnOmitted m) (dOmitted d) of
            Inl err \<Rightarrow> Inl (ErrText (''agentmemory: manifest delta omitted: '' @ err))
          | Inr oms \<Rightarrow>
              let out = \<lparr>mnEntries = es, mnOmitted = oms, mnLeftOut = dDropped d\<rparr>; got = ManifestHash out in
              if got \<noteq> dHash d
              then Inl (ErrText (''agentmemory: manifest delta: the result hashes '' @ got @ '', the delta says '' @ dHash d))
              else Inr out))"

section \<open>The index of a list\<close>

lemma manifest_index_loop_Some:
  "manifest_index_loop i at es = Some at' \<longleftrightarrow>
     distinct (map mkey es) \<and> (\<forall>e \<in> set es. at (mkey e) = None) \<and>
     at' = at ++ map_of (zip (map mkey es) [i..<i + length es])"
proof (induction i at es rule: manifest_index_loop.induct)
  case (1 i at)
  show ?case by auto
next
  case (2 i at e es)
  note IH = this
  have z: "[i..<i + length (e # es)] = i # [Suc i..<Suc i + length es]" by (subst upt_conv_Cons) simp_all
  show ?case
  proof (cases "at (mkey e) = None \<and> mkey e \<notin> mkey ` set es")
    case True
    then have "map_of (zip (map mkey es) [Suc i..<Suc i + length es]) (mkey e) = None"
      by (simp add: map_of_zip_is_None image_iff)
    then have eq: "at(mkey e \<mapsto> i) ++ map_of (zip (map mkey es) [Suc i..<Suc i + length es])
        = at ++ map_of (zip (map mkey (e # es)) [i..<i + length (e # es)])"
      unfolding z by (simp add: map_add_upd_left domIff del: upt_Suc)
    have "(\<forall>x \<in> set es. (at(mkey e \<mapsto> i)) (mkey x) = None) \<longleftrightarrow> (\<forall>x \<in> set es. at (mkey x) = None)"
      using True by (metis fun_upd_apply image_eqI)
    moreover have "manifest_index_loop i at (e # es) = manifest_index_loop (Suc i) (at(mkey e \<mapsto> i)) es"
      using True by simp
    moreover note IH [unfolded eq]
    ultimately show ?thesis using True by (simp only: distinct.simps list.map list.set set_map ball_simps simp_thms)
  next
    case False
    then consider "at (mkey e) \<noteq> None" | "at (mkey e) = None" "mkey e \<in> mkey ` set es" by argo
    then show ?thesis
    proof cases
      case 2
      then have "\<not> (\<forall>x \<in> set es. (at(mkey e \<mapsto> i)) (mkey x) = None)" by auto
      with 2 IH show ?thesis by (simp del: fun_upd_apply upt_Suc)
    qed (simp del: upt_Suc)
  qed
qed

lemma manifestIndex_Some:
  "manifestIndex es = Some at \<longleftrightarrow> distinct (map mkey es) \<and> at = map_of (zip (map mkey es) [0..<length es])"
  by (auto simp: manifestIndex_def manifest_index_loop_Some)

lemma manifestIndex_at:
  assumes "manifestIndex es = Some at" and "at k = Some j"
  shows "j < length es" "mkey (es ! j) = k"
proof -
  from assms have "(k, j) \<in> set (zip (map mkey es) [0..<length es])"
    by (auto simp: manifestIndex_Some dest: map_of_SomeD)
  then show "j < length es" "mkey (es ! j) = k" by (auto simp: set_zip)
qed

section \<open>A delta applied to its base gives the list it was written from\<close>

lemma apply_loop_append:
  "apply_loop prev at i (xs @ ys) st =
     (case apply_loop prev at i xs st of Inl err \<Rightarrow> Inl err | Inr st \<Rightarrow> apply_loop prev at (i + length xs) ys st)"
  by (induction xs arbitrary: i st) (auto split: sum.split)

text \<open>What the writer knows: the operations written so far read back, and the run it holds open
  continues them to the entries seen.\<close>

fun diff_ok :: "ManifestEntry list \<Rightarrow> (manifestKey \<rightharpoonup> nat) \<Rightarrow> ManifestEntry list \<Rightarrow> diff_state \<Rightarrow> bool" where
  "diff_ok prev at seen (out, cursor, run) \<longleftrightarrow> cursor + run \<le> length prev \<and>
     (\<exists>got. apply_loop prev at 0 out ([], 0) = Inr (got, cursor) \<and> seen = got @ take run (drop cursor prev))"

lemma diff_ok_flush:
  assumes "diff_ok prev at seen st"
  shows "diff_ok prev at seen (diff_flush st) \<and> snd (snd (diff_flush st)) = 0"
proof -
  obtain out cursor run where st: "st = (out, cursor, run)" by (cases st)
  from assms st show ?thesis by (auto simp: apply_loop_append keepOp_def)
qed

lemma diff_ok_step:
  assumes "manifestIndex prev = Some at" and "diff_ok prev at seen st" and "meScope e \<noteq> []" "meName e \<noteq> []"
  shows "diff_ok prev at (seen @ [e]) (diff_step prev at st e)"
proof -
  obtain out cursor run where st: "st = (out, cursor, run)" by (cases st)
  obtain out' cursor' run' where fl: "diff_flush st = (out', cursor', run')" by (cases "diff_flush st")
  with diff_ok_flush [OF assms(2)] have run': "run' = 0" and ok: "diff_ok prev at seen (out', cursor', 0)" by auto
  then obtain got where got: "apply_loop prev at 0 out' ([], 0) = Inr (got, cursor')" "seen = got" by auto
  have written: "diff_ok prev at (seen @ [e]) (out' @ [entryOp e], (case at (mkey e) of Some j \<Rightarrow> j + 1 | None \<Rightarrow> cursor'), 0)"
    using got ok assms(3,4) manifestIndex_at(1) [OF assms(1)]
    by (auto simp: apply_loop_append entryOp_def Suc_le_eq split: option.split)
  show ?thesis
  proof (cases "\<exists>j. at (mkey e) = Some j \<and> prev ! j = e \<and> j = cursor + run")
    case True
    then have j: "at (mkey e) = Some (cursor + run)" "prev ! (cursor + run) = e" by auto
    then have "cursor + run < length prev" using manifestIndex_at(1) [OF assms(1)] by blast
    then have "take (Suc run) (drop cursor prev) = take run (drop cursor prev) @ [e]"
      using j(2) by (simp add: take_Suc_conv_app_nth)
    with j assms(2) \<open>cursor + run < length prev\<close> show ?thesis by (auto simp: st)
  next
    case False
    then have "diff_step prev at st e =
        (out' @ [entryOp e], (case at (mkey e) of Some j \<Rightarrow> j + 1 | None \<Rightarrow> cursor'), 0)"
      using fl run' by (auto simp: st simp del: diff_flush.simps split: option.split)
    with written show ?thesis by simp
  qed
qed

definition names_entry :: "ManifestEntry \<Rightarrow> bool" where
  "names_entry e \<longleftrightarrow> meScope e \<noteq> [] \<and> meName e \<noteq> []"

lemma diff_ok_fold:
  assumes "manifestIndex prev = Some at" and "\<forall>e \<in> set next. names_entry e"
  shows "diff_ok prev at next (foldl (diff_step prev at) ([], 0, 0) next)"
  using assms(2)
proof (induction "next" rule: rev_induct)
  case (snoc e es)
  then show ?case using diff_ok_step [OF assms(1)] by (simp add: names_entry_def)
qed simp

lemma diff_apply:
  assumes "manifestDiff prev next = Some ops" and "\<forall>e \<in> set next. names_entry e"
  shows "manifestApply prev ops = Inr next"
proof -
  from assms(1) obtain at where at: "manifestIndex prev = Some at"
    and ops: "ops = fst (diff_flush (foldl (diff_step prev at) ([], 0, 0) next))"
    by (auto simp: manifestDiff_def split: option.splits)
  note ok = diff_ok_flush [OF diff_ok_fold [OF at assms(2)]]
  obtain out cursor run where fl: "diff_flush (foldl (diff_step prev at) ([], 0, 0) next) = (out, cursor, run)"
    using prod_cases3 by blast
  from ok fl have "apply_loop prev at 0 out ([], 0) = Inr (next, cursor)" by auto
  with at ops fl show ?thesis by (simp add: manifestApply_def)
qed

lemma manifestDiff_Some: "distinct (map mkey prev) \<Longrightarrow> distinct (map mkey next) \<Longrightarrow> \<exists>ops. manifestDiff prev next = Some ops"
  by (simp add: manifestDiff_def manifestIndex_Some [THEN iffD2])

section \<open>The identity text determines the manifest\<close>

definition wf_me :: "ManifestEntry \<Rightarrow> bool" where
  "wf_me e \<longleftrightarrow> ValidName (meScope e) \<and> ValidName (meName e) \<and>
     CHR '' '' \<notin> set (meHash e) \<and> LF \<notin> set (meHash e) \<and> LF \<notin> set (meReason e)"

definition wf_manifest :: "Manifest \<Rightarrow> bool" where
  "wf_manifest m \<longleftrightarrow> (\<forall>e \<in> set (mnEntries m). wf_me e \<and> meReason e = []) \<and> (\<forall>e \<in> set (mnOmitted m). wf_me e)"

lemma Itoa_excludes [simp]: "CHR '' '' \<notin> set (Itoa i)" "LF \<notin> set (Itoa i)"
  using set_Itoa [of i] by auto

lemma wf_me_excludes:
  assumes "wf_me e"
  shows "CHR ''/'' \<notin> set (meScope e)" "CHR '' '' \<notin> set (meName e)" "CHR '' '' \<notin> set (meHash e)" "LF \<notin> set (meReason e)"
  using assms ValidName_excludes by (auto simp: wf_me_def)

lemma entryLine_cut:
  assumes "wf_me e" "wf_me e'" "meReason e = meReason e'"
  shows "entryLine e @ r = entryLine e' @ r' \<longleftrightarrow> e = e' \<and> r = r'"
  using wf_me_excludes [OF assms(1)] wf_me_excludes [OF assms(2)] assms(3)
  by (cases e, cases e') (auto simp: entryLine_def cut_unique Itoa_inj)

lemma omittedLine_cut:
  assumes "wf_me e" "wf_me e'"
  shows "omittedLine e @ r = omittedLine e' @ r' \<longleftrightarrow> e = e' \<and> r = r'"
  using wf_me_excludes [OF assms(1)] wf_me_excludes [OF assms(2)]
  by (cases e, cases e') (auto simp: omittedLine_def cut_unique Itoa_inj)

lemma lines_cut:
  assumes "\<And>e. \<exists>s. f e = c # s"
    and "\<And>e e' r r'. P e \<Longrightarrow> P e' \<Longrightarrow> f e @ r = f e' @ r' \<longleftrightarrow> e = e' \<and> r = r'"
    and "\<forall>e \<in> set es. P e" "\<forall>e \<in> set es'. P e" "\<And>s. t \<noteq> c # s" "\<And>s. t' \<noteq> c # s"
  shows "concat (map f es) @ t = concat (map f es') @ t' \<Longrightarrow> es = es' \<and> t = t'"
  using assms(3,4)
proof (induction es arbitrary: es')
  case Nil
  then show ?case using assms(1,5) by (cases es') (auto, metis append_Cons)
next
  case (Cons e es)
  show ?case
  proof (cases es')
    case Nil
    with Cons.prems(1) assms(1) [of e] assms(6) show ?thesis by (metis append_Cons concat.simps(2) list.simps(9) append_Nil concat.simps(1) list.simps(8))
  next
    case (Cons e' es2)
    with Cons.prems(1) have "f e @ concat (map f es) @ t = f e' @ concat (map f es2) @ t'" by simp
    with assms(2) Cons.prems Cons have "e = e'" "concat (map f es) @ t = concat (map f es2) @ t'" by auto
    with Cons.IH Cons.prems Cons show ?thesis by simp
  qed
qed

lemma omitted_not_plus: "concat (map omittedLine es) @ (if b then ''x block'' @ [LF] else []) \<noteq> CHR ''+'' # s"
  by (cases es) (auto simp: omittedLine_def)

lemma manifestText_inj:
  assumes "wf_manifest m" "wf_manifest m'" "manifestText m = manifestText m'"
  shows "m = m'"
proof -
  let ?t = "\<lambda>m. concat (map omittedLine (mnOmitted m)) @ (if mnLeftOut m then ''x block'' @ [LF] else [])"
  have "mnEntries m = mnEntries m' \<and> ?t m = ?t m'"
    by (rule lines_cut [of entryLine "CHR ''+''" "\<lambda>e. wf_me e \<and> meReason e = []"])
       (use assms omitted_not_plus entryLine_cut in \<open>auto simp: wf_manifest_def manifestText_def entryLine_def\<close>)
  moreover from this have "mnOmitted m = mnOmitted m' \<and>
      (if mnLeftOut m then ''x block'' @ [LF] else []) = (if mnLeftOut m' then ''x block'' @ [LF] else [])"
    by (intro lines_cut [of omittedLine "CHR ''-''" wf_me])
       (use assms omittedLine_cut in \<open>auto simp: wf_manifest_def omittedLine_def split: if_splits\<close>)
  ultimately show ?thesis by (cases m, cases m') (auto split: if_splits)
qed

lemma Dropped_LeaveOut: "Dropped (LeaveOut m)"
  by (simp add: Dropped_def LeaveOut_def)

section \<open>Properties\<close>

text \<open>A delta written by \<^verbatim>\<open>manifestDiff\<close> and applied by \<^verbatim>\<open>manifestApply\<close> to the list it was written against
  gives back the next list, and one is written whenever neither list names an entry twice.\<close>

theorem manifest_delta_roundtrip:
  assumes "distinct (map mkey prev)" "distinct (map mkey next)" "\<forall>e \<in> set next. meScope e \<noteq> [] \<and> meName e \<noteq> []"
  shows "\<exists>ops. manifestDiff prev next = Some ops \<and> manifestApply prev ops = Inr next"
  using manifestDiff_Some [OF assms(1,2)] diff_apply [of prev "next"] assms(3) by (auto simp: names_entry_def)

definition me_sample :: "string \<Rightarrow> int \<Rightarrow> ManifestEntry" where
  "me_sample n b = \<lparr>meScope = ''user'', meName = n, meHash = ''h'', meBytes = b, meReason = []\<rparr>"

theorem manifest_delta_roundtrip_witness:
  "\<exists>ops. manifestDiff [me_sample ''a'' 1, me_sample ''b'' 2, me_sample ''c'' 3] [me_sample ''a'' 1, me_sample ''b'' 9, me_sample ''c'' 3] = Some ops \<and>
     manifestApply [me_sample ''a'' 1, me_sample ''b'' 2, me_sample ''c'' 3] ops = Inr [me_sample ''a'' 1, me_sample ''b'' 9, me_sample ''c'' 3]"
  by (rule manifest_delta_roundtrip) (simp_all add: me_sample_def mkey_def)

text \<open>The text a manifest's hash is taken of determines the manifest: which entries were shown and which
  left out, in order, each with its hash, size and reason, and whether the block was left out.\<close>

theorem manifest_identity:
  assumes "wf_manifest m" "wf_manifest m'" "manifestText m = manifestText m'"
  shows "m = m'"
  using assms by (rule manifestText_inj)

theorem manifest_identity_witness:
  "manifestText \<lparr>mnEntries = [me_sample ''a'' 1], mnOmitted = [], mnLeftOut = False\<rparr> \<noteq>
     manifestText \<lparr>mnEntries = [], mnOmitted = [me_sample ''a'' 1], mnLeftOut = False\<rparr>"
proof
  assume eq: "manifestText \<lparr>mnEntries = [me_sample ''a'' 1], mnOmitted = [], mnLeftOut = False\<rparr> =
     manifestText \<lparr>mnEntries = [], mnOmitted = [me_sample ''a'' 1], mnLeftOut = False\<rparr>"
  have "ValidName ''user''" "ValidName ''a''" by code_simp+
  then have w: "wf_me (me_sample ''a'' 1)" by (simp add: wf_me_def me_sample_def)
  have "\<lparr>mnEntries = [me_sample ''a'' 1], mnOmitted = [], mnLeftOut = False\<rparr> =
      \<lparr>mnEntries = [], mnOmitted = [me_sample ''a'' 1], mnLeftOut = False\<rparr>"
    by (rule manifest_identity) (use w eq in \<open>simp_all add: wf_manifest_def me_sample_def\<close>)
  then show False by simp
qed

end
