(* ===== verification/Render.thy ===== *)
theory Render
  imports Store Manifest NeutraliseProofs "HOL-Library.AList"
begin

text \<open>
  The renderer of \<^verbatim>\<open>render.go\<close>: its options, the parts of a block, the packing of a scope's
  entries, the line naming what was left out, the summary, and \<^verbatim>\<open>RenderParts\<close> and \<^verbatim>\<open>Render\<close>.
  Sizes are integers, as Go's \<^verbatim>\<open>int\<close> is signed.  The labels of a part's trust are those of the
  package \<^verbatim>\<open>agenttool\<close>, which is not part of the sources: they are a type variable, and
  \<^verbatim>\<open>LabelUntrusted\<close> is the argument \<open>untrusted\<close>.  The store is read in one state.
\<close>

section \<open>Options and parts\<close>

definition DefaultMaxTotalBytes :: int where "DefaultMaxTotalBytes = 32 * 1024"

record 'l renderOptions =
  roMaxTotal :: int
  roScopeMax :: "(scope \<times> int) list"
  roTrust :: "(scope \<times> 'l list) list"

type_synonym 'l RenderOption = "'l renderOptions \<Rightarrow> 'l renderOptions"

definition WithMaxTotalBytes :: "int \<Rightarrow> 'l RenderOption" where
  "WithMaxTotalBytes n = (\<lambda>ro. ro\<lparr>roMaxTotal := n\<rparr>)"

definition WithScopeMaxBytes :: "scope \<Rightarrow> int \<Rightarrow> 'l RenderOption" where
  "WithScopeMaxBytes scope n = (\<lambda>ro. ro\<lparr>roScopeMax := AList.update scope n (roScopeMax ro)\<rparr>)"

definition WithScopeTrust :: "scope \<Rightarrow> 'l list \<Rightarrow> 'l RenderOption" where
  "WithScopeTrust scope labels = (\<lambda>ro. ro\<lparr>roTrust := AList.update scope
     (foldl (\<lambda>reads l. if l \<in> set reads then reads else reads @ [l]) [] labels) (roTrust ro)\<rparr>)"

record 'l Part =
  ptID :: string
  ptText :: string
  ptTrust :: "'l list option"

definition scopeTrust :: "'l \<Rightarrow> 'l renderOptions \<Rightarrow> scope \<Rightarrow> 'l list option" where
  "scopeTrust untrusted ro scope =
     (case map_of (roTrust ro) scope of Some labels \<Rightarrow> Some labels | None \<Rightarrow> Some [untrusted])"

definition ownTrust :: "'l list option" where "ownTrust = Some []"

definition TitlePartID :: string where "TitlePartID = ''memory''"
definition SummaryPartID :: string where "SummaryPartID = ''memory:summary''"

definition PartID :: "scope \<Rightarrow> string \<Rightarrow> string" where
  "PartID scope name = ''memory/'' @ scope @ ''/'' @ name"

definition scopePartID :: "scope \<Rightarrow> string" where
  "scopePartID scope = ''memory/'' @ scope"

definition omittedPartID :: "scope \<Rightarrow> string" where
  "omittedPartID scope = ''memory/'' @ scope @ '':omitted''"

definition PartSeparator :: string where "PartSeparator = [LF, LF]"

definition JoinParts :: "'l Part list \<Rightarrow> string" where
  "JoinParts parts = Join (map ptText parts) PartSeparator"

section \<open>The texts of a block\<close>

definition title :: string where "title = ''# Memory''"
definition noEntries :: string where "noEntries = ''No entries.''"
definition omitHead :: string where
  "omitHead = ''Not shown, over the block budget; fetch with memory_search: ''"

definition omitCount :: "nat \<Rightarrow> string" where
  "omitCount n = ''Not shown, over the block budget: '' @ Itoa (int n) @ '' entries.''"

definition moreTail :: "nat \<Rightarrow> string" where
  "moreTail n = '', and '' @ Itoa (int n) @ '' more''"

definition cost :: "string \<Rightarrow> int" where
  "cost s = int (length PartSeparator) + int (length s)"

definition scopeText :: "scope \<Rightarrow> bool \<Rightarrow> string" where
  "scopeText scope isEmpty = (if isEmpty then ''## '' @ scope @ PartSeparator @ noEntries else ''## '' @ scope)"

definition em_dash :: string where
  "em_dash = [CHR 0xE2, CHR 0x80, CHR 0x94]"

definition entryHeading :: "Entry \<Rightarrow> int \<Rightarrow> string" where
  "entryHeading e limit =
     ''### '' @ eName e @ '' ('' @ Itoa (int (Size e)) @ '' of '' @ Itoa limit @ '' bytes)'' @
     (if Description e \<noteq> [] then '' '' @ em_dash @ '' '' @ map (\<lambda>c. if c = CR \<or> c = LF then CHR '' '' else c) (Description e)
      else [])"

definition entryText :: "Entry \<Rightarrow> int \<Rightarrow> string" where
  "entryText e limit = entryHeading e limit @ [LF, LF] @ neutralise (TrimSuffix (eContent e) [LF])"

definition EntryPart :: "'l \<Rightarrow> Entry \<Rightarrow> int \<Rightarrow> 'l Part" where
  "EntryPart untrusted e bound = \<lparr>ptID = PartID (eScope e) (eName e), ptText = entryText e bound,
     ptTrust = scopeTrust untrusted \<lparr>roMaxTotal = 0, roScopeMax = [], roTrust = []\<rparr> (eScope e)\<rparr>"

definition summary :: "nat \<Rightarrow> nat \<Rightarrow> int \<Rightarrow> int \<Rightarrow> int \<Rightarrow> int \<Rightarrow> string" where
  "summary shown omitted sz free bound limit =
     ''Entries: '' @ Itoa (int shown) @ '' shown, '' @ Itoa (int omitted) @ '' omitted. Block: '' @ Itoa sz @
     '' of '' @ Itoa bound @ '' bytes ('' @ pad_d (length (Itoa bound)) free @ '' free). Entry limit: '' @ Itoa limit @ '' bytes.''"

section \<open>Packing\<close>

fun pack_loop :: "int \<Rightarrow> int \<Rightarrow> int \<Rightarrow> Entry list \<Rightarrow> bool list \<times> int" where
  "pack_loop limit room used [] = ([], used)"
| "pack_loop limit room used (e # es) =
     (let n = cost (entryText e limit) in
      if used + n \<le> room then (case pack_loop limit room (used + n) es of (ins, u) \<Rightarrow> (True # ins, u))
      else (case pack_loop limit room used es of (ins, u) \<Rightarrow> (False # ins, u)))"

definition pack :: "Entry list \<Rightarrow> int \<Rightarrow> int \<Rightarrow> bool list \<times> int" where
  "pack es limit room = pack_loop limit room 0 es"

definition all :: "bool list \<Rightarrow> bool" where
  "all ins \<longleftrightarrow> list_all (\<lambda>ok. ok) ins"

definition omitItem :: "Entry \<Rightarrow> string" where
  "omitItem e = eName e @ '' ('' @ Itoa (int (Size e)) @ '' bytes)''"

definition omitLineReserve :: "Entry list \<Rightarrow> int" where
  "omitLineReserve es =
     (let item = foldl (\<lambda>item e. if length (omitItem e) > item then length (omitItem e) else item) 0 es
      in cost omitHead + int item + int (length (moreTail (length es))))"

fun omit_loop :: "int \<Rightarrow> Entry list \<Rightarrow> string \<Rightarrow> nat \<Rightarrow> string \<times> nat" where
  "omit_loop room [] b listed = (b, listed)"
| "omit_loop room (e # es) b listed =
     (let piece = (if listed > 0 then '', '' @ omitItem e else omitItem e);
          tail = (if length es > 0 then length (moreTail (length es)) else 0)
      in if cost omitHead + int (length b) + int (length piece) + int tail > room then (b, listed)
         else omit_loop room es (b @ piece) (listed + 1))"

definition omitLine :: "Entry list \<Rightarrow> int \<Rightarrow> string" where
  "omitLine dropped room =
     (case omit_loop room dropped [] 0 of (b, listed) \<Rightarrow>
        if listed = 0 then
          (let short = omitCount (length dropped) in if cost short \<le> room then short else [])
        else
          (let rest = length dropped - listed in
           omitHead @ b @ (if rest > 0 then moreTail rest else [])))"

section \<open>The block\<close>

definition manifest_entry :: "scope \<Rightarrow> Entry \<Rightarrow> ManifestEntry" where
  "manifest_entry scope e = \<lparr>meScope = scope, meName = eName e, meHash = eHash e, meBytes = int (Size e), meReason = []\<rparr>"

definition fixed_cost :: "int \<Rightarrow> int \<Rightarrow> (scope \<times> Entry list) list \<Rightarrow> int" where
  "fixed_cost maxTotal limit listed_scopes =
     (let total = sum_list (map (\<lambda>(scope, es). length es) listed_scopes) in
      foldl (\<lambda>fixed (scope, es). fixed + cost (scopeText scope (es = [])))
        (int (length title) + cost (summary total total maxTotal maxTotal maxTotal limit)) listed_scopes)"

text \<open>What the loop of \<^verbatim>\<open>RenderParts\<close> builds: the parts, the manifest's two lists and the bytes spent.\<close>

record 'l block =
  bkParts :: "'l Part list"
  bkEntries :: "ManifestEntry list"
  bkOmitted :: "ManifestEntry list"
  bkSpent :: int

definition scope_pack :: "Entry list \<Rightarrow> int \<Rightarrow> int \<Rightarrow> bool list \<times> int" where
  "scope_pack es limit room =
     (case pack es limit room of (ins, used) \<Rightarrow>
        if \<not> all ins then pack es limit (room - omitLineReserve es) else (ins, used))"

definition scope_room :: "'l renderOptions \<Rightarrow> int \<Rightarrow> scope \<Rightarrow> int \<Rightarrow> int" where
  "scope_room ro fixed scope spent =
     (let room = roMaxTotal ro - fixed - spent in
      case map_of (roScopeMax ro) scope of Some n \<Rightarrow> min room n | None \<Rightarrow> room)"

definition shown_of :: "Entry list \<Rightarrow> bool list \<Rightarrow> Entry list" where
  "shown_of es ins = map fst (filter snd (zip es ins))"

definition dropped_of :: "Entry list \<Rightarrow> bool list \<Rightarrow> Entry list" where
  "dropped_of es ins = map fst (filter (\<lambda>(e, ok). \<not> ok) (zip es ins))"

definition entry_part :: "'l \<Rightarrow> 'l renderOptions \<Rightarrow> int \<Rightarrow> scope \<Rightarrow> Entry \<Rightarrow> 'l Part" where
  "entry_part untrusted ro limit scope e =
     \<lparr>ptID = PartID scope (eName e), ptText = entryText e limit, ptTrust = scopeTrust untrusted ro scope\<rparr>"

definition scope_block :: "'l \<Rightarrow> 'l renderOptions \<Rightarrow> int \<Rightarrow> int \<Rightarrow> scope \<times> Entry list \<Rightarrow> 'l block \<Rightarrow> 'l block" where
  "scope_block untrusted ro limit fixed = (\<lambda>(scope, es) bk.
     let bk = bk\<lparr>bkParts := bkParts bk @ [\<lparr>ptID = scopePartID scope, ptText = scopeText scope (es = []), ptTrust = ownTrust\<rparr>]\<rparr> in
     if es = [] then bk
     else
       let room = scope_room ro fixed scope (bkSpent bk);
           (ins, used) = scope_pack es limit room;
           dropped = dropped_of es ins;
           bk = bk\<lparr>bkParts := bkParts bk @ map (entry_part untrusted ro limit scope) (shown_of es ins),
                   bkEntries := bkEntries bk @ map (manifest_entry scope) (shown_of es ins),
                   bkOmitted := bkOmitted bk @ map (\<lambda>e. (manifest_entry scope e)\<lparr>meReason := OmitBudget\<rparr>) dropped\<rparr>;
           line = omitLine dropped (room - used)
       in if dropped \<noteq> [] \<and> line \<noteq> []
          then bk\<lparr>bkParts := bkParts bk @ [\<lparr>ptID = omittedPartID scope, ptText = line, ptTrust = scopeTrust untrusted ro scope\<rparr>],
                  bkSpent := bkSpent bk + (used + cost line)\<rparr>
          else bk\<lparr>bkSpent := bkSpent bk + used\<rparr>)"

fun settle :: "nat \<Rightarrow> (int \<Rightarrow> string) \<Rightarrow> int \<Rightarrow> int \<Rightarrow> string \<Rightarrow> string" where
  "settle 0 summ rest sz lastText = lastText"
| "settle (Suc k) summ rest sz lastText =
     (let lastText = summ sz; n = rest + int (length lastText) in
      if n = sz then lastText else settle k summ rest n lastText)"

definition title_part :: "'l Part" where
  "title_part = \<lparr>ptID = TitlePartID, ptText = title, ptTrust = ownTrust\<rparr>"

definition render_block :: "'l \<Rightarrow> 'l renderOptions \<Rightarrow> int \<Rightarrow> (scope \<times> Entry list) list \<Rightarrow>
    error + 'l Part list \<times> Manifest" where
  "render_block untrusted ro limit listed_scopes =
     (let fixed = fixed_cost (roMaxTotal ro) limit listed_scopes in
      if fixed > roMaxTotal ro then Inl (ErrBudget (FixedOverBound (length listed_scopes) fixed (roMaxTotal ro)))
      else
        let bk = foldl (\<lambda>bk l. scope_block untrusted ro limit fixed l bk)
               \<lparr>bkParts = [title_part], bkEntries = [], bkOmitted = [], bkSpent = 0\<rparr> listed_scopes;
            shown = length (bkEntries bk); left = length (bkOmitted bk);
            rest = int (length (JoinParts (bkParts bk))) + int (length PartSeparator);
            lastText = settle 8 (\<lambda>sz. summary shown left sz (roMaxTotal ro - sz) (roMaxTotal ro) limit)
               rest (fixed + bkSpent bk) []
        in Inr (bkParts bk @ [\<lparr>ptID = SummaryPartID, ptText = lastText, ptTrust = ownTrust\<rparr>],
                \<lparr>mnEntries = bkEntries bk, mnOmitted = bkOmitted bk, mnLeftOut = False\<rparr>))"

fun check_scopes :: "scope list \<Rightarrow> scope list \<Rightarrow> error option" where
  "check_scopes seen [] = None"
| "check_scopes seen (scope # scopes) =
     (if \<not> ValidScope scope then Some (ErrInvalid (ScopeNotKebab scope))
      else if scope \<in> set seen then Some (ErrInvalid (ScopeTwice scope))
      else check_scopes (seen @ [scope]) scopes)"

fun list_scopes :: "'s Store \<Rightarrow> scope list \<Rightarrow> 's \<Rightarrow> error + (scope \<times> Entry list) list" where
  "list_scopes S [] s = Inr []"
| "list_scopes S (scope # scopes) s =
     (case sList S scope s of
        Inl err \<Rightarrow> Inl err
      | Inr es \<Rightarrow> (case list_scopes S scopes s of Inl err \<Rightarrow> Inl err | Inr ls \<Rightarrow> Inr ((scope, es) # ls)))"

definition resolveRenderOptions :: "'l RenderOption list \<Rightarrow> 'l renderOptions" where
  "resolveRenderOptions opts =
     foldl (\<lambda>ro opt. opt ro) \<lparr>roMaxTotal = DefaultMaxTotalBytes, roScopeMax = [], roTrust = []\<rparr> opts"

definition RenderParts :: "'l \<Rightarrow> 's Store \<Rightarrow> scope list \<Rightarrow> 'l RenderOption list \<Rightarrow> 's \<Rightarrow> error + 'l Part list \<times> Manifest" where
  "RenderParts untrusted S scopes opts s =
     (let ro = resolveRenderOptions opts in
      if roMaxTotal ro < 1 then Inl (ErrBudget (BoundUnderOne (roMaxTotal ro)))
      else case List.find (\<lambda>(scope, n). n < 0) (roScopeMax ro) of
        Some (scope, n) \<Rightarrow> Inl (ErrBudget (CapUnderZero scope n))
      | None \<Rightarrow> (case check_scopes [] scopes of
            Some err \<Rightarrow> Inl err
          | None \<Rightarrow> (case list_scopes S scopes s of
                Inl err \<Rightarrow> Inl err
              | Inr listed_scopes \<Rightarrow> render_block untrusted ro (sMaxEntryBytes S s) listed_scopes)))"

definition Render :: "'l \<Rightarrow> 's Store \<Rightarrow> scope list \<Rightarrow> 'l RenderOption list \<Rightarrow> 's \<Rightarrow> error + string \<times> Manifest" where
  "Render untrusted S scopes opts s =
     (case RenderParts untrusted S scopes opts s of
        Inl err \<Rightarrow> Inl err
      | Inr (parts, man) \<Rightarrow> Inr (JoinParts parts, man))"

end
