(* ===== verification/RenderProofs.thy ===== *)
theory RenderProofs
  imports Render MemStore
begin

text \<open>
  What the renderer guarantees: a pack stays inside its room, the omission line inside what is
  left, the block inside its bound; the summary's size settles within the eight passes on the
  length of the block it is part of; the manifest splits every listed scope into what is shown
  and what is omitted, in list order; and no two parts of a block share an identifier.
\<close>

section \<open>Packing\<close>

lemma cost_pos: "0 \<le> cost s"
  by (simp add: cost_def)

lemma shown_of_simps [simp]:
  "shown_of [] [] = []" "shown_of (e # es) (True # ins) = e # shown_of es ins"
  "shown_of (e # es) (False # ins) = shown_of es ins"
  by (simp_all add: shown_of_def)

lemma dropped_of_simps [simp]:
  "dropped_of [] [] = []" "dropped_of (e # es) (True # ins) = dropped_of es ins"
  "dropped_of (e # es) (False # ins) = e # dropped_of es ins"
  by (simp_all add: dropped_of_def)

definition shown_cost :: "int \<Rightarrow> Entry list \<Rightarrow> int" where
  "shown_cost limit es = sum_list (map (\<lambda>e. cost (entryText e limit)) es)"

lemma pack_loop_spec:
  "pack_loop limit room used es = (ins, u) \<Longrightarrow>
     length ins = length es \<and> u = used + shown_cost limit (shown_of es ins) \<and> u \<le> max used room"
proof (induction limit room used es arbitrary: ins u rule: pack_loop.induct)
  case (1 limit room used)
  then show ?case by (auto simp: shown_cost_def)
next
  case (2 limit room used e es)
  let ?n = "cost (entryText e limit)"
  show ?case
  proof (cases "used + ?n \<le> room")
    case True
    obtain ins' u' where r: "pack_loop limit room (used + ?n) es = (ins', u')" by fastforce
    with True 2(3) have "ins = True # ins'" "u = u'" by (auto simp: Let_def)
    with 2(1) [OF refl True r] True show ?thesis by (auto simp: shown_cost_def)
  next
    case False
    obtain ins' u' where r: "pack_loop limit room used es = (ins', u')" by fastforce
    with False 2(3) have "ins = False # ins'" "u = u'" by (auto simp: Let_def)
    with 2(2) [OF refl False r] show ?thesis by auto
  qed
qed

lemma shown_cost_pos: "0 \<le> shown_cost limit es"
  by (induction es) (auto simp: shown_cost_def cost_pos)

lemma scope_pack_spec:
  assumes "scope_pack es limit room = (ins, used)" and "0 \<le> room"
  shows "length ins = length es" "used = shown_cost limit (shown_of es ins)" "used \<le> room"
proof -
  have r: "0 \<le> omitLineReserve es" by (simp add: omitLineReserve_def Let_def cost_def)
  from assms(1) have "pack es limit room = (ins, used) \<or> pack es limit (room - omitLineReserve es) = (ins, used)"
    by (auto simp: scope_pack_def split: prod.splits if_splits)
  then show "length ins = length es" "used = shown_cost limit (shown_of es ins)" "used \<le> room"
    using assms(2) r by (auto simp: pack_def dest: pack_loop_spec)
qed

lemma pack_loop_all:
  "used + shown_cost limit es \<le> room \<Longrightarrow>
     pack_loop limit room used es = (replicate (length es) True, used + shown_cost limit es)"
proof (induction limit room used es rule: pack_loop.induct)
  case (2 limit room used e es)
  then show ?case using shown_cost_pos [of limit es]
    by (simp add: shown_cost_def Let_def add.assoc)
qed (simp add: shown_cost_def)

lemma shown_of_all: "shown_of es (replicate (length es) True) = es"
  by (induction es) auto

lemma dropped_of_all: "dropped_of es (replicate (length es) True) = []"
  by (induction es) auto

lemma scope_pack_all:
  "shown_cost limit es \<le> room \<Longrightarrow> scope_pack es limit room = (replicate (length es) True, shown_cost limit es)"
  by (simp add: scope_pack_def pack_def pack_loop_all all_def list_all_iff)

section \<open>The omission line\<close>

definition tail_len :: "nat \<Rightarrow> nat" where
  "tail_len n = (if n > 0 then length (moreTail n) else 0)"

lemma omit_loop_spec:
  "omit_loop room es b listed = (b', listed') \<Longrightarrow>
     (listed > 0 \<longrightarrow> cost omitHead + int (length b) + int (tail_len (length es)) \<le> room) \<Longrightarrow>
     listed \<le> listed' \<and> listed' \<le> listed + length es \<and>
     (listed' > 0 \<longrightarrow> cost omitHead + int (length b') + int (tail_len (listed + length es - listed')) \<le> room)"
proof (induction room es b listed rule: omit_loop.induct)
  case (2 room e es b listed)
  define piece where "piece = (if listed > 0 then '', '' @ omitItem e else omitItem e)"
  let ?over = "cost omitHead + int (length b) + int (length piece) + int (tail_len (length es)) > room"
  have step: "omit_loop room (e # es) b listed =
      (if ?over then (b, listed) else omit_loop room es (b @ piece) (listed + 1))"
    by (simp add: Let_def piece_def tail_len_def)
  show ?case
  proof (cases ?over)
    case True
    with 2(2,3) step show ?thesis by auto
  next
    case False
    with 2(2) step have "omit_loop room es (b @ piece) (listed + 1) = (b', listed')" by simp
    moreover from False have "cost omitHead + int (length (b @ piece)) + int (tail_len (length es)) \<le> room" by simp
    ultimately show ?thesis
      using 2(1) [OF piece_def refl] False by (simp add: tail_len_def)
  qed
qed auto

lemma omitLine_fits: "omitLine dropped room \<noteq> [] \<Longrightarrow> cost (omitLine dropped room) \<le> room"
proof -
  assume ne: "omitLine dropped room \<noteq> []"
  obtain b listed where l: "omit_loop room dropped [] 0 = (b, listed)" by fastforce
  from omit_loop_spec [OF l] have s: "listed > 0 \<longrightarrow> cost omitHead + int (length b) + int (tail_len (length dropped - listed)) \<le> room"
    by simp
  show ?thesis
  proof (cases "listed = 0")
    case True
    with ne l show ?thesis by (auto simp: omitLine_def Let_def split: if_splits)
  next
    case False
    with s l show ?thesis by (auto simp: omitLine_def Let_def cost_def tail_len_def split: if_splits)
  qed
qed

section \<open>What one scope adds\<close>

definition parts_cost :: "'l Part list \<Rightarrow> int" where
  "parts_cost ps = sum_list (map (\<lambda>p. cost (ptText p)) ps)"

lemma parts_cost_simps [simp]:
  "parts_cost [] = 0" "parts_cost (p # ps) = cost (ptText p) + parts_cost ps"
  "parts_cost (ps @ qs) = parts_cost ps + parts_cost qs"
  by (simp_all add: parts_cost_def)

definition heading_cost :: "scope \<times> Entry list \<Rightarrow> int" where
  "heading_cost = (\<lambda>(scope, es). cost (scopeText scope (es = [])))"

lemma parts_cost_entries: "parts_cost (map (entry_part u ro limit scope) es) = shown_cost limit es"
  by (induction es) (simp_all add: entry_part_def shown_cost_def)

text \<open>The scope's own parts, and the bytes its entries and its omission line take.\<close>

definition scope_line :: "'l \<Rightarrow> 'l renderOptions \<Rightarrow> scope \<Rightarrow> Entry list \<Rightarrow> int \<Rightarrow> 'l Part list" where
  "scope_line u ro scope dropped room =
     (if dropped \<noteq> [] \<and> omitLine dropped room \<noteq> []
      then [\<lparr>ptID = omittedPartID scope, ptText = omitLine dropped room, ptTrust = scopeTrust u ro scope\<rparr>] else [])"

definition heading_part :: "scope \<Rightarrow> Entry list \<Rightarrow> 'l Part" where
  "heading_part scope es = \<lparr>ptID = scopePartID scope, ptText = scopeText scope (es = []), ptTrust = ownTrust\<rparr>"

definition adds :: "'l \<Rightarrow> 'l renderOptions \<Rightarrow> int \<Rightarrow> int \<Rightarrow> scope \<Rightarrow> Entry list \<Rightarrow> bool list \<Rightarrow> 'l block \<Rightarrow> 'l block \<Rightarrow> bool" where
  "adds u ro limit room scope es ins bk bk' \<longleftrightarrow> length ins = length es \<and>
     bkParts bk' = bkParts bk @ heading_part scope es # map (entry_part u ro limit scope) (shown_of es ins) @
        scope_line u ro scope (dropped_of es ins) (room - shown_cost limit (shown_of es ins)) \<and>
     bkEntries bk' = bkEntries bk @ map (manifest_entry scope) (shown_of es ins) \<and>
     bkOmitted bk' = bkOmitted bk @ map (\<lambda>e. (manifest_entry scope e)\<lparr>meReason := OmitBudget\<rparr>) (dropped_of es ins) \<and>
     bkSpent bk' = bkSpent bk + shown_cost limit (shown_of es ins) +
        parts_cost (scope_line u ro scope (dropped_of es ins) (room - shown_cost limit (shown_of es ins))) \<and>
     bkSpent bk' \<le> bkSpent bk + room"

lemma scope_block_adds:
  assumes "0 \<le> scope_room ro fixed scope (bkSpent bk)"
  shows "\<exists>ins. adds u ro limit (scope_room ro fixed scope (bkSpent bk)) scope es ins bk (scope_block u ro limit fixed (scope, es) bk) \<and>
     (shown_cost limit es \<le> scope_room ro fixed scope (bkSpent bk) \<longrightarrow> dropped_of es ins = [])"
proof (cases "es = []")
  case True
  with assms show ?thesis
    by (intro exI [of _ "[]"]) (simp add: adds_def scope_block_def heading_part_def scope_line_def shown_cost_def)
next
  case False
  let ?room = "scope_room ro fixed scope (bkSpent bk)"
  obtain ins used where p: "scope_pack es limit ?room = (ins, used)" by fastforce
  note s = scope_pack_spec [OF p assms]
  let ?line = "omitLine (dropped_of es ins) (?room - used)"
  have fit: "?line \<noteq> [] \<Longrightarrow> cost ?line \<le> ?room - used" by (rule omitLine_fits)
  have "adds u ro limit ?room scope es ins bk (scope_block u ro limit fixed (scope, es) bk)"
    using False p fit s
    by (auto simp: adds_def scope_block_def Let_def heading_part_def scope_line_def scope_room_def)
  moreover have "shown_cost limit es \<le> ?room \<longrightarrow> dropped_of es ins = []"
    using p by (auto simp: scope_pack_all dropped_of_all)
  ultimately show ?thesis by blast
qed

section \<open>All scopes\<close>

definition scope_parts :: "'l \<Rightarrow> 'l renderOptions \<Rightarrow> int \<Rightarrow> scope \<times> Entry list \<Rightarrow> bool list \<times> int \<Rightarrow> 'l Part list" where
  "scope_parts u ro limit = (\<lambda>(scope, es) (ins, room). heading_part scope es # map (entry_part u ro limit scope) (shown_of es ins) @
     scope_line u ro scope (dropped_of es ins) (room - shown_cost limit (shown_of es ins)))"

definition scope_used :: "'l \<Rightarrow> 'l renderOptions \<Rightarrow> int \<Rightarrow> scope \<times> Entry list \<Rightarrow> bool list \<times> int \<Rightarrow> int" where
  "scope_used u ro limit = (\<lambda>(scope, es) (ins, room). shown_cost limit (shown_of es ins) +
     parts_cost (scope_line u ro scope (dropped_of es ins) (room - shown_cost limit (shown_of es ins))))"

definition scope_shown :: "scope \<times> Entry list \<Rightarrow> bool list \<Rightarrow> ManifestEntry list" where
  "scope_shown = (\<lambda>(scope, es) ins. map (manifest_entry scope) (shown_of es ins))"

definition scope_dropped :: "scope \<times> Entry list \<Rightarrow> bool list \<Rightarrow> ManifestEntry list" where
  "scope_dropped = (\<lambda>(scope, es) ins. map (\<lambda>e. (manifest_entry scope e)\<lparr>meReason := OmitBudget\<rparr>) (dropped_of es ins))"

lemma scope_simps:
  "scope_parts u ro limit (scope, es) (ins, room) = heading_part scope es # map (entry_part u ro limit scope) (shown_of es ins) @
     scope_line u ro scope (dropped_of es ins) (room - shown_cost limit (shown_of es ins))"
  "scope_used u ro limit (scope, es) (ins, room) = shown_cost limit (shown_of es ins) +
     parts_cost (scope_line u ro scope (dropped_of es ins) (room - shown_cost limit (shown_of es ins)))"
  "scope_shown (scope, es) ins = map (manifest_entry scope) (shown_of es ins)"
  "scope_dropped (scope, es) ins = map (\<lambda>e. (manifest_entry scope e)\<lparr>meReason := OmitBudget\<rparr>) (dropped_of es ins)"
  by (simp_all add: scope_parts_def scope_used_def scope_shown_def scope_dropped_def)

text \<open>A choice of what is shown of each scope, with the room it had, is a fit when it is inside the
  room and the room inside the scope's cap.\<close>

definition fits :: "'l \<Rightarrow> 'l renderOptions \<Rightarrow> int \<Rightarrow> scope \<times> Entry list \<Rightarrow> bool list \<times> int \<Rightarrow> bool" where
  "fits u ro limit l w \<longleftrightarrow> length (fst w) = length (snd l) \<and> scope_used u ro limit l w \<le> snd w \<and>
     (\<forall>n. map_of (roScopeMax ro) (fst l) = Some n \<longrightarrow> snd w \<le> n)"

definition caps_ok :: "'l renderOptions \<Rightarrow> bool" where
  "caps_ok ro \<longleftrightarrow> (\<forall>(scope, n) \<in> set (roScopeMax ro). 0 \<le> n)"

lemma scope_room_pos: "caps_ok ro \<Longrightarrow> spent \<le> roMaxTotal ro - fixed \<Longrightarrow> 0 \<le> scope_room ro fixed scope spent"
  by (auto simp: scope_room_def caps_ok_def Let_def split: option.split dest!: map_of_SomeD)

lemma scope_room_le: "scope_room ro fixed scope spent \<le> roMaxTotal ro - fixed - spent"
  "map_of (roScopeMax ro) scope = Some n \<Longrightarrow> scope_room ro fixed scope spent \<le> n"
  by (auto simp: scope_room_def Let_def split: option.split)

definition run_block :: "'l \<Rightarrow> 'l renderOptions \<Rightarrow> int \<Rightarrow> int \<Rightarrow> (scope \<times> Entry list) list \<Rightarrow> 'l block" where
  "run_block u ro limit fixed ls = foldl (\<lambda>bk l. scope_block u ro limit fixed l bk)
     \<lparr>bkParts = [title_part], bkEntries = [], bkOmitted = [], bkSpent = 0\<rparr> ls"

definition described :: "'l \<Rightarrow> 'l renderOptions \<Rightarrow> int \<Rightarrow> (scope \<times> Entry list) list \<Rightarrow> (bool list \<times> int) list \<Rightarrow> 'l block \<Rightarrow> bool" where
  "described u ro limit ls ws bk \<longleftrightarrow> list_all2 (fits u ro limit) ls ws \<and>
     bkParts bk = title_part # concat (map2 (scope_parts u ro limit) ls ws) \<and>
     bkEntries bk = concat (map2 scope_shown ls (map fst ws)) \<and>
     bkOmitted bk = concat (map2 scope_dropped ls (map fst ws)) \<and>
     bkSpent bk = sum_list (map2 (scope_used u ro limit) ls ws)"

lemma run_block_described:
  assumes "caps_ok ro" and "fixed \<le> roMaxTotal ro"
  shows "\<exists>ws. described u ro limit ls ws (run_block u ro limit fixed ls) \<and>
     bkSpent (run_block u ro limit fixed ls) \<le> roMaxTotal ro - fixed"
proof (induction ls rule: rev_induct)
  case Nil
  show ?case using assms(2) by (intro exI [of _ "[]"]) (simp add: described_def run_block_def)
next
  case (snoc l ls)
  obtain scope es where l: "l = (scope, es)" by (cases l)
  let ?bk = "run_block u ro limit fixed ls"
  define room where "room = scope_room ro fixed scope (bkSpent ?bk)"
  from snoc obtain ws where d: "described u ro limit ls ws ?bk" and sp: "bkSpent ?bk \<le> roMaxTotal ro - fixed" by blast
  have step: "run_block u ro limit fixed (ls @ [l]) = scope_block u ro limit fixed (scope, es) ?bk"
    by (simp add: run_block_def l)
  obtain ins where a: "adds u ro limit room scope es ins ?bk (scope_block u ro limit fixed (scope, es) ?bk)"
    unfolding room_def using scope_block_adds [OF scope_room_pos [OF assms(1) sp]] by blast
  have len: "length ls = length ws" using d by (auto simp: described_def dest: list_all2_lengthD)
  have f: "fits u ro limit l (ins, room)"
    using a scope_room_le(2) by (auto simp: fits_def adds_def scope_simps l room_def)
  have "described u ro limit (ls @ [l]) (ws @ [(ins, room)]) (run_block u ro limit fixed (ls @ [l]))"
    using d a f len by (simp add: described_def step [unfolded l] adds_def list_all2_appendI scope_simps l)
  moreover have "bkSpent (run_block u ro limit fixed (ls @ [l])) \<le> roMaxTotal ro - fixed"
    using a scope_room_le(1) [of ro fixed scope "bkSpent ?bk"] by (simp add: step adds_def room_def)
  ultimately show ?case by blast
qed

lemma parts_cost_scope: "parts_cost (scope_parts u ro limit l w) = heading_cost l + scope_used u ro limit l w"
  by (cases l; cases w) (simp add: scope_simps heading_cost_def heading_part_def parts_cost_entries)

lemma parts_cost_all:
  "list_all2 P ls ws \<Longrightarrow> parts_cost (concat (map2 (scope_parts u ro limit) ls ws)) =
     sum_list (map heading_cost ls) + sum_list (map2 (scope_used u ro limit) ls ws)"
  by (induction rule: list_all2_induct) (simp_all add: parts_cost_scope)

lemma length_JoinParts: "int (length (JoinParts (p # ps))) = int (length (ptText p)) + parts_cost ps"
proof -
  have "int (length (Join (x # xs) PartSeparator)) = int (length x) + sum_list (map cost xs)" for x xs
    by (induction xs arbitrary: x) (simp_all add: cost_def)
  then show ?thesis by (simp add: JoinParts_def parts_cost_def comp_def)
qed

lemma counts_all:
  "list_all2 (fits u ro limit) ls ws \<Longrightarrow>
     length (concat (map2 scope_shown ls (map fst ws))) + length (concat (map2 scope_dropped ls (map fst ws))) =
     sum_list (map (\<lambda>(scope, es). length es) ls)"
proof (induction rule: list_all2_induct)
  case (Cons l ls w ws)
  have split: "length ins = length es \<Longrightarrow> length (shown_of es ins) + length (dropped_of es ins) = length es"
    for es :: "Entry list" and ins
    by (induction es ins rule: list_induct2') (auto simp: shown_of_def dropped_of_def)
  from Cons split [of "fst w" "snd l"] show ?case
    by (cases l) (auto simp: scope_simps fits_def)
qed simp

lemma fixed_cost_sum:
  "fixed_cost m limit ls = (let n = sum_list (map (\<lambda>(scope, es). length es) ls) in
     int (length title) + cost (summary n n m m m limit) + sum_list (map heading_cost ls))"
proof -
  have "foldl (\<lambda>fixed (scope, es). fixed + cost (scopeText scope (es = []))) k ls = k + sum_list (map heading_cost ls)" for k
    by (induction ls arbitrary: k) (auto simp: heading_cost_def)
  then show ?thesis by (simp add: fixed_cost_def Let_def)
qed

section \<open>The summary settles\<close>

lemma utoa_times_10: "0 < n \<Longrightarrow> length (utoa (10 * n)) = Suc (length (utoa n))"
  by (simp add: utoa_large)

lemma Itoa_near:
  assumes "0 < i" and "j \<le> 10 * i" and "0 \<le> j"
  shows "length (Itoa j) \<le> Suc (length (Itoa i))"
proof -
  have "length (Itoa j) \<le> length (Itoa (10 * i))" using assms by (intro length_Itoa_mono) auto
  also have "\<dots> = Suc (length (Itoa i))"
    using assms(1) utoa_times_10 [of "nat i"] by (simp add: Itoa_def nat_mult_distrib)
  finally show ?thesis .
qed

lemma settle_fixed:
  "int (length (f sz)) + rest = sz \<Longrightarrow> settle (Suc k) f rest sz t = f sz"
  by (simp add: Let_def)

text \<open>A size that moves only with its own digits: above 20, three passes reach the size that
  states itself.\<close>

lemma settle_reaches:
  assumes len: "\<And>i. 0 \<le> i \<Longrightarrow> i \<le> hi \<Longrightarrow> rest + int (length (f i)) = c + int (length (Itoa i))"
    and c: "20 \<le> c" and hi: "c + int (length (Itoa hi)) \<le> hi" "hi < 10 ^ 19"
  shows "\<exists>sz. 0 \<le> sz \<and> sz \<le> hi \<and> rest + int (length (f sz)) = sz \<and> settle (4 + k) f rest hi t = f sz"
proof -
  let ?D = "\<lambda>i. int (length (Itoa i))"
  define s1 where "s1 = c + ?D hi"
  define s2 where "s2 = c + ?D s1"
  define s3 where "s3 = c + ?D s2"
  have hi0: "0 \<le> hi" using c hi by linarith
  have D19: "?D i \<le> 19" if "0 \<le> i" "i \<le> hi" for i
    using that hi(2) length_utoa_le [of "nat i" 19] by (simp add: Itoa_def nat_less_iff)
  have mono: "?D i \<le> ?D j" if "0 \<le> i" "i \<le> j" for i j using that length_Itoa_mono by simp
  have s1: "0 < s1" "s1 \<le> hi" using c hi by (simp_all add: s1_def)
  have s2: "0 < s2" "s2 \<le> s1" using c s1 mono [of s1 hi] by (simp_all add: s2_def s1_def)
  have s3: "0 < s3" "s3 \<le> s2" using c s2 mono [of s2 s1] by (simp_all add: s3_def s2_def)
  have "s1 \<le> 10 * s3" using c D19 [of hi] hi0 s3 by (simp add: s1_def s3_def)
  then have near: "?D s1 \<le> ?D s3 + 1" using Itoa_near [of s3 s1] s1 s3 by simp
  have "?D s3 \<le> ?D s2" "?D s2 \<le> ?D s1" using mono s2 s3 by simp_all
  then have d: "s3 = s2 \<or> ?D s3 = ?D s2" using near unfolding s2_def s3_def by linarith
  have f: "rest + int (length (f hi)) = s1" "rest + int (length (f s1)) = s2" "rest + int (length (f s2)) = s3"
    "rest + int (length (f s3)) = c + ?D s3"
    using len hi0 s1 s2 s3 by (simp_all add: s1_def s2_def s3_def)
  have fix3: "rest + int (length (f s3)) = s3" using d f(4) by (auto simp: s3_def)
  have "settle (4 + k) f rest hi t = f s3"
    using f fix3 by (auto simp: Let_def eval_nat_numeral)
  with fix3 s1 s2 s3 show ?thesis by (intro exI [of _ s3]) auto
qed

definition summary_base :: "nat \<Rightarrow> nat \<Rightarrow> int \<Rightarrow> int \<Rightarrow> nat" where
  "summary_base shown omitted bound limit =
     74 + length (Itoa (int shown)) + length (Itoa (int omitted)) + 2 * length (Itoa bound) + length (Itoa limit)"

lemma length_summary:
  assumes "0 \<le> free" "free \<le> bound"
  shows "length (summary shown omitted sz free bound limit) = summary_base shown omitted bound limit + length (Itoa sz)"
proof -
  have "max (length (Itoa bound)) (length (Itoa free)) = length (Itoa bound)"
    using length_Itoa_mono [OF assms] by simp
  then show ?thesis by (simp add: summary_def summary_base_def length_pad_d)
qed

lemma summary_base_mono:
  "shown \<le> n \<Longrightarrow> omitted \<le> n \<Longrightarrow> summary_base shown omitted bound limit \<le> summary_base n n bound limit"
  using length_Itoa_mono [of "int shown" "int n"] length_Itoa_mono [of "int omitted" "int n"]
  by (simp add: summary_base_def)

lemma render_block_Inr:
  assumes r: "render_block u ro limit ls = Inr (parts, man)" and caps: "caps_ok ro" and bound: "roMaxTotal ro < 2 ^ 63"
  obtains ws bk where "described u ro limit ls ws bk"
    "man = \<lparr>mnEntries = bkEntries bk, mnOmitted = bkOmitted bk, mnLeftOut = False\<rparr>"
    "parts = bkParts bk @ [\<lparr>ptID = SummaryPartID, ptText = summary (length (bkEntries bk)) (length (bkOmitted bk))
       (int (length (JoinParts parts))) (roMaxTotal ro - int (length (JoinParts parts))) (roMaxTotal ro) limit, ptTrust = ownTrust\<rparr>]"
    "int (length (JoinParts parts)) \<le> roMaxTotal ro"
proof -
  let ?max = "roMaxTotal ro"
  define fixed where "fixed = fixed_cost ?max limit ls"
  define bk where "bk = run_block u ro limit fixed ls"
  define n where "n = sum_list (map (\<lambda>(scope, es). length es) ls)"
  let ?shown = "length (bkEntries bk)" and ?left = "length (bkOmitted bk)"
  let ?f = "\<lambda>sz. summary ?shown ?left sz (?max - sz) ?max limit"
  define rest where "rest = int (length (JoinParts (bkParts bk))) + int (length PartSeparator)"
  define hi where "hi = fixed + bkSpent bk"
  have fx: "fixed \<le> ?max" using r by (auto simp: render_block_def Let_def fixed_def split: if_splits)
  obtain ws where d: "described u ro limit ls ws bk" and sp: "bkSpent bk \<le> ?max - fixed"
    unfolding bk_def using run_block_described [OF caps fx] by blast
  have res: "man = \<lparr>mnEntries = bkEntries bk, mnOmitted = bkOmitted bk, mnLeftOut = False\<rparr>"
      "parts = bkParts bk @ [\<lparr>ptID = SummaryPartID, ptText = settle 8 ?f rest hi [], ptTrust = ownTrust\<rparr>]"
    using r fx by (simp_all add: render_block_def Let_def fixed_def bk_def run_block_def rest_def hi_def)
  have nn: "?shown + ?left = n" using d counts_all by (auto simp: described_def n_def)
  have tail: "bkParts bk = title_part # concat (map2 (scope_parts u ro limit) ls ws)"
      "parts_cost (concat (map2 (scope_parts u ro limit) ls ws)) = sum_list (map heading_cost ls) + bkSpent bk"
    using d parts_cost_all by (auto simp: described_def)
  have restv: "rest = int (length title) + 2 + sum_list (map heading_cost ls) + bkSpent bk"
    unfolding rest_def tail(1) length_JoinParts tail(2) by (simp add: title_part_def PartSeparator_def)
  have hiv: "hi = rest + int (length (summary n n ?max ?max ?max limit))"
    using fixed_cost_sum [of ?max limit ls] by (simp add: hi_def fixed_def restv n_def Let_def cost_def PartSeparator_def)
  have himax: "hi \<le> ?max" using sp by (simp add: hi_def)
  have rest0: "0 \<le> rest" by (simp add: rest_def)
  have hi0: "0 \<le> hi" using rest0 by (simp add: hiv)
  define c where "c = rest + int (summary_base ?shown ?left ?max limit)"
  have len: "rest + int (length (?f i)) = c + int (length (Itoa i))" if "0 \<le> i" "i \<le> hi" for i
    using that himax by (simp add: c_def length_summary)
  have c20: "20 \<le> c" using rest0 by (simp add: c_def summary_base_def)
  have "length (summary n n ?max ?max ?max limit) = summary_base n n ?max limit + length (Itoa ?max)"
    using hi0 himax by (intro length_summary) auto
  moreover have "summary_base ?shown ?left ?max limit \<le> summary_base n n ?max limit"
    using nn by (intro summary_base_mono) auto
  moreover have "length (Itoa hi) \<le> length (Itoa ?max)" using hi0 himax by (rule length_Itoa_mono)
  ultimately have "c + int (length (Itoa hi)) \<le> hi" unfolding c_def hiv by linarith
  moreover have "hi < 10 ^ 19" using himax bound by simp
  ultimately have "\<exists>sz. 0 \<le> sz \<and> sz \<le> hi \<and> rest + int (length (?f sz)) = sz \<and> settle (4 + 4) ?f rest hi [] = ?f sz"
    by (intro settle_reaches [where c = c] len c20)
  then obtain sz where sz: "sz \<le> hi" "rest + int (length (?f sz)) = sz" "settle (4 + 4) ?f rest hi [] = ?f sz" by blast
  have lp: "int (length (JoinParts parts)) = sz"
  proof -
    have "int (length (JoinParts parts)) = int (length (JoinParts (bkParts bk))) + cost (?f sz)"
      using sz(3) unfolding res(2) tail(1) append_Cons length_JoinParts by simp
    with sz(2) show ?thesis by (simp add: rest_def cost_def)
  qed
  show thesis
  proof (rule that [OF d res(1)])
    show "parts = bkParts bk @ [\<lparr>ptID = SummaryPartID, ptText = summary ?shown ?left
       (int (length (JoinParts parts))) (?max - int (length (JoinParts parts))) ?max limit, ptTrust = ownTrust\<rparr>]"
      unfolding lp using res(2) sz(3) by simp
    show "int (length (JoinParts parts)) \<le> ?max" unfolding lp using sz(1) himax by simp
  qed
qed

section \<open>A whole render\<close>

lemma check_scopes_None:
  "check_scopes seen scopes = None \<longleftrightarrow>
     (\<forall>scope \<in> set scopes. ValidScope scope \<and> scope \<notin> set seen) \<and> distinct scopes"
  by (induction scopes arbitrary: seen) auto

lemma list_scopes_Inr:
  "list_scopes S scopes s = Inr ls \<longleftrightarrow>
     list_all2 (\<lambda>scope (scope', es). scope' = scope \<and> sList S scope s = Inr es) scopes ls"
  by (induction S scopes s arbitrary: ls rule: list_scopes.induct)
     (auto simp: list_all2_Cons1 split: sum.splits)

lemma list_scopes_fst: "list_scopes S scopes s = Inr ls \<Longrightarrow> map fst ls = scopes"
  by (induction S scopes s arbitrary: ls rule: list_scopes.induct) (auto split: sum.splits)

lemma RenderParts_Inr:
  assumes "RenderParts u S scopes opts s = Inr (parts, man)"
  obtains ls where "caps_ok (resolveRenderOptions opts)" "\<forall>scope \<in> set scopes. ValidScope scope" "distinct scopes"
    "list_scopes S scopes s = Inr ls" "render_block u (resolveRenderOptions opts) (sMaxEntryBytes S s) ls = Inr (parts, man)"
proof -
  let ?ro = "resolveRenderOptions opts"
  from assms obtain ls where 1: "List.find (\<lambda>(scope, n). n < 0) (roScopeMax ?ro) = None"
    and 2: "check_scopes [] scopes = None" and 3: "list_scopes S scopes s = Inr ls"
    and 4: "render_block u ?ro (sMaxEntryBytes S s) ls = Inr (parts, man)"
    by (auto simp: RenderParts_def Let_def split: if_splits option.splits sum.splits)
  from 1 have "caps_ok ?ro" by (auto simp: caps_ok_def find_None_iff not_less)
  with 2 3 4 show thesis by (intro that) (auto simp: check_scopes_None)
qed

section \<open>Identifiers\<close>

definition id_scope :: "string \<Rightarrow> scope" where
  "id_scope i = takeWhile (\<lambda>c. c \<noteq> CHR ''/'' \<and> c \<noteq> CHR '':'') (drop 7 i)"

definition scope_id :: "scope \<Rightarrow> string \<Rightarrow> bool" where
  "scope_id scope i \<longleftrightarrow> HasPrefix i ''memory/'' \<and> id_scope i = scope"

lemma takeWhile_scope:
  assumes "ValidName scope" and "r = [] \<or> hd r = CHR ''/'' \<or> hd r = CHR '':''"
  shows "takeWhile (\<lambda>c. c \<noteq> CHR ''/'' \<and> c \<noteq> CHR '':'') (scope @ r) = scope"
proof -
  have "\<forall>c \<in> set scope. c \<noteq> CHR ''/'' \<and> c \<noteq> CHR '':''" using ValidName_excludes [OF assms(1)] by metis
  moreover have "takeWhile (\<lambda>c. c \<noteq> CHR ''/'' \<and> c \<noteq> CHR '':'') r = []" using assms(2) by (cases r) auto
  ultimately show ?thesis by (simp add: takeWhile_append2)
qed

lemma scope_ids:
  assumes "ValidName scope"
  shows "scope_id scope (scopePartID scope)" "scope_id scope (PartID scope name)" "scope_id scope (omittedPartID scope)"
  using takeWhile_scope [OF assms, of "[]"] takeWhile_scope [OF assms, of "CHR ''/'' # name"]
    takeWhile_scope [OF assms, of "'':omitted''"]
  by (simp_all add: scope_id_def id_scope_def scopePartID_def PartID_def omittedPartID_def HasPrefix_def)

definition part_ids :: "scope \<Rightarrow> Entry list \<Rightarrow> bool \<Rightarrow> string list" where
  "part_ids scope es line = scopePartID scope # map (\<lambda>e. PartID scope (eName e)) es @ (if line then [omittedPartID scope] else [])"

lemma scope_parts_ids:
  "\<exists>line. map ptID (scope_parts u ro limit l w) = part_ids (fst l) (shown_of (snd l) (fst w)) line"
  by (cases l; cases w) (auto simp: scope_simps part_ids_def heading_part_def entry_part_def scope_line_def)

lemma part_ids_props:
  assumes "ValidName scope" and "distinct (map eName es)"
  shows "distinct (part_ids scope es line)" "\<forall>i \<in> set (part_ids scope es line). scope_id scope i"
proof -
  have "distinct (map (\<lambda>e. PartID scope (eName e)) es)"
    using assms(2) by (simp add: PartID_def distinct_map inj_on_def)
  moreover have "PartID scope n \<noteq> omittedPartID scope" "PartID scope n \<noteq> scopePartID scope" "scopePartID scope \<noteq> omittedPartID scope" for n
    by (auto simp: PartID_def omittedPartID_def scopePartID_def)
  ultimately show "distinct (part_ids scope es line)" by (force simp: part_ids_def)
  show "\<forall>i \<in> set (part_ids scope es line). scope_id scope i"
    using scope_ids [OF assms(1)] by (auto simp: part_ids_def)
qed

lemma shown_of_sublist: "map eName (shown_of es ins) = map fst (filter snd (zip (map eName es) ins))"
  by (induction es ins rule: list_induct2') (auto simp: shown_of_def)

lemma distinct_shown: "distinct (map eName es) \<Longrightarrow> distinct (map eName (shown_of es ins))"
  unfolding shown_of_sublist
  by (metis distinct_map_filter distinct_take map_fst_zip_take)

definition named_lists :: "(scope \<times> Entry list) list \<Rightarrow> bool" where
  "named_lists ls \<longleftrightarrow> distinct (map fst ls) \<and> (\<forall>(scope, es) \<in> set ls. ValidName scope \<and> distinct (map eName es))"

lemma all_ids:
  assumes "list_all2 P ls ws" and "named_lists ls"
  shows "distinct (map ptID (concat (map2 (scope_parts u ro limit) ls ws))) \<and>
     (\<forall>i \<in> set (map ptID (concat (map2 (scope_parts u ro limit) ls ws))). \<exists>scope \<in> fst ` set ls. scope_id scope i)"
  using assms
proof (induction rule: list_all2_induct)
  case (Cons l ls w ws)
  from scope_parts_ids [of u ro limit l w] obtain line
    where ids: "map ptID (scope_parts u ro limit l w) = part_ids (fst l) (shown_of (snd l) (fst w)) line" ..
  from Cons.prems have v: "ValidName (fst l)" "distinct (map eName (snd l))" "fst l \<notin> fst ` set ls" "named_lists ls"
    by (auto simp: named_lists_def)
  note pp = part_ids_props [OF v(1) distinct_shown [OF v(2), of "fst w"], of line, folded ids]
  have IH: "distinct (map ptID (concat (map2 (scope_parts u ro limit) ls ws)))"
    "\<forall>i \<in> set (map ptID (concat (map2 (scope_parts u ro limit) ls ws))). \<exists>scope \<in> fst ` set ls. scope_id scope i"
    using Cons.IH [OF v(4)] by blast+
  let ?A = "map ptID (scope_parts u ro limit l w)" and ?B = "map ptID (concat (map2 (scope_parts u ro limit) ls ws))"
  have "i \<notin> set ?B" if "i \<in> set ?A" for i
  proof
    assume "i \<in> set ?B"
    with IH(2) obtain scope where "scope \<in> fst ` set ls" "scope_id scope i" by blast
    moreover have "scope_id (fst l) i" using pp(2) that by blast
    ultimately show False using v(3) by (simp add: scope_id_def)
  qed
  then have "distinct (?A @ ?B)" using pp(1) IH(1) by (simp only: distinct_append) blast
  moreover have "\<forall>i \<in> set (?A @ ?B). \<exists>scope \<in> fst ` set (l # ls). scope_id scope i"
    using pp(2) IH(2) unfolding set_append list.set image_insert by blast
  moreover have "map ptID (concat (map2 (scope_parts u ro limit) (l # ls) (w # ws))) = ?A @ ?B" by simp
  ultimately show ?case by presburger
qed simp

lemma render_block_ids:
  assumes "described u ro limit ls ws bk" and "named_lists ls"
  shows "distinct (map ptID (bkParts bk @ [\<lparr>ptID = SummaryPartID, ptText = t, ptTrust = tr\<rparr>]))"
proof -
  have p: "bkParts bk = title_part # concat (map2 (scope_parts u ro limit) ls ws)" using assms(1) by (simp add: described_def)
  have a: "list_all2 (fits u ro limit) ls ws" using assms(1) by (simp add: described_def)
  note ids = all_ids [OF a assms(2), of u ro limit]
  have "\<not> scope_id scope TitlePartID" "\<not> scope_id scope SummaryPartID" for scope
    by (simp_all add: scope_id_def HasPrefix_def TitlePartID_def SummaryPartID_def)
  then have "TitlePartID \<notin> set (map ptID (concat (map2 (scope_parts u ro limit) ls ws)))"
    "SummaryPartID \<notin> set (map ptID (concat (map2 (scope_parts u ro limit) ls ws)))"
    using ids by blast+
  moreover have "TitlePartID \<noteq> SummaryPartID" by (simp add: TitlePartID_def SummaryPartID_def)
  ultimately show ?thesis using ids by (simp add: p title_part_def)
qed

section \<open>Entry parts\<close>

lemma no_ends_simps: "no_ends s \<longleftrightarrow> CR \<notin> set s \<and> LF \<notin> set s"
  by (auto simp: no_ends_def line_end_def)

lemma ValidName_no_ends: "ValidName n \<Longrightarrow> no_ends n"
proof -
  assume v: "ValidName n"
  have "\<not> name_char CR" "\<not> name_char LF" by code_simp+
  with ValidName_chars [OF v] show ?thesis by (fastforce simp: no_ends_simps)
qed

lemma Itoa_no_ends: "no_ends (Itoa i)"
  using set_Itoa [of i] by (auto simp: no_ends_simps)

lemma entryHeading_one_line: "ValidName (eName e) \<Longrightarrow> no_ends (entryHeading e limit)"
  using ValidName_no_ends [of "eName e"] Itoa_no_ends [of "int (Size e)"] Itoa_no_ends [of limit]
  by (auto simp: entryHeading_def no_ends_simps em_dash_def)

section \<open>A block with room for everything\<close>

lemma run_block_all_fit:
  assumes "roScopeMax ro = []" "0 \<le> roMaxTotal ro - fixed"
    and "sum_list (map (\<lambda>(scope, es). shown_cost limit es) ls) \<le> roMaxTotal ro - fixed"
  shows "bkOmitted (run_block u ro limit fixed ls) = [] \<and>
    bkSpent (run_block u ro limit fixed ls) = sum_list (map (\<lambda>(scope, es). shown_cost limit es) ls) \<and>
    bkEntries (run_block u ro limit fixed ls) = concat (map (\<lambda>(scope, es). map (manifest_entry scope) es) ls) \<and>
    bkParts (run_block u ro limit fixed ls) = title_part # concat (map (\<lambda>(scope, es). heading_part scope es # map (entry_part u ro limit scope) es) ls)"
  using assms(3)
proof (induction ls rule: rev_induct)
  case Nil
  show ?case by (simp add: run_block_def)
next
  case (snoc l ls)
  obtain scope es where l: "l = (scope, es)" by (cases l)
  let ?bk = "run_block u ro limit fixed ls"
  have c0: "0 \<le> shown_cost limit es" by (rule shown_cost_pos)
  with snoc.prems have le: "sum_list (map (\<lambda>(scope, es). shown_cost limit es) ls) \<le> roMaxTotal ro - fixed" by (simp add: l)
  note bk = snoc.IH [OF le]
  have room: "scope_room ro fixed scope (bkSpent ?bk) = roMaxTotal ro - fixed - bkSpent ?bk"
    using assms(1) by (simp add: scope_room_def Let_def)
  have fit: "shown_cost limit es \<le> scope_room ro fixed scope (bkSpent ?bk)" unfolding room using snoc.prems bk by (simp add: l)
  then have "0 \<le> scope_room ro fixed scope (bkSpent ?bk)" using c0 by linarith
  from scope_block_adds [OF this, of u limit es] fit obtain ins where
    a: "adds u ro limit (scope_room ro fixed scope (bkSpent ?bk)) scope es ins ?bk (scope_block u ro limit fixed (scope, es) ?bk)"
      "dropped_of es ins = []" by blast
  have "shown_of es ins = es" if "length ins = length es" "dropped_of es ins = []"
    using that by (induction es ins rule: list_induct2') (auto simp: shown_of_def dropped_of_def split: if_splits)
  then have "shown_of es ins = es" using a by (simp add: adds_def)
  with a bk show ?case by (simp add: run_block_def l adds_def scope_line_def)
qed

section \<open>Rendering a store\<close>

context memory_store
begin

lemma list_names:
  assumes "inv s" "sList S scope s = Inr es"
  shows "distinct (map eName es)" "\<forall>e \<in> set es. ValidName (eName e) \<and> eScope e = scope"
proof -
  have v: "ValidScope scope" using assms list_bad by fastforce
  obtain es' where "sList S scope s = Inr es'" "sorted_wrt (<) (map eName es')"
      "\<forall>e. e \<in> set es' \<longleftrightarrow> aLive (view s) scope (eName e) = Some e"
    using list_ok [OF assms(1) v] by blast
  with assms(2) have es: "sorted_wrt (<) (map eName es)" "\<forall>e. e \<in> set es \<longleftrightarrow> aLive (view s) scope (eName e) = Some e" by simp_all
  then show "distinct (map eName es)" by (simp add: strict_sorted_iff)
  show "\<forall>e \<in> set es. ValidName (eName e) \<and> eScope e = scope"
  proof
    fix e assume "e \<in> set es"
    with es(2) have "aLive (view s) scope (eName e) = Some e" by blast
    note live = abs_inv_live [OF inv_view [OF assms(1)] this]
    then show "ValidName (eName e) \<and> eScope e = scope" by (simp add: normal_entry_def entry_ok_def)
  qed
qed

lemma render_named:
  assumes "inv s" "list_scopes S scopes s = Inr ls" "\<forall>scope \<in> set scopes. ValidScope scope" "distinct scopes"
  shows "named_lists ls"
proof -
  have f: "map fst ls = scopes" by (rule list_scopes_fst [OF assms(2)])
  have "sList S scope s = Inr es" if "(scope, es) \<in> set ls" for scope es
    using assms(2) that unfolding list_scopes_Inr by (fastforce simp: list_all2_conv_all_nth in_set_conv_nth)
  moreover have "ValidName scope" if "(scope, es) \<in> set ls" for scope es
    using that f assms(3) by (force simp: ValidScope_def)
  ultimately have "ValidName scope \<and> distinct (map eName es)" if "(scope, es) \<in> set ls" for scope es
    using that list_names(1) [OF assms(1)] by blast
  then show ?thesis using f assms(4) by (auto simp: named_lists_def)
qed

lemma render_ids:
  assumes "inv s" "RenderParts u S scopes opts s = Inr (parts, man)" "roMaxTotal (resolveRenderOptions opts) < 2 ^ 63"
  shows "distinct (map ptID parts)"
proof -
  from assms(2) obtain ls where ls: "caps_ok (resolveRenderOptions opts)" "\<forall>scope \<in> set scopes. ValidScope scope" "distinct scopes"
    "list_scopes S scopes s = Inr ls" "render_block u (resolveRenderOptions opts) (sMaxEntryBytes S s) ls = Inr (parts, man)"
    by (rule RenderParts_Inr)
  obtain ws bk where d: "described u (resolveRenderOptions opts) (sMaxEntryBytes S s) ls ws bk"
    and p: "\<exists>t. parts = bkParts bk @ [\<lparr>ptID = SummaryPartID, ptText = t, ptTrust = ownTrust\<rparr>]"
    by (rule render_block_Inr [OF ls(5,1) assms(3)]) blast
  from p obtain t where "parts = bkParts bk @ [\<lparr>ptID = SummaryPartID, ptText = t, ptTrust = ownTrust\<rparr>]" ..
  then show ?thesis using render_block_ids [OF d render_named [OF assms(1) ls(4,2,3)]] by (simp only:)
qed

end

text \<open>An empty store over one scope, rendered with the default bound.\<close>

definition sample_parts :: "unit Part list" where
  "sample_parts = [title_part, \<lparr>ptID = ''memory/user'', ptText = ''## user'' @ [LF, LF] @ ''No entries.'', ptTrust = Some []\<rparr>,
     \<lparr>ptID = ''memory:summary'', ptText = ''Entries: 0 shown, 0 omitted. Block: 125 of 32768 bytes (32643 free). Entry limit: 4096 bytes.'', ptTrust = Some []\<rparr>]"

lemma sample_render:
  "RenderParts () (memStore (\<lambda>r. r)) [''user''] [] (NewMemStore [WithMaxEntryBytes 4096]) = Inr (sample_parts, zeroManifest)"
  by code_simp

text \<open>A store of two entries, rendered with room for both and with room for one.\<close>

definition tea_entry :: Entry where
  "tea_entry = \<lparr>eScope = ''user'', eName = ''tea'', eContent = ''green'', eMeta = Some [(''description'', ''what to drink'')], eHash = ''h1'', eMetaHash = ''m1'',
     eUpdated = 7, eDeleted = False\<rparr>"

definition work_entry :: Entry where
  "work_entry = \<lparr>eScope = ''user'', eName = ''work'', eContent = ''Works from home on Fridays, in the office on the other days of the week, and not at all on Sundays.'',
     eMeta = None, eHash = ''h2'', eMetaHash = [], eUpdated = 8, eDeleted = False\<rparr>"

definition two_entries :: MemStore where
  "two_entries = \<lparr>mMax = 4096, mLive = [(''user'', [(''tea'', tea_entry), (''work'', work_entry)])], mJournal = []\<rparr>"

definition two_entries_render :: "int \<Rightarrow> error + unit Part list \<times> Manifest" where
  "two_entries_render n = RenderParts () (memStore (\<lambda>r. r)) [''user''] [WithMaxTotalBytes n] two_entries"

section \<open>Properties\<close>

text \<open>C19: the block is never over its bound: whatever the store lists and whatever the caps, the joined
  parts of a render that is not refused are at most the bound's bytes.\<close>

theorem block_within_bound:
  assumes "RenderParts u S scopes opts s = Inr (parts, man)" "roMaxTotal (resolveRenderOptions opts) < 2 ^ 63"
  shows "int (length (JoinParts parts)) \<le> roMaxTotal (resolveRenderOptions opts)"
proof -
  from assms(1) obtain ls where ls: "caps_ok (resolveRenderOptions opts)"
    "render_block u (resolveRenderOptions opts) (sMaxEntryBytes S s) ls = Inr (parts, man)"
    by (rule RenderParts_Inr)
  from render_block_Inr [OF ls(2,1) assms(2)] show ?thesis by blast
qed

text \<open>The block's last part is the summary, and the size it states, and the room it states to be free,
  are those of the very block it ends: the passes of the loop settle.\<close>

theorem summary_states_own_size:
  assumes "RenderParts u S scopes opts s = Inr (parts, man)" "roMaxTotal (resolveRenderOptions opts) < 2 ^ 63"
  shows "parts \<noteq> [] \<and> ptID (last parts) = SummaryPartID \<and>
    ptText (last parts) = summary (length (mnEntries man)) (length (mnOmitted man)) (int (length (JoinParts parts)))
      (roMaxTotal (resolveRenderOptions opts) - int (length (JoinParts parts))) (roMaxTotal (resolveRenderOptions opts)) (sMaxEntryBytes S s)"
proof -
  from assms(1) obtain ls where ls: "caps_ok (resolveRenderOptions opts)"
    "render_block u (resolveRenderOptions opts) (sMaxEntryBytes S s) ls = Inr (parts, man)"
    by (rule RenderParts_Inr)
  let ?sum = "\<lambda>bk. \<lparr>ptID = SummaryPartID, ptText = summary (length (bkEntries bk)) (length (bkOmitted bk))
       (int (length (JoinParts parts))) (roMaxTotal (resolveRenderOptions opts) - int (length (JoinParts parts)))
       (roMaxTotal (resolveRenderOptions opts)) (sMaxEntryBytes S s), ptTrust = ownTrust\<rparr>"
  obtain ws bk where "described u (resolveRenderOptions opts) (sMaxEntryBytes S s) ls ws bk"
    and r: "man = \<lparr>mnEntries = bkEntries bk, mnOmitted = bkOmitted bk, mnLeftOut = False\<rparr>"
    and p: "parts = bkParts bk @ [?sum bk]"
    by (rule render_block_Inr [OF ls(2,1) assms(2)]) (rule that)
  have "last parts = ?sum bk" using arg_cong [OF p, of last] by simp
  moreover have "parts \<noteq> []" using arg_cong [OF p, of length] by auto
  ultimately show ?thesis using r by simp
qed


text \<open>No two parts of a block rendered from the in-memory store share an identifier.\<close>

theorem part_ids_distinct:
  assumes "mem_inv m" "RenderParts u (memStore ul) scopes opts m = Inr (parts, man)" "roMaxTotal (resolveRenderOptions opts) < 2 ^ 63"
  shows "distinct (map ptID parts)"
  using assms by (rule mem.render_ids)

text \<open>C21: an entry's part is one heading line, then a blank line, then content no line of which reads as the
  block's structure and which leaves no code fence open.\<close>

theorem entry_part_contained:
  assumes "ValidName (eName e)"
  shows "\<exists>heading body. entryText e limit = heading @ [LF, LF] @ body \<and> CR \<notin> set heading \<and> LF \<notin> set heading \<and>
    HasPrefix heading (''### '' @ eName e) \<and> clean_lines False (splitLines body) \<and> unclosed (splitLines body) = None"
proof (intro exI conjI)
  show "entryText e limit = entryHeading e limit @ [LF, LF] @ neutralise (TrimSuffix (eContent e) [LF])" by (simp add: entryText_def)
  show "CR \<notin> set (entryHeading e limit)" "LF \<notin> set (entryHeading e limit)"
    using entryHeading_one_line [OF assms] by (simp_all add: no_ends_simps)
  show "HasPrefix (entryHeading e limit) (''### '' @ eName e)" by (simp add: entryHeading_def HasPrefix_def)
  show "clean_lines False (splitLines (neutralise (TrimSuffix (eContent e) [LF])))"
    "unclosed (splitLines (neutralise (TrimSuffix (eContent e) [LF]))) = None"
    using neutral_neutralise by (simp_all add: neutral_def)
qed

text \<open>C22: when no scope is capped and the bound has room for every entry, the block shows every entry the store listed, each in its scope and in list order, the
  manifest names them all, and nothing is omitted.\<close>

theorem nothing_omitted_with_room:
  assumes "RenderParts u S scopes opts s = Inr (parts, man)" "list_scopes S scopes s = Inr ls"
    "roScopeMax (resolveRenderOptions opts) = []"
    "sum_list (map (\<lambda>(scope, es). shown_cost (sMaxEntryBytes S s) es) ls) + fixed_cost (roMaxTotal (resolveRenderOptions opts)) (sMaxEntryBytes S s) ls
       \<le> roMaxTotal (resolveRenderOptions opts)"
  shows "mnOmitted man = [] \<and> mnEntries man = concat (map (\<lambda>(scope, es). map (manifest_entry scope) es) ls) \<and>
    (\<exists>t. parts = title_part # concat (map (\<lambda>(scope, es). heading_part scope es #
        map (entry_part u (resolveRenderOptions opts) (sMaxEntryBytes S s) scope) es) ls) @ [\<lparr>ptID = SummaryPartID, ptText = t, ptTrust = ownTrust\<rparr>])"
proof -
  let ?ro = "resolveRenderOptions opts" and ?limit = "sMaxEntryBytes S s"
  let ?fixed = "fixed_cost (roMaxTotal ?ro) ?limit ls"
  from assms(1) obtain ls' where "list_scopes S scopes s = Inr ls'" "render_block u ?ro ?limit ls' = Inr (parts, man)"
    by (rule RenderParts_Inr)
  with assms(2) have r: "render_block u ?ro ?limit ls = Inr (parts, man)" by simp
  then have fx: "0 \<le> roMaxTotal ?ro - ?fixed" by (auto simp: render_block_def Let_def split: if_splits)
  have bk: "bkOmitted (run_block u ?ro ?limit ?fixed ls) = [] \<and> bkEntries (run_block u ?ro ?limit ?fixed ls) = concat (map (\<lambda>(scope, es). map (manifest_entry scope) es) ls) \<and>
    bkParts (run_block u ?ro ?limit ?fixed ls) = title_part # concat (map (\<lambda>(scope, es). heading_part scope es # map (entry_part u ?ro ?limit scope) es) ls)"
    using run_block_all_fit [where u = u and limit = ?limit, OF assms(3) fx] assms(4) by simp
  obtain t where "parts = bkParts (run_block u ?ro ?limit ?fixed ls) @ [\<lparr>ptID = SummaryPartID, ptText = t, ptTrust = ownTrust\<rparr>]"
    "mnEntries man = bkEntries (run_block u ?ro ?limit ?fixed ls)" "mnOmitted man = bkOmitted (run_block u ?ro ?limit ?fixed ls)"
    using r fx unfolding render_block_def Let_def run_block_def by (auto split: if_splits)
  with bk show ?thesis by auto
qed

theorem block_within_bound_witness: "int (length (JoinParts sample_parts)) \<le> 32768"
  using block_within_bound [OF sample_render] by (simp add: resolveRenderOptions_def DefaultMaxTotalBytes_def)

theorem summary_states_own_size_witness: "ptID (last sample_parts) = SummaryPartID"
  using summary_states_own_size [OF sample_render] by (simp add: resolveRenderOptions_def DefaultMaxTotalBytes_def)

lemma two_entries_list: "list_scopes (memStore (\<lambda>r. r)) [''user''] two_entries = Inr [(''user'', [tea_entry, work_entry])]"
  by code_simp

lemma two_entries_names:
  "map_sum id (\<lambda>(parts, man). (map meName (mnEntries man), map meName (mnOmitted man), map ptID parts)) (two_entries_render 250) =
     Inr ([''tea''], [''work''], [''memory'', ''memory/user'', ''memory/user/tea'', ''memory/user:omitted'', ''memory:summary''])"
  "map_sum id (\<lambda>(parts, man). (map meName (mnEntries man), map meName (mnOmitted man), map ptID parts)) (two_entries_render 300) =
     Inr ([''tea'', ''work''], [], [''memory'', ''memory/user'', ''memory/user/tea'', ''memory/user/work'', ''memory:summary''])"
  by code_simp+

lemma two_entries_bound:
  "roMaxTotal (resolveRenderOptions [WithMaxTotalBytes n]) = n" "roScopeMax (resolveRenderOptions [WithMaxTotalBytes n]) = []" "sMaxEntryBytes (memStore u) two_entries = 4096"
  by (simp_all add: resolveRenderOptions_def WithMaxTotalBytes_def MemMaxEntryBytes_def two_entries_def)


theorem part_ids_distinct_witness: "distinct (map ptID sample_parts)"
  using part_ids_distinct [OF mem_inv_New sample_render] by (simp add: resolveRenderOptions_def DefaultMaxTotalBytes_def)

theorem entry_part_contained_witness:
  "\<exists>heading body. entryText sample_entry 4096 = heading @ [LF, LF] @ body \<and> LF \<notin> set heading"
proof -
  have "ValidName (eName sample_entry)" by code_simp
  from entry_part_contained [OF this, of 4096] show ?thesis by blast
qed

theorem nothing_omitted_with_room_witness:
  "\<exists>parts man t. two_entries_render 300 = Inr (parts, man) \<and> mnOmitted man = [] \<and> mnEntries man = [manifest_entry ''user'' tea_entry, manifest_entry ''user'' work_entry] \<and>
     parts = [title_part, heading_part ''user'' [tea_entry, work_entry], entry_part () (resolveRenderOptions [WithMaxTotalBytes 300]) 4096 ''user'' tea_entry,
       entry_part () (resolveRenderOptions [WithMaxTotalBytes 300]) 4096 ''user'' work_entry, \<lparr>ptID = SummaryPartID, ptText = t, ptTrust = ownTrust\<rparr>]"
proof -
  obtain parts man where r: "two_entries_render 300 = Inr (parts, man)" using two_entries_names(2) by (cases "two_entries_render 300") auto
  have "sum_list (map (\<lambda>(scope, es). shown_cost 4096 es) [(''user'', [tea_entry, work_entry])]) + fixed_cost 300 4096 [(''user'', [tea_entry, work_entry])] \<le> 300"
    by code_simp
  with nothing_omitted_with_room [OF r [unfolded two_entries_render_def] two_entries_list, unfolded two_entries_bound] r show ?thesis by auto
qed

end
