(* ===== verification/Time.thy ===== *)
theory Time
  imports Prelude
begin

text \<open>
  What the sources use of Go's package \<^verbatim>\<open>time\<close>.  A time is the number of nanoseconds since the zero
  time, midnight UTC on 1 January of year 1.  \<open>civil_date\<close> is the calendar computation of
  \<^verbatim>\<open>Time.Date\<close>; \<open>FormatStamp\<close> is the layout \<^verbatim>\<open>20060102-150405\<close>; \<open>ParseRFC3339Nano\<close> is \<^verbatim>\<open>time.Parse\<close>
  at the layout \<^verbatim>\<open>time.RFC3339Nano\<close>, which reads the fields of the layout in order, takes an hour
  of one or two digits, a fraction of any length after a period or a comma, and a zone \<^verbatim>\<open>Z\<close> or an
  offset.
\<close>

definition isLeap :: "int \<Rightarrow> bool" where
  "isLeap y \<longleftrightarrow> y mod 4 = 0 \<and> (y mod 100 \<noteq> 0 \<or> y mod 400 = 0)"

text \<open>Days since 1 January of year 1 to the year and the day in it, by cycles of 400, 100 and 4 years.\<close>

definition year_day :: "int \<Rightarrow> int \<times> int" where
  "year_day days =
     (let n4 = days div 146097; d = days mod 146097;
          n1 = d div 36524; n1 = n1 - n1 div 4; d = d - 36524 * n1;
          n2 = d div 1461; d = d - 1461 * n2;
          n3 = d div 365; n3 = n3 - n3 div 4; d = d - 365 * n3
      in (400 * n4 + 100 * n1 + 4 * n2 + n3 + 1, d))"

definition month_lengths :: "bool \<Rightarrow> int list" where
  "month_lengths leap = [31, if leap then 29 else 28, 31, 30, 31, 30, 31, 31, 30, 31, 30, 31]"

fun month_day :: "int \<Rightarrow> int list \<Rightarrow> int \<Rightarrow> int \<times> int" where
  "month_day m [] d = (m, d + 1)"
| "month_day m [l] d = (m, d + 1)"
| "month_day m (l # ls) d = (if d < l then (m, d + 1) else month_day (m + 1) ls (d - l))"

definition civil_date :: "time \<Rightarrow> int \<times> int \<times> int" where
  "civil_date t =
     (let (y, d) = year_day (t div (86400 * 10 ^ 9)); (m, dd) = month_day 1 (month_lengths (isLeap y)) d in (y, m, dd))"

definition clock_time :: "time \<Rightarrow> int \<times> int \<times> int \<times> int" where
  "clock_time t =
     (let ns = t mod (86400 * 10 ^ 9); s = ns div 10 ^ 9 in (s div 3600, s div 60 mod 60, s mod 60, ns mod 10 ^ 9))"

text \<open>\<^verbatim>\<open>appendInt\<close>: decimal, padded on the left with zeros.\<close>

definition appendInt :: "int \<Rightarrow> nat \<Rightarrow> string" where
  "appendInt x w = (if x < 0 then ''-'' else []) @
     (let s = utoa (nat (abs x)) in replicate (w - length s) (CHR ''0'') @ s)"

lemma appendInt_code [code]:
  "appendInt x w = (if x < 0 then ''-'' else []) @ (let s = itoa_pos (abs x) in replicate (w - length s) (CHR ''0'') @ s)"
  using itoa_pos_utoa [of "nat (abs x)"] by (simp add: appendInt_def)

definition FormatStamp :: "time \<Rightarrow> string" where
  "FormatStamp t =
     (let (y, m, d) = civil_date t; (hh, mm, ss, ns) = clock_time t in
      appendInt y 4 @ appendInt m 2 @ appendInt d 2 @ ''-'' @ appendInt hh 2 @ appendInt mm 2 @ appendInt ss 2)"

section \<open>Parsing\<close>

definition digit_char :: "char \<Rightarrow> bool" where
  "digit_char c \<longleftrightarrow> c \<in> set ''0123456789''"

text \<open>\<^verbatim>\<open>getnum\<close>: one or two digits, two if fixed.\<close>

definition getnum :: "bool \<Rightarrow> string \<Rightarrow> (int \<times> string) option" where
  "getnum fixed s =
     (if s = [] \<or> \<not> digit_char (hd s) then None
      else if length s < 2 \<or> \<not> digit_char (s ! 1)
      then (if fixed then None else Some (digit_val (hd s), drop 1 s))
      else Some (10 * digit_val (hd s) + digit_val (s ! 1), drop 2 s))"

definition expect :: "char \<Rightarrow> string \<Rightarrow> string option" where
  "expect c s = (if s \<noteq> [] \<and> hd s = c then Some (drop 1 s) else None)"

definition getyear :: "string \<Rightarrow> (int \<times> string) option" where
  "getyear s = (if length s \<ge> 4 \<and> list_all digit_char (take 4 s) then Some (digits_val (take 4 s), drop 4 s) else None)"

definition ranged :: "int \<Rightarrow> int \<Rightarrow> (int \<times> string) option \<Rightarrow> (int \<times> string) option" where
  "ranged lo hi r = (case r of Some (n, s) \<Rightarrow> if lo \<le> n \<and> n \<le> hi then Some (n, s) else None | None \<Rightarrow> None)"

definition getfraction :: "string \<Rightarrow> int \<times> string" where
  "getfraction s =
     (if length s < 2 \<or> \<not> (s ! 0 = CHR ''.'' \<or> s ! 0 = CHR '','') \<or> \<not> digit_char (s ! 1) then (0, s)
      else let ds = takeWhile digit_char (drop 1 s); used = take 9 ds
           in (digits_val used * 10 ^ (9 - length used), drop (1 + length ds) s))"

definition getzone :: "string \<Rightarrow> (int \<times> string) option" where
  "getzone s =
     (if s \<noteq> [] \<and> hd s = CHR ''Z'' then Some (0, drop 1 s)
      else if length s < 6 \<or> s ! 3 \<noteq> CHR '':'' then None
      else case ranged 0 24 (getnum True (take 2 (drop 1 s))) of
             None \<Rightarrow> None
           | Some (hr, _) \<Rightarrow> (case ranged 0 60 (getnum True (take 2 (drop 4 s))) of
                 None \<Rightarrow> None
               | Some (mm, _) \<Rightarrow>
                   if s ! 0 = CHR ''+'' then Some ((hr * 60 + mm) * 60, drop 6 s)
                   else if s ! 0 = CHR ''-'' then Some (- (hr * 60 + mm) * 60, drop 6 s)
                   else None))"

definition days_before_year :: "int \<Rightarrow> int" where
  "days_before_year y = (let n = y - 1 in 365 * n + n div 4 - n div 100 + n div 400)"

definition date_days :: "int \<Rightarrow> int \<Rightarrow> int \<Rightarrow> int" where
  "date_days y m d = days_before_year y + sum_list (take (nat (m - 1)) (month_lengths (isLeap y))) + d - 1"

definition ParseRFC3339Nano :: "string \<Rightarrow> time option" where
  "ParseRFC3339Nano s =
     Option.bind (getyear s) (\<lambda>(y, s). Option.bind (expect (CHR ''-'') s) (\<lambda>s.
     Option.bind (ranged 1 12 (getnum True s)) (\<lambda>(m, s). Option.bind (expect (CHR ''-'') s) (\<lambda>s.
     Option.bind (getnum True s) (\<lambda>(d, s). Option.bind (expect (CHR ''T'') s) (\<lambda>s.
     Option.bind (ranged 0 23 (getnum False s)) (\<lambda>(hh, s). Option.bind (expect (CHR '':'') s) (\<lambda>s.
     Option.bind (ranged 0 59 (getnum True s)) (\<lambda>(mm, s). Option.bind (expect (CHR '':'') s) (\<lambda>s.
     Option.bind (ranged 0 59 (getnum True s)) (\<lambda>(ss, s).
     case getfraction s of (ns, s) \<Rightarrow>
     Option.bind (getzone s) (\<lambda>(off, s).
       if s \<noteq> [] \<or> d < 1 \<or> d > month_lengths (isLeap y) ! nat (m - 1) then None
       else Some ((date_days y m d * 86400 + hh * 3600 + mm * 60 + ss - off) * 10 ^ 9 + ns)))))))))))))"

section \<open>Bounds\<close>

lemma clock_time_bounds:
  assumes "clock_time t = (hh, mm, ss, ns)"
  shows "0 \<le> hh" "hh < 24" "0 \<le> mm" "mm < 60" "0 \<le> ss" "ss < 60"
proof -
  define s where "s = t mod (86400 * 10 ^ 9) div 10 ^ 9"
  have e: "hh = s div 3600" "mm = s div 60 mod 60" "ss = s mod 60"
    using assms by (simp_all add: clock_time_def Let_def s_def)
  have "0 \<le> s" by (simp add: s_def)
  moreover have "s < 86400" by (simp add: s_def div_less_iff_less_mult)
  ultimately show "0 \<le> hh" "hh < 24" by (simp_all add: e div_less_iff_less_mult)
  show "0 \<le> mm" "mm < 60" "0 \<le> ss" "ss < 60" by (simp_all add: e)
qed

lemma month_day_bounds:
  "ls \<noteq> [] \<Longrightarrow> \<forall>l \<in> set ls. l \<le> 31 \<Longrightarrow> 0 \<le> d \<Longrightarrow> d < sum_list ls \<Longrightarrow> month_day m ls d = (m', d') \<Longrightarrow>
     m \<le> m' \<and> m' < m + int (length ls) \<and> 1 \<le> d' \<and> d' \<le> 31"
  by (induction m ls d rule: month_day.induct) (force split: if_splits)+

lemma cycle_bounds:
  fixes d L :: int
  assumes "0 \<le> d" "d \<le> 4 * L" "0 < L" and n: "n = d div L - d div L div 4"
  shows "0 \<le> n" "n \<le> 3" "0 \<le> d - L * n" "d - L * n \<le> L"
proof -
  have d: "d = L * (d div L) + d mod L" by simp
  have r: "0 \<le> d mod L" "d mod L < L" using assms(3) by simp_all
  have q: "0 \<le> d div L" using assms by (simp add: pos_imp_zdiv_nonneg_iff)
  have "d div L \<le> 4 * L div L" using assms(2,3) by (intro zdiv_mono1)
  then have q4: "d div L \<le> 4" using assms(3) by simp
  have "0 \<le> n \<and> n \<le> 3 \<and> 0 \<le> d - L * n \<and> d - L * n \<le> L"
  proof (cases "d div L = 4")
    case True
    then have "n = 3" by (simp add: n)
    with True d r assms(2) show ?thesis by simp
  next
    case False
    then have "n = d div L" using q q4 by (simp add: n)
    then show ?thesis using False q q4 r d by (simp add: minus_mult_div_eq_mod)
  qed
  then show "0 \<le> n" "n \<le> 3" "0 \<le> d - L * n" "d - L * n \<le> L" by blast+
qed

lemma year_day_bounds:
  assumes "year_day days = (y, d)"
  shows "0 \<le> d" "d \<le> 365" "0 \<le> days \<Longrightarrow> 1 \<le> y" "days < 3652059 \<Longrightarrow> y \<le> 9999"
proof -
  define q where "q = days div 146097"
  define d0 where "d0 = days mod 146097"
  define n1 where "n1 = d0 div 36524 - d0 div 36524 div 4"
  define d1 where "d1 = d0 - 36524 * n1"
  define n2 where "n2 = d1 div 1461"
  define d2 where "d2 = d1 - 1461 * n2"
  define n3 where "n3 = d2 div 365 - d2 div 365 div 4"
  have yd: "y = 400 * q + 100 * n1 + 4 * n2 + n3 + 1" "d = d2 - 365 * n3"
    using assms by (simp_all add: year_day_def Let_def d0_def n1_def d1_def n2_def d2_def n3_def q_def)
  have days: "days = 146097 * q + d0" by (simp add: q_def d0_def)
  have d0: "0 \<le> d0" "d0 \<le> 4 * 36524" by (simp_all add: d0_def zle_iff_zadd [symmetric])
  note n1 = cycle_bounds [OF d0 _ n1_def, folded d1_def, simplified]
  have d1: "d1 = 1461 * n2 + d2" "0 \<le> d2" "d2 < 1461"
    unfolding d2_def n2_def by (simp_all add: minus_mult_div_eq_mod)
  have n2: "0 \<le> n2" "n2 \<le> 24" using n1(3,4) d1 by linarith+
  have d2: "d2 \<le> 4 * 365" using d1(3) by simp
  note n3 = cycle_bounds [OF d1(2) d2 _ n3_def, folded yd(2), simplified]
  show "0 \<le> d" "d \<le> 365" by (fact n3)+
  show "1 \<le> y" if "0 \<le> days"
  proof -
    have "0 \<le> q" using that by (simp add: q_def pos_imp_zdiv_nonneg_iff)
    then show ?thesis using n1 n2 n3 yd(1) by linarith
  qed
  show "y \<le> 9999" if "days < 3652059"
  proof -
    have "q \<le> 24" using that days d0(1) by linarith
    moreover have "days = 146097 * q + 36524 * n1 + 1461 * n2 + 365 * n3 + d"
      using days d1(1) yd(2) by (simp add: d1_def)
    ultimately show ?thesis using that n1(2) n2(2) n3 unfolding yd(1) by linarith
  qed
qed

lemma sum_month_lengths: "sum_list (month_lengths l) = (if l then 366 else 365)"
  by (simp add: month_lengths_def)

section \<open>Digits\<close>

definition digits :: "string \<Rightarrow> bool" where
  "digits s \<longleftrightarrow> set s \<subseteq> set ''0123456789''"

lemma digits_append [simp]: "digits (a @ b) \<longleftrightarrow> digits a \<and> digits b"
  by (simp add: digits_def)

lemma digits_appendInt:
  assumes "0 \<le> x"
  shows "digits (appendInt x w)"
proof -
  have "set (replicate k (CHR ''0'')) \<subseteq> set ''0123456789''" for k by (auto simp: set_replicate_conv_if)
  then show ?thesis using assms set_utoa [of "nat x"]
    unfolding appendInt_def Let_def digits_def by (simp only: set_append Un_least) simp
qed

lemma length_appendInt:
  assumes "0 \<le> x" "x < 10 ^ w" "0 < w"
  shows "length (appendInt x w) = w"
proof -
  have "length (utoa (nat x)) \<le> w" using assms by (intro length_utoa_le) (simp_all add: nat_less_iff)
  then show ?thesis using assms(1) by (simp add: appendInt_def Let_def)
qed

lemma civil_date_bounds:
  assumes "civil_date t = (y, m, d)" "0 \<le> t" "t < 3652059 * 86400 * 10 ^ 9"
  shows "1 \<le> y" "y \<le> 9999" "1 \<le> m" "m \<le> 12" "1 \<le> d" "d \<le> 32"
proof -
  let ?days = "t div (86400 * 10 ^ 9)"
  obtain y' yd where yd: "year_day ?days = (y', yd)" by fastforce
  obtain m' d' where md: "month_day 1 (month_lengths (isLeap y')) yd = (m', d')" by fastforce
  from assms(1) yd md have e: "y = y'" "m = m'" "d = d'" by (auto simp: civil_date_def)
  have dd: "0 \<le> ?days" using assms(2) by (simp add: pos_imp_zdiv_nonneg_iff)
  have "?days < 3652059" using assms(3) by (simp add: div_less_iff_less_mult)
  with year_day_bounds [OF yd] dd show "1 \<le> y" "y \<le> 9999" by (simp_all add: e)
  have yl: "yd < sum_list (month_lengths (isLeap y'))" if "isLeap y' \<or> yd < 365"
    using that year_day_bounds(1,2) [OF yd] by (auto simp: sum_month_lengths)
  have "1 \<le> m' \<and> m' < 13 \<and> 1 \<le> d' \<and> d' \<le> 32"
  proof (cases "isLeap y' \<or> yd < 365")
    case True
    then show ?thesis
      using month_day_bounds [OF _ _ year_day_bounds(1) [OF yd] yl md]
      by (cases "isLeap y'") (auto simp: month_lengths_def)
  next
    case False
    then have "yd = 365" "\<not> isLeap y'" using year_day_bounds(2) [OF yd] by auto
    then show ?thesis using md by (simp add: month_lengths_def)
  qed
  then show "1 \<le> m" "m \<le> 12" "1 \<le> d" "d \<le> 32" by (simp_all add: e)
qed

end
