(* ===== verification/Fmt.thy ===== *)
theory Fmt
  imports Sha256 Utf8
begin

text \<open>
  The verb \<^verbatim>\<open>%q\<close> of package \<^verbatim>\<open>fmt\<close>, which is \<^verbatim>\<open>strconv.Quote\<close>: printable runes stand for themselves,
  the others are escaped.  Which runes are printable is the Unicode table of the standard
  library, an argument \<open>isPrint\<close>.
\<close>

definition hexw :: "nat \<Rightarrow> int \<Rightarrow> string" where
  "hexw w n = map (\<lambda>i. hexdigit (n div 16 ^ i mod 16)) (rev [0..<w])"

definition quote_rune :: "(int \<Rightarrow> bool) \<Rightarrow> int \<times> string \<Rightarrow> string" where
  "quote_rune isPrint = (\<lambda>(r, bs).
     if r = RuneError \<and> length bs = 1 then CHR 0x5C # CHR ''x'' # hexw 2 (byte (hd bs))
     else if r = 34 \<or> r = 92 then CHR 0x5C # bs
     else if isPrint r then bs
     else if r = 7 then CHR 0x5C # ''a''
     else if r = 8 then CHR 0x5C # ''b''
     else if r = 12 then CHR 0x5C # ''f''
     else if r = 10 then CHR 0x5C # ''n''
     else if r = 13 then CHR 0x5C # ''r''
     else if r = 9 then CHR 0x5C # ''t''
     else if r = 11 then CHR 0x5C # ''v''
     else if r < 32 \<or> r = 127 then CHR 0x5C # CHR ''x'' # hexw 2 r
     else if r < 0x10000 then CHR 0x5C # CHR ''u'' # hexw 4 r
     else CHR 0x5C # CHR ''U'' # hexw 8 r)"

definition Quote :: "(int \<Rightarrow> bool) \<Rightarrow> string \<Rightarrow> string" where
  "Quote isPrint s = CHR 0x22 # concat (map (quote_rune isPrint) (runes s)) @ [CHR 0x22]"

end
