(* ===== verification/Tools.thy ===== *)
theory Tools
  imports Store Manifest Time Fmt "HOL-Library.AList"
begin

text \<open>
  The tools of \<^verbatim>\<open>tools.go\<close> through which the model reaches a store: the options and the checks of
  \<^verbatim>\<open>Tools\<close>, the resolution of a call's scope, the descriptions, and the handlers.  A handler runs
  against a store other sessions write to: the environment gives, for each store call the handler
  makes, what the others did just before it and what the store's clock read, and the world
  holds the store's state and the number of calls made.  The manifest \<^verbatim>\<open>WithRendered\<close> supplies and
  the clock \<^verbatim>\<open>memory_insert\<close> names entries by are functions of the same count.  A handler returns
  the text it hands to \<^verbatim>\<open>agenttool.Text\<close> and the \<^verbatim>\<open>WriteRecord\<close> it sets as details.  \<open>isPrint\<close> is the
  table behind \<^verbatim>\<open>%q\<close>.
\<close>

section \<open>Names and records\<close>

definition SaveTool :: string where "SaveTool = ''memory_save''"
definition PatchTool :: string where "PatchTool = ''memory_patch''"
definition ForgetTool :: string where "ForgetTool = ''memory_forget''"
definition SearchTool :: string where "SearchTool = ''memory_search''"
definition InsertTool :: string where "InsertTool = ''memory_insert''"

definition WriteTools :: "string list" where
  "WriteTools = [SaveTool, PatchTool, ForgetTool, InsertTool]"

definition CheckWrite :: "Manifest \<Rightarrow> string \<Rightarrow> error option" where
  "CheckWrite m tool = (if Dropped m \<and> tool \<in> set WriteTools then Some ErrBlockDropped else None)"

definition DefaultSearchLimit :: int where "DefaultSearchLimit = 5"
definition DefaultSearchBytes :: int where "DefaultSearchBytes = 16 * 1024"
definition patchAttempts :: nat where "patchAttempts = 4"
definition insertAttempts :: nat where "insertAttempts = 100"

record WriteRecord =
  wrTool :: string
  wrChange :: Change

record Result =
  rText :: string
  rDetails :: "WriteRecord option"

text \<open>An error of a handler: a text, a store's error as it is, or one wrapped with \<^verbatim>\<open>%w\<close> and a text after it.\<close>

datatype tool_error =
    TText string
  | TErr error
  | TWrap error string

section \<open>Options\<close>

record 'l toolOptions =
  toSearchLimit :: int
  toSearchBytes :: int
  toRendered :: "(nat \<Rightarrow> Manifest) option"
  toReadScopes :: "scope list"
  toFixed :: "(scope \<times> string list) list"
  toInsert :: "scope list"
  toNow :: "(nat \<Rightarrow> time) option"
  toSearchReads :: "'l list"
  toSearchReadsSet :: bool

type_synonym 'l ToolOption = "'l toolOptions \<Rightarrow> 'l toolOptions"

definition WithSearchLimit :: "int \<Rightarrow> 'l ToolOption" where
  "WithSearchLimit n = (\<lambda>to. to\<lparr>toSearchLimit := n\<rparr>)"

definition WithSearchBytes :: "int \<Rightarrow> 'l ToolOption" where
  "WithSearchBytes n = (\<lambda>to. to\<lparr>toSearchBytes := n\<rparr>)"

definition WithRendered :: "(nat \<Rightarrow> Manifest) option \<Rightarrow> 'l ToolOption" where
  "WithRendered fn = (\<lambda>to. to\<lparr>toRendered := fn\<rparr>)"

definition WithReadScopes :: "scope list \<Rightarrow> 'l ToolOption" where
  "WithReadScopes scopes = (\<lambda>to. to\<lparr>toReadScopes := toReadScopes to @ scopes\<rparr>)"

definition WithFixedNames :: "scope \<Rightarrow> string list \<Rightarrow> 'l ToolOption" where
  "WithFixedNames scope ns = (\<lambda>to. to\<lparr>toFixed := AList.update scope ns (toFixed to)\<rparr>)"

definition WithInsert :: "scope list \<Rightarrow> 'l ToolOption" where
  "WithInsert scopes = (\<lambda>to. to\<lparr>toInsert := toInsert to @ scopes\<rparr>)"

definition WithSearchReads :: "'l list \<Rightarrow> 'l ToolOption" where
  "WithSearchReads labels = (\<lambda>to. to\<lparr>toSearchReads := labels, toSearchReadsSet := True\<rparr>)"

definition withClock :: "(nat \<Rightarrow> time) option \<Rightarrow> 'l ToolOption" where
  "withClock now = (\<lambda>to. to\<lparr>toNow := now\<rparr>)"

section \<open>The name of an insert\<close>

definition InsertName :: "time \<Rightarrow> string \<Rightarrow> nat \<Rightarrow> string" where
  "InsertName at content n =
     FormatStamp at @ ''-'' @ take 8 (TrimPrefix (Hash content) ''sha256:'') @
     (if n \<ge> 2 then ''-'' @ Itoa (int n) else [])"

section \<open>Arguments\<close>

record saveArgs =
  saScope :: string
  saName :: string
  saContent :: string
  saMeta :: "gomap option"

record patchArgs =
  paScope :: string
  paName :: string
  paOldText :: string
  paNewText :: string

record insertArgs =
  iaScope :: string
  iaContent :: string
  iaMeta :: "gomap option"

record forgetArgs =
  faScope :: string
  faName :: string

record searchArgs =
  qaQuery :: string
  qaScopes :: "string list"
  qaLimit :: int
  qaAny :: bool
  qaMeta :: "gomap option"
  qaUpdatedAfter :: string
  qaUpdatedBefore :: string

definition searchOptionArgs :: "string list" where
  "searchOptionArgs = [SearchAny, SearchMeta, SearchUpdatedAfter, SearchUpdatedBefore]"

section \<open>The tool set\<close>

record ('l, 's) toolset =
  tsStore :: "'s Store"
  tsScopes :: "scope list"
  tsOpts :: "'l toolOptions"

definition readOnlyError :: "scope \<Rightarrow> string" where
  "readOnlyError s = ''scope '' @ s @ '' is read-only''"

definition scopeList :: "('l, 's) toolset \<Rightarrow> string" where
  "scopeList t =
     (case tsScopes t of
        [s] \<Rightarrow> ''Scope: '' @ s @ '', the only one; the argument may be left out.''
      | _ \<Rightarrow> ''Scopes: '' @ Join (tsScopes t) '', '' @ ''; name one on every call.'')"

definition writerScopes :: "(int \<Rightarrow> bool) \<Rightarrow> ('l, 's) toolset \<Rightarrow> string" where
  "writerScopes isPrint t =
     scopeList t @
     concat (map (\<lambda>s. case map_of (toFixed (tsOpts t)) s of
         Some ns \<Rightarrow> '' Scope '' @ s @ '' holds the fixed entries '' @ Join ns '', '' @
           '': memory_save writes only those names there, and memory_forget does not remove them.''
       | None \<Rightarrow> []) (tsScopes t)) @
     concat (map (\<lambda>s. '' Scope '' @ s @ '' is read-only: memory_search reads it, and a write to it is refused with '' @
         Quote isPrint (readOnlyError s) @ ''.'') (toReadScopes (tsOpts t)))"

definition fixedSave :: "('l, 's) toolset \<Rightarrow> scope \<Rightarrow> string \<Rightarrow> tool_error option" where
  "fixedSave t scope name =
     (case map_of (toFixed (tsOpts t)) scope of
        None \<Rightarrow> None
      | Some ns \<Rightarrow>
          if name \<in> set ns then None
          else Some (TText (''scope '' @ scope @ '' holds the fixed entries '' @ Join ns '', '' @
            '', and memory_save writes only those; '' @ name @ '' is not one of them, so rewrite the one it belongs in'')))"

definition fixedForget :: "('l, 's) toolset \<Rightarrow> scope \<Rightarrow> string \<Rightarrow> tool_error option" where
  "fixedForget t scope name =
     (let ns = (case map_of (toFixed (tsOpts t)) scope of None \<Rightarrow> [] | Some ns \<Rightarrow> ns) in
      if name \<notin> set ns then None
      else Some (TText (scope @ ''/'' @ name @ '' is one of the fixed entries of scope '' @ scope @ '', '' @ Join ns '', '' @
        '', and is not forgotten; rewrite it with memory_save or edit it with memory_patch'')))"

definition searchScopes :: "('l, 's) toolset \<Rightarrow> string" where
  "searchScopes t =
     (let alls = tsScopes t @ toReadScopes (tsOpts t) in
      case alls of
        [s] \<Rightarrow> ''Scope: '' @ s @ '', the only one; scopes may be left out.''
      | _ \<Rightarrow> ''Scopes: '' @ Join alls '', '' @ ''; all of them when scopes is left out.'' @
          (if toReadScopes (tsOpts t) \<noteq> []
           then '' Read-only, so for reading: '' @ Join (toReadScopes (tsOpts t)) '', '' @ ''.'' else []))"

text \<open>\<^verbatim>\<open>toolset.scope\<close>, \<^verbatim>\<open>toolset.readScope\<close> and \<^verbatim>\<open>toolset.insertScope\<close>.\<close>

definition resolveScope :: "(int \<Rightarrow> bool) \<Rightarrow> ('l, 's) toolset \<Rightarrow> string \<Rightarrow> tool_error + scope" where
  "resolveScope isPrint t s =
     (if s = [] then
        (case tsScopes t of
           [only] \<Rightarrow> Inr only
         | _ \<Rightarrow> Inl (TText (''scope is required; name one of: '' @ Join (tsScopes t) '', '')))
      else if s \<in> set (tsScopes t) then Inr s
      else if s \<in> set (toReadScopes (tsOpts t)) then Inl (TText (readOnlyError s))
      else Inl (TText (''scope '' @ Quote isPrint s @ '' is not available; '' @ scopeList t)))"

definition readScope :: "(int \<Rightarrow> bool) \<Rightarrow> ('l, 's) toolset \<Rightarrow> string \<Rightarrow> tool_error + scope" where
  "readScope isPrint t s =
     (if s \<in> set (tsScopes t @ toReadScopes (tsOpts t)) then Inr s
      else Inl (TText (''scope '' @ Quote isPrint s @ '' is not available; '' @ searchScopes t)))"

definition insertScope :: "(int \<Rightarrow> bool) \<Rightarrow> ('l, 's) toolset \<Rightarrow> string \<Rightarrow> tool_error + scope" where
  "insertScope isPrint t s =
     (let ins = toInsert (tsOpts t) in
      if s = [] then
        (case ins of
           [only] \<Rightarrow> Inr only
         | _ \<Rightarrow> Inl (TText (''scope is required; name one of: '' @ Join ins '', '')))
      else if s \<in> set ins then Inr s
      else if s \<in> set (toReadScopes (tsOpts t)) then Inl (TText (readOnlyError s))
      else Inl (TText (''scope '' @ Quote isPrint s @ '' takes no insert; memory_insert writes '' @ Join ins '', '')))"

end
