(* ===== verification/Handlers.thy ===== *)
theory Handlers
  imports Tools Render
begin

text \<open>
  The handlers of \<^verbatim>\<open>tools.go\<close>: save, patch, forget, insert and search, each with every store call it
  makes.  The retry loops are recursions on the attempts left.
\<close>

section \<open>Store calls\<close>

record 's environ =
  enOthers :: "nat \<Rightarrow> 's \<Rightarrow> 's"
  enClock :: "nat \<Rightarrow> time"

record 's world =
  wState :: 's
  wCalls :: nat

record ToolContext = Context +
  ctxRendered :: "Manifest option"

definition before_call :: "'s environ \<Rightarrow> 's world \<Rightarrow> 's" where
  "before_call en w = enOthers en (wCalls w) (wState w)"

definition callGet :: "'s Store \<Rightarrow> 's environ \<Rightarrow> scope \<Rightarrow> string \<Rightarrow> 's world \<Rightarrow> (error + Entry) \<times> 's world" where
  "callGet S en scope name w =
     (let s = before_call en w in (sGet S scope name s, \<lparr>wState = s, wCalls = Suc (wCalls w)\<rparr>))"

definition callPut :: "'s Store \<Rightarrow> 's environ \<Rightarrow> ToolContext \<Rightarrow> Entry \<Rightarrow> PutOption list \<Rightarrow> 's world \<Rightarrow> (error + Change) \<times> 's world" where
  "callPut S en ctx e opts w =
     (case sPut S (SessionFrom ctx) (enClock en (wCalls w)) e opts (before_call en w) of
        (r, s) \<Rightarrow> (r, \<lparr>wState = s, wCalls = Suc (wCalls w)\<rparr>))"

definition callForget :: "'s Store \<Rightarrow> 's environ \<Rightarrow> ToolContext \<Rightarrow> scope \<Rightarrow> string \<Rightarrow> 's world \<Rightarrow> (error + Change) \<times> 's world" where
  "callForget S en ctx scope name w =
     (case sForget S (SessionFrom ctx) (enClock en (wCalls w)) scope name (before_call en w) of
        (r, s) \<Rightarrow> (r, \<lparr>wState = s, wCalls = Suc (wCalls w)\<rparr>))"

definition is_not_found :: "error \<Rightarrow> bool" where
  "is_not_found err \<longleftrightarrow> (case err of ErrNotFound _ _ \<Rightarrow> True | _ \<Rightarrow> False)"

definition is_conflict :: "error \<Rightarrow> bool" where
  "is_conflict err \<longleftrightarrow> (case err of ErrConflict _ \<Rightarrow> True | _ \<Rightarrow> False)"

definition is_meta_conflict :: "error \<Rightarrow> bool" where
  "is_meta_conflict err \<longleftrightarrow> (case err of ErrConflict ce \<Rightarrow> kMeta ce | _ \<Rightarrow> False)"

section \<open>The block the model reads\<close>

text \<open>\<^verbatim>\<open>toolset.read\<close>, \<^verbatim>\<open>toolset.rendered\<close> and \<^verbatim>\<open>toolset.shown\<close>; \<open>k\<close> is when the manifest is read.\<close>

definition readManifest :: "('l, 's) toolset \<Rightarrow> nat \<Rightarrow> ToolContext \<Rightarrow> error + ToolContext" where
  "readManifest t k ctx =
     (case toRendered (tsOpts t) of
        None \<Rightarrow> Inr ctx
      | Some fn \<Rightarrow> (let m = fn k in if Dropped m then Inl ErrBlockDropped else Inr (ctx\<lparr>ctxRendered := Some m\<rparr>)))"

definition rendered :: "('l, 's) toolset \<Rightarrow> nat \<Rightarrow> ToolContext \<Rightarrow> Manifest option" where
  "rendered t k ctx =
     (case ctxRendered ctx of
        Some m \<Rightarrow> Some m
      | None \<Rightarrow> (case toRendered (tsOpts t) of None \<Rightarrow> None | Some fn \<Rightarrow> Some (fn k)))"

definition shown :: "('l, 's) toolset \<Rightarrow> nat \<Rightarrow> ToolContext \<Rightarrow> scope \<Rightarrow> string \<Rightarrow> string option" where
  "shown t k ctx scope name =
     (case rendered t k ctx of
        None \<Rightarrow> None
      | Some m \<Rightarrow> (case List.find (\<lambda>me. meScope me = scope \<and> meName me = name) (mnEntries m) of
            None \<Rightarrow> None
          | Some me \<Rightarrow> Some (meHash me)))"

section \<open>What a save says\<close>

definition basedWhat :: "('l, 's) toolset \<Rightarrow> Entry option \<Rightarrow> string option \<Rightarrow> string" where
  "basedWhat t stored sh =
     (if toRendered (tsOpts t) = None \<or> (sh = None \<and> stored = None) then []
      else case sh of
        None \<Rightarrow> ''; built on the stored entry, which the block did not show''
      | Some h \<Rightarrow> (case stored of
            None \<Rightarrow> ''; built on the block, but the entry was forgotten after the block was rendered and this write created it again''
          | Some e \<Rightarrow>
              if eHash e \<noteq> h
              then ''; built on the block's '' @ h @ '', but the entry changed to '' @ eHash e @
                '' after the block was rendered and this write replaced that change; read it with memory_search if the change mattered''
              else ''; built on the block''))"

definition savedWhat :: "Entry option \<Rightarrow> string" where
  "savedWhat stored =
     (case stored of None \<Rightarrow> ''created'' | Some e \<Rightarrow> ''replaced '' @ Itoa (int (Size e)) @ '' bytes'')"

definition metaKeys :: "gomap option \<Rightarrow> string" where
  "metaKeys m = Join (sort (map fst (mitems m))) '', ''"

definition metaWhat :: "Entry option \<Rightarrow> gomap option \<Rightarrow> gomap option \<Rightarrow> string" where
  "metaWhat stored given final =
     (if mlen final = 0 \<and> (case stored of None \<Rightarrow> True | Some e \<Rightarrow> mlen (eMeta e) = 0) then ''no meta''
      else if mlen final = 0 then ''meta cleared''
      else if given = None then ''meta kept ('' @ metaKeys final @ '')''
      else if stored = None then ''meta set ('' @ metaKeys final @ '')''
      else ''meta replaced ('' @ metaKeys final @ '')'')"

section \<open>Save\<close>

definition newEntry :: "scope \<Rightarrow> string \<Rightarrow> string \<Rightarrow> gomap option \<Rightarrow> Entry" where
  "newEntry scope name content meta = \<lparr>eScope = scope, eName = name, eContent = content, eMeta = meta,
     eHash = [], eMetaHash = [], eUpdated = 0, eDeleted = False\<rparr>"

definition save_base :: "Entry option \<Rightarrow> string option \<Rightarrow> PutOption list" where
  "save_base stored sh =
     [BasedOn (case sh of Some h \<Rightarrow> h | None \<Rightarrow> (case stored of Some e \<Rightarrow> eHash e | None \<Rightarrow> []))] @
     (if stored = None then [IfMetaHash []] else [])"

definition save_put :: "scope \<Rightarrow> saveArgs \<Rightarrow> PutOption list \<Rightarrow> Entry option \<Rightarrow> Entry \<times> PutOption list" where
  "save_put scope a base stored =
     (case stored of
        Some se \<Rightarrow>
          if saMeta a = None
          then (newEntry scope (saName a) (saContent a) (eMeta se), base @ [IfMetaHash (MetaHash (eMeta se))])
          else (newEntry scope (saName a) (saContent a) (saMeta a), base)
      | None \<Rightarrow> (newEntry scope (saName a) (saContent a) (saMeta a), base))"

fun save_loop :: "nat \<Rightarrow> 's Store \<Rightarrow> 's environ \<Rightarrow> ToolContext \<Rightarrow> scope \<Rightarrow> saveArgs \<Rightarrow> PutOption list \<Rightarrow> Entry option \<Rightarrow>
    's world \<Rightarrow> (error + Change \<times> Entry \<times> Entry option) \<times> 's world" where
  "save_loop left S en ctx scope a base stored w =
     (let (e, opts) = save_put scope a base stored; kept = (stored \<noteq> None \<and> saMeta a = None) in
      case callPut S en ctx e opts w of
        (Inr c, w) \<Rightarrow> (Inr (c, e, stored), w)
      | (Inl err, w) \<Rightarrow>
          if \<not> kept \<or> \<not> is_meta_conflict err then (Inl err, w)
          else (case left of
              0 \<Rightarrow> (Inl err, w)
            | Suc left \<Rightarrow> (case callGet S en scope (saName a) w of
                (Inr se, w) \<Rightarrow> save_loop left S en ctx scope a base (Some se) w
              | (Inl err, w) \<Rightarrow>
                  if is_not_found err then save_loop left S en ctx scope a base None w
                  else (Inl err, w))))"

declare save_loop.simps [simp del]

definition wrote :: "string \<Rightarrow> Change \<Rightarrow> string \<Rightarrow> Result" where
  "wrote tool c text = \<lparr>rText = text, rDetails = Some \<lparr>wrTool = tool, wrChange = c\<rparr>\<rparr>"

definition saveText :: "('l, 's) toolset \<Rightarrow> scope \<Rightarrow> saveArgs \<Rightarrow> int \<Rightarrow> Entry option \<Rightarrow> Entry \<Rightarrow> string option \<Rightarrow> string" where
  "saveText t scope a limit stored e sh =
     ''Saved '' @ scope @ ''/'' @ saName a @ '' ('' @ Itoa (int (length (saContent a))) @ '' of '' @ Itoa limit @ '' bytes) '' @
     Hash (saContent a) @ '' '' @ em_dash @ '' '' @ savedWhat stored @ ''; '' @ metaWhat stored (saMeta a) (eMeta e) @
     basedWhat t stored sh"

definition save :: "(int \<Rightarrow> bool) \<Rightarrow> ('l, 's) toolset \<Rightarrow> 's environ \<Rightarrow> ToolContext \<Rightarrow> saveArgs \<Rightarrow> 's world \<Rightarrow>
    (tool_error + Result) \<times> 's world" where
  "save isPrint t en ctx a w =
     (case resolveScope isPrint t (saScope a) of
        Inl err \<Rightarrow> (Inl err, w)
      | Inr scope \<Rightarrow> (case fixedSave t scope (saName a) of
          Some err \<Rightarrow> (Inl err, w)
        | None \<Rightarrow> (case callGet (tsStore t) en scope (saName a) w of
            (r, w) \<Rightarrow>
              if (case r of Inl err \<Rightarrow> \<not> is_not_found err | Inr _ \<Rightarrow> False)
              then (Inl (TErr (projl r)), w)
              else
                let stored = (case r of Inl _ \<Rightarrow> None | Inr se \<Rightarrow> Some se);
                    sh = shown t (wCalls w) ctx scope (saName a)
                in case save_loop (patchAttempts - 1) (tsStore t) en ctx scope a (save_base stored sh) stored w of
                     (Inl err, w) \<Rightarrow> (Inl (TErr err), w)
                   | (Inr (c, e, stored), w) \<Rightarrow>
                       (Inr (wrote SaveTool c (saveText t scope a (sMaxEntryBytes (tsStore t) (wState w)) stored e sh)), w))))"

section \<open>Patch\<close>

fun patch_loop :: "nat \<Rightarrow> 's Store \<Rightarrow> 's environ \<Rightarrow> ToolContext \<Rightarrow> scope \<Rightarrow> patchArgs \<Rightarrow> error option \<Rightarrow> 's world \<Rightarrow>
    (tool_error + Result) \<times> 's world" where
  "patch_loop 0 S en ctx scope a lastErr w =
     (Inl (case lastErr of
        Some err \<Rightarrow> TWrap err ('' after '' @ Itoa (int patchAttempts) @ '' attempts; another session keeps changing it, try again'')
      | None \<Rightarrow> TText []), w)"
| "patch_loop (Suc left) S en ctx scope a lastErr w =
     (case callGet S en scope (paName a) w of
        (Inl err, w) \<Rightarrow> (Inl (if is_not_found err then TWrap err ''; memory_save creates an entry'' else TErr err), w)
      | (Inr cur, w) \<Rightarrow>
          let n = Count (eContent cur) (paOldText a) in
          if n = 0 then (Inl (TText (''old_text does not appear in '' @ scope @ ''/'' @ paName a @
              ''; read the entry with memory_search and copy the text exactly'')), w)
          else if n > 1 then (Inl (TText (''old_text appears '' @ Itoa (int n) @ '' times in '' @ scope @ ''/'' @ paName a @
              ''; include more of the surrounding text so it appears once'')), w)
          else
            let nxt = cur\<lparr>eContent := Replace1 (eContent cur) (paOldText a) (paNewText a)\<rparr> in
            case callPut S en ctx nxt [IfHash (eHash cur), IfMetaHash (MetaHash (eMeta cur))] w of
              (Inr c, w) \<Rightarrow> (Inr (wrote PatchTool c (''Patched '' @ scope @ ''/'' @ paName a @ '' ('' @
                  Itoa (int (length (eContent nxt))) @ '' of '' @ Itoa (sMaxEntryBytes S (wState w)) @ '' bytes) '' @
                  Hash (eContent nxt))), w)
            | (Inl err, w) \<Rightarrow>
                if \<not> is_conflict err then (Inl (TErr err), w)
                else patch_loop left S en ctx scope a (Some err) w)"

declare patch_loop.simps [simp del]

definition patch :: "(int \<Rightarrow> bool) \<Rightarrow> ('l, 's) toolset \<Rightarrow> 's environ \<Rightarrow> ToolContext \<Rightarrow> patchArgs \<Rightarrow> 's world \<Rightarrow>
    (tool_error + Result) \<times> 's world" where
  "patch isPrint t en ctx a w =
     (case resolveScope isPrint t (paScope a) of
        Inl err \<Rightarrow> (Inl err, w)
      | Inr scope \<Rightarrow>
          if paOldText a = []
          then (Inl (TText ''old_text is empty; give the exact text to replace, or use memory_save to write the entry whole''), w)
          else patch_loop patchAttempts (tsStore t) en ctx scope a None w)"

section \<open>Forget and insert\<close>

definition forget :: "(int \<Rightarrow> bool) \<Rightarrow> ('l, 's) toolset \<Rightarrow> 's environ \<Rightarrow> ToolContext \<Rightarrow> forgetArgs \<Rightarrow> 's world \<Rightarrow>
    (tool_error + Result) \<times> 's world" where
  "forget isPrint t en ctx a w =
     (case resolveScope isPrint t (faScope a) of
        Inl err \<Rightarrow> (Inl err, w)
      | Inr scope \<Rightarrow> (case fixedForget t scope (faName a) of
          Some err \<Rightarrow> (Inl err, w)
        | None \<Rightarrow> (case callForget (tsStore t) en ctx scope (faName a) w of
            (Inl err, w) \<Rightarrow> (Inl (TErr err), w)
          | (Inr c, w) \<Rightarrow> (Inr (wrote ForgetTool c (''Forgot '' @ scope @ ''/'' @ faName a)), w))))"

text \<open>The loop at its \<open>n\<close>-th name, with \<open>left\<close> more to try.\<close>

fun insert_loop :: "nat \<Rightarrow> nat \<Rightarrow> 's Store \<Rightarrow> 's environ \<Rightarrow> ToolContext \<Rightarrow> scope \<Rightarrow> insertArgs \<Rightarrow> time \<Rightarrow> error option \<Rightarrow> 's world \<Rightarrow>
    (tool_error + Result) \<times> 's world" where
  "insert_loop 0 n S en ctx scope a at lastErr w =
     (Inl (case lastErr of
        Some err \<Rightarrow> TWrap err ('': '' @ Itoa (int insertAttempts) @ '' names taken; try again'')
      | None \<Rightarrow> TText []), w)"
| "insert_loop (Suc left) n S en ctx scope a at lastErr w =
     (let name = InsertName at (iaContent a) n in
      case callPut S en ctx (newEntry scope name (iaContent a) (iaMeta a)) [IfHash []] w of
        (Inr c, w) \<Rightarrow> (Inr (wrote InsertTool c (''Inserted '' @ scope @ ''/'' @ name @ '' ('' @
            Itoa (int (length (iaContent a))) @ '' of '' @ Itoa (sMaxEntryBytes S (wState w)) @ '' bytes) '' @ eHash (cEntry c))), w)
      | (Inl err, w) \<Rightarrow>
          if \<not> is_conflict err then (Inl (TErr err), w)
          else insert_loop left (Suc n) S en ctx scope a at (Some err) w)"

declare insert_loop.simps [simp del]

definition insertEntry :: "(int \<Rightarrow> bool) \<Rightarrow> (nat \<Rightarrow> time) \<Rightarrow> ('l, 's) toolset \<Rightarrow> 's environ \<Rightarrow> ToolContext \<Rightarrow> insertArgs \<Rightarrow> 's world \<Rightarrow>
    (tool_error + Result) \<times> 's world" where
  "insertEntry isPrint timeNow t en ctx a w =
     (case insertScope isPrint t (iaScope a) of
        Inl err \<Rightarrow> (Inl err, w)
      | Inr scope \<Rightarrow>
          let at = (case toNow (tsOpts t) of Some now \<Rightarrow> now (wCalls w) | None \<Rightarrow> timeNow (wCalls w))
          in insert_loop insertAttempts 1 (tsStore t) en ctx scope a at None w)"

section \<open>Search\<close>

definition plural :: "nat \<Rightarrow> string \<Rightarrow> string \<Rightarrow> string" where
  "plural n one many = (if n = 1 then one else many)"

definition found_line :: "Entry \<Rightarrow> string" where
  "found_line e = eScope e @ ''/'' @ eName e @ '' ('' @ Itoa (int (Size e)) @ '' bytes)''"

definition found_text :: "Entry \<Rightarrow> string" where
  "found_text e = LF # found_line e @
     (if Description e \<noteq> [] then '': '' @ Description e else []) @ [LF] @ eContent e @
     (if \<not> HasSuffix (eContent e) [LF] then [LF] else [])"

text \<open>The loop over what was found: the text so far, the bytes shown, and the entries not shown.\<close>

fun search_show :: "int \<Rightarrow> Entry list \<Rightarrow> string \<times> int \<times> string list \<Rightarrow> string \<times> int \<times> string list" where
  "search_show bytes [] st = st"
| "search_show bytes (e # es) (b, n, unshown) =
     (if n + int (Size e) > bytes then search_show bytes es (b, n, unshown @ [found_line e])
      else search_show bytes es (b @ found_text e, n + int (Size e), unshown))"

fun resolve_scopes :: "(int \<Rightarrow> bool) \<Rightarrow> ('l, 's) toolset \<Rightarrow> string list \<Rightarrow> tool_error + scope list" where
  "resolve_scopes isPrint t [] = Inr []"
| "resolve_scopes isPrint t (s # ss) =
     (case readScope isPrint t s of
        Inl err \<Rightarrow> Inl err
      | Inr scope \<Rightarrow> (case resolve_scopes isPrint t ss of Inl err \<Rightarrow> Inl err | Inr scopes \<Rightarrow> Inr (scope # scopes)))"

definition parse_bound :: "(int \<Rightarrow> bool) \<Rightarrow> string \<Rightarrow> string \<Rightarrow> tool_error + time" where
  "parse_bound isPrint name value =
     (if value = [] then Inr 0
      else case ParseRFC3339Nano value of
        Some at \<Rightarrow> Inr at
      | None \<Rightarrow> Inl (TText (name @ '' '' @ Quote isPrint value @ '' is not an RFC 3339 time, such as 2026-11-02T19:44:00Z'')))"

definition search_text :: "(int \<Rightarrow> bool) \<Rightarrow> int \<Rightarrow> scope list \<Rightarrow> string \<Rightarrow> Entry list \<Rightarrow> string" where
  "search_text isPrint bytes scopes query found =
     (let searched = Join scopes '', '' in
      if found = [] then ''No entries in '' @ searched @ '' match '' @ Quote isPrint query @ ''.''
      else
        let head = Itoa (int (length found)) @ '' '' @ plural (length found) ''match'' ''matches'' @ '' in '' @ searched @
              '' for '' @ Quote isPrint query @ ''.'' @ [LF];
            (b, n, unshown) = search_show bytes found (head, 0, [])
        in b @ (if unshown \<noteq> []
                then LF # ''Not shown, over the '' @ Itoa bytes @ '' byte result limit; search for them by name: '' @
                  Join unshown '', '' @ [LF]
                else []))"

definition search :: "(int \<Rightarrow> bool) \<Rightarrow> ('l, 's) toolset \<Rightarrow> 's environ \<Rightarrow> searchArgs \<Rightarrow> 's world \<Rightarrow>
    (tool_error + Result) \<times> 's world" where
  "search isPrint t en a w =
     (if TrimSpace (qaQuery a) = [] then (Inl (TText ''query is empty; give one or more words''), w)
      else case (if qaScopes a = [] then Inr (tsScopes t @ toReadScopes (tsOpts t)) else resolve_scopes isPrint t (qaScopes a)) of
        Inl err \<Rightarrow> (Inl err, w)
      | Inr scopes \<Rightarrow>
          let limit = (if qaLimit a \<le> 0 then toSearchLimit (tsOpts t) else qaLimit a) in
          (case parse_bound isPrint SearchUpdatedAfter (qaUpdatedAfter a) of
             Inl err \<Rightarrow> (Inl err, w)
           | Inr after \<Rightarrow> (case parse_bound isPrint SearchUpdatedBefore (qaUpdatedBefore a) of
               Inl err \<Rightarrow> (Inl err, w)
             | Inr before \<Rightarrow>
                 let so = \<lparr>oAny = qaAny a, oMeta = qaMeta a, oUpdatedAfter = after, oUpdatedBefore = before\<rparr>;
                     s = before_call en w; w = \<lparr>wState = s, wCalls = Suc (wCalls w)\<rparr>
                 in case SearchWith (tsStore t) scopes (qaQuery a) limit so s of
                      Inl err \<Rightarrow> (Inl (TErr err), w)
                    | Inr found \<Rightarrow>
                        (Inr \<lparr>rText = search_text isPrint (toSearchBytes (tsOpts t)) scopes (qaQuery a) found, rDetails = None\<rparr>, w))))"

section \<open>A call\<close>

text \<open>The function each tool of \<^verbatim>\<open>Tools\<close> runs.\<close>

datatype tool_call =
    CallSave saveArgs
  | CallPatch patchArgs
  | CallForget forgetArgs
  | CallSearch searchArgs
  | CallInsert insertArgs

definition execute :: "(int \<Rightarrow> bool) \<Rightarrow> (nat \<Rightarrow> time) \<Rightarrow> ('l, 's) toolset \<Rightarrow> 's environ \<Rightarrow> ToolContext \<Rightarrow> tool_call \<Rightarrow> 's world \<Rightarrow>
    (tool_error + Result) \<times> 's world" where
  "execute isPrint timeNow t en ctx call w =
     (case call of
        CallSave a \<Rightarrow> save isPrint t en ctx a w
      | CallPatch a \<Rightarrow> patch isPrint t en ctx a w
      | CallForget a \<Rightarrow> forget isPrint t en ctx a w
      | CallSearch a \<Rightarrow> search isPrint t en a w
      | CallInsert a \<Rightarrow> insertEntry isPrint timeNow t en ctx a w)"

end
