(* ===== verification/HandlerProofs.thy ===== *)
theory HandlerProofs
  imports Handlers LostUpdate
begin

text \<open>
  What the writing tools guarantee over any store that meets \<open>memory_store\<close>, whatever other
  sessions do between their calls as long as they keep the store's invariant: a patch replaces
  the entry it read, an insert never overwrites, a save that leaves the metadata out keeps it,
  the attempts are bounded, and without interference nothing but the named entry changes.
\<close>

section \<open>What a put's options ask\<close>

lemma resolve_IfHash:
  "ResolvePutOptions [IfHash h, IfMetaHash g] =
     \<lparr>pIfHash = h, pConditional = True, pBase = [], pHasBase = False, pIfMetaHash = g, pMetaConditional = True\<rparr>"
  "ResolvePutOptions [IfHash h] =
     \<lparr>pIfHash = h, pConditional = True, pBase = [], pHasBase = False, pIfMetaHash = [], pMetaConditional = False\<rparr>"
  by (simp_all add: ResolvePutOptions_def zeroPutOptions_def IfHash_def IfMetaHash_def)

lemma Check_hashes:
  "Check po sc n stored = None \<longleftrightarrow>
     (pConditional po \<longrightarrow> hash_of stored = pIfHash po) \<and>
     (pMetaConditional po \<longrightarrow> (case stored of None \<Rightarrow> [] | Some e \<Rightarrow> MetaHash (eMeta e)) = pIfMetaHash po)"
  by (auto simp: Check_def Let_def hash_of_def split: option.splits)

lemma hash_of_live: "abs_inv a \<Longrightarrow> hash_of (aLive a sc n) = [] \<longleftrightarrow> aLive a sc n = None"
  using abs_inv_live(4) [of a sc n] by (auto simp: hash_of_def normal_entry_def split: option.splits)

definition base_hash :: "Entry option \<Rightarrow> string option \<Rightarrow> string" where
  "base_hash stored sh = (case sh of Some h \<Rightarrow> h | None \<Rightarrow> hash_of stored)"

lemma resolve_save:
  "ResolvePutOptions (save_base stored sh) =
     \<lparr>pIfHash = [], pConditional = False, pBase = base_hash stored sh, pHasBase = True, pIfMetaHash = [],
      pMetaConditional = (stored = None)\<rparr>"
  "ResolvePutOptions (save_base stored sh @ [IfMetaHash g]) =
     \<lparr>pIfHash = [], pConditional = False, pBase = base_hash stored sh, pHasBase = True, pIfMetaHash = g, pMetaConditional = True\<rparr>"
  by (auto simp: ResolvePutOptions_def zeroPutOptions_def BasedOn_def IfMetaHash_def save_base_def base_hash_def hash_of_def split: option.split)

section \<open>Calls\<close>

text \<open>Other sessions keep the store's invariant.\<close>

definition keeps_inv :: "('s \<Rightarrow> bool) \<Rightarrow> 's environ \<Rightarrow> bool" where
  "keeps_inv I en \<longleftrightarrow> (\<forall>k s. I s \<longrightarrow> I (enOthers en k s))"

text \<open>No other session writes during the call.\<close>

definition quiet :: "'s environ \<Rightarrow> bool" where
  "quiet en \<longleftrightarrow> (\<forall>k s. enOthers en k s = s)"

lemma quiet_before [simp]: "quiet en \<Longrightarrow> before_call en w = wState w"
  by (simp add: quiet_def before_call_def)

lemma quiet_keeps_inv: "quiet en \<Longrightarrow> keeps_inv I en"
  by (simp add: quiet_def keeps_inv_def)

text \<open>Nothing outside one scope moves, and a failure moves nothing.\<close>

definition only_scope :: "scope \<Rightarrow> AbsStore \<Rightarrow> AbsStore \<Rightarrow> bool" where
  "only_scope sc a a' \<longleftrightarrow> (\<forall>sc' n. sc' \<noteq> sc \<longrightarrow> aLive a' sc' n = aLive a sc' n)"

definition effect :: "scope \<Rightarrow> AbsStore \<Rightarrow> 'e + 'r \<Rightarrow> AbsStore \<Rightarrow> bool" where
  "effect sc a r a' \<longleftrightarrow> (case r of Inl _ \<Rightarrow> a' = a | Inr _ \<Rightarrow> only_scope sc a a')"

lemma only_scope_refl [simp]: "only_scope sc a a"
  by (simp add: only_scope_def)

lemma effect_Inl [simp]: "effect sc a (Inl err) a' \<longleftrightarrow> a' = a"
  by (simp add: effect_def)

lemma effect_Inr [simp]: "effect sc a (Inr x) a' \<longleftrightarrow> only_scope sc a a'"
  by (simp add: effect_def)

lemma effect_only: "effect sc a r a' \<Longrightarrow> only_scope sc a a'"
  by (auto simp: effect_def split: sum.splits)

lemma abs_put_effect: "abs_put session now e opts a = (r, a') \<Longrightarrow> effect (eScope e) a r a'"
  by (erule abs_put_cases) (auto simp: only_scope_def)

lemma abs_forget_effect: "abs_forget session now sc n a = (r, a') \<Longrightarrow> effect sc a r a'"
  by (erule abs_forget_cases) (auto simp: only_scope_def)

text \<open>What a patch did, seen in the state \<open>a\<close> it wrote to: \<open>live\<close> is the entry it replaced.\<close>

definition patched :: "scope \<Rightarrow> patchArgs \<Rightarrow> AbsStore \<Rightarrow> AbsStore \<Rightarrow> Change \<Rightarrow> bool" where
  "patched sc pa a a' c \<longleftrightarrow> (\<exists>live text. aLive a sc (paName pa) = Some live \<and>
     Hash text = eHash live \<and> Count text (paOldText pa) = 1 \<and>
     eContent (cEntry c) = Replace1 text (paOldText pa) (paNewText pa) \<and>
     eMetaHash (cEntry c) = eMetaHash live \<and> cPrev c = cReplaced c \<and> cReplaced c = eHash live \<and>
     aLive a' sc (paName pa) = Some (cEntry c) \<and> aJournal a' = aJournal a @ [c])"

text \<open>What an insert did: the name was free and the entry is new.\<close>

definition inserted :: "scope \<Rightarrow> insertArgs \<Rightarrow> string \<Rightarrow> AbsStore \<Rightarrow> AbsStore \<Rightarrow> Change \<Rightarrow> bool" where
  "inserted sc ia name a a' c \<longleftrightarrow> aLive a sc name = None \<and> cPrev c = [] \<and> cReplaced c = [] \<and>
     eScope (cEntry c) = sc \<and> eName (cEntry c) = name \<and> eContent (cEntry c) = iaContent ia \<and>
     a' = a\<lparr>aLive := (aLive a)(sc := (aLive a sc)(name \<mapsto> cEntry c)), aJournal := aJournal a @ [c]\<rparr>"

text \<open>What a save did: the base it names, and, when it kept the metadata of an entry it read, that the
  entry it replaced has that metadata still.\<close>

definition meta_of :: "Entry option \<Rightarrow> string" where
  "meta_of stored = (case stored of None \<Rightarrow> [] | Some e \<Rightarrow> MetaHash (eMeta e))"

definition saved :: "scope \<Rightarrow> saveArgs \<Rightarrow> string \<Rightarrow> AbsStore \<Rightarrow> AbsStore \<Rightarrow> Change \<Rightarrow> bool" where
  "saved sc sa base a a' c \<longleftrightarrow> cPrev c = base \<and> cReplaced c = hash_of (aLive a sc (saName sa)) \<and>
     eScope (cEntry c) = sc \<and> eName (cEntry c) = saName sa \<and> eContent (cEntry c) = saContent sa \<and>
     a' = a\<lparr>aLive := (aLive a)(sc := (aLive a sc)(saName sa \<mapsto> cEntry c)), aJournal := aJournal a @ [c]\<rparr>"

lemma save_put_entry:
  assumes "save_put sc sa base stored = (e, opts)"
  shows "eScope e = sc" "eName e = saName sa" "eContent e = saContent sa"
  using assms by (auto simp: save_put_def newEntry_def split: option.splits if_splits)

lemma save_put_meta:
  assumes "save_put sc sa (save_base stored0 sh) stored = (e, opts)" "stored0 = None \<longrightarrow> stored = None"
    and "Check (ResolvePutOptions opts) sc n live = None"
  shows "BaseFor (ResolvePutOptions opts) live = base_hash stored0 sh"
    "saMeta sa = Some m \<Longrightarrow> eMeta e = Some m"
    "saMeta sa = None \<Longrightarrow> stored \<noteq> None \<or> stored0 = None \<Longrightarrow> MetaHash (eMeta e) = meta_of live"
  using assms
  by (auto simp: save_put_def newEntry_def resolve_save BaseFor_def Check_hashes meta_of_def split: option.splits if_splits)

lemma save_put_ok:
  assumes "save_put sc sa (save_base stored0 sh) stored = (e, opts)" "stored0 = None \<longrightarrow> stored = None"
    and "abs_put session now e opts a = (Inr c, a')"
  shows "saved sc sa (base_hash stored0 sh) a a' c"
    "saMeta sa = Some m \<Longrightarrow> mitems (eMeta (cEntry c)) = m"
    "saMeta sa = None \<Longrightarrow> stored \<noteq> None \<or> stored0 = None \<Longrightarrow> eMetaHash (cEntry c) = meta_of (aLive a sc (saName sa))"
proof -
  from assms(3) have "saved sc sa (base_hash stored0 sh) a a' c \<and>
      (saMeta sa = Some m \<longrightarrow> mitems (eMeta (cEntry c)) = m) \<and>
      (saMeta sa = None \<longrightarrow> stored \<noteq> None \<or> stored0 = None \<longrightarrow> eMetaHash (cEntry c) = meta_of (aLive a sc (saName sa)))"
  proof (cases rule: abs_put_cases)
    case (ok c')
    note e = save_put_entry [OF assms(1)]
    then have "Check (ResolvePutOptions opts) sc (saName sa) (aLive a sc (saName sa)) = None" using ok by simp
    note sm = save_put_meta [OF assms(1,2) this]
    from ok e sm show ?thesis by (simp add: saved_def)
  qed simp
  then show "saved sc sa (base_hash stored0 sh) a a' c"
    "saMeta sa = Some m \<Longrightarrow> mitems (eMeta (cEntry c)) = m"
    "saMeta sa = None \<Longrightarrow> stored \<noteq> None \<or> stored0 = None \<Longrightarrow> eMetaHash (cEntry c) = meta_of (aLive a sc (saName sa))"
    by blast+
qed

definition first_of :: "error + Entry \<Rightarrow> Entry option" where
  "first_of g = (case g of Inl _ \<Rightarrow> None | Inr se \<Rightarrow> Some se)"

lemma save_cases:
  assumes "save isPrint t en ctx a w = (r, w')"
  obtains (refused) err where "r = Inl err" "w' = w"
  | (unread) sc err where "resolveScope isPrint t (saScope a) = Inr sc"
      "callGet (tsStore t) en sc (saName a) w = (Inl err, w')" "r = Inl (TErr err)"
  | (failed) sc g w1 err where "resolveScope isPrint t (saScope a) = Inr sc" "callGet (tsStore t) en sc (saName a) w = (g, w1)"
      "save_loop (patchAttempts - 1) (tsStore t) en ctx sc a (save_base (first_of g) (shown t (wCalls w1) ctx sc (saName a))) (first_of g) w1 = (Inl err, w')"
      "r = Inl (TErr err)"
  | (ok) sc g w1 c e stored res where "resolveScope isPrint t (saScope a) = Inr sc" "fixedSave t sc (saName a) = None"
      "callGet (tsStore t) en sc (saName a) w = (g, w1)"
      "save_loop (patchAttempts - 1) (tsStore t) en ctx sc a (save_base (first_of g) (shown t (wCalls w1) ctx sc (saName a))) (first_of g) w1 = (Inr (c, e, stored), w')"
      "r = Inr res" "rDetails res = Some \<lparr>wrTool = SaveTool, wrChange = c\<rparr>"
proof (cases "resolveScope isPrint t (saScope a)")
  case (Inl err)
  with assms show ?thesis by (intro refused) (auto simp: save_def)
next
  case sc: (Inr sc)
  show ?thesis
  proof (cases "fixedSave t sc (saName a)")
    case (Some err)
    with assms sc show ?thesis by (intro refused) (auto simp: save_def)
  next
    case fx: None
    obtain g w1 where g: "callGet (tsStore t) en sc (saName a) w = (g, w1)" by fastforce
    let ?sh = "shown t (wCalls w1) ctx sc (saName a)"
    let ?l = "save_loop (patchAttempts - 1) (tsStore t) en ctx sc a (save_base (first_of g) ?sh) (first_of g) w1"
    show ?thesis
    proof (cases "\<exists>err. g = Inl err \<and> \<not> is_not_found err")
      case True
      then obtain err where "g = Inl err" "\<not> is_not_found err" by blast
      with assms sc fx g show ?thesis by (intro unread [of sc err]) (auto simp: save_def)
    next
      case False
      obtain lr w2 where l: "?l = (lr, w2)" by fastforce
      have eq: "save isPrint t en ctx a w = (case ?l of
            (Inl err, w) \<Rightarrow> (Inl (TErr err), w)
          | (Inr (c, e, stored), w) \<Rightarrow>
              (Inr (wrote SaveTool c (saveText t sc a (sMaxEntryBytes (tsStore t) (wState w)) stored e ?sh)), w))"
        using sc fx g False by (simp add: save_def first_of_def Let_def split: sum.split)
      show ?thesis
      proof (cases lr)
        case (Inl err)
        with assms eq l have "r = Inl (TErr err)" "w' = w2" by simp_all
        with sc g l Inl show ?thesis by (intro failed) auto
      next
        case (Inr cs)
        obtain c e stored where cs: "cs = (c, e, stored)" by (cases cs)
        with assms eq l Inr have "r = Inr (wrote SaveTool c (saveText t sc a (sMaxEntryBytes (tsStore t) (wState w2)) stored e ?sh))" "w' = w2" by auto
        with sc fx g l Inr cs show ?thesis by (intro ok) (auto simp: wrote_def)
      qed
    qed
  qed
qed

context memory_store
begin

lemma before_call_inv: "keeps_inv inv en \<Longrightarrow> inv (wState w) \<Longrightarrow> inv (before_call en w)"
  by (simp add: keeps_inv_def before_call_def)

lemma callGet_spec:
  assumes "keeps_inv inv en" "inv (wState w)" "callGet S en sc n w = (r, w')"
  shows "inv (wState w')" "wCalls w' = Suc (wCalls w)" "wState w' = before_call en w" "r = abs_get sc n (view (wState w'))"
  using assms before_call_inv by (auto simp: callGet_def Let_def get_refines)

lemma callGet_live:
  assumes "keeps_inv inv en" "inv (wState w)" "callGet S en sc n w = (Inr e, w')"
  shows "aLive (view (wState w')) sc n = Some e" "abs_inv (view (wState w'))"
  using callGet_spec [OF assms] by (auto simp: abs_get_def inv_view split: option.splits)

lemma callPut_spec:
  assumes "keeps_inv inv en" "inv (wState w)" "callPut S en ctx e opts w = (r, w')"
  shows "inv (wState w')" "wCalls w' = Suc (wCalls w)" "inv (before_call en w)"
    "abs_put (SessionFrom ctx) (enClock en (wCalls w)) e opts (view (before_call en w)) = (r, view (wState w'))"
proof -
  obtain s where p: "sPut S (SessionFrom ctx) (enClock en (wCalls w)) e opts (before_call en w) = (r, s)"
    and w': "w' = \<lparr>wState = s, wCalls = Suc (wCalls w)\<rparr>"
    using assms(3) by (auto simp: callPut_def split: prod.splits)
  show b: "inv (before_call en w)" using assms by (intro before_call_inv)
  show "wCalls w' = Suc (wCalls w)" by (simp add: w')
  from put_refines [OF b p] show "inv (wState w')"
    "abs_put (SessionFrom ctx) (enClock en (wCalls w)) e opts (view (before_call en w)) = (r, view (wState w'))"
    by (simp_all add: w')
qed

section \<open>Patch\<close>

lemma patch_put:
  assumes "abs_inv a0" "aLive a0 sc (paName pa) = Some cur" "Count (eContent cur) (paOldText pa) = 1" "abs_inv a"
    and "abs_put session now (cur\<lparr>eContent := Replace1 (eContent cur) (paOldText pa) (paNewText pa)\<rparr>)
      [IfHash (eHash cur), IfMetaHash (MetaHash (eMeta cur))] a = (Inr c, a')"
  shows "patched sc pa a a' c"
proof -
  note cur = abs_inv_live [OF assms(1,2)]
  then have hc: "eHash cur = Hash (eContent cur)" by (simp add: normal_entry_def)
  from assms(5) show ?thesis
  proof (cases rule: abs_put_cases)
    case (ok c')
    then have chk: "hash_of (aLive a sc (paName pa)) = eHash cur"
        "(case aLive a sc (paName pa) of None \<Rightarrow> [] | Some e \<Rightarrow> MetaHash (eMeta e)) = MetaHash (eMeta cur)"
      using cur by (auto simp: Check_hashes resolve_IfHash)
    then obtain live where live: "aLive a sc (paName pa) = Some live" using hc Hash_not_Nil [of "eContent cur"] by (cases "aLive a sc (paName pa)") (auto simp: hash_of_def simp del: Hash_not_Nil)
    then have h: "eHash live = eHash cur" "MetaHash (eMeta live) = MetaHash (eMeta cur)" using chk by (auto simp: hash_of_def)
    have "eMetaHash live = MetaHash (eMeta live)" using abs_inv_live(4) [OF assms(4) live] by (simp add: normal_entry_def)
    with ok h hc live cur assms(3) show ?thesis
      unfolding patched_def
      by (intro exI [of _ live] exI [of _ "eContent cur"]) (auto simp: resolve_IfHash BaseFor_def hash_of_def)
  qed simp
qed

lemma patch_loop_ok:
  assumes "keeps_inv inv en" "inv (wState w)" "patch_loop left S en ctx sc pa lastErr w = (Inr res, w')"
  shows "\<exists>c s. rDetails res = Some \<lparr>wrTool = PatchTool, wrChange = c\<rparr> \<and> inv s \<and> inv (wState w') \<and>
     patched sc pa (view s) (view (wState w')) c"
  using assms(2,3)
proof (induction left arbitrary: lastErr w)
  case 0
  then show ?case by (simp add: patch_loop.simps)
next
  case (Suc left)
  obtain r1 w1 where g: "callGet S en sc (paName pa) w = (r1, w1)" by fastforce
  note i1 = callGet_spec [OF assms(1) Suc.prems(1) g]
  show ?case
  proof (cases r1)
    case (Inl err)
    with Suc.prems g show ?thesis by (simp add: patch_loop.simps)
  next
    case (Inr cur)
    note live = callGet_live [OF assms(1) Suc.prems(1) g [unfolded Inr]]
    let ?nxt = "cur\<lparr>eContent := Replace1 (eContent cur) (paOldText pa) (paNewText pa)\<rparr>"
    from Suc.prems(2) g Inr have one: "Count (eContent cur) (paOldText pa) = 1"
      by (auto simp: patch_loop.simps Let_def split: if_splits)
    obtain r2 w2 where p: "callPut S en ctx ?nxt [IfHash (eHash cur), IfMetaHash (MetaHash (eMeta cur))] w1 = (r2, w2)" by fastforce
    note i2 = callPut_spec [OF assms(1) i1(1) p]
    show ?thesis
    proof (cases r2)
      case (Inl err)
      with Suc.prems(2) g \<open>r1 = Inr cur\<close> one p have "patch_loop left S en ctx sc pa (Some err) w2 = (Inr res, w')"
        by (auto simp: patch_loop.simps(2) Let_def split: if_splits)
      with Suc.IH i2(1) show ?thesis by blast
    next
      case (Inr c)
      with Suc.prems(2) g \<open>r1 = Inr cur\<close> one p have w2: "w' = w2" and d: "rDetails res = Some \<lparr>wrTool = PatchTool, wrChange = c\<rparr>"
        by (auto simp: patch_loop.simps(2) Let_def wrote_def)
      have "patched sc pa (view (before_call en w1)) (view (wState w2)) c"
        using live i2(4) one inv_view [OF i2(3)] Inr by (intro patch_put [of "view (wState w1)" sc pa cur]) auto
      with i2 d w2 show ?thesis by blast
    qed
  qed
qed

section \<open>Insert\<close>

lemma insert_loop_ok:
  assumes "keeps_inv inv en" "inv (wState w)" "insert_loop left n S en ctx sc ia at lastErr w = (Inr res, w')"
  shows "\<exists>c s k. n \<le> k \<and> k < n + left \<and> rDetails res = Some \<lparr>wrTool = InsertTool, wrChange = c\<rparr> \<and> inv s \<and> inv (wState w') \<and>
     inserted sc ia (InsertName at (iaContent ia) k) (view s) (view (wState w')) c"
  using assms(2,3)
proof (induction left arbitrary: n lastErr w)
  case 0
  then show ?case by (simp add: insert_loop.simps)
next
  case (Suc left)
  let ?name = "InsertName at (iaContent ia) n"
  let ?e = "newEntry sc ?name (iaContent ia) (iaMeta ia)"
  obtain r w1 where p: "callPut S en ctx ?e [IfHash []] w = (r, w1)" by fastforce
  note i = callPut_spec [OF assms(1) Suc.prems(1) p]
  show ?case
  proof (cases r)
    case (Inl err)
    with Suc.prems(2) p have "insert_loop left (Suc n) S en ctx sc ia at (Some err) w1 = (Inr res, w')"
      by (auto simp: insert_loop.simps(2) Let_def split: if_splits)
    from Suc.IH [OF i(1) this] show ?thesis
      by (metis Suc_leD add_Suc_right add_Suc)
  next
    case (Inr c)
    with Suc.prems(2) p have w1: "w' = w1" and d: "rDetails res = Some \<lparr>wrTool = InsertTool, wrChange = c\<rparr>"
      by (auto simp: insert_loop.simps(2) Let_def wrote_def)
    from i(4) [unfolded Inr] have "inserted sc ia ?name (view (before_call en w)) (view (wState w1)) c"
    proof (cases rule: abs_put_cases)
      case (ok c')
      then have "hash_of (aLive (view (before_call en w)) sc ?name) = []"
        by (simp add: Check_hashes resolve_IfHash newEntry_def)
      with hash_of_live [OF inv_view [OF i(3)]] have free: "aLive (view (before_call en w)) sc ?name = None" by simp
      with ok show ?thesis
        by (simp add: inserted_def newEntry_def resolve_IfHash BaseFor_def hash_of_def)
    qed simp
    with i d w1 show ?thesis by (intro exI [of _ c] exI [of _ "before_call en w"] exI [of _ n]) auto
  qed
qed

section \<open>Save\<close>

lemma save_loop_ok:
  assumes "keeps_inv inv en" "inv (wState w)" "save_loop left S en ctx sc sa base stored w = (Inr (c, e, stored'), w')"
  shows "\<exists>s now opts. inv s \<and> inv (wState w') \<and> save_put sc sa base stored' = (e, opts) \<and>
     abs_put (SessionFrom ctx) now e opts (view s) = (Inr c, view (wState w')) \<and> (stored = None \<longrightarrow> stored' = None)"
  using assms(2,3)
proof (induction left arbitrary: stored w)
  case 0
  obtain e1 opts where sp: "save_put sc sa base stored = (e1, opts)" by fastforce
  obtain r w1 where p: "callPut S en ctx e1 opts w = (r, w1)" by fastforce
  note i = callPut_spec [OF assms(1) 0(1) p]
  from 0(2) sp p have "r = Inr c" "e1 = e" "stored' = stored" "w' = w1"
    by (auto simp: save_loop.simps [of 0] split: sum.splits if_splits)
  with i sp show ?case by blast
next
  case (Suc left)
  obtain e1 opts where sp: "save_put sc sa base stored = (e1, opts)" by fastforce
  obtain r w1 where p: "callPut S en ctx e1 opts w = (r, w1)" by fastforce
  note i = callPut_spec [OF assms(1) Suc.prems(1) p]
  show ?case
  proof (cases r)
    case (Inr c1)
    with Suc.prems(2) sp p have "c1 = c" "e1 = e" "stored' = stored" "w' = w1"
      by (auto simp: save_loop.simps [of "Suc left"])
    with i sp Inr show ?thesis by blast
  next
    case (Inl err)
    obtain r2 w2 where g: "callGet S en sc (saName sa) w1 = (r2, w2)" by fastforce
    note i2 = callGet_spec(1) [OF assms(1) i(1) g]
    from Suc.prems(2) sp p g Inl have st: "stored \<noteq> None"
      and "\<exists>st. save_loop left S en ctx sc sa base st w2 = (Inr (c, e, stored'), w')"
      by (auto simp: save_loop.simps [of "Suc left"] split: if_splits sum.splits)
    with Suc.IH [OF i2] show ?thesis by blast
  qed
qed

section \<open>Nothing else changes\<close>

lemma quiet_get:
  assumes "quiet en" "inv (wState w)" "callGet S en sc n w = (r, w')"
  shows "inv (wState w')" "wState w' = wState w" "r = abs_get sc n (view (wState w))" "wCalls w' = Suc (wCalls w)"
  using callGet_spec [OF quiet_keeps_inv [OF assms(1)] assms(2,3)] assms(1) by simp_all

lemma quiet_put:
  assumes "quiet en" "inv (wState w)" "callPut S en ctx e opts w = (r, w')"
  shows "inv (wState w')" "effect (eScope e) (view (wState w)) r (view (wState w'))" "wCalls w' = Suc (wCalls w)"
  using callPut_spec [OF quiet_keeps_inv [OF assms(1)] assms(2,3)] assms(1) abs_put_effect by fastforce+

lemma patch_loop_effect:
  assumes "quiet en" "inv (wState w)" "patch_loop left S en ctx sc pa lastErr w = (r, w')"
  shows "effect sc (view (wState w)) r (view (wState w'))"
  using assms(2,3)
proof (induction left arbitrary: lastErr w)
  case 0
  then show ?case by (auto simp: patch_loop.simps)
next
  case (Suc left)
  obtain r1 w1 where g: "callGet S en sc (paName pa) w = (r1, w1)" by fastforce
  note i1 = quiet_get [OF assms(1) Suc.prems(1) g]
  show ?case
  proof (cases r1)
    case (Inl err)
    with Suc.prems(2) g i1(2) show ?thesis by (auto simp: patch_loop.simps)
  next
    case (Inr cur)
    have cur: "eScope cur = sc"
      using i1(3) Inr abs_inv_live(1) [OF inv_view [OF Suc.prems(1)]] by (auto simp: abs_get_def split: option.splits)
    let ?nxt = "cur\<lparr>eContent := Replace1 (eContent cur) (paOldText pa) (paNewText pa)\<rparr>"
    obtain r2 w2 where p: "callPut S en ctx ?nxt [IfHash (eHash cur), IfMetaHash (MetaHash (eMeta cur))] w1 = (r2, w2)" by fastforce
    note i2 = quiet_put [OF assms(1) i1(1) p]
    have IH: "r2 = Inl err \<Longrightarrow> patch_loop left S en ctx sc pa (Some err) w2 = (r, w') \<Longrightarrow> ?thesis" for err
      using Suc.IH [OF i2(1)] i2(2) i1(2) by auto
    have "Count (eContent cur) (paOldText pa) \<noteq> 1 \<Longrightarrow> ?thesis"
      using Suc.prems(2) g Inr i1(2) by (auto simp: patch_loop.simps(2) Let_def split: if_splits)
    moreover have "Count (eContent cur) (paOldText pa) = 1 \<Longrightarrow> ?thesis"
      using Suc.prems(2) g Inr p i2(2) i1(2) IH cur
      by (auto simp: patch_loop.simps(2) Let_def split: if_splits sum.splits)
    ultimately show ?thesis by blast
  qed
qed

lemma insert_loop_effect:
  assumes "quiet en" "inv (wState w)" "insert_loop left n S en ctx sc ia at lastErr w = (r, w')"
  shows "effect sc (view (wState w)) r (view (wState w'))"
  using assms(2,3)
proof (induction left arbitrary: n lastErr w)
  case 0
  then show ?case by (auto simp: insert_loop.simps)
next
  case (Suc left)
  let ?e = "newEntry sc (InsertName at (iaContent ia) n) (iaContent ia) (iaMeta ia)"
  obtain r1 w1 where p: "callPut S en ctx ?e [IfHash []] w = (r1, w1)" by fastforce
  note i = quiet_put [OF assms(1) Suc.prems(1) p]
  have e: "eScope ?e = sc" by (simp add: newEntry_def)
  have IH: "r1 = Inl err \<Longrightarrow> insert_loop left (Suc n) S en ctx sc ia at (Some err) w1 = (r, w') \<Longrightarrow> ?case" for err
    using Suc.IH [OF i(1)] i(2) by auto
  show ?case
    using Suc.prems(2) p i(2) e IH by (auto simp: insert_loop.simps(2) Let_def split: if_splits sum.splits)
qed

lemma save_loop_effect:
  assumes "quiet en" "inv (wState w)" "save_loop left S en ctx sc sa base stored w = (r, w')"
  shows "effect sc (view (wState w)) r (view (wState w'))"
  using assms(2,3)
proof (induction left arbitrary: stored w)
  case 0
  obtain e opts where sp: "save_put sc sa base stored = (e, opts)" by fastforce
  obtain r1 w1 where p: "callPut S en ctx e opts w = (r1, w1)" by fastforce
  from 0 sp p quiet_put [OF assms(1) 0(1) p] save_put_entry(1) [OF sp] show ?case
    by (auto simp: save_loop.simps [of 0] split: sum.splits if_splits)
next
  case (Suc left)
  obtain e opts where sp: "save_put sc sa base stored = (e, opts)" by fastforce
  obtain r1 w1 where p: "callPut S en ctx e opts w = (r1, w1)" by fastforce
  note i = quiet_put [OF assms(1) Suc.prems(1) p]
  obtain r2 w2 where g: "callGet S en sc (saName sa) w1 = (r2, w2)" by fastforce
  note i2 = quiet_get [OF assms(1) i(1) g]
  have IH: "r1 = Inl err \<Longrightarrow> save_loop left S en ctx sc sa base st w2 = (r, w') \<Longrightarrow> ?case" for err st
    using Suc.IH [OF i2(1)] i(2) i2(2) by auto
  show ?case
    using Suc.prems(2) sp p g i(2) i2(2) save_put_entry(1) [OF sp] IH
    by (auto simp: save_loop.simps [of "Suc left"] split: if_splits sum.splits)
qed

lemma callForget_spec:
  assumes "keeps_inv inv en" "inv (wState w)" "callForget S en ctx sc n w = (r, w')"
  shows "inv (wState w')" "wCalls w' = Suc (wCalls w)" "inv (before_call en w)"
    "abs_forget (SessionFrom ctx) (enClock en (wCalls w)) sc n (view (before_call en w)) = (r, view (wState w'))"
proof -
  obtain s where p: "sForget S (SessionFrom ctx) (enClock en (wCalls w)) sc n (before_call en w) = (r, s)"
    and w': "w' = \<lparr>wState = s, wCalls = Suc (wCalls w)\<rparr>"
    using assms(3) by (auto simp: callForget_def split: prod.splits)
  show b: "inv (before_call en w)" using assms by (intro before_call_inv)
  show "wCalls w' = Suc (wCalls w)" by (simp add: w')
  from forget_refines [OF b p] show "inv (wState w')"
    "abs_forget (SessionFrom ctx) (enClock en (wCalls w)) sc n (view (before_call en w)) = (r, view (wState w'))"
    by (simp_all add: w')
qed

section \<open>Whole calls\<close>

text \<open>The scope a call writes is one the product allowed.\<close>

lemma resolveScope_in: "resolveScope isPrint t s = Inr sc \<Longrightarrow> sc \<in> set (tsScopes t)"
  by (auto simp: resolveScope_def split: if_splits list.splits)

lemma insertScope_in: "insertScope isPrint t s = Inr sc \<Longrightarrow> sc \<in> set (toInsert (tsOpts t))"
  by (auto simp: insertScope_def Let_def split: if_splits list.splits)

lemma patch_ok:
  assumes "tsStore t = S" "keeps_inv inv en" "inv (wState w)" "patch isPrint t en ctx a w = (Inr res, w')"
  shows "\<exists>sc c s. sc \<in> set (tsScopes t) \<and> rDetails res = Some \<lparr>wrTool = PatchTool, wrChange = c\<rparr> \<and> inv s \<and> inv (wState w') \<and>
     patched sc a (view s) (view (wState w')) c"
proof -
  from assms(1,4) obtain sc where sc: "resolveScope isPrint t (paScope a) = Inr sc"
    and l: "patch_loop patchAttempts S en ctx sc a None w = (Inr res, w')"
    by (auto simp: patch_def split: sum.splits if_splits)
  from patch_loop_ok [OF assms(2,3) l] resolveScope_in [OF sc] show ?thesis by blast
qed

lemma insert_ok:
  assumes "tsStore t = S" "keeps_inv inv en" "inv (wState w)" "insertEntry isPrint timeNow t en ctx a w = (Inr res, w')"
  shows "\<exists>sc at k c s. sc \<in> set (toInsert (tsOpts t)) \<and> 1 \<le> k \<and> k \<le> 100 \<and> rDetails res = Some \<lparr>wrTool = InsertTool, wrChange = c\<rparr> \<and>
     inv s \<and> inv (wState w') \<and> inserted sc a (InsertName at (iaContent a) k) (view s) (view (wState w')) c"
proof -
  from assms(1,4) obtain sc at where sc: "insertScope isPrint t (iaScope a) = Inr sc"
    and l: "insert_loop insertAttempts 1 S en ctx sc a at None w = (Inr res, w')"
    by (auto simp: insertEntry_def Let_def split: sum.splits)
  from insert_loop_ok [OF assms(2,3) l] obtain c s k where k: "1 \<le> k" "k < 1 + insertAttempts"
    and r: "rDetails res = Some \<lparr>wrTool = InsertTool, wrChange = c\<rparr>" "inv s" "inv (wState w')"
      "inserted sc a (InsertName at (iaContent a) k) (view s) (view (wState w')) c" by blast
  from k(2) have "k \<le> 100" by (simp add: insertAttempts_def)
  with k(1) r insertScope_in [OF sc] show ?thesis by blast
qed

lemma save_ok:
  assumes "tsStore t = S" "keeps_inv inv en" "inv (wState w)" "save isPrint t en ctx a w = (Inr res, w')"
  shows "\<exists>sc c s first (stored :: Entry option). sc \<in> set (tsScopes t) \<and> fixedSave t sc (saName a) = None \<and>
     rDetails res = Some \<lparr>wrTool = SaveTool, wrChange = c\<rparr> \<and> inv s \<and> inv (wState w') \<and> (first = None \<longrightarrow> stored = None) \<and>
     first = first_of (sGet S sc (saName a) (before_call en w)) \<and>
     saved sc a (base_hash first (shown t (Suc (wCalls w)) ctx sc (saName a))) (view s) (view (wState w')) c \<and>
     (\<forall>m. saMeta a = Some m \<longrightarrow> mitems (eMeta (cEntry c)) = m) \<and>
     (saMeta a = None \<longrightarrow> stored \<noteq> None \<or> first = None \<longrightarrow> eMetaHash (cEntry c) = meta_of (aLive (view s) sc (saName a)))"
proof -
  from assms(4) show ?thesis
  proof (cases rule: save_cases)
    case (ok sc g w1 c e stored)
    note i = callGet_spec [OF assms(2,3) ok(3) [unfolded assms(1)]]
    from save_loop_ok [OF assms(2) i(1) ok(4) [unfolded assms(1)]] obtain s now opts where
      s: "inv s" "inv (wState w')" "save_put sc a (save_base (first_of g) (shown t (wCalls w1) ctx sc (saName a))) stored = (e, opts)"
        "abs_put (SessionFrom ctx) now e opts (view s) = (Inr c, view (wState w'))" "first_of g = None \<longrightarrow> stored = None"
      by (elim exE conjE) (rule that)
    note put = save_put_ok [OF s(3,5,4), unfolded i(2)]
    show ?thesis
      by (rule exI [of _ sc], rule exI [of _ c], rule exI [of _ s], rule exI [of _ "first_of g"], rule exI [of _ stored])
        (use resolveScope_in [OF ok(1)] ok(2,5,6) s(1,2,5) put ok(3) assms(1) in \<open>simp add: callGet_def Let_def\<close>)
  qed simp_all
qed

lemma execute_effect:
  assumes "tsStore t = S" "quiet en" "inv (wState w)" "execute isPrint timeNow t en ctx call w = (r, w')"
    and "set (toInsert (tsOpts t)) \<subseteq> set (tsScopes t)"
  shows "(\<exists>sc \<in> set (tsScopes t). effect sc (view (wState w)) r (view (wState w'))) \<or> view (wState w') = view (wState w)"
proof (cases call)
  case (CallSave a)
  with assms(4) have "save isPrint t en ctx a w = (r, w')" by (simp add: execute_def)
  then show ?thesis
  proof (cases rule: save_cases)
    case (unread sc err)
    with quiet_get(2) [OF assms(2,3)] assms(1) show ?thesis by auto
  next
    case (failed sc g w1 err)
    note i = quiet_get [OF assms(2,3) failed(2) [unfolded assms(1)]]
    from save_loop_effect [OF assms(2) i(1) failed(3) [unfolded assms(1)]] i(2) show ?thesis by simp
  next
    case (ok sc g w1 c e stored res)
    note i = quiet_get [OF assms(2,3) ok(3) [unfolded assms(1)]]
    from save_loop_effect [OF assms(2) i(1) ok(4) [unfolded assms(1)]] i(2) ok(5) resolveScope_in [OF ok(1)] show ?thesis by auto
  qed simp
next
  case (CallPatch a)
  show ?thesis
  proof (cases "resolveScope isPrint t (paScope a)")
    case (Inr sc)
    have "effect sc (view (wState w)) r (view (wState w'))"
      using assms(1,4) CallPatch Inr patch_loop_effect [OF assms(2,3)]
      by (auto simp: execute_def patch_def split: if_splits)
    with resolveScope_in [OF Inr] show ?thesis by blast
  qed (use assms(4) CallPatch in \<open>simp add: execute_def patch_def\<close>)
next
  case (CallForget a)
  show ?thesis
  proof (cases "resolveScope isPrint t (faScope a)")
    case (Inr sc)
    obtain r1 w1 where g: "callForget S en ctx sc (faName a) w = (r1, w1)" by fastforce
    have "effect sc (view (wState w)) r1 (view (wState w1))"
      using callForget_spec(4) [OF quiet_keeps_inv [OF assms(2)] assms(3) g] assms(2) abs_forget_effect by fastforce
    with g assms(1,4) CallForget Inr have "effect sc (view (wState w)) r (view (wState w'))"
      by (auto simp: execute_def forget_def split: option.splits sum.splits)
    with resolveScope_in [OF Inr] show ?thesis by blast
  qed (use assms(4) CallForget in \<open>simp add: execute_def forget_def\<close>)
next
  case (CallSearch a)
  with assms(2,4) have "wState w' = wState w"
    by (auto simp: execute_def search_def Let_def split: if_splits sum.splits)
  then show ?thesis by simp
next
  case (CallInsert a)
  show ?thesis
  proof (cases "insertScope isPrint t (iaScope a)")
    case (Inr sc)
    have "effect sc (view (wState w)) r (view (wState w'))"
      using assms(1,4) CallInsert Inr insert_loop_effect [OF assms(2,3)]
      by (auto simp: execute_def insertEntry_def Let_def)
    with insertScope_in [OF Inr] assms(5) show ?thesis by blast
  qed (use assms(4) CallInsert in \<open>simp add: execute_def insertEntry_def\<close>)
qed

end

end
