(* ===== verification/ToolProps.thy ===== *)
theory ToolProps
  imports HandlerProofs RenderProofs
begin

text \<open>
  The properties of the tools: the names \<^verbatim>\<open>memory_insert\<close> gives, what each writing handler guarantees
  over the in-memory store whatever other sessions do, how many store calls one tool call makes,
  and what a search result holds.
\<close>

section \<open>The names of inserts\<close>

lemma digits_name: "digits s \<Longrightarrow> \<forall>c \<in> set s. name_char c"
proof -
  have "\<forall>c \<in> set ''0123456789''. name_char c" by code_simp
  then show "digits s \<Longrightarrow> \<forall>c \<in> set s. name_char c" by (auto simp only: digits_def)
qed

lemma hex_name: "set s \<subseteq> set ''0123456789abcdef'' \<Longrightarrow> \<forall>c \<in> set s. name_char c"
proof -
  have "\<forall>c \<in> set ''0123456789abcdef''. name_char c" by code_simp
  then show "set s \<subseteq> set ''0123456789abcdef'' \<Longrightarrow> \<forall>c \<in> set s. name_char c" by (auto simp only:)
qed

lemma hash_prefix: "TrimPrefix (Hash c) ''sha256:'' = EncodeToString (Sum256 c)"
  by (simp add: Hash_def TrimPrefix_def HasPrefix_def)

lemma InsertName_groups:
  assumes "0 \<le> at" "at < 3652059 * 86400 * 10 ^ 9"
  shows "\<exists>day tm hex. InsertName at content n = day @ ''-'' @ tm @ ''-'' @ hex @ (if n \<ge> 2 then ''-'' @ Itoa (int n) else []) \<and>
    length day = 8 \<and> length tm = 6 \<and> length hex = 8 \<and> digits day \<and> digits tm \<and> set hex \<subseteq> set ''0123456789abcdef''"
proof -
  obtain y m d where c: "civil_date at = (y, m, d)" by (cases "civil_date at")
  obtain hh mm ss ns where k: "clock_time at = (hh, mm, ss, ns)" by (cases "clock_time at")
  note cb = civil_date_bounds [OF c assms] and kb = clock_time_bounds [OF k]
  define day where "day = appendInt y 4 @ appendInt m 2 @ appendInt d 2"
  define tm where "tm = appendInt hh 2 @ appendInt mm 2 @ appendInt ss 2"
  define hex where "hex = take 8 (EncodeToString (Sum256 content))"
  have "length day = 8" "length tm = 6" using cb kb by (simp_all add: day_def tm_def length_appendInt)
  moreover have "digits day" "digits tm" using cb kb by (simp_all add: day_def tm_def digits_appendInt)
  moreover have "length hex = 8" by (simp add: hex_def length_Sum256)
  moreover have "set hex \<subseteq> set ''0123456789abcdef''"
    unfolding hex_def using set_EncodeToString by (meson order_trans set_take_subset)
  moreover have "InsertName at content n = day @ ''-'' @ tm @ ''-'' @ hex @ (if n \<ge> 2 then ''-'' @ Itoa (int n) else [])"
    by (simp add: InsertName_def FormatStamp_def c k day_def tm_def hex_def hash_prefix)
  ultimately show ?thesis by blast
qed

lemma InsertName_valid:
  assumes "0 \<le> at" "at < 3652059 * 86400 * 10 ^ 9" "n \<le> 100"
  shows "ValidName (InsertName at content n)"
proof -
  obtain day tm hex where g: "InsertName at content n = day @ ''-'' @ tm @ ''-'' @ hex @ (if n \<ge> 2 then ''-'' @ Itoa (int n) else [])"
    "length day = 8" "length tm = 6" "length hex = 8" "digits day" "digits tm" "set hex \<subseteq> set ''0123456789abcdef''"
    using InsertName_groups [OF assms(1,2)] by blast
  let ?gs = "[day, tm, hex] @ (if n \<ge> 2 then [Itoa (int n)] else [])"
  have num: "digits (Itoa (int n))" "Itoa (int n) \<noteq> []" "length (Itoa (int n)) \<le> 3"
    using set_utoa [of n] length_utoa_le [of n 3] assms(3) by (simp_all add: Itoa_def digits_def)
  have "InsertName at content n = Join ?gs ''-''" by (simp add: g(1))
  moreover have "\<forall>x \<in> set ?gs. x \<noteq> [] \<and> (\<forall>c \<in> set x. name_char c)"
    using g(2-4) digits_name [OF g(5)] digits_name [OF g(6)] hex_name [OF g(7)] digits_name [OF num(1)] num(2) by auto
  moreover have "?gs \<noteq> []" by simp
  ultimately have "kebab (InsertName at content n)" unfolding kebab_def by blast
  moreover have "length (InsertName at content n) \<le> MaxNameBytes" using g(1-4) num(3) by (simp add: MaxNameBytes_def)
  ultimately show ?thesis by (simp add: ValidName_kebab)
qed

lemma InsertName_inj:
  assumes "1 \<le> m" "1 \<le> n" "InsertName at content m = InsertName at content n"
  shows "m = n"
  using assms by (auto simp: InsertName_def Itoa_inj split: if_splits)

section \<open>Store calls of one tool call\<close>

lemma callGet_calls: "callGet S en sc n w = (r, w') \<Longrightarrow> wCalls w' = Suc (wCalls w)"
  by (auto simp: callGet_def Let_def)

lemma callPut_calls: "callPut S en ctx e opts w = (r, w') \<Longrightarrow> wCalls w' = Suc (wCalls w)"
  by (auto simp: callPut_def split: prod.splits)

lemma callForget_calls: "callForget S en ctx sc n w = (r, w') \<Longrightarrow> wCalls w' = Suc (wCalls w)"
  by (auto simp: callForget_def split: prod.splits)

lemma patch_loop_calls: "patch_loop left S en ctx sc a le w = (r, w') \<Longrightarrow> wCalls w' \<le> wCalls w + 2 * left"
proof (induction left arbitrary: le w)
  case (Suc left)
  obtain r1 w1 where g: "callGet S en sc (paName a) w = (r1, w1)" by fastforce
  note c1 = callGet_calls [OF g]
  show ?case
  proof (cases r1)
    case (Inr cur)
    obtain r2 w2 where p: "callPut S en ctx (cur\<lparr>eContent := Replace1 (eContent cur) (paOldText a) (paNewText a)\<rparr>)
        [IfHash (eHash cur), IfMetaHash (MetaHash (eMeta cur))] w1 = (r2, w2)" by fastforce
    note c2 = callPut_calls [OF p]
    have "r2 = Inl err \<Longrightarrow> patch_loop left S en ctx sc a (Some err) w2 = (r, w') \<Longrightarrow> ?thesis" for err
      using Suc.IH [of "Some err" w2] c1 c2 by simp
    with Suc.prems g Inr p c1 c2 show ?thesis
      by (auto simp: patch_loop.simps(2) Let_def split: if_splits sum.splits)
  qed (use Suc.prems g c1 in \<open>auto simp: patch_loop.simps(2)\<close>)
qed (auto simp: patch_loop.simps)

lemma insert_loop_calls: "insert_loop left n S en ctx sc a at le w = (r, w') \<Longrightarrow> wCalls w' \<le> wCalls w + left"
proof (induction left arbitrary: n le w)
  case (Suc left)
  obtain r1 w1 where p: "callPut S en ctx (newEntry sc (InsertName at (iaContent a) n) (iaContent a) (iaMeta a)) [IfHash []] w = (r1, w1)"
    by fastforce
  note c = callPut_calls [OF p]
  have "r1 = Inl err \<Longrightarrow> insert_loop left (Suc n) S en ctx sc a at (Some err) w1 = (r, w') \<Longrightarrow> ?case" for err
    using Suc.IH [of "Suc n" "Some err" w1] c by simp
  with Suc.prems p c show ?case by (auto simp: insert_loop.simps(2) Let_def split: if_splits sum.splits)
qed (auto simp: insert_loop.simps)

lemma save_loop_calls: "save_loop left S en ctx sc a base stored w = (r, w') \<Longrightarrow> wCalls w' \<le> wCalls w + 1 + 2 * left"
proof (induction left arbitrary: stored w)
  case 0
  obtain e opts where sp: "save_put sc a base stored = (e, opts)" by fastforce
  obtain r1 w1 where p: "callPut S en ctx e opts w = (r1, w1)" by fastforce
  from 0 sp p callPut_calls [OF p] show ?case by (auto simp: save_loop.simps [of 0] split: sum.splits if_splits)
next
  case (Suc left)
  obtain e opts where sp: "save_put sc a base stored = (e, opts)" by fastforce
  obtain r1 w1 where p: "callPut S en ctx e opts w = (r1, w1)" by fastforce
  obtain r2 w2 where g: "callGet S en sc (saName a) w1 = (r2, w2)" by fastforce
  have "save_loop left S en ctx sc a base st w2 = (r, w') \<Longrightarrow> ?case" for st
    using Suc.IH [of st w2] callPut_calls [OF p] callGet_calls [OF g] by simp
  with Suc.prems sp p g callPut_calls [OF p] callGet_calls [OF g] show ?case
    by (auto simp: save_loop.simps [of "Suc left"] split: if_splits sum.splits)
qed

lemma execute_calls:
  assumes "execute isPrint timeNow t en ctx call w = (r, w')"
  shows "wCalls w' \<le> wCalls w + (case call of CallInsert _ \<Rightarrow> 100 | _ \<Rightarrow> 8)"
proof (cases call)
  case (CallSave a)
  with assms have "save isPrint t en ctx a w = (r, w')" by (simp add: execute_def)
  then show ?thesis
    by (cases rule: save_cases)
       (auto simp: CallSave patchAttempts_def dest!: callGet_calls save_loop_calls)
next
  case (CallPatch a)
  with assms show ?thesis
    by (auto simp: execute_def patch_def patchAttempts_def dest!: patch_loop_calls split: sum.splits if_splits)
next
  case (CallForget a)
  with assms show ?thesis
    by (auto simp: execute_def forget_def dest!: callForget_calls split: sum.splits option.splits prod.splits)
next
  case (CallSearch a)
  with assms show ?thesis by (auto simp: execute_def search_def Let_def split: sum.splits if_splits)
next
  case (CallInsert a)
  with assms show ?thesis
    by (auto simp: execute_def insertEntry_def Let_def insertAttempts_def dest!: insert_loop_calls split: sum.splits)
qed

section \<open>Calls that succeed\<close>

context memory_store
begin

lemma callPut_succeeds:
  assumes "inv (before_call en w)" "entry_ok e (aMax (view (before_call en w)))"
    "Check (ResolvePutOptions opts) (eScope e) (eName e) (aLive (view (before_call en w)) (eScope e) (eName e)) = None"
  shows "\<exists>c w'. callPut S en ctx e opts w = (Inr c, w') \<and> cEntry c = stored_form (enClock en (wCalls w)) e \<and> inv (wState w') \<and>
    wCalls w' = Suc (wCalls w) \<and>
    view (wState w') = (view (before_call en w))\<lparr>aLive := (aLive (view (before_call en w)))(eScope e := (aLive (view (before_call en w)) (eScope e))(eName e \<mapsto> cEntry c)),
       aJournal := aJournal (view (before_call en w)) @ [c]\<rparr>"
proof -
  let ?a = "view (before_call en w)"
  obtain r s where p: "sPut S (SessionFrom ctx) (enClock en (wCalls w)) e opts (before_call en w) = (r, s)" by fastforce
  from put_refines [OF assms(1) p] have i: "inv s" and a: "abs_put (SessionFrom ctx) (enClock en (wCalls w)) e opts ?a = (r, view s)" by simp_all
  from a show ?thesis
  proof (cases rule: abs_put_cases)
    case (err er)
    then show ?thesis using assms(2,3) by (simp add: CheckEntry_None [THEN iffD2])
  next
    case (ok c)
    with p i show ?thesis by (auto simp: callPut_def)
  qed
qed

lemma patch_succeeds:
  assumes "tsStore t = S" "quiet en" "inv (wState w)" "resolveScope isPrint t (paScope a) = Inr sc" "paOldText a \<noteq> []"
    and get: "sGet S sc (paName a) (wState w) = Inr cur" and one: "Count (eContent cur) (paOldText a) = 1"
    and ok: "entry_ok (cur\<lparr>eContent := Replace1 (eContent cur) (paOldText a) (paNewText a)\<rparr>) (sMaxEntryBytes S (wState w))"
  shows "\<exists>res c w'. patch isPrint t en ctx a w = (Inr res, w') \<and> rDetails res = Some \<lparr>wrTool = PatchTool, wrChange = c\<rparr> \<and>
    eContent (cEntry c) = Replace1 (eContent cur) (paOldText a) (paNewText a) \<and> eMetaHash (cEntry c) = eMetaHash cur \<and>
    sGet S sc (paName a) (wState w') = Inr (cEntry c)"
proof -
  let ?nxt = "cur\<lparr>eContent := Replace1 (eContent cur) (paOldText a) (paNewText a)\<rparr>"
  let ?opts = "[IfHash (eHash cur), IfMetaHash (MetaHash (eMeta cur))]"
  define w1 where "w1 = \<lparr>wState = wState w, wCalls = Suc (wCalls w)\<rparr>"
  have g: "callGet S en sc (paName a) w = (Inr cur, w1)" using assms(2) get by (simp add: callGet_def Let_def w1_def)
  have b: "before_call en w1 = wState w" using assms(2) by (simp add: w1_def)
  have live: "aLive (view (wState w)) sc (paName a) = Some cur" and ref: "CheckRef sc (paName a) = None"
    using get get_refines [OF assms(3)] by (auto simp: abs_get_def split: option.splits)
  note cur = abs_inv_live [OF inv_view [OF assms(3)] live]
  have "Check (ResolvePutOptions ?opts) sc (paName a) (Some cur) = None"
    by (simp add: Check_hashes resolve_IfHash hash_of_def)
  then obtain c w' where p: "callPut S en ctx ?nxt ?opts w1 = (Inr c, w')" "cEntry c = stored_form (enClock en (wCalls w1)) ?nxt" "inv (wState w')"
    and v: "aLive (view (wState w')) sc (paName a) = Some (cEntry c)"
    using callPut_succeeds [of en w1 ?nxt ?opts ctx] assms(3) ok cur live by (auto simp: b max_view)
  have "patch_loop patchAttempts S en ctx sc a None w =
      (Inr (wrote PatchTool c (''Patched '' @ sc @ ''/'' @ paName a @ '' ('' @ Itoa (int (length (eContent ?nxt))) @ '' of '' @
         Itoa (sMaxEntryBytes S (wState w')) @ '' bytes) '' @ Hash (eContent ?nxt))), w')"
    unfolding patchAttempts_def eval_nat_numeral using g one p(1) by (subst patch_loop.simps(2)) (simp add: Let_def)
  then have "patch isPrint t en ctx a w = (Inr (wrote PatchTool c (''Patched '' @ sc @ ''/'' @ paName a @ '' ('' @ Itoa (int (length (eContent ?nxt))) @ '' of '' @
         Itoa (sMaxEntryBytes S (wState w')) @ '' bytes) '' @ Hash (eContent ?nxt))), w')"
    using assms(1,4,5) by (simp add: patch_def)
  moreover have "eMetaHash (cEntry c) = eMetaHash cur" "eContent (cEntry c) = eContent ?nxt"
    using p(2) cur(4) by (simp_all add: normal_entry_def)
  moreover have "sGet S sc (paName a) (wState w') = Inr (cEntry c)" using v ref get_refines [OF p(3)] by (simp add: abs_get_def)
  ultimately show ?thesis by (auto simp: wrote_def)
qed

lemma insert_succeeds:
  assumes "tsStore t = S" "quiet en" "inv (wState w)" "insertScope isPrint t (iaScope a) = Inr sc"
    and at: "at = (case toNow (tsOpts t) of Some now \<Rightarrow> now (wCalls w) | None \<Rightarrow> timeNow (wCalls w))"
    and free: "aLive (view (wState w)) sc (InsertName at (iaContent a) 1) = None"
    and ok: "entry_ok (newEntry sc (InsertName at (iaContent a) 1) (iaContent a) (iaMeta a)) (sMaxEntryBytes S (wState w))"
  shows "\<exists>res w'. insertEntry isPrint timeNow t en ctx a w = (Inr res, w')"
proof -
  let ?e = "newEntry sc (InsertName at (iaContent a) 1) (iaContent a) (iaMeta a)"
  have e: "eScope ?e = sc" "eName ?e = InsertName at (iaContent a) 1" by (simp_all add: newEntry_def)
  have "Check (ResolvePutOptions [IfHash []]) sc (eName ?e) None = None"
    by (simp add: Check_hashes resolve_IfHash hash_of_def)
  then obtain c w' where p: "callPut S en ctx ?e [IfHash []] w = (Inr c, w')"
    using callPut_succeeds [of en w ?e "[IfHash []]" ctx] assms(2,3) ok free e by (auto simp: max_view)
  obtain k where k: "insertAttempts = Suc k" by (simp add: insertAttempts_def)
  have "\<exists>res. insert_loop insertAttempts 1 S en ctx sc a at None w = (Inr res, w')"
    unfolding k using p by (simp add: insert_loop.simps(2) Let_def)
  then show ?thesis using assms(1,4) at by (auto simp: insertEntry_def Let_def)
qed

lemma save_creates:
  assumes "tsStore t = S" "quiet en" "inv (wState w)" "resolveScope isPrint t (saScope a) = Inr sc" "fixedSave t sc (saName a) = None"
    and none: "aLive (view (wState w)) sc (saName a) = None"
    and ok: "entry_ok (newEntry sc (saName a) (saContent a) (saMeta a)) (sMaxEntryBytes S (wState w))"
  shows "\<exists>res w'. save isPrint t en ctx a w = (Inr res, w')"
proof -
  let ?e = "newEntry sc (saName a) (saContent a) (saMeta a)"
  let ?sh = "shown t (Suc (wCalls w)) ctx sc (saName a)"
  define w1 where "w1 = \<lparr>wState = wState w, wCalls = Suc (wCalls w)\<rparr>"
  have e: "eScope ?e = sc" "eName ?e = saName a" by (simp_all add: newEntry_def)
  have "CheckRef sc (saName a) = None" using ok e by (simp add: CheckRef_def CheckScope_def ValidScope_def entry_ok_def)
  then have g: "callGet S en sc (saName a) w = (Inl (ErrNotFound sc (saName a)), w1)"
    using assms(2) none get_refines [OF assms(3)] by (simp add: callGet_def Let_def w1_def abs_get_def)
  have b: "before_call en w1 = wState w" using assms(2) by (simp add: w1_def)
  have "Check (ResolvePutOptions (save_base None ?sh)) sc (saName a) None = None"
    by (simp add: Check_hashes resolve_save)
  then obtain c w' where p: "callPut S en ctx ?e (save_base None ?sh) w1 = (Inr c, w')"
    using callPut_succeeds [of en w1 ?e "save_base None ?sh" ctx] assms(3) ok none e by (auto simp: b max_view)
  have "save_loop (patchAttempts - 1) S en ctx sc a (save_base None ?sh) None w1 = (Inr (c, ?e, None), w')"
    by (subst save_loop.simps) (simp add: save_put_def p)
  with g assms(1,4,5) show ?thesis
    by (simp add: save_def is_not_found_def w1_def)
qed

lemma save_loop_quiet_stored:
  assumes "quiet en" "inv (wState w)" "aLive (view (wState w)) sc (saName a) \<noteq> None" "CheckRef sc (saName a) = None" "stored \<noteq> None"
    and "save_loop left S en ctx sc a base stored w = (Inr (c, e, stored'), w')"
  shows "stored' \<noteq> None"
  using assms(2,3,5,6)
proof (induction left arbitrary: stored w)
  case 0
  obtain e1 opts where sp: "save_put sc a base stored = (e1, opts)" by fastforce
  obtain r1 w1 where p: "callPut S en ctx e1 opts w = (r1, w1)" by fastforce
  from 0(3,4) sp p show ?case by (auto simp: save_loop.simps [of 0] split: sum.splits if_splits)
next
  case (Suc left)
  obtain e1 opts where sp: "save_put sc a base stored = (e1, opts)" by fastforce
  obtain r1 w1 where p: "callPut S en ctx e1 opts w = (r1, w1)" by fastforce
  note i = quiet_put [OF assms(1) Suc.prems(1) p]
  obtain r2 w2 where g: "callGet S en sc (saName a) w1 = (r2, w2)" by fastforce
  note i2 = quiet_get [OF assms(1) i(1) g]
  show ?case
  proof (cases r1)
    case (Inr c1)
    with Suc.prems(3,4) sp p show ?thesis by (auto simp: save_loop.simps [of "Suc left"])
  next
    case (Inl err)
    with i(2) have v: "view (wState w1) = view (wState w)" by simp
    then obtain se where r2: "r2 = Inr se" using i2(3) Suc.prems(2) assms(4) by (auto simp: abs_get_def)
    from Suc.prems(4) sp p g Inl r2 have "save_loop left S en ctx sc a base (Some se) w2 = (Inr (c, e, stored'), w')"
      by (auto simp: save_loop.simps [of "Suc left"] split: if_splits)
    from Suc.IH [OF i2(1) _ _ this] i2(2) v Suc.prems(2) show ?thesis by simp
  qed
qed

lemma save_quiet_keeps_meta:
  assumes "tsStore t = S" "quiet en" "inv (wState w)" "saMeta a = None" "save isPrint t en ctx a w = (Inr res, w')"
  shows "\<exists>sc c s. sc \<in> set (tsScopes t) \<and> rDetails res = Some \<lparr>wrTool = SaveTool, wrChange = c\<rparr> \<and> inv s \<and>
     eMetaHash (cEntry c) = meta_of (aLive (view s) sc (saName a)) \<and> aLive (view (wState w')) sc (saName a) = Some (cEntry c)"
  using assms(5)
proof (cases rule: save_cases)
  case (ok sc g w1 c e stored)
  note k = quiet_keeps_inv [OF assms(2)]
  note i = quiet_get [OF assms(2,3) ok(3) [unfolded assms(1)]]
  from save_loop_ok [OF k i(1) ok(4) [unfolded assms(1)]] obtain s now opts where
    s: "inv s" "save_put sc a (save_base (first_of g) (shown t (wCalls w1) ctx sc (saName a))) stored = (e, opts)"
      "abs_put (SessionFrom ctx) now e opts (view s) = (Inr c, view (wState w'))" "first_of g = None \<longrightarrow> stored = None"
    by (elim exE conjE) (rule that)
  have "stored \<noteq> None \<or> first_of g = None"
  proof (cases g)
    case (Inr se)
    then have "aLive (view (wState w1)) sc (saName a) \<noteq> None" "CheckRef sc (saName a) = None"
      using i(2,3) by (auto simp: abs_get_def split: option.splits)
    from save_loop_quiet_stored [OF assms(2) i(1) this _ ok(4) [unfolded assms(1)]] Inr show ?thesis by (simp add: first_of_def)
  qed (simp add: first_of_def)
  with save_put_ok(3) [OF s(2,4,3) assms(4)] have m: "eMetaHash (cEntry c) = meta_of (aLive (view s) sc (saName a))" by blast
  have "aLive (view (wState w')) sc (saName a) = Some (cEntry c)"
    using save_put_ok(1) [OF s(2,4,3)] by (simp add: saved_def)
  moreover have "rDetails res = Some \<lparr>wrTool = SaveTool, wrChange = c\<rparr>" using ok(5,6) by simp
  ultimately show ?thesis using resolveScope_in [OF ok(1)] m s(1) by blast
qed simp_all

end

section \<open>Searches\<close>

definition shown_bytes :: "Entry list \<Rightarrow> int" where
  "shown_bytes es = sum_list (map (\<lambda>e. int (Size e)) es)"

lemma search_show_spec:
  assumes "search_show bytes es (b, n, us) = (b', n', us')" "n \<le> bytes"
  shows "\<exists>ins. length ins = length es \<and> b' = b @ concat (map found_text (shown_of es ins)) \<and>
    us' = us @ map found_line (dropped_of es ins) \<and> n' = n + shown_bytes (shown_of es ins) \<and> n' \<le> bytes"
  using assms
proof (induction es arbitrary: b n us)
  case Nil
  then show ?case by (intro exI [of _ "[]"]) (simp add: shown_bytes_def)
next
  case (Cons e es)
  show ?case
  proof (cases "n + int (Size e) > bytes")
    case True
    with Cons.prems have "search_show bytes es (b, n, us @ [found_line e]) = (b', n', us')" by simp
    from Cons.IH [OF this Cons.prems(2)] obtain ins where "length ins = length es"
      "b' = b @ concat (map found_text (shown_of es ins))" "us' = (us @ [found_line e]) @ map found_line (dropped_of es ins)"
      "n' = n + shown_bytes (shown_of es ins)" "n' \<le> bytes" by blast
    then show ?thesis by (intro exI [of _ "False # ins"]) simp
  next
    case False
    with Cons.prems have "search_show bytes es (b @ found_text e, n + int (Size e), us) = (b', n', us')" by simp
    moreover from False have "n + int (Size e) \<le> bytes" by simp
    ultimately obtain ins where "length ins = length es"
      "b' = (b @ found_text e) @ concat (map found_text (shown_of es ins))" "us' = us @ map found_line (dropped_of es ins)"
      "n' = n + int (Size e) + shown_bytes (shown_of es ins)" "n' \<le> bytes" using Cons.IH by blast
    then show ?thesis by (intro exI [of _ "True # ins"]) (simp add: shown_bytes_def)
  qed
qed

section \<open>Samples\<close>

definition sample_tools :: "(unit, MemStore) toolset" where
  "sample_tools = \<lparr>tsStore = memStore (\<lambda>r. r), tsScopes = [''user''],
     tsOpts = \<lparr>toSearchLimit = 5, toSearchBytes = 16384, toRendered = None, toReadScopes = [''rules''], toFixed = [],
       toInsert = [''user''], toNow = None, toSearchReads = [], toSearchReadsSet = False\<rparr>\<rparr>"

definition sample_env :: "MemStore environ" where
  "sample_env = \<lparr>enOthers = (\<lambda>k s. s), enClock = (\<lambda>k. 9)\<rparr>"

definition sample_ctx :: ToolContext where
  "sample_ctx = \<lparr>ctxSession = Some ''s2'', ctxRendered = None\<rparr>"

definition sample_new :: MemStore where
  "sample_new = NewMemStore [WithMaxEntryBytes 4096]"

definition sample_store :: MemStore where
  "sample_store = snd (MemPut ''s1'' 7 sample_entry [] sample_new)"

definition sample_world :: "MemStore \<Rightarrow> MemStore world" where
  "sample_world m = \<lparr>wState = m, wCalls = 0\<rparr>"

lemma sample_quiet: "quiet sample_env" "keeps_inv I sample_env"
  by (simp_all add: quiet_def keeps_inv_def sample_env_def)

lemma sample_tools_simps [simp]:
  "tsStore sample_tools = memStore (\<lambda>r. r)" "tsScopes sample_tools = [''user'']" "toFixed (tsOpts sample_tools) = []"
  "toInsert (tsOpts sample_tools) = [''user'']" "toNow (tsOpts sample_tools) = None" "toRendered (tsOpts sample_tools) = None"
  "toReadScopes (tsOpts sample_tools) = [''rules'']"
  by (simp_all add: sample_tools_def)

lemma sample_world_simps [simp]: "wState (sample_world m) = m" "wCalls (sample_world m) = 0"
  by (simp_all add: sample_world_def)

lemma sample_new_inv: "mem_inv sample_new" "mMax sample_new = 4096" "map_of (live_scope sample_new sc) n = None"
  using mem_inv_New by (simp_all add: sample_new_def NewMemStore_def WithMaxEntryBytes_def live_scope_def)

lemma sample_store_put: "\<exists>c. MemPut ''s1'' 7 sample_entry [] sample_new = (Inr c, sample_store)"
  using sample_put_plain [of "''s1''" 7] by (auto simp: sample_store_def sample_new_def)

lemma sample_store_facts:
  "mem_inv sample_store" "MemGet ''user'' ''tea'' sample_store = Inr (stored_form 7 sample_entry)" "mMax sample_store = 4096"
proof -
  obtain c where p: "MemPut ''s1'' 7 sample_entry [] sample_new = (Inr c, sample_store)" using sample_store_put by blast
  then show "mem_inv sample_store" using MemPut_inv sample_new_inv(1) by blast
  from p have q: "sPut (memStore (\<lambda>r. r)) ''s1'' 7 sample_entry [] sample_new = (Inr c, sample_store)" by simp
  show "MemGet ''user'' ''tea'' sample_store = Inr (stored_form 7 sample_entry)"
    using mem.get_after_put [OF sample_new_inv(1) q] by simp
  have "aMax (mem_view sample_store) = aMax (mem_view sample_new)"
    using MemPut_refines [OF sample_new_inv(1) p] by (auto elim: abs_put_cases simp del: mem_view_simps)
  then show "mMax sample_store = 4096" by (simp add: sample_new_inv)
qed

section \<open>Properties\<close>

text \<open>C23: whatever other sessions write between its calls, a \<^verbatim>\<open>memory_patch\<close> that succeeds replaced the entry it
  read: the record it wrote names the same state as its base and as what it replaced, the new content is
  that state's content with the one occurrence of the old text replaced, its metadata is kept, and
  the scope is one the product allowed.\<close>

theorem patch_replaces_what_it_read:
  assumes "tsStore t = memStore u" "keeps_inv mem_inv en" "mem_inv (wState w)" "patch isPrint t en ctx a w = (Inr res, w')"
  shows "\<exists>sc c s live old. sc \<in> set (tsScopes t) \<and> rDetails res = Some \<lparr>wrTool = PatchTool, wrChange = c\<rparr> \<and> mem_inv s \<and>
    map_of (live_scope s sc) (paName a) = Some live \<and> Hash old = eHash live \<and> Count old (paOldText a) = 1 \<and>
    eContent (cEntry c) = Replace1 old (paOldText a) (paNewText a) \<and> eMetaHash (cEntry c) = eMetaHash live \<and>
    cPrev c = eHash live \<and> cReplaced c = eHash live \<and>
    map_of (live_scope (wState w') sc) (paName a) = Some (cEntry c) \<and> mJournal (wState w') = mJournal s @ [c]"
proof -
  from mem.patch_ok [OF assms] obtain sc c s where 1: "sc \<in> set (tsScopes t)"
    "rDetails res = Some \<lparr>wrTool = PatchTool, wrChange = c\<rparr>" "mem_inv s" "patched sc a (mem_view s) (mem_view (wState w')) c" by blast
  from 1(4) obtain live old where 2: "map_of (live_scope s sc) (paName a) = Some live" "Hash old = eHash live"
    "Count old (paOldText a) = 1" "eContent (cEntry c) = Replace1 old (paOldText a) (paNewText a)" "eMetaHash (cEntry c) = eMetaHash live"
    "cPrev c = eHash live" "cReplaced c = eHash live" "map_of (live_scope (wState w') sc) (paName a) = Some (cEntry c)"
    "mJournal (wState w') = mJournal s @ [c]"
    unfolding patched_def mem_view_simps by (elim exE conjE) (rule that, simp_all)
  show ?thesis by (rule exI [of _ sc], rule exI [of _ c], rule exI [of _ s], rule exI [of _ live], rule exI [of _ old]) (use 1(1-3) 2 in simp)
qed

definition sample_patch :: patchArgs where
  "sample_patch = \<lparr>paScope = [], paName = ''tea'', paOldText = ''green'', paNewText = ''black''\<rparr>"

lemma sample_patch_ready:
  "resolveScope (\<lambda>r. True) sample_tools (paScope sample_patch) = Inr ''user''" "paOldText sample_patch \<noteq> []"
  "Count (eContent (stored_form 7 sample_entry)) (paOldText sample_patch) = 1"
  "entry_ok ((stored_form 7 sample_entry)\<lparr>eContent := Replace1 (eContent (stored_form 7 sample_entry)) (paOldText sample_patch) (paNewText sample_patch)\<rparr>) 4096"
proof -
  show "resolveScope (\<lambda>r. True) sample_tools (paScope sample_patch) = Inr ''user''" "paOldText sample_patch \<noteq> []"
    by (simp_all add: resolveScope_def sample_patch_def)
  show "Count (eContent (stored_form 7 sample_entry)) (paOldText sample_patch) = 1"
    unfolding stored_form_simps by code_simp
  have "entry_ok (sample_entry\<lparr>eContent := Replace1 (eContent sample_entry) (paOldText sample_patch) (paNewText sample_patch)\<rparr>) 4096" by code_simp
  then show "entry_ok ((stored_form 7 sample_entry)\<lparr>eContent := Replace1 (eContent (stored_form 7 sample_entry)) (paOldText sample_patch) (paNewText sample_patch)\<rparr>) 4096"
    by (simp add: entry_ok_def Size_def)
qed

lemma sample_patch_done:
  "\<exists>res w'. patch (\<lambda>r. True) sample_tools sample_env sample_ctx sample_patch (sample_world sample_store) = (Inr res, w')"
  using mem.patch_succeeds [of sample_tools "\<lambda>r. r" sample_env "sample_world sample_store" "\<lambda>r. True" sample_patch "''user''"
      "stored_form 7 sample_entry" sample_ctx] sample_quiet(1) sample_store_facts sample_patch_ready
  by (auto simp: sample_patch_def MemMaxEntryBytes_def)

theorem patch_replaces_what_it_read_witness:
  "\<exists>res w' c. patch (\<lambda>r. True) sample_tools sample_env sample_ctx sample_patch (sample_world sample_store) = (Inr res, w') \<and>
     rDetails res = Some \<lparr>wrTool = PatchTool, wrChange = c\<rparr> \<and> cPrev c = cReplaced c"
proof -
  obtain res w' where p: "patch (\<lambda>r. True) sample_tools sample_env sample_ctx sample_patch (sample_world sample_store) = (Inr res, w')"
    using sample_patch_done by blast
  have "mem_inv (wState (sample_world sample_store))" by (simp add: sample_store_facts)
  from patch_replaces_what_it_read [OF sample_tools_simps(1) sample_quiet(2) this p] p show ?thesis by auto
qed

text \<open>Without interference, a \<^verbatim>\<open>memory_patch\<close> whose old text appears once in the entry, and whose result
  passes the entry check, succeeds and the entry then reads with that one occurrence replaced and
  its metadata as it was.\<close>

theorem patch_applies:
  assumes "tsStore t = memStore u" "quiet en" "mem_inv (wState w)" "resolveScope isPrint t (paScope a) = Inr sc" "paOldText a \<noteq> []"
    "MemGet sc (paName a) (wState w) = Inr cur" "Count (eContent cur) (paOldText a) = 1"
    "entry_ok (cur\<lparr>eContent := Replace1 (eContent cur) (paOldText a) (paNewText a)\<rparr>) (mMax (wState w))"
  shows "\<exists>res w' e. patch isPrint t en ctx a w = (Inr res, w') \<and> MemGet sc (paName a) (wState w') = Inr e \<and>
    eContent e = Replace1 (eContent cur) (paOldText a) (paNewText a) \<and> eMetaHash e = eMetaHash cur"
  using mem.patch_succeeds [of t u en w isPrint a sc cur ctx] assms by (auto simp: MemMaxEntryBytes_def)

theorem patch_applies_witness:
  "\<exists>res w' e. patch (\<lambda>r. True) sample_tools sample_env sample_ctx sample_patch (sample_world sample_store) = (Inr res, w') \<and>
     MemGet ''user'' ''tea'' (wState w') = Inr e \<and> eContent e = Replace1 ''green'' ''green'' ''black''"
  using patch_applies [of sample_tools "\<lambda>r. r" sample_env "sample_world sample_store" "\<lambda>r. True" sample_patch "''user''"
      "stored_form 7 sample_entry" sample_ctx] sample_quiet(1) sample_store_facts sample_patch_ready
  by (auto simp: sample_patch_def sample_entry_def)

end
