(* ===== verification/ToolSafety.thy ===== *)
theory ToolSafety
  imports ToolProps
begin

text \<open>
  Properties of the tools over the in-memory store: what an insert and a save guarantee whatever other
  sessions do between their calls, that a call outside its scopes or that fails moves nothing, how many
  store calls a tool call makes, and what a search result holds.
\<close>

section \<open>Samples\<close>

definition sample_save :: saveArgs where
  "sample_save = \<lparr>saScope = ''user'', saName = ''tea'', saContent = ''oolong'', saMeta = None\<rparr>"

definition sample_insert :: insertArgs where
  "sample_insert = \<lparr>iaScope = [], iaContent = ''likes tea'', iaMeta = None\<rparr>"

lemma sample_scopes:
  "resolveScope (\<lambda>r. True) sample_tools (saScope sample_save) = Inr ''user''"
  "insertScope (\<lambda>r. True) sample_tools (iaScope sample_insert) = Inr ''user''"
  by (simp_all add: resolveScope_def insertScope_def sample_save_def sample_insert_def)

lemma sample_save_done:
  "\<exists>res w'. save (\<lambda>r. True) sample_tools sample_env sample_ctx sample_save (sample_world sample_new) = (Inr res, w')"
proof -
  have "entry_ok (newEntry ''user'' (saName sample_save) (saContent sample_save) (saMeta sample_save)) 4096" by code_simp
  then show ?thesis
    by (intro mem.save_creates [of sample_tools "\<lambda>r. r" _ _ _ _ "''user''"])
       (simp_all add: sample_quiet sample_new_inv sample_scopes fixedSave_def MemMaxEntryBytes_def)
qed

lemma sample_insert_done:
  "\<exists>res w'. insertEntry (\<lambda>r. True) (\<lambda>k. 0) sample_tools sample_env sample_ctx sample_insert (sample_world sample_new) = (Inr res, w')"
proof -
  have "ValidName (InsertName 0 (iaContent sample_insert) 1)" by (rule InsertName_valid) simp_all
  moreover have "entry_ok (newEntry ''user'' ''tea'' (iaContent sample_insert) (iaMeta sample_insert)) 4096" by code_simp
  ultimately have "entry_ok (newEntry ''user'' (InsertName 0 (iaContent sample_insert) 1) (iaContent sample_insert) (iaMeta sample_insert)) 4096"
    by (simp add: entry_ok_def newEntry_def Size_def)
  then show ?thesis
    by (intro mem.insert_succeeds [of sample_tools "\<lambda>r. r" _ _ _ _ "''user''" 0])
       (simp_all add: sample_quiet sample_new_inv sample_scopes MemMaxEntryBytes_def)
qed

section \<open>What the store holds afterwards\<close>

lemma inserted_after: "inserted sc ia name a a' c \<Longrightarrow> aLive a' sc name = Some (cEntry c) \<and> aJournal a' = aJournal a @ [c]"
  by (simp add: inserted_def)

lemma saved_after: "saved sc sa base a a' c \<Longrightarrow> aLive a' sc (saName sa) = Some (cEntry c) \<and> aJournal a' = aJournal a @ [c]"
  by (simp add: saved_def)

section \<open>A save succeeds\<close>

context memory_store
begin

lemma save_succeeds:
  assumes "tsStore t = S" "quiet en" "inv (wState w)" "resolveScope isPrint t (saScope a) = Inr sc" "fixedSave t sc (saName a) = None"
    and m: "meta = (if saMeta a \<noteq> None then saMeta a else case sGet S sc (saName a) (wState w) of Inr e \<Rightarrow> eMeta e | Inl _ \<Rightarrow> None)"
    and ok: "entry_ok (newEntry sc (saName a) (saContent a) meta) (sMaxEntryBytes S (wState w))"
  shows "\<exists>res w'. save isPrint t en ctx a w = (Inr res, w') \<and>
    sGet S sc (saName a) (wState w') = Inr (stored_form (enClock en (Suc (wCalls w))) (newEntry sc (saName a) (saContent a) meta))"
proof -
  let ?e = "newEntry sc (saName a) (saContent a) meta"
  let ?sh = "shown t (Suc (wCalls w)) ctx sc (saName a)"
  let ?live = "aLive (view (wState w)) sc (saName a)"
  define w1 where "w1 = \<lparr>wState = wState w, wCalls = Suc (wCalls w)\<rparr>"
  define g where "g = sGet S sc (saName a) (wState w)"
  have e: "eScope ?e = sc" "eName ?e = saName a" by (simp_all add: newEntry_def)
  have ref: "CheckRef sc (saName a) = None" using ok e by (simp add: CheckRef_def CheckScope_def ValidScope_def entry_ok_def)
  have g1: "callGet S en sc (saName a) w = (g, w1)"
    using assms(2) by (simp add: callGet_def Let_def w1_def g_def)
  have first: "first_of g = ?live" "g = (case ?live of None \<Rightarrow> Inl (ErrNotFound sc (saName a)) | Some se \<Rightarrow> Inr se)"
    using get_refines [OF assms(3)] ref by (simp_all add: g_def abs_get_def first_of_def split: option.split)
  have b: "before_call en w1 = wState w" using assms(2) by (simp add: w1_def)
  obtain e1 opts where sp: "save_put sc a (save_base ?live ?sh) ?live = (e1, opts)" by fastforce
  have e1: "e1 = ?e" "Check (ResolvePutOptions opts) sc (saName a) ?live = None"
    using sp m first(2) unfolding g_def [symmetric]
    by (auto simp: save_put_def Check_hashes resolve_save split: option.splits if_splits)
  then obtain c w' where p: "callPut S en ctx ?e opts w1 = (Inr c, w')" "cEntry c = stored_form (enClock en (wCalls w1)) ?e" "inv (wState w')"
      "aLive (view (wState w')) sc (saName a) = Some (cEntry c)"
    using callPut_succeeds [of en w1 ?e opts ctx] assms(3) ok e by (auto simp: b max_view)
  have "save_loop (patchAttempts - 1) S en ctx sc a (save_base ?live ?sh) ?live w1 = (Inr (c, ?e, ?live), w')"
    by (subst save_loop.simps) (simp add: sp e1 p)
  then have "\<exists>res. save isPrint t en ctx a w = (Inr res, w')"
    using g1 first assms(1,4,5) by (auto simp: save_def is_not_found_def w1_def first_of_def split: option.splits)
  moreover have "sGet S sc (saName a) (wState w') = Inr (cEntry c)" using get_refines [OF p(3)] p(4) ref by (simp add: abs_get_def)
  ultimately show ?thesis using p(2) by (auto simp: w1_def)
qed

end

text \<open>Two states with the same live entries and the same journal.\<close>

definition same_store :: "MemStore \<Rightarrow> MemStore \<Rightarrow> bool" where
  "same_store m m' \<longleftrightarrow> mJournal m' = mJournal m \<and> (\<forall>sc n. map_of (live_scope m' sc) n = map_of (live_scope m sc) n)"

section \<open>Properties\<close>

text \<open>C24: whatever other sessions write between its calls, a \<^verbatim>\<open>memory_insert\<close> that succeeds created an
  entry under a name that held none, in a scope inserts were allowed in, with the content given, and
  appended one record built on nothing that replaced nothing.\<close>

theorem insert_never_overwrites:
  assumes "tsStore t = memStore u" "keeps_inv mem_inv en" "mem_inv (wState w)"
    "insertEntry isPrint timeNow t en ctx a w = (Inr res, w')"
  shows "\<exists>sc at k c s. sc \<in> set (toInsert (tsOpts t)) \<and> 1 \<le> k \<and> k \<le> 100 \<and> rDetails res = Some \<lparr>wrTool = InsertTool, wrChange = c\<rparr> \<and>
    mem_inv s \<and> map_of (live_scope s sc) (InsertName at (iaContent a) k) = None \<and> cPrev c = [] \<and> cReplaced c = [] \<and>
    eName (cEntry c) = InsertName at (iaContent a) k \<and> eContent (cEntry c) = iaContent a \<and>
    map_of (live_scope (wState w') sc) (InsertName at (iaContent a) k) = Some (cEntry c) \<and> mJournal (wState w') = mJournal s @ [c]"
proof -
  from mem.insert_ok [OF assms] obtain sc at k c s where 1: "sc \<in> set (toInsert (tsOpts t))" "1 \<le> k" "k \<le> 100"
    "rDetails res = Some \<lparr>wrTool = InsertTool, wrChange = c\<rparr>" "mem_inv s"
    "inserted sc a (InsertName at (iaContent a) k) (mem_view s) (mem_view (wState w')) c" by blast
  from 1(6) have 2: "map_of (live_scope (wState w') sc) (InsertName at (iaContent a) k) = Some (cEntry c)"
      "mJournal (wState w') = mJournal s @ [c]"
    using inserted_after [OF 1(6)] by simp_all
  show ?thesis
    by (rule exI [of _ sc], rule exI [of _ at], rule exI [of _ k], rule exI [of _ c], rule exI [of _ s])
       (use 1 2 in \<open>simp add: inserted_def\<close>)
qed

theorem insert_never_overwrites_witness:
  "\<exists>res w' c. insertEntry (\<lambda>r. True) (\<lambda>k. 0) sample_tools sample_env sample_ctx sample_insert (sample_world sample_new) = (Inr res, w') \<and>
     rDetails res = Some \<lparr>wrTool = InsertTool, wrChange = c\<rparr> \<and> cReplaced c = []"
proof -
  obtain res w' where p: "insertEntry (\<lambda>r. True) (\<lambda>k. 0) sample_tools sample_env sample_ctx sample_insert (sample_world sample_new) = (Inr res, w')"
    using sample_insert_done by blast
  have "mem_inv (wState (sample_world sample_new))" by (simp add: sample_new_inv)
  from insert_never_overwrites [OF sample_tools_simps(1) sample_quiet(2) this p] p show ?thesis by auto
qed

text \<open>C25: whatever other sessions write between its calls, the record of a \<^verbatim>\<open>memory_save\<close> that succeeds
  names as its base the hash the block showed for the entry, or the hash of the entry the call read first
  when the block did not show it, and as what it replaced the entry that was there when it wrote; the
  name is one a fixed scope allows, the content is the one given, and so is the metadata when it is given.\<close>

theorem save_names_its_base:
  assumes "tsStore t = memStore u" "keeps_inv mem_inv en" "mem_inv (wState w)" "save isPrint t en ctx a w = (Inr res, w')"
  shows "\<exists>sc c s. sc \<in> set (tsScopes t) \<and> fixedSave t sc (saName a) = None \<and> rDetails res = Some \<lparr>wrTool = SaveTool, wrChange = c\<rparr> \<and>
    mem_inv s \<and> mem_inv (wState w') \<and>
    cPrev c = (case shown t (Suc (wCalls w)) ctx sc (saName a) of Some h \<Rightarrow> h
      | None \<Rightarrow> (case MemGet sc (saName a) (before_call en w) of Inr e \<Rightarrow> eHash e | Inl _ \<Rightarrow> [])) \<and>
    cReplaced c = hash_of (map_of (live_scope s sc) (saName a)) \<and> eContent (cEntry c) = saContent a \<and>
    (\<forall>m. saMeta a = Some m \<longrightarrow> mitems (eMeta (cEntry c)) = m) \<and>
    map_of (live_scope (wState w') sc) (saName a) = Some (cEntry c) \<and> mJournal (wState w') = mJournal s @ [c]"
proof -
  from mem.save_ok [OF assms] obtain sc c s first where 1: "sc \<in> set (tsScopes t)" "fixedSave t sc (saName a) = None"
    "rDetails res = Some \<lparr>wrTool = SaveTool, wrChange = c\<rparr>" "mem_inv s" "mem_inv (wState w')"
    "first = first_of (sGet (memStore u) sc (saName a) (before_call en w))"
    "saved sc a (base_hash first (shown t (Suc (wCalls w)) ctx sc (saName a))) (mem_view s) (mem_view (wState w')) c"
    "\<forall>m. saMeta a = Some m \<longrightarrow> mitems (eMeta (cEntry c)) = m"
    by (elim exE conjE) (rule that)
  from 1(7) have 2: "map_of (live_scope (wState w') sc) (saName a) = Some (cEntry c)" "mJournal (wState w') = mJournal s @ [c]"
    using saved_after [OF 1(7)] by simp_all
  have 3: "base_hash first sh = (case sh of Some h \<Rightarrow> h
      | None \<Rightarrow> (case MemGet sc (saName a) (before_call en w) of Inr e \<Rightarrow> eHash e | Inl _ \<Rightarrow> []))" for sh
    by (simp add: 1(6) base_hash_def first_of_def hash_of_def split: option.split sum.split)
  show ?thesis
    by (rule exI [of _ sc], rule exI [of _ c], rule exI [of _ s]) (use 1(1-5,7,8) 2 in \<open>simp add: saved_def 3\<close>)
qed

theorem save_names_its_base_witness:
  "\<exists>res w' c. save (\<lambda>r. True) sample_tools sample_env sample_ctx sample_save (sample_world sample_new) = (Inr res, w') \<and>
     rDetails res = Some \<lparr>wrTool = SaveTool, wrChange = c\<rparr> \<and> eContent (cEntry c) = ''oolong''"
proof -
  obtain res w' where p: "save (\<lambda>r. True) sample_tools sample_env sample_ctx sample_save (sample_world sample_new) = (Inr res, w')"
    using sample_save_done by blast
  have "mem_inv (wState (sample_world sample_new))" by (simp add: sample_new_inv)
  from save_names_its_base [OF sample_tools_simps(1) sample_quiet(2) this p] p show ?thesis by (auto simp: sample_save_def)
qed

text \<open>Without interference, a \<^verbatim>\<open>memory_save\<close> whose entry passes the entry check succeeds, created or
  replaced: the entry then reads with the content given, and with the metadata given or, when the call
  leaves it out, the metadata it had.\<close>

theorem save_applies:
  assumes "tsStore t = memStore u" "quiet en" "mem_inv (wState w)" "resolveScope isPrint t (saScope a) = Inr sc"
    "fixedSave t sc (saName a) = None"
    "meta = (if saMeta a \<noteq> None then saMeta a else case MemGet sc (saName a) (wState w) of Inr e \<Rightarrow> eMeta e | Inl _ \<Rightarrow> None)"
    "entry_ok (newEntry sc (saName a) (saContent a) meta) (mMax (wState w))"
  shows "\<exists>res w'. save isPrint t en ctx a w = (Inr res, w') \<and>
    MemGet sc (saName a) (wState w') = Inr (stored_form (enClock en (Suc (wCalls w))) (newEntry sc (saName a) (saContent a) meta))"
  using mem.save_succeeds [OF assms(1-5), of meta ctx, unfolded memStore_simps MemMaxEntryBytes_def, OF assms(6,7)] .

theorem save_applies_witness:
  "\<exists>res w'. save (\<lambda>r. True) sample_tools sample_env sample_ctx sample_save (sample_world sample_store) = (Inr res, w') \<and>
     MemGet ''user'' ''tea'' (wState w') = Inr (stored_form 9 (newEntry ''user'' ''tea'' ''oolong'' (eMeta sample_entry)))"
proof -
  have m: "eMeta (stored_form 7 sample_entry) = eMeta sample_entry"
    by (simp add: stored_form_def cloneEntry_def sample_entry_def mlen_def)
  have "entry_ok (newEntry ''user'' ''tea'' ''oolong'' (eMeta sample_entry)) 4096" by code_simp
  with save_applies [of sample_tools "\<lambda>r. r" sample_env "sample_world sample_store" "\<lambda>r. True" sample_save "''user''"
      "eMeta sample_entry" sample_ctx] sample_quiet(1) sample_store_facts sample_scopes(1) show ?thesis
    by (simp add: sample_save_def fixedSave_def sample_env_def m)
qed

lemma call_stays:
  assumes "tsStore t = memStore u" "quiet en" "mem_inv (wState w)" "set (toInsert (tsOpts t)) \<subseteq> set (tsScopes t)"
    "execute isPrint timeNow t en ctx call w = (r, w')"
  shows "((\<exists>sc \<in> set (tsScopes t). \<forall>sc' n. sc' \<noteq> sc \<longrightarrow> map_of (live_scope (wState w') sc') n = map_of (live_scope (wState w) sc') n) \<or>
      same_store (wState w) (wState w')) \<and> (isl r \<longrightarrow> same_store (wState w) (wState w'))"
proof -
  have same: "same_store m m'" if "mem_view m' = mem_view m" for m m'
    using arg_cong [OF that, of aJournal] arg_cong [OF that, of aLive] by (simp add: fun_eq_iff same_store_def)
  from mem.execute_effect [OF assms(1,2,3,5,4)] consider
      (moved) sc where "sc \<in> set (tsScopes t)" "effect sc (mem_view (wState w)) r (mem_view (wState w'))"
    | (unmoved) "mem_view (wState w') = mem_view (wState w)" by blast
  then show ?thesis
  proof cases
    case moved
    have "isl r \<longrightarrow> mem_view (wState w') = mem_view (wState w)" using moved(2) by (cases r) simp_all
    then show ?thesis using same moved(1) effect_only [OF moved(2)] unfolding only_scope_def mem_view_simps by blast
  next
    case unmoved
    then show ?thesis using same by blast
  qed
qed

text \<open>A call that no other session interferes with moves the entries of at most one scope, one the tools may
  write, and a call that fails moves nothing.\<close>

theorem calls_stay_in_scope:
  assumes "tsStore t = memStore u" "quiet en" "mem_inv (wState w)" "set (toInsert (tsOpts t)) \<subseteq> set (tsScopes t)"
    "execute isPrint timeNow t en ctx call w = (r, w')"
  shows "((\<exists>sc \<in> set (tsScopes t). \<forall>sc' n. sc' \<noteq> sc \<longrightarrow> map_of (live_scope (wState w') sc') n = map_of (live_scope (wState w) sc') n) \<or>
      same_store (wState w) (wState w')) \<and> (isl r \<longrightarrow> same_store (wState w) (wState w'))"
  using call_stays [OF assms] .

theorem calls_stay_in_scope_witness:
  "\<exists>r w'. execute (\<lambda>r. True) (\<lambda>k. 0) sample_tools sample_env sample_ctx (CallForget \<lparr>faScope = ''rules'', faName = ''tea''\<rparr>) (sample_world sample_store) = (Inl r, w') \<and>
     mJournal (wState w') = mJournal sample_store"
proof -
  obtain r w' where x: "execute (\<lambda>r. True) (\<lambda>k. 0) sample_tools sample_env sample_ctx (CallForget \<lparr>faScope = ''rules'', faName = ''tea''\<rparr>) (sample_world sample_store) = (Inl r, w')"
    by (simp add: execute_def forget_def resolveScope_def)
  have i: "mem_inv (wState (sample_world sample_store))" "set (toInsert (tsOpts sample_tools)) \<subseteq> set (tsScopes sample_tools)"
    by (simp_all add: sample_store_facts)
  from calls_stay_in_scope [OF sample_tools_simps(1) sample_quiet(1) i x] x show ?thesis by (simp add: same_store_def)
qed

text \<open>C26: however other sessions interfere, one tool call ends after at most eight store calls, an insert after at
  most a hundred.\<close>

theorem calls_are_bounded:
  assumes "execute isPrint timeNow t en ctx call w = (r, w')"
  shows "wCalls w' \<le> wCalls w + (case call of CallInsert _ \<Rightarrow> 100 | _ \<Rightarrow> 8)"
  using execute_calls [OF assms] .

theorem calls_are_bounded_witness:
  "\<exists>r w'. execute (\<lambda>r. True) (\<lambda>k. 0) sample_tools sample_env sample_ctx (CallSave sample_save) (sample_world sample_new) = (r, w') \<and> wCalls w' \<le> 8"
proof -
  obtain r w' where x: "execute (\<lambda>r. True) (\<lambda>k. 0) sample_tools sample_env sample_ctx (CallSave sample_save) (sample_world sample_new) = (r, w')" by fastforce
  from calls_are_bounded [OF x] x show ?thesis by simp
qed

text \<open>For a time from year 1 to year 9999 each name \<^verbatim>\<open>memory_insert\<close> tries is a valid name, and the names
  it tries are all different.\<close>

theorem insert_names:
  assumes "0 \<le> at" "at < 3652059 * 86400 * 10 ^ 9"
  shows "list_all ValidName (map (InsertName at content) [1..<Suc insertAttempts]) \<and>
    distinct (map (InsertName at content) [1..<Suc insertAttempts])"
proof -
  have "ValidName (InsertName at content n)" if "n \<in> set [1..<Suc insertAttempts]" for n
    using that by (intro InsertName_valid assms) (simp add: insertAttempts_def)
  moreover have "inj_on (InsertName at content) (set [1..<Suc insertAttempts])"
    by (rule inj_onI) (auto dest: InsertName_inj [rotated 2])
  ultimately show ?thesis by (simp add: list_all_iff distinct_map)
qed

theorem insert_names_witness: "list_all ValidName (map (InsertName 0 ''likes tea'') [1..<Suc insertAttempts])"
  using insert_names [of 0 "''likes tea''"] by simp

text \<open>A search result holds every entry found, in the order found: in full while its content is within the
  result's limit of bytes, and by scope, name and size otherwise.\<close>

theorem search_result_bounded:
  assumes "found \<noteq> []" "0 \<le> bytes"
  shows "\<exists>ins head tail. length ins = length found \<and> sum_list (map (\<lambda>e. int (Size e)) (shown_of found ins)) \<le> bytes \<and>
    search_text isPrint bytes scopes query found = head @ concat (map found_text (shown_of found ins)) @ tail \<and>
    (dropped_of found ins = [] \<longrightarrow> tail = []) \<and>
    (dropped_of found ins \<noteq> [] \<longrightarrow> (\<exists>intro. tail = intro @ Join (map found_line (dropped_of found ins)) '', '' @ [LF]))"
proof -
  let ?head = "Itoa (int (length found)) @ '' '' @ plural (length found) ''match'' ''matches'' @ '' in '' @ Join scopes '', '' @
              '' for '' @ Quote isPrint query @ ''.'' @ [LF]"
  obtain b n us where s: "search_show bytes found (?head, 0, []) = (b, n, us)" by (cases "search_show bytes found (?head, 0, [])")
  from search_show_spec [OF s assms(2)] obtain ins where ins: "length ins = length found"
    "b = ?head @ concat (map found_text (shown_of found ins))" "us = map found_line (dropped_of found ins)"
    "shown_bytes (shown_of found ins) \<le> bytes" by auto
  define tail where "tail = (if us \<noteq> [] then LF # ''Not shown, over the '' @ Itoa bytes @ '' byte result limit; search for them by name: '' @
                  Join us '', '' @ [LF] else [])"
  have body: "search_text isPrint bytes scopes query found = ?head @ concat (map found_text (shown_of found ins)) @ tail"
    using assms(1) s ins(2) by (simp add: search_text_def Let_def tail_def)
  have tl: "dropped_of found ins = [] \<longrightarrow> tail = []" by (simp add: tail_def ins(3))
  have "tail = (LF # ''Not shown, over the '' @ Itoa bytes @ '' byte result limit; search for them by name: '') @
      Join (map found_line (dropped_of found ins)) '', '' @ [LF]" if "dropped_of found ins \<noteq> []"
    using that by (simp add: tail_def ins(3))
  with ins(1,4) body tl show ?thesis
    by (intro exI [of _ ins] exI [of _ ?head] exI [of _ tail]) (auto simp only: shown_bytes_def)
qed

theorem search_result_bounded_witness:
  "\<exists>ins head tail. length ins = 1 \<and> sum_list (map (\<lambda>e. int (Size e)) (shown_of [sample_entry] ins)) \<le> 3 \<and>
    search_text (\<lambda>r. True) 3 [''user''] ''tea'' [sample_entry] = head @ concat (map found_text (shown_of [sample_entry] ins)) @ tail"
  using search_result_bounded [of "[sample_entry]" 3 "\<lambda>r. True" "[''user'']" "''tea''"] by auto

end
