(* ===== verification/SaveRace.thy ===== *)
theory SaveRace
  imports ToolSafety
begin

text \<open>
  A \<^verbatim>\<open>memory_save\<close> that leaves the metadata out and whose retry finds the entry gone: the retry writes with
  the options of the first read, which hold no condition on the metadata, so an entry another session creates
  in between loses the metadata it was created with.
\<close>

lemma mem_put_ok:
  assumes "mem_inv m" "entry_ok e (mMax m)"
    "Check (ResolvePutOptions opts) (eScope e) (eName e) (map_of (live_scope m (eScope e)) (eName e)) = None"
  shows "\<exists>c m'. MemPut session now e opts m = (Inr c, m') \<and> mem_inv m' \<and> mMax m' = mMax m \<and> cEntry c = stored_form now e \<and>
    map_of (live_scope m' (eScope e)) (eName e) = Some (stored_form now e)"
proof -
  obtain r m' where p: "MemPut session now e opts m = (r, m')" by fastforce
  from MemPut_refines [OF assms(1) p] have "abs_put session now e opts (mem_view m) = (r, mem_view m')" by simp
  then show ?thesis
  proof (cases rule: abs_put_cases)
    case (err er)
    then show ?thesis using assms(2,3) by (simp add: CheckEntry_None [THEN iffD2])
  next
    case (ok c)
    have "mMax m' = mMax m" using arg_cong [OF ok(4), of aMax] by simp
    moreover have "map_of (live_scope m' (eScope e)) (eName e) = Some (stored_form now e)"
      using arg_cong [OF ok(4), of "\<lambda>a. aLive a (eScope e) (eName e)"] by simp
    ultimately show ?thesis using p ok(1,6) MemPut_inv [OF assms(1) p] by blast
  qed
qed

lemma mem_forget_ok:
  assumes "mem_inv m" "CheckRef sc n = None" "map_of (live_scope m sc) n = Some e"
  shows "\<exists>c m'. MemForget session now sc n m = (Inr c, m') \<and> mem_inv m' \<and> mMax m' = mMax m \<and> map_of (live_scope m' sc) n = None"
proof -
  obtain r m' where p: "MemForget session now sc n m = (r, m')" by fastforce
  from mem.forget_refines [OF assms(1), of u session now sc n r m'] p have i: "mem_inv m'"
    and a: "abs_forget session now sc n (mem_view m) = (r, mem_view m')" by simp_all
  from a show ?thesis
  proof (cases rule: abs_forget_cases)
    case (err er)
    then show ?thesis using assms(2,3) by simp
  next
    case (ok c e')
    have "mMax m' = mMax m" using arg_cong [OF ok(4), of aMax] by simp
    moreover have "map_of (live_scope m' sc) n = None" using arg_cong [OF ok(4), of "\<lambda>a. aLive a sc n"] by simp
    ultimately show ?thesis using p ok(1) i by blast
  qed
qed

text \<open>The other sessions: before the first write one clears the metadata, before the second read one forgets the
  entry, before the second write one creates it again with metadata.\<close>

definition race_env :: "MemStore environ" where
  "race_env = \<lparr>enOthers = (\<lambda>k m.
      if k = 1 then snd (MemPut ''s3'' 8 (sample_entry\<lparr>eMeta := None\<rparr>) [] m)
      else if k = 2 then snd (MemForget ''s3'' 8 ''user'' ''tea'' m)
      else if k = 3 then snd (MemPut ''s3'' 8 sample_entry [] m) else m),
     enClock = (\<lambda>k. 9)\<rparr>"

lemma race_states:
  "\<exists>m1 m2 m3 c m4. enOthers race_env 1 sample_store = m1 \<and> mMax m1 = 4096 \<and>
     map_of (live_scope m1 ''user'') ''tea'' = Some (stored_form 8 (sample_entry\<lparr>eMeta := None\<rparr>)) \<and>
     enOthers race_env 2 m1 = m2 \<and> map_of (live_scope m2 ''user'') ''tea'' = None \<and>
     enOthers race_env 3 m2 = m3 \<and> map_of (live_scope m3 ''user'') ''tea'' = Some (stored_form 8 sample_entry) \<and>
     MemPut ''s2'' 9 (newEntry ''user'' ''tea'' ''oolong'' None) [BasedOn (Hash ''green'')] m3 = (Inr c, m4) \<and>
     cEntry c = stored_form 9 (newEntry ''user'' ''tea'' ''oolong'' None)"
proof -
  have free: "Check (ResolvePutOptions []) sc n st = None" "Check (ResolvePutOptions [BasedOn h]) sc n st = None" for sc n st h
    by (simp_all add: Check_def ResolvePutOptions_def zeroPutOptions_def BasedOn_def Let_def)
  have ok: "entry_ok (sample_entry\<lparr>eMeta := None\<rparr>) 4096" "entry_ok (newEntry ''user'' ''tea'' ''oolong'' None) 4096"
    "CheckRef ''user'' ''tea'' = None" by code_simp+
  obtain c1 m1 where 1: "MemPut ''s3'' 8 (sample_entry\<lparr>eMeta := None\<rparr>) [] sample_store = (Inr c1, m1)" "mem_inv m1" "mMax m1 = 4096"
    "map_of (live_scope m1 ''user'') ''tea'' = Some (stored_form 8 (sample_entry\<lparr>eMeta := None\<rparr>))"
    using mem_put_ok [OF sample_store_facts(1), of "sample_entry\<lparr>eMeta := None\<rparr>" "[]" "''s3''" 8] ok(1) free(1) sample_store_facts(3)
    by auto
  obtain c2 m2 where 2: "MemForget ''s3'' 8 ''user'' ''tea'' m1 = (Inr c2, m2)" "mem_inv m2" "mMax m2 = 4096"
    "map_of (live_scope m2 ''user'') ''tea'' = None"
    using mem_forget_ok [OF 1(2) ok(3) 1(4), of "''s3''" 8] 1(3) by auto
  obtain c3 m3 where 3: "MemPut ''s3'' 8 sample_entry [] m2 = (Inr c3, m3)" "mem_inv m3" "mMax m3 = 4096"
    "map_of (live_scope m3 ''user'') ''tea'' = Some (stored_form 8 sample_entry)"
    using mem_put_ok [OF 2(2), of sample_entry "[]" "''s3''" 8] sample_entry_ok free(1) 2(3) by auto
  obtain c m4 where 4: "MemPut ''s2'' 9 (newEntry ''user'' ''tea'' ''oolong'' None) [BasedOn (Hash ''green'')] m3 = (Inr c, m4)"
    "cEntry c = stored_form 9 (newEntry ''user'' ''tea'' ''oolong'' None)"
    using mem_put_ok [OF 3(2), of "newEntry ''user'' ''tea'' ''oolong'' None" "[BasedOn (Hash ''green'')]" "''s2''" 9] ok(2) free(2) 3(3)
    by (auto simp: newEntry_def)
  show ?thesis using 1 2 3 4 by (simp add: race_env_def)
qed

lemma sample_stored:
  "eHash (stored_form 7 sample_entry) = Hash ''green''" "eMeta (stored_form 7 sample_entry) = eMeta sample_entry"
  by (simp_all add: sample_entry_def stored_form_def cloneEntry_def mlen_def)

lemma sample_save_base: "save_base (Some (stored_form 7 sample_entry)) None = [BasedOn (Hash ''green'')]"
  using sample_stored by (simp add: save_base_def)

lemma race_refused:
  assumes "enOthers race_env 1 sample_store = m1" "mMax m1 = 4096"
    "map_of (live_scope m1 ''user'') ''tea'' = Some (stored_form 8 (sample_entry\<lparr>eMeta := None\<rparr>))"
  shows "\<exists>ce. kMeta ce \<and> callPut (memStore u) race_env sample_ctx (newEntry ''user'' ''tea'' ''oolong'' (eMeta sample_entry))
      [BasedOn (Hash ''green''), IfMetaHash (MetaHash (eMeta sample_entry))] \<lparr>wState = sample_store, wCalls = 1\<rparr> =
    (Inl (ErrConflict ce), \<lparr>wState = m1, wCalls = 2\<rparr>)"
proof -
  have "entry_ok (newEntry ''user'' ''tea'' ''oolong'' (eMeta sample_entry)) 4096" by code_simp
  then have chk: "CheckEntry (newEntry ''user'' ''tea'' ''oolong'' (eMeta sample_entry)) 4096 st = None" for st
    by (simp add: CheckEntry_None)
  have mh: "MetaHash (eMeta sample_entry) \<noteq> []" "MetaHash None = []" "MetaHash (eMeta (stored_form 8 (sample_entry\<lparr>eMeta := None\<rparr>))) = []"
    by (simp_all add: MetaHash_def sample_entry_def mlen_def stored_form_def cloneEntry_def)
  have "Check (ResolvePutOptions (save_base (Some (stored_form 7 sample_entry)) None @ [IfMetaHash (MetaHash (eMeta sample_entry))])) ''user'' ''tea''
      (Some (stored_form 8 (sample_entry\<lparr>eMeta := None\<rparr>))) =
    Some (ErrConflict \<lparr>kScope = ''user'', kName = ''tea'', kWant = MetaHash (eMeta sample_entry), kHave = [], kMeta = True\<rparr>)"
    unfolding resolve_save Check_def using mh by (simp add: Let_def)
  then show ?thesis
    using assms chk by (simp add: callPut_def before_call_def MemPut_def Let_def newEntry_def sample_save_base)
qed

text \<open>C27: the retry of a save that left the metadata out can delete metadata: with another session clearing the
  entry's metadata, then forgetting the entry, then creating it again with a description, each between two
  calls of the save, the save succeeds over the entry with the description and leaves it with none.\<close>

theorem save_retry_drops_metadata:
  "\<exists>res w' c live. save (\<lambda>r. True) sample_tools race_env sample_ctx sample_save (sample_world sample_store) = (Inr res, w') \<and>
     saMeta sample_save = None \<and> rDetails res = Some \<lparr>wrTool = SaveTool, wrChange = c\<rparr> \<and>
     map_of (live_scope (enOthers race_env 3 (enOthers race_env 2 (enOthers race_env 1 sample_store))) ''user'') ''tea'' = Some live \<and>
     Description live = ''what to drink'' \<and> eMeta (cEntry c) = None"
proof -
  obtain m1 m2 m3 c m4 where m: "enOthers race_env 1 sample_store = m1" "mMax m1 = 4096"
     "map_of (live_scope m1 ''user'') ''tea'' = Some (stored_form 8 (sample_entry\<lparr>eMeta := None\<rparr>))"
     "enOthers race_env 2 m1 = m2" "map_of (live_scope m2 ''user'') ''tea'' = None"
     "enOthers race_env 3 m2 = m3" "map_of (live_scope m3 ''user'') ''tea'' = Some (stored_form 8 sample_entry)"
     "MemPut ''s2'' 9 (newEntry ''user'' ''tea'' ''oolong'' None) [BasedOn (Hash ''green'')] m3 = (Inr c, m4)"
     "cEntry c = stored_form 9 (newEntry ''user'' ''tea'' ''oolong'' None)"
    using race_states by (elim exE conjE) (rule that)
  let ?S = "memStore (\<lambda>r. r)"
  let ?old = "stored_form 7 sample_entry"
  have c0: "enOthers race_env 0 m = m" for m by (simp add: race_env_def)
  have ref: "CheckRef ''user'' ''tea'' = None" by code_simp
  have g0: "callGet ?S race_env ''user'' ''tea'' (sample_world sample_store) = (Inr ?old, \<lparr>wState = sample_store, wCalls = 1\<rparr>)"
    using sample_store_facts(2) by (simp add: callGet_def Let_def before_call_def c0)
  note p1 = race_refused [OF m(1-3), of "\<lambda>r. r"]
  have g2: "callGet ?S race_env ''user'' ''tea'' \<lparr>wState = m1, wCalls = 2\<rparr> = (Inl (ErrNotFound ''user'' ''tea''), \<lparr>wState = m2, wCalls = 3\<rparr>)"
    using m(4,5) ref by (simp add: callGet_def Let_def before_call_def MemGet_def)
  have p3: "callPut ?S race_env sample_ctx (newEntry ''user'' ''tea'' ''oolong'' None) [BasedOn (Hash ''green'')] \<lparr>wState = m2, wCalls = 3\<rparr> =
    (Inr c, \<lparr>wState = m4, wCalls = 4\<rparr>)"
    using m(6,8) by (simp add: callPut_def before_call_def sample_ctx_def SessionFrom_def race_env_def)
  note old = sample_stored and base = sample_save_base
  have l2: "save_loop (Suc (Suc 0)) ?S race_env sample_ctx ''user'' sample_save [BasedOn (Hash ''green'')] None \<lparr>wState = m2, wCalls = 3\<rparr> =
    (Inr (c, newEntry ''user'' ''tea'' ''oolong'' None, None), \<lparr>wState = m4, wCalls = 4\<rparr>)"
    by (subst save_loop.simps) (simp add: save_put_def sample_save_def p3)
  have l: "save_loop (Suc (Suc (Suc 0))) ?S race_env sample_ctx ''user'' sample_save [BasedOn (Hash ''green'')] (Some ?old) \<lparr>wState = sample_store, wCalls = 1\<rparr> =
    (Inr (c, newEntry ''user'' ''tea'' ''oolong'' None, None), \<lparr>wState = m4, wCalls = 4\<rparr>)"
    using p1 g2 l2
    by (subst save_loop.simps) (auto simp: save_put_def sample_save_def old is_meta_conflict_def is_not_found_def)
  have sh: "shown sample_tools k sample_ctx sc n = None" for k sc n
    by (simp add: shown_def rendered_def sample_ctx_def)
  have "\<exists>res. save (\<lambda>r. True) sample_tools race_env sample_ctx sample_save (sample_world sample_store) = (Inr res, \<lparr>wState = m4, wCalls = 4\<rparr>) \<and>
      rDetails res = Some \<lparr>wrTool = SaveTool, wrChange = c\<rparr>"
    using sample_scopes(1) g0 l
    by (simp add: save_def fixedSave_def sample_save_def sh base patchAttempts_def wrote_def numeral_eq_Suc)
  moreover have "Description (stored_form 8 sample_entry) = ''what to drink''" "eMeta (cEntry c) = None"
    by (simp_all add: m(9) Description_def MetaDescription_def stored_form_def cloneEntry_def sample_entry_def mlen_def newEntry_def mlookup_def mitems_def)
  ultimately show ?thesis using m(1,4,6,7) by (auto simp: sample_save_def)
qed

end
