(* ===== verification/Utf8Codec.thy ===== *)
theory Utf8Codec
  imports Utf8
begin

text \<open>
  Decoding and encoding of UTF-8 are inverse: a rune decoded without error from the front of a string
  encodes to the bytes it was decoded from, and those bytes decode alike whatever follows them.
\<close>

section \<open>Runes of valid strings\<close>

lemma byte_bounds: "0 \<le> byte c" "byte c < 256"
  by (simp_all add: of_char_def)

lemma mod64: "128 \<le> (b :: int) \<Longrightarrow> b \<le> 191 \<Longrightarrow> b mod 64 = b - 128"
  by presburger

lemma cont_mod: "cont lo hi c \<Longrightarrow> 128 \<le> lo \<Longrightarrow> hi \<le> 191 \<Longrightarrow> byte c mod 64 = byte c - 128"
  by (rule mod64) (simp_all add: cont_def)

lemma split64: "0 \<le> (x :: int) \<Longrightarrow> x < 64 \<Longrightarrow> (q * 64 + x) div 64 = q \<and> (q * 64 + x) mod 64 = x"
  by simp

lemma lead_mods:
  "192 \<le> (b :: int) \<Longrightarrow> b \<le> 223 \<Longrightarrow> b mod 32 = b - 192"
  "224 \<le> b \<Longrightarrow> b \<le> 239 \<Longrightarrow> b mod 16 = b - 224"
  "240 \<le> b \<Longrightarrow> b \<le> 247 \<Longrightarrow> b mod 8 = b - 240"
  by presburger+

lemma encode_two:
  assumes "192 \<le> (b0 :: int)" "0 \<le> x" "x < 64" "r = (b0 - 192) * 64 + x" "128 \<le> r" "r < 2048"
  shows "EncodeRune r = [char_of b0, char_of (128 + x)]"
proof -
  have "r div 64 = b0 - 192" "r mod 64 = x" using split64 [OF assms(2,3), of "b0 - 192"] by (simp_all only: assms(4))
  then show ?thesis using assms(5,6) by (simp add: EncodeRune_def Let_def)
qed

lemma encode_three:
  assumes "0 \<le> (x :: int)" "x < 64" "0 \<le> y" "y < 64" "r = ((b0 - 224) * 64 + x) * 64 + y" "2048 \<le> r" "r < 65536"
    "\<not> (0xD800 \<le> r \<and> r \<le> 0xDFFF)"
  shows "EncodeRune r = [char_of b0, char_of (128 + x), char_of (128 + y)]"
proof -
  have r: "r div 64 = (b0 - 224) * 64 + x" "r mod 64 = y"
    using split64 [OF assms(3,4), of "(b0 - 224) * 64 + x"] by (simp_all only: assms(5))
  have "r div 4096 = r div 64 div 64" using zdiv_zmult2_eq [of 64 r 64] by simp
  then have q: "r div 4096 = b0 - 224" "r div 64 mod 64 = x" "r mod 64 = y"
    using split64 [OF assms(1,2), of "b0 - 224"] by (simp_all only: r)
  have b: "(r < 0 \<or> 0x10FFFF < r \<or> 0xD800 \<le> r \<and> r \<le> 0xDFFF) = False" "(r < 0x80) = False" "(r < 0x800) = False" "(r < 0x10000) = True"
    using assms(6-8) by simp_all
  have c: "0xE0 + (b0 - 224) = b0" by simp
  show ?thesis unfolding EncodeRune_def Let_def b if_False if_True q c by simp
qed

lemma encode_four:
  assumes "0 \<le> (x :: int)" "x < 64" "0 \<le> y" "y < 64" "0 \<le> z" "z < 64" "r = (((b0 - 240) * 64 + x) * 64 + y) * 64 + z"
    "65536 \<le> r" "r \<le> 0x10FFFF"
  shows "EncodeRune r = [char_of b0, char_of (128 + x), char_of (128 + y), char_of (128 + z)]"
proof -
  have r: "r div 64 = ((b0 - 240) * 64 + x) * 64 + y" "r mod 64 = z"
    using split64 [OF assms(5,6), of "((b0 - 240) * 64 + x) * 64 + y"] by (simp_all only: assms(7))
  have "r div 4096 = r div 64 div 64" "r div 262144 = r div 64 div 64 div 64"
    using zdiv_zmult2_eq [of 64 r 64] zdiv_zmult2_eq [of 64 r 4096] zdiv_zmult2_eq [of 64 "r div 64" 64] by simp_all
  then have q: "r div 262144 = b0 - 240" "r div 4096 mod 64 = x" "r div 64 mod 64 = y" "r mod 64 = z"
    using split64 [OF assms(1,2), of "b0 - 240"] split64 [OF assms(3,4), of "(b0 - 240) * 64 + x"] by (simp_all only: r)
  have b: "(r < 0 \<or> 0x10FFFF < r \<or> 0xD800 \<le> r \<and> r \<le> 0xDFFF) = False" "(r < 0x80) = False" "(r < 0x800) = False" "(r < 0x10000) = False"
    using assms(8,9) by simp_all
  have c: "0xF0 + (b0 - 240) = b0" by simp
  show ?thesis unfolding EncodeRune_def Let_def b if_False if_True q c by simp
qed

lemma DecodeRune_cases:
  assumes "DecodeRune s = (r, n)" "s \<noteq> []" "\<not> (r = RuneError \<and> n = 1)"
  obtains (one) c0 t where "s = c0 # t" "byte c0 < 0x80" "r = byte c0" "n = 1"
  | (two) c0 c1 t where "s = c0 # c1 # t" "0xC2 \<le> byte c0" "byte c0 \<le> 0xDF" "cont 0x80 0xBF c1"
      "r = byte c0 mod 32 * 64 + byte c1 mod 64" "n = 2"
  | (three) c0 c1 c2 t where "s = c0 # c1 # c2 # t" "0xE0 \<le> byte c0" "byte c0 \<le> 0xEF"
      "cont (if byte c0 = 0xE0 then 0xA0 else 0x80) (if byte c0 = 0xED then 0x9F else 0xBF) c1" "cont 0x80 0xBF c2"
      "r = (byte c0 mod 16 * 64 + byte c1 mod 64) * 64 + byte c2 mod 64" "n = 3"
  | (four) c0 c1 c2 c3 t where "s = c0 # c1 # c2 # c3 # t" "0xF0 \<le> byte c0" "byte c0 \<le> 0xF4"
      "cont (if byte c0 = 0xF0 then 0x90 else 0x80) (if byte c0 = 0xF4 then 0x8F else 0xBF) c1" "cont 0x80 0xBF c2" "cont 0x80 0xBF c3"
      "r = ((byte c0 mod 8 * 64 + byte c1 mod 64) * 64 + byte c2 mod 64) * 64 + byte c3 mod 64" "n = 4"
proof -
  obtain c0 s1 where s: "s = c0 # s1" using assms(2) by (cases s) auto
  consider (a) "byte c0 < 0x80" | (b) "0xC2 \<le> byte c0" "byte c0 \<le> 0xDF" | (c) "0xE0 \<le> byte c0" "byte c0 \<le> 0xEF"
    | (d) "0xF0 \<le> byte c0" "byte c0 \<le> 0xF4"
    | (e) "\<not> byte c0 < 0x80" "\<not> (0xC2 \<le> byte c0 \<and> byte c0 \<le> 0xDF)" "\<not> (0xE0 \<le> byte c0 \<and> byte c0 \<le> 0xEF)" "\<not> (0xF0 \<le> byte c0 \<and> byte c0 \<le> 0xF4)"
    by argo
  then show thesis
  proof cases
    case a
    with assms(1) s show ?thesis by (intro one [of c0 s1]) (auto simp: DecodeRune_ascii)
  next
    case b
    then show ?thesis using assms s
      by (cases s1) (auto simp: DecodeRune_def Let_def split: if_splits intro!: two)
  next
    case c
    show ?thesis
    proof (cases "\<exists>c1 c2 t. s1 = c1 # c2 # t")
      case True
      then obtain c1 c2 t where t: "s1 = c1 # c2 # t" by blast
      let ?ok = "cont (if byte c0 = 0xE0 then 0xA0 else 0x80) (if byte c0 = 0xED then 0x9F else 0xBF) c1 \<and> cont 0x80 0xBF c2"
      have "DecodeRune s = (if ?ok then ((byte c0 mod 16 * 64 + byte c1 mod 64) * 64 + byte c2 mod 64, 3) else (RuneError, 1))"
        using c by (simp add: s t DecodeRune_def Let_def)
      with assms(1,3) c s t show ?thesis by (intro three [of c0 c1 c2 t]) (simp_all split: if_split_asm)
    next
      case False
      then have "DecodeRune s = (RuneError, 1)" using c s by (auto simp: DecodeRune_def Let_def split: list.split)
      with assms(1,3) show ?thesis by simp
    qed
  next
    case d
    show ?thesis
    proof (cases "\<exists>c1 c2 c3 t. s1 = c1 # c2 # c3 # t")
      case True
      then obtain c1 c2 c3 t where t: "s1 = c1 # c2 # c3 # t" by blast
      let ?ok = "cont (if byte c0 = 0xF0 then 0x90 else 0x80) (if byte c0 = 0xF4 then 0x8F else 0xBF) c1 \<and> cont 0x80 0xBF c2 \<and> cont 0x80 0xBF c3"
      have "DecodeRune s = (if ?ok then (((byte c0 mod 8 * 64 + byte c1 mod 64) * 64 + byte c2 mod 64) * 64 + byte c3 mod 64, 4) else (RuneError, 1))"
        using d by (simp add: s t DecodeRune_def Let_def)
      with assms(1,3) d s t show ?thesis by (intro four [of c0 c1 c2 c3 t]) (simp_all split: if_split_asm)
    next
      case False
      then have "DecodeRune s = (RuneError, 1)" using d s by (auto simp: DecodeRune_def Let_def split: list.split)
      with assms(1,3) show ?thesis by simp
    qed
  next
    case e
    then have "DecodeRune s = (RuneError, 1)"
      by (simp only: s DecodeRune_def Let_def list.case if_False simp_thms)
    with assms(1,3) show ?thesis by simp
  qed
qed

lemma decode_encode:
  assumes "DecodeRune s = (r, n)" "s \<noteq> []" "\<not> (r = RuneError \<and> n = 1)"
  shows "EncodeRune r = take n s"
  using assms
proof (cases rule: DecodeRune_cases)
  case (one c0 t)
  then show ?thesis using byte_bounds [of c0] by (simp add: EncodeRune_def)
next
  case (two c0 c1 t)
  note m = lead_mods(1) [of "byte c0"] cont_mod [OF two(4)]
  have "EncodeRune r = [char_of (byte c0), char_of (128 + (byte c1 - 128))]"
    by (rule encode_two) (use two m in \<open>auto simp: cont_def\<close>)
  with two show ?thesis by simp
next
  case (three c0 c1 c2 t)
  have b: "128 \<le> byte c1" "byte c1 \<le> 191" using three(4) by (auto simp: cont_def split: if_splits)
  note m = lead_mods(2) [of "byte c0"] mod64 [OF b] cont_mod [OF three(5)]
  have "EncodeRune r = [char_of (byte c0), char_of (128 + (byte c1 - 128)), char_of (128 + (byte c2 - 128))]"
    by (rule encode_three) (use three m b in \<open>auto simp: cont_def split: if_splits\<close>)
  with three show ?thesis by simp
next
  case (four c0 c1 c2 c3 t)
  have b: "128 \<le> byte c1" "byte c1 \<le> 191" using four(4) by (auto simp: cont_def split: if_splits)
  note m = lead_mods(3) [of "byte c0"] mod64 [OF b] cont_mod [OF four(5)] cont_mod [OF four(6)]
  have "EncodeRune r = [char_of (byte c0), char_of (128 + (byte c1 - 128)), char_of (128 + (byte c2 - 128)), char_of (128 + (byte c3 - 128))]"
    by (rule encode_four) (use four m b in \<open>auto simp: cont_def split: if_splits\<close>)
  with four show ?thesis by simp
qed

lemma DecodeRune_prefix:
  assumes "DecodeRune s = (r, n)" "s \<noteq> []" "\<not> (r = RuneError \<and> n = 1)"
  shows "DecodeRune (take n s @ t) = (r, n)"
  using assms
proof (cases rule: DecodeRune_cases)
  case (three c0 c1 c2 u)
  then show ?thesis by (simp add: DecodeRune_def Let_def numeral_eq_Suc)
next
  case (four c0 c1 c2 c3 u)
  then show ?thesis by (simp add: DecodeRune_def Let_def numeral_eq_Suc)
qed (simp_all add: DecodeRune_def Let_def numeral_eq_Suc)

end
