(* ===== verification/Json.thy ===== *)
theory Json
  imports Fmt Time
begin

text \<open>
  The parts of \<^verbatim>\<open>encoding/json\<close> the repository uses: the compact encoder with its HTML escapes, the scanner
  and the parser, and decoding into Go values.  A JSON text is first cut into tokens; the parser is a stack
  machine over the tokens with the scanner's bound on nesting.  A decoder takes the value decoded into, as
  \<^verbatim>\<open>json.Unmarshal\<close> does: \<^verbatim>\<open>null\<close> leaves it, a member given twice is decoded twice into the same place,
  a member no field matches is skipped, and a value of another type is an error.
\<close>

abbreviation QUOTE :: char where "QUOTE \<equiv> CHR 0x22"
abbreviation BSLASH :: char where "BSLASH \<equiv> CHR 0x5C"

datatype json =
    JNull
  | JBool bool
  | JNum string
  | JStr string
  | JArr "json list"
  | JObj "(string \<times> json) list"

section \<open>Encoding\<close>

definition enc_ascii :: "char \<Rightarrow> string" where
  "enc_ascii c =
     (if c = QUOTE \<or> c = BSLASH then [BSLASH, c]
      else if c = CHR 0x08 then BSLASH # ''b''
      else if c = CHR 0x0C then BSLASH # ''f''
      else if c = LF then BSLASH # ''n''
      else if c = CR then BSLASH # ''r''
      else if c = TAB then BSLASH # ''t''
      else if byte c < 0x20 \<or> c = CHR ''<'' \<or> c = CHR ''>'' \<or> c = CHR ''&'' then BSLASH # ''u00'' @ hexw 2 (byte c)
      else [c])"

definition enc_rune :: "int \<times> string \<Rightarrow> string" where
  "enc_rune = (\<lambda>(r, bs).
     if byte (hd bs) < 0x80 then enc_ascii (hd bs)
     else if r = RuneError \<and> length bs = 1 then BSLASH # ''ufffd''
     else if r = 0x2028 \<or> r = 0x2029 then BSLASH # ''u202'' @ hexw 1 (r mod 16)
     else bs)"

definition enc_string :: "string \<Rightarrow> string" where
  "enc_string s = QUOTE # concat (map enc_rune (runes s)) @ [QUOTE]"

fun enc_json :: "json \<Rightarrow> string" where
  "enc_json JNull = ''null''"
| "enc_json (JBool b) = (if b then ''true'' else ''false'')"
| "enc_json (JNum n) = n"
| "enc_json (JStr s) = enc_string s"
| "enc_json (JArr js) = ''['' @ Join (map enc_json js) '','' @ '']''"
| "enc_json (JObj kvs) = ''{'' @ Join (map (\<lambda>(k, j). enc_string k @ '':'' @ enc_json j) kvs) '','' @ ''}''"

section \<open>Scanning\<close>

definition hex_val :: "char \<Rightarrow> int option" where
  "hex_val c =
     (if digit_char c then Some (byte c - 48)
      else if 97 \<le> byte c \<and> byte c \<le> 102 then Some (byte c - 87)
      else if 65 \<le> byte c \<and> byte c \<le> 70 then Some (byte c - 55)
      else None)"

definition escape_char :: "char \<Rightarrow> bool" where
  "escape_char e \<longleftrightarrow> e \<in> set (QUOTE # BSLASH # ''/bfnrt'')"

text \<open>The first character or escape of a string's body, and the body up to the closing quote.\<close>

definition lex_unit :: "string \<Rightarrow> (string \<times> string) option" where
  "lex_unit s = (case s of
     [] \<Rightarrow> None
   | c # t \<Rightarrow>
       if byte c < 0x20 then None
       else if c \<noteq> BSLASH then Some ([c], t)
       else (case t of
           [] \<Rightarrow> None
         | e # t1 \<Rightarrow>
             if escape_char e then Some ([c, e], t1)
             else if e = CHR ''u'' \<and> 4 \<le> length t1 \<and> list_all (\<lambda>h. hex_val h \<noteq> None) (take 4 t1)
             then Some (c # e # take 4 t1, drop 4 t1)
             else None))"

lemma lex_unit_split: "lex_unit s = Some (u, t) \<Longrightarrow> s = u @ t \<and> u \<noteq> []"
  by (auto simp: lex_unit_def split: list.splits if_splits)

function lex_str :: "string \<Rightarrow> (string \<times> string) option" where
  "lex_str s =
     (if s = [] then None
      else if hd s = QUOTE then Some ([], tl s)
      else case lex_unit s of
          None \<Rightarrow> None
        | Some (u, t) \<Rightarrow> map_option (\<lambda>(raw, rest). (u @ raw, rest)) (lex_str t))"
  by pat_completeness auto
termination
  by (relation "measure length") (auto dest!: lex_unit_split)

declare lex_str.simps [simp del]

text \<open>\<^verbatim>\<open>getu4\<close>: the value of an escape of four hexadecimal digits at the start of the text, if there is one.\<close>

definition getu4 :: "string \<Rightarrow> int option" where
  "getu4 s = (case s of
     b # u # h1 # h2 # h3 # h4 # _ \<Rightarrow>
       if b = BSLASH \<and> u = CHR ''u'' then
         (case (hex_val h1, hex_val h2, hex_val h3, hex_val h4) of
            (Some a, Some b, Some c, Some d) \<Rightarrow> Some (((a * 16 + b) * 16 + c) * 16 + d)
          | _ \<Rightarrow> None)
       else None
   | _ \<Rightarrow> None)"

definition surrogate_pair :: "int \<Rightarrow> int \<Rightarrow> int option" where
  "surrogate_pair r1 r2 =
     (if 0xD800 \<le> r1 \<and> r1 < 0xDC00 \<and> 0xDC00 \<le> r2 \<and> r2 < 0xE000
      then Some ((r1 - 0xD800) * 1024 + (r2 - 0xDC00) + 0x10000) else None)"

definition unescape :: "char \<Rightarrow> char" where
  "unescape e = (if e = CHR ''b'' then CHR 0x08 else if e = CHR ''f'' then CHR 0x0C else if e = CHR ''n'' then LF
     else if e = CHR ''r'' then CR else if e = CHR ''t'' then TAB else e)"

function unquote :: "string \<Rightarrow> string" where
  "unquote s = (case s of
     [] \<Rightarrow> []
   | c # s1 \<Rightarrow>
       if c = BSLASH then
         (case getu4 s of
            Some r \<Rightarrow>
              if 0xD800 \<le> r \<and> r < 0xE000 then
                (case (case getu4 (drop 6 s) of None \<Rightarrow> None | Some r2 \<Rightarrow> surrogate_pair r r2) of
                   Some dec \<Rightarrow> EncodeRune dec @ unquote (drop 12 s)
                 | None \<Rightarrow> EncodeRune RuneError @ unquote (drop 6 s))
              else EncodeRune r @ unquote (drop 6 s)
          | None \<Rightarrow> (case s1 of [] \<Rightarrow> [] | e # s2 \<Rightarrow> unescape e # unquote s2))
       else if byte c < 0x80 then c # unquote s1
       else EncodeRune (fst (DecodeRune s)) @ unquote (drop (width s) s))"
  by pat_completeness auto
termination
proof (relation "measure length")
  fix s :: string and c s1
  assume "s = c # s1"
  then have "0 < width s" "s \<noteq> []" by (simp_all add: width_pos)
  then show "(drop (width s) s, s) \<in> measure length" by (simp add: diff_less)
qed auto

declare unquote.simps [simp del]

definition lex_exp :: "string \<Rightarrow> string \<Rightarrow> (string \<times> string) option" where
  "lex_exp acc s = (case s of
     [] \<Rightarrow> Some (acc, [])
   | c # t \<Rightarrow>
       if c = CHR ''e'' \<or> c = CHR ''E'' then
         (let sg = (case t of [] \<Rightarrow> [] | x # _ \<Rightarrow> if x = CHR ''+'' \<or> x = CHR ''-'' then [x] else []);
              t = drop (length sg) t; ds = takeWhile digit_char t
          in if ds = [] then None else Some (acc @ c # sg @ ds, dropWhile digit_char t))
       else Some (acc, s))"

definition lex_frac :: "string \<Rightarrow> string \<Rightarrow> (string \<times> string) option" where
  "lex_frac acc s = (case s of
     [] \<Rightarrow> lex_exp acc []
   | c # t \<Rightarrow>
       if c = CHR ''.'' then
         (let ds = takeWhile digit_char t in
          if ds = [] then None else lex_exp (acc @ c # ds) (dropWhile digit_char t))
       else lex_exp acc s)"

definition lex_num :: "string \<Rightarrow> (string \<times> string) option" where
  "lex_num s =
     (let sg = (case s of [] \<Rightarrow> [] | c # _ \<Rightarrow> if c = CHR ''-'' then [c] else []) in
      case drop (length sg) s of
        [] \<Rightarrow> None
      | d # t \<Rightarrow>
          if d = CHR ''0'' then lex_frac (sg @ [d]) t
          else if digit_char d then lex_frac (sg @ d # takeWhile digit_char t) (dropWhile digit_char t)
          else None)"

datatype tok = TLBrace | TRBrace | TLBrack | TRBrack | TColon | TComma | TLit json

definition json_space :: "char \<Rightarrow> bool" where
  "json_space c \<longleftrightarrow> c = CHR '' '' \<or> c = TAB \<or> c = LF \<or> c = CR"

definition punct :: "char \<Rightarrow> tok option" where
  "punct c = map_of [(CHR ''{'', TLBrace), (CHR ''}'', TRBrace), (CHR ''['', TLBrack), (CHR '']'', TRBrack),
     (CHR '':'', TColon), (CHR '','', TComma)] c"

lemma lex_str_split: "lex_str s = Some (raw, rest) \<Longrightarrow> s = raw @ QUOTE # rest"
proof (induction s arbitrary: raw rest rule: lex_str.induct)
  case (1 s)
  show ?case
  proof (cases "s = [] \<or> hd s = QUOTE")
    case True
    with "1.prems" show ?thesis by (cases s) (auto simp: lex_str.simps)
  next
    case False
    with "1.prems" obtain u t raw' where u: "lex_unit s = Some (u, t)" "lex_str t = Some (raw', rest)" "raw = u @ raw'"
      by (subst (asm) lex_str.simps) (auto split: option.splits)
    with "1.IH" False have "t = raw' @ QUOTE # rest" by auto
    with u lex_unit_split show ?thesis by fastforce
  qed
qed

lemma lex_str_shorter: "lex_str s = Some (raw, rest) \<Longrightarrow> length rest < length s"
  by (drule lex_str_split) simp

lemma lex_exp_rest: "lex_exp acc s = Some (n, rest) \<Longrightarrow> length rest \<le> length s"
  by (auto simp: lex_exp_def Let_def split: list.splits if_splits intro: le_SucI order_trans [OF length_dropWhile_le])

lemma lex_frac_rest: "lex_frac acc s = Some (n, rest) \<Longrightarrow> length rest \<le> length s"
  by (auto simp: lex_frac_def Let_def split: list.splits if_splits dest!: lex_exp_rest
      intro: le_SucI order_trans [OF _ length_dropWhile_le])

lemma lex_num_shorter: "lex_num s = Some (n, rest) \<Longrightarrow> length rest < length s"
  by (auto simp: lex_num_def Let_def less_Suc_eq_le split: list.splits if_splits dest!: lex_frac_rest
      intro: le_SucI order_trans [OF _ length_dropWhile_le])

function lex :: "string \<Rightarrow> tok list option" where
  "lex s = (case s of
     [] \<Rightarrow> Some []
   | c # t \<Rightarrow>
       if json_space c then lex t
       else (case punct c of
           Some k \<Rightarrow> map_option ((#) k) (lex t)
         | None \<Rightarrow>
             if c = QUOTE then
               (case lex_str t of
                  None \<Rightarrow> None
                | Some (raw, rest) \<Rightarrow> map_option ((#) (TLit (JStr (unquote raw)))) (lex rest))
             else if HasPrefix s ''null'' then map_option ((#) (TLit JNull)) (lex (drop 4 s))
             else if HasPrefix s ''true'' then map_option ((#) (TLit (JBool True))) (lex (drop 4 s))
             else if HasPrefix s ''false'' then map_option ((#) (TLit (JBool False))) (lex (drop 5 s))
             else (case lex_num s of
                 None \<Rightarrow> None
               | Some (n, rest) \<Rightarrow> map_option ((#) (TLit (JNum n))) (lex rest))))"
  by pat_completeness auto
termination
  by (relation "measure length") (auto dest!: lex_str_shorter lex_num_shorter)

declare lex.simps [simp del]

section \<open>Parsing\<close>

text \<open>The values still open, innermost first: an array with its elements so far, an object between two
  members, and an object that waits for the value of a key.\<close>

datatype frame = FArr "json list" | FObj "(string \<times> json) list" | FKey "(string \<times> json) list" string

datatype mode = MValue | MFirstElem | MFirstKey | MKey | MColon | MAfter | MDone json

definition maxNestingDepth :: nat where "maxNestingDepth = 10000"

fun finish :: "json \<Rightarrow> frame list \<Rightarrow> (mode \<times> frame list) option" where
  "finish v [] = Some (MDone v, [])"
| "finish v (FArr vs # st) = Some (MAfter, FArr (vs @ [v]) # st)"
| "finish v (FKey kvs k # st) = Some (MAfter, FObj (kvs @ [(k, v)]) # st)"
| "finish v (FObj kvs # st) = None"

fun start_value :: "frame list \<Rightarrow> tok \<Rightarrow> (mode \<times> frame list) option" where
  "start_value st (TLit v) = finish v st"
| "start_value st TLBrack = (if length st < maxNestingDepth then Some (MFirstElem, FArr [] # st) else None)"
| "start_value st TLBrace = (if length st < maxNestingDepth then Some (MFirstKey, FObj [] # st) else None)"
| "start_value st _ = None"

fun close_frame :: "tok \<Rightarrow> frame list \<Rightarrow> (mode \<times> frame list) option" where
  "close_frame TRBrack (FArr vs # st) = finish (JArr vs) st"
| "close_frame TRBrace (FObj kvs # st) = finish (JObj kvs) st"
| "close_frame _ _ = None"

fun take_key :: "tok \<Rightarrow> frame list \<Rightarrow> (mode \<times> frame list) option" where
  "take_key (TLit (JStr k)) (FObj kvs # st) = Some (MColon, FKey kvs k # st)"
| "take_key _ _ = None"

fun pstep :: "mode \<times> frame list \<Rightarrow> tok \<Rightarrow> (mode \<times> frame list) option" where
  "pstep (MValue, st) k = start_value st k"
| "pstep (MFirstElem, st) k = (if k = TRBrack then close_frame k st else start_value st k)"
| "pstep (MFirstKey, st) k = (if k = TRBrace then close_frame k st else take_key k st)"
| "pstep (MKey, st) k = take_key k st"
| "pstep (MColon, st) k = (if k = TColon then Some (MValue, st) else None)"
| "pstep (MAfter, st) k =
     (if k = TComma then (case st of FArr _ # _ \<Rightarrow> Some (MValue, st) | FObj _ # _ \<Rightarrow> Some (MKey, st) | _ \<Rightarrow> None)
      else close_frame k st)"
| "pstep (MDone v, st) k = None"

fun prun :: "mode \<times> frame list \<Rightarrow> tok list \<Rightarrow> (mode \<times> frame list) option" where
  "prun ps [] = Some ps"
| "prun ps (k # ks) = (case pstep ps k of None \<Rightarrow> None | Some ps \<Rightarrow> prun ps ks)"

definition parse_json :: "string \<Rightarrow> json option" where
  "parse_json s =
     (case lex s of
        None \<Rightarrow> None
      | Some ks \<Rightarrow> (case prun (MValue, []) ks of Some (MDone v, _) \<Rightarrow> Some v | _ \<Rightarrow> None))"

section \<open>Decoding\<close>

type_synonym 'a decoder = "json \<Rightarrow> 'a \<Rightarrow> 'a option"

definition dec_string :: "string decoder" where
  "dec_string j old = (case j of JStr s \<Rightarrow> Some s | JNull \<Rightarrow> Some old | _ \<Rightarrow> None)"

definition dec_bool :: "bool decoder" where
  "dec_bool j old = (case j of JBool b \<Rightarrow> Some b | JNull \<Rightarrow> Some old | _ \<Rightarrow> None)"

text \<open>\<^verbatim>\<open>strconv.ParseInt\<close> and \<^verbatim>\<open>ParseUint\<close> in base ten of a JSON number, with the range of the field.\<close>

definition parse_integer :: "string \<Rightarrow> int option" where
  "parse_integer n = (case n of
     [] \<Rightarrow> None
   | c # t \<Rightarrow>
       if c = CHR ''-'' then (if t \<noteq> [] \<and> list_all digit_char t then Some (- digits_val t) else None)
       else if list_all digit_char n then Some (digits_val n) else None)"

definition dec_int :: "int \<Rightarrow> int \<Rightarrow> int decoder" where
  "dec_int lo hi j old = (case j of
     JNum n \<Rightarrow> (case parse_integer n of Some i \<Rightarrow> if lo \<le> i \<and> i \<le> hi then Some i else None | None \<Rightarrow> None)
   | JNull \<Rightarrow> Some old
   | _ \<Rightarrow> None)"

abbreviation dec_int64 :: "int decoder" where
  "dec_int64 \<equiv> dec_int (- (2 ^ 63)) (2 ^ 63 - 1)"

definition dec_uint64 :: "uint64 decoder" where
  "dec_uint64 j old = (case j of
     JNum n \<Rightarrow> if hd n = CHR ''-'' then None
       else (case parse_integer n of Some i \<Rightarrow> if i < 2 ^ 64 then Some (of_int i) else None | None \<Rightarrow> None)
   | JNull \<Rightarrow> Some old
   | _ \<Rightarrow> None)"

definition dec_ptr :: "'a \<Rightarrow> 'a decoder \<Rightarrow> 'a option decoder" where
  "dec_ptr zero d j old = (case j of
     JNull \<Rightarrow> Some None
   | _ \<Rightarrow> map_option Some (d j (case old of None \<Rightarrow> zero | Some x \<Rightarrow> x)))"

text \<open>A slice while it is decoded: its backing array as far as it was ever written, and its length.  Elements
  are decoded into what the array holds, which the second of two members with one name shows.\<close>

type_synonym 'a slice = "'a list \<times> nat"

definition slice_list :: "'a slice \<Rightarrow> 'a list" where
  "slice_list sl = take (snd sl) (fst sl)"

fun dec_elems :: "'a \<Rightarrow> 'a decoder \<Rightarrow> json list \<Rightarrow> 'a list \<Rightarrow> 'a list option" where
  "dec_elems zero d [] old = Some old"
| "dec_elems zero d (j # js) old =
     (case d j (case old of [] \<Rightarrow> zero | x # _ \<Rightarrow> x) of
        None \<Rightarrow> None
      | Some x \<Rightarrow> map_option ((#) x) (dec_elems zero d js (tl old)))"

definition dec_slice :: "'a \<Rightarrow> 'a decoder \<Rightarrow> 'a slice decoder" where
  "dec_slice zero d j old = (case j of
     JArr js \<Rightarrow> if js = [] then Some ([], 0) else map_option (\<lambda>xs. (xs, length js)) (dec_elems zero d js (fst old))
   | JNull \<Rightarrow> Some ([], 0)
   | _ \<Rightarrow> None)"

text \<open>A member goes to the field of that name, or else to the field its name folds to: the fields' names are
  ASCII, and two runes above ASCII fold to ASCII letters.\<close>

definition fold_rune :: "int \<Rightarrow> int" where
  "fold_rune r = (if 97 \<le> r \<and> r \<le> 122 then r - 32 else if r = 0x17F then 83 else if r = 0x212A then 75 else r)"

definition fold_name :: "string \<Rightarrow> int list" where
  "fold_name s = map (fold_rune \<circ> fst) (runes s)"

definition find_field :: "(string \<times> 'a decoder) list \<Rightarrow> string \<Rightarrow> 'a decoder option" where
  "find_field fields k =
     (case map_of fields k of
        Some d \<Rightarrow> Some d
      | None \<Rightarrow> map_option snd (List.find (\<lambda>(n, d). fold_name n = fold_name k) fields))"

fun dec_members :: "(string \<times> 'a decoder) list \<Rightarrow> (string \<times> json) list \<Rightarrow> 'a \<Rightarrow> 'a option" where
  "dec_members fields [] x = Some x"
| "dec_members fields ((k, j) # kvs) x =
     (case find_field fields k of
        None \<Rightarrow> dec_members fields kvs x
      | Some d \<Rightarrow> (case d j x of None \<Rightarrow> None | Some x \<Rightarrow> dec_members fields kvs x))"

definition dec_struct :: "(string \<times> 'a decoder) list \<Rightarrow> 'a decoder" where
  "dec_struct fields j old = (case j of JObj kvs \<Rightarrow> dec_members fields kvs old | JNull \<Rightarrow> Some old | _ \<Rightarrow> None)"

text \<open>The value of \<^verbatim>\<open>json.Unmarshal\<close> of a text into a value, none when it returns an error.\<close>

definition Unmarshal :: "'a decoder \<Rightarrow> string \<Rightarrow> 'a \<Rightarrow> 'a option" where
  "Unmarshal d s old = (case parse_json s of None \<Rightarrow> None | Some j \<Rightarrow> d j old)"

end
