(* ===== verification/JsonProofs.thy ===== *)
theory JsonProofs
  imports Json Utf8Codec
begin

text \<open>
  What the encoder writes the parser reads back: strings of valid UTF-8 through their escapes, numbers, and
  with them every value nested no deeper than the parser allows.
\<close>

section \<open>Strings\<close>

text \<open>A piece of a string's body the scanner passes over whole.\<close>

definition lexes :: "string \<Rightarrow> bool" where
  "lexes u \<longleftrightarrow> (\<forall>t. lex_str (u @ t) = map_option (\<lambda>(raw, rest). (u @ raw, rest)) (lex_str t))"

lemma lexes_Nil [simp]: "lexes []"
  by (simp add: lexes_def option.map_id)

lemma lexes_append: "lexes u \<Longrightarrow> lexes v \<Longrightarrow> lexes (u @ v)"
  unfolding lexes_def by (simp add: option.map_comp o_def split_def)

lemma lexes_unit: "(\<And>t. lex_unit (c # u @ t) = Some (c # u, t)) \<Longrightarrow> c \<noteq> QUOTE \<Longrightarrow> lexes (c # u)"
  unfolding lexes_def by (subst lex_str.simps) simp

lemma lexes_char: "0x20 \<le> byte c \<Longrightarrow> c \<noteq> QUOTE \<Longrightarrow> c \<noteq> BSLASH \<Longrightarrow> lexes [c]"
  by (rule lexes_unit) (simp_all add: lex_unit_def)

lemma lexes_high: "(\<And>c. c \<in> set u \<Longrightarrow> 0x80 \<le> byte c) \<Longrightarrow> lexes u"
proof (induction u)
  case (Cons c u)
  then have "0x80 \<le> byte c" by simp
  then have "lexes [c]" by (intro lexes_char) auto
  with Cons lexes_append [of "[c]" u] show ?case by simp
qed simp

lemma lexes_escape: "escape_char e \<Longrightarrow> lexes [BSLASH, e]"
  by (rule lexes_unit) (simp_all add: lex_unit_def)

lemma hex_val_digit: "hex_val (hexdigit n) = Some (n mod 16)"
proof -
  have "nat (n mod 16) \<in> set [0..<16]" by (simp add: nat_less_iff)
  moreover have "\<forall>i \<in> set [0..<16]. hex_val (''0123456789abcdef'' ! i) = Some (int i)" by code_simp
  ultimately have "hex_val (''0123456789abcdef'' ! nat (n mod 16)) = Some (int (nat (n mod 16)))" by blast
  then show ?thesis unfolding hexdigit_def by simp
qed

lemma lexes_u4:
  assumes "length h = 4" "list_all (\<lambda>c. hex_val c \<noteq> None) h"
  shows "lexes (BSLASH # CHR ''u'' # h)"
proof (rule lexes_unit)
  show "lex_unit (BSLASH # (CHR ''u'' # h) @ t) = Some (BSLASH # CHR ''u'' # h, t)" for t
    using assms by (simp add: lex_unit_def escape_char_def)
qed simp

section \<open>Unquoting what was quoted\<close>

lemma hexw2: "hexw 2 n = [hexdigit (n div 16), hexdigit n]"
  by (simp add: hexw_def upt_rec numeral_eq_Suc hexdigit_def)

lemma hexw1: "hexw 1 n = [hexdigit n]"
  by (simp add: hexw_def upt_rec hexdigit_def)

lemma getu4_hex:
  "getu4 (BSLASH # CHR ''u'' # hexdigit a # hexdigit b # hexdigit c # hexdigit d # t) =
     Some (((a mod 16 * 16 + b mod 16) * 16 + c mod 16) * 16 + d mod 16)"
  by (simp add: getu4_def hex_val_digit)

lemma unquote_u4:
  assumes "getu4 (BSLASH # s) = Some r" "\<not> (0xD800 \<le> r \<and> r < 0xE000)"
  shows "unquote (BSLASH # s) = EncodeRune r @ unquote (drop 5 s)"
  using assms by (subst unquote.simps) (auto simp: drop_Cons')

lemma unquote_escape: "e \<noteq> CHR ''u'' \<Longrightarrow> unquote (BSLASH # e # t) = unescape e # unquote t"
  by (subst unquote.simps) (simp add: getu4_def split: list.split)

lemma unquote_char: "byte c < 0x80 \<Longrightarrow> c \<noteq> BSLASH \<Longrightarrow> unquote (c # t) = c # unquote t"
  by (subst unquote.simps) simp

lemma EncodeRune_byte: "byte c < 0x80 \<Longrightarrow> EncodeRune (byte c) = [c]"
  using byte_bounds [of c] by (simp add: EncodeRune_def)

lemma hex_zero: "CHR ''0'' = hexdigit 0"
  by code_simp

lemma unquote_low:
  assumes "byte c < 0x80"
  shows "unquote (BSLASH # ''u00'' @ hexw 2 (byte c) @ t) = c # unquote t"
proof -
  have "byte c div 16 mod 16 * 16 + byte c mod 16 = byte c"
    using assms byte_bounds [of c] by (simp add: div_mult_mod_eq)
  then have "getu4 (BSLASH # ''u00'' @ hexw 2 (byte c) @ t) = Some (byte c)"
    by (simp add: hexw2 hex_zero getu4_hex)
  from unquote_u4 [OF this] show ?thesis using assms by (simp add: EncodeRune_byte hexw2)
qed

lemma lexes_low: "lexes (BSLASH # ''u00'' @ hexw 2 n)"
  using lexes_u4 [of "''00'' @ hexw 2 n"] by (simp add: hexw2 hex_zero hex_val_digit)

lemma enc_ascii_cases:
  obtains (same) e where "enc_ascii c = [BSLASH, e]" "escape_char e" "e \<noteq> CHR ''u''" "unescape e = c"
  | (low) "enc_ascii c = BSLASH # ''u00'' @ hexw 2 (byte c)"
  | (plain) "enc_ascii c = [c]" "0x20 \<le> byte c" "c \<noteq> QUOTE" "c \<noteq> BSLASH"
proof -
  let ?pairs = "[(QUOTE, QUOTE), (BSLASH, BSLASH), (CHR 0x08, CHR ''b''), (CHR 0x0C, CHR ''f''), (LF, CHR ''n''), (CR, CHR ''r''), (TAB, CHR ''t'')]"
  have esc: "\<forall>(c, e) \<in> set ?pairs. enc_ascii c = [BSLASH, e] \<and> escape_char e \<and> e \<noteq> CHR ''u'' \<and> unescape e = c"
    by code_simp
  show thesis
  proof (cases "map_of ?pairs c")
    case (Some e)
    then have "(c, e) \<in> set ?pairs" by (rule map_of_SomeD)
    with esc have "enc_ascii c = [BSLASH, e] \<and> escape_char e \<and> e \<noteq> CHR ''u'' \<and> unescape e = c" by blast
    then show ?thesis using same by blast
  next
    case None
    then have ne: "c \<noteq> QUOTE" "c \<noteq> BSLASH" "c \<noteq> CHR 0x08" "c \<noteq> CHR 0x0C" "c \<noteq> LF" "c \<noteq> CR" "c \<noteq> TAB"
      by (auto split: if_splits)
    show ?thesis
    proof (cases "byte c < 0x20 \<or> c = CHR ''<'' \<or> c = CHR ''>'' \<or> c = CHR ''&''")
      case True
      have "enc_ascii c = BSLASH # ''u00'' @ hexw 2 (byte c)"
        unfolding enc_ascii_def by (simp only: ne True if_False if_True simp_thms)
      then show ?thesis by (rule low)
    next
      case False
      have "enc_ascii c = [c]"
        unfolding enc_ascii_def by (simp only: ne False if_False simp_thms)
      with False ne show ?thesis by (intro plain) simp_all
    qed
  qed
qed

lemma lexes_ascii: "lexes (enc_ascii c)"
  using lexes_low [of "byte c"] by (cases rule: enc_ascii_cases [of c]) (simp_all add: lexes_escape lexes_char)

lemma unquote_ascii: "byte c < 0x80 \<Longrightarrow> unquote (enc_ascii c @ t) = c # unquote t"
proof (cases rule: enc_ascii_cases [of c])
  case low
  then show "byte c < 0x80 \<Longrightarrow> ?thesis" using unquote_low by simp
qed (simp_all add: unquote_escape unquote_char)

text \<open>A rune of a valid string, with the bytes it was decoded from.\<close>

definition good_rune :: "int \<times> string \<Rightarrow> bool" where
  "good_rune p \<longleftrightarrow> snd p \<noteq> [] \<and> (byte (hd (snd p)) < 0x80 \<longrightarrow> length (snd p) = 1) \<and>
     (\<not> byte (hd (snd p)) < 0x80 \<longrightarrow> (\<forall>c \<in> set (snd p). 0x80 \<le> byte c) \<and> \<not> (fst p = RuneError \<and> length (snd p) = 1) \<and>
        EncodeRune (fst p) = snd p \<and> (\<forall>t. DecodeRune (snd p @ t) = (fst p, length (snd p))))"

lemma good_rune_decode:
  assumes "s \<noteq> []" "\<not> (fst (DecodeRune s) = RuneError \<and> width s = 1)"
  shows "good_rune (fst (DecodeRune s), take (width s) s)"
proof -
  obtain r n where d: "DecodeRune s = (r, n)" by fastforce
  with assms have bad: "\<not> (r = RuneError \<and> n = 1)" by (simp add: width_def)
  have w: "width s = n" "n \<le> length s" using d width_le [of s] by (simp_all add: width_def)
  note enc = decode_encode [OF d assms(1) bad] and pre = DecodeRune_prefix [OF d assms(1) bad]
  from d assms(1) bad show ?thesis
  proof (cases rule: DecodeRune_cases)
    case (one c0 t)
    then show ?thesis using d w by (simp add: good_rune_def)
  next
    case (two c0 c1 t)
    then show ?thesis using d w enc pre by (auto simp: good_rune_def cont_def numeral_eq_Suc)
  next
    case (three c0 c1 c2 t)
    then have "128 \<le> byte c1" by (auto simp: cont_def split: if_splits)
    with three show ?thesis using d w enc pre by (auto simp: good_rune_def cont_def numeral_eq_Suc)
  next
    case (four c0 c1 c2 c3 t)
    then have "128 \<le> byte c1" by (auto simp: cont_def split: if_splits)
    with four show ?thesis using d w enc pre by (auto simp: good_rune_def cont_def numeral_eq_Suc)
  qed
qed

lemma valid_runes: "ValidString s \<Longrightarrow> p \<in> set (runes s) \<Longrightarrow> good_rune p"
proof (induction s rule: runes.induct)
  case (1 s)
  show ?case
  proof (cases "s = []")
    case False
    with "1.prems"(1) have v: "\<not> (fst (DecodeRune s) = RuneError \<and> width s = 1)" "ValidString (drop (width s) s)"
      using width_le [of s] by (auto simp: ValidString_def runes_step)
    with "1.prems"(2) "1.IH" False good_rune_decode [OF False v(1)] show ?thesis by (auto simp: runes_step)
  qed (use "1.prems" in simp)
qed

lemma lexes_rune: "good_rune p \<Longrightarrow> lexes (enc_rune p)"
proof (cases p)
  case (Pair r bs)
  assume g: "good_rune p"
  have u: "lexes (BSLASH # ''u202'' @ hexw 1 n)" for n
  proof -
    have "list_all (\<lambda>c. hex_val c \<noteq> None) ''202''" by code_simp
    then show ?thesis using lexes_u4 [of "''202'' @ hexw 1 n"] by (simp add: hexw1 [unfolded One_nat_def] hex_val_digit)
  qed
  show ?thesis using g u lexes_ascii lexes_high [of bs] by (auto simp: Pair enc_rune_def good_rune_def)
qed

lemma unquote_rune: "good_rune p \<Longrightarrow> unquote (enc_rune p @ t) = snd p @ unquote t"
proof (cases p)
  case (Pair r bs)
  assume g: "good_rune p"
  then obtain c cs where bs: "bs = c # cs" by (cases bs) (auto simp: good_rune_def Pair)
  show ?thesis
  proof (cases "byte c < 0x80")
    case True
    then show ?thesis using g unquote_ascii [of c] by (simp add: Pair bs enc_rune_def good_rune_def)
  next
    case False
    with g have e: "EncodeRune r = bs" and d: "\<And>t. DecodeRune (bs @ t) = (r, length bs)" and b: "\<not> (r = RuneError \<and> length bs = 1)"
      by (auto simp: Pair bs good_rune_def)
    have c: "c \<noteq> BSLASH" using False by auto
    show ?thesis
    proof (cases "r = 0x2028 \<or> r = 0x2029")
      case True
      have "getu4 (BSLASH # ''u202'' @ hexw 1 (r mod 16) @ t) = Some (0x2020 + r mod 16)"
      proof -
        have "''202'' = [hexdigit 2, hexdigit 0, hexdigit 2]" by code_simp
        then show ?thesis by (simp add: hexw1 [unfolded One_nat_def] getu4_hex)
      qed
      moreover have "0x2020 + r mod 16 = r" using True by auto
      ultimately have "getu4 (BSLASH # ''u202'' @ hexw 1 (r mod 16) @ t) = Some r" by simp
      from unquote_u4 [OF this] True e b bs False show ?thesis by (auto simp: Pair enc_rune_def hexw1 [unfolded One_nat_def])
    next
      case no: False
      have "unquote (bs @ t) = bs @ unquote t"
        using False c d [of t] e by (subst unquote.simps) (simp add: bs width_def)
      with no b bs False show ?thesis by (auto simp: Pair enc_rune_def)
    qed
  qed
qed

lemma enc_body:
  assumes "ValidString s"
  shows "lexes (concat (map enc_rune (runes s)))" "unquote (concat (map enc_rune (runes s))) = s"
proof -
  have "\<forall>p \<in> set ps. good_rune p \<Longrightarrow> lexes (concat (map enc_rune ps)) \<and> unquote (concat (map enc_rune ps) @ []) = concat (map snd ps)" for ps
  proof (induction ps)
    case Nil
    show ?case by (simp add: unquote.simps)
  next
    case (Cons p ps)
    then show ?case using unquote_rune [of p] lexes_rune [of p] by (simp add: lexes_append)
  qed
  from this [of "runes s"] valid_runes [OF assms] concat_runes [of s]
  show "lexes (concat (map enc_rune (runes s)))" "unquote (concat (map enc_rune (runes s))) = s" by auto
qed

lemma lex_str_quoted: "ValidString s \<Longrightarrow> lex_str (concat (map enc_rune (runes s)) @ QUOTE # t) = Some (concat (map enc_rune (runes s)), t)"
  using enc_body(1) [of s] by (simp add: lexes_def lex_str.simps [of "QUOTE # t"])

section \<open>Values\<close>

text \<open>A number the scanner reads whole before anything that cannot continue it.\<close>

definition number_end :: "string \<Rightarrow> bool" where
  "number_end t \<longleftrightarrow> t = [] \<or> \<not> digit_char (hd t) \<and> hd t \<noteq> CHR ''.'' \<and> hd t \<noteq> CHR ''e'' \<and> hd t \<noteq> CHR ''E''"

definition good_num :: "string \<Rightarrow> bool" where
  "good_num n \<longleftrightarrow> n \<noteq> [] \<and> (digit_char (hd n) \<or> hd n = CHR ''-'') \<and> (\<forall>t. number_end t \<longrightarrow> lex_num (n @ t) = Some (n, t))"

fun good_json :: "json \<Rightarrow> bool" where
  "good_json (JNum n) \<longleftrightarrow> good_num n"
| "good_json (JStr s) \<longleftrightarrow> ValidString s"
| "good_json (JArr js) \<longleftrightarrow> list_all good_json js"
| "good_json (JObj kvs) \<longleftrightarrow> list_all (\<lambda>(k, j). ValidString k \<and> good_json j) kvs"
| "good_json _ \<longleftrightarrow> True"

fun depth :: "json \<Rightarrow> nat" where
  "depth (JArr js) = Suc (Max (insert 0 (set (map depth js))))"
| "depth (JObj kvs) = Suc (Max (insert 0 (set (map (\<lambda>(k, j). depth j) kvs))))"
| "depth _ = 0"

text \<open>The tokens of a value, and of a list of values or members with commas between.\<close>

fun commas :: "tok list list \<Rightarrow> tok list" where
  "commas [] = []"
| "commas [ks] = ks"
| "commas (ks # kss) = ks @ TComma # commas kss"

fun toks :: "json \<Rightarrow> tok list" where
  "toks (JArr js) = TLBrack # commas (map toks js) @ [TRBrack]"
| "toks (JObj kvs) = TLBrace # commas (map (\<lambda>(k, j). TLit (JStr k) # TColon # toks j) kvs) @ [TRBrace]"
| "toks j = [TLit j]"

definition lexed :: "string \<Rightarrow> tok list \<Rightarrow> bool" where
  "lexed s ks \<longleftrightarrow> (\<forall>t. number_end t \<longrightarrow> lex (s @ t) = map_option ((@) ks) (lex t))"

lemma lexedD: "lexed s ks \<Longrightarrow> number_end t \<Longrightarrow> lex (s @ t) = map_option ((@) ks) (lex t)"
  by (simp add: lexed_def)

lemma lex_punct: "punct c = Some k \<Longrightarrow> lex (c # t) = map_option ((#) k) (lex t)"
proof -
  assume p: "punct c = Some k"
  then have "c \<in> set ''{}[]:,''" by (auto simp: punct_def split: if_splits)
  moreover have "\<forall>c \<in> set ''{}[]:,''. \<not> json_space c" by code_simp
  ultimately have "\<not> json_space c" by blast
  then show ?thesis using p by (subst lex.simps) simp
qed

lemma punct_end: "punct c = Some k \<Longrightarrow> number_end (c # t)"
proof -
  assume p: "punct c = Some k"
  then have "c \<in> set ''{}[]:,''" by (auto simp: punct_def split: if_splits)
  moreover have "\<forall>c \<in> set ''{}[]:,''. \<not> digit_char c \<and> c \<noteq> CHR ''.'' \<and> c \<noteq> CHR ''e'' \<and> c \<noteq> CHR ''E''" by code_simp
  ultimately have "\<not> digit_char c \<and> c \<noteq> CHR ''.'' \<and> c \<noteq> CHR ''e'' \<and> c \<noteq> CHR ''E''" by blast
  then show ?thesis by (simp add: number_end_def)
qed

lemma puncts:
  "punct (CHR ''{'') = Some TLBrace" "punct (CHR ''}'') = Some TRBrace" "punct (CHR ''['') = Some TLBrack"
  "punct (CHR '']'') = Some TRBrack" "punct (CHR '':'') = Some TColon" "punct (CHR '','') = Some TComma"
  by code_simp+

lemma lex_string: "ValidString s \<Longrightarrow> lex (enc_string s @ t) = map_option ((#) (TLit (JStr s))) (lex t)"
proof -
  assume v: "ValidString s"
  have "\<not> json_space QUOTE" "punct QUOTE = None" by code_simp+
  then show ?thesis using lex_str_quoted [OF v, of t] enc_body(2) [OF v]
    unfolding enc_string_def by (subst lex.simps) simp
qed

lemma lex_words:
  "lex (''null'' @ t) = map_option ((#) (TLit JNull)) (lex t)"
  "lex (''true'' @ t) = map_option ((#) (TLit (JBool True))) (lex t)"
  "lex (''false'' @ t) = map_option ((#) (TLit (JBool False))) (lex t)"
proof -
  have c: "\<forall>c \<in> set ''ntf''. \<not> json_space c \<and> punct c = None \<and> c \<noteq> QUOTE" by code_simp
  show "lex (''null'' @ t) = map_option ((#) (TLit JNull)) (lex t)"
    "lex (''true'' @ t) = map_option ((#) (TLit (JBool True))) (lex t)"
    "lex (''false'' @ t) = map_option ((#) (TLit (JBool False))) (lex t)"
    using c by (subst lex.simps, simp add: HasPrefix_def)+
qed

lemma lex_number:
  assumes "good_num n" "number_end t"
  shows "lex (n @ t) = map_option ((#) (TLit (JNum n))) (lex t)"
proof -
  obtain c n' where n: "n = c # n'" using assms(1) by (cases n) (auto simp: good_num_def)
  from assms have l: "lex_num (c # n' @ t) = Some (n, t)" by (simp add: good_num_def n)
  have "c \<in> set ''-0123456789''" using assms(1) by (auto simp: good_num_def n digit_char_def)
  moreover have "\<forall>c \<in> set ''-0123456789''. \<not> json_space c \<and> punct c = None \<and> c \<noteq> QUOTE \<and> c \<noteq> CHR ''n'' \<and> c \<noteq> CHR ''t'' \<and> c \<noteq> CHR ''f''"
    by code_simp
  ultimately have "\<not> json_space c" "punct c = None" "c \<noteq> QUOTE" "c \<noteq> CHR ''n''" "c \<noteq> CHR ''t''" "c \<noteq> CHR ''f''" by blast+
  then show ?thesis using l unfolding n by (subst lex.simps) (simp add: HasPrefix_def)
qed

lemma lex_commas:
  assumes "\<And>x. x \<in> set xs \<Longrightarrow> lexed (f x) (g x)" "punct c = Some k"
  shows "lex (Join (map f xs) '','' @ c # t) = map_option (\<lambda>ks. commas (map g xs) @ k # ks) (lex t)"
  using assms(1)
proof (induction xs rule: induct_list012)
  case 1
  show ?case using lex_punct [OF assms(2)] by simp
next
  case (2 x)
  then show ?case using lexedD [of "f x" "g x" "c # t"] lex_punct [OF assms(2)] punct_end [OF assms(2)]
    by (simp add: option.map_comp o_def)
next
  case (3 x y xs)
  have IH: "lex (Join (map f (y # xs)) '','' @ c # t) = map_option (\<lambda>ks. commas (map g (y # xs)) @ k # ks) (lex t)"
    using 3 by simp
  have "lex (f x @ CHR '','' # Join (map f (y # xs)) '','' @ c # t) =
      map_option ((@) (g x)) (lex (CHR '','' # Join (map f (y # xs)) '','' @ c # t))"
    using "3.prems" by (intro lexedD punct_end [OF puncts(6)]) simp
  also have "\<dots> = map_option (\<lambda>ks. g x @ TComma # commas (map g (y # xs)) @ k # ks) (lex t)"
    unfolding lex_punct [OF puncts(6)] IH by (simp add: option.map_comp o_def)
  finally show ?case by simp
qed

lemma append_Cons_fun: "(@) (k # ks) = (\<lambda>r. k # ks @ r)"
  by (simp add: fun_eq_iff)

lemma lexed_lit: "(\<And>t. lex (s @ t) = map_option ((#) k) (lex t)) \<Longrightarrow> lexed s [k]"
  by (simp add: lexed_def append_Cons_fun)

lemma lexed_brackets:
  assumes "\<And>x. x \<in> set xs \<Longrightarrow> lexed (f x) (g x)" "punct a = Some ka" "punct b = Some kb"
  shows "lexed ([a] @ Join (map f xs) '','' @ [b]) (ka # commas (map g xs) @ [kb])"
  unfolding lexed_def
  using lex_commas [of xs f g, OF assms(1,3)] lex_punct [OF assms(2)] by (simp add: option.map_comp o_def append_Cons_fun)

lemma lexed_json: "good_json j \<Longrightarrow> lexed (enc_json j) (toks j)"
proof (induction j)
  case JNull
  show ?case using lex_words(1) by (simp add: lexed_lit)
next
  case (JBool b)
  show ?case using lex_words(2,3) by (simp add: lexed_lit)
next
  case (JNum n)
  then show ?case using lex_number by (simp add: lexed_def append_Cons_fun)
next
  case (JStr s)
  then show ?case using lex_string by (simp add: lexed_lit)
next
  case (JArr js)
  then have "lexed (enc_json x) (toks x)" if "x \<in> set js" for x using that by (auto simp: list_all_iff)
  from lexed_brackets [OF this puncts(3,4)] show ?case by simp
next
  case (JObj kvs)
  have "lexed ((\<lambda>(k, j). enc_string k @ '':'' @ enc_json j) kv) ((\<lambda>(k, j). TLit (JStr k) # TColon # toks j) kv)" if kv: "kv \<in> set kvs" for kv
  proof -
    obtain k v where kv': "kv = (k, v)" by fastforce
    with JObj kv have "lexed (enc_json v) (toks v)" "ValidString k" by (auto simp: list_all_iff)
    then show ?thesis using lex_string [of k] lex_punct [OF puncts(5)]
      by (simp add: kv' lexed_def option.map_comp o_def append_Cons_fun)
  qed
  from lexed_brackets [OF this puncts(1,2)] show ?case by simp
qed

section \<open>Parsing\<close>

lemma prun_append: "prun ps (a @ b) = (case prun ps a of None \<Rightarrow> None | Some ps \<Rightarrow> prun ps b)"
  by (induction a arbitrary: ps) (auto split: option.split)

lemma prun_elems:
  assumes "\<And>x m vs. x \<in> set xs \<Longrightarrow> m = MValue \<or> m = MFirstElem \<Longrightarrow> prun (m, FArr vs # st) (toks x) = Some (MAfter, FArr (vs @ [x]) # st)"
    and "xs \<noteq> []" "m = MValue \<or> m = MFirstElem"
  shows "prun (m, FArr vs # st) (commas (map toks xs)) = Some (MAfter, FArr (vs @ xs) # st)"
  using assms
proof (induction xs arbitrary: m vs rule: induct_list012)
  case (3 x y xs)
  have "prun (MValue, FArr (vs @ [x]) # st) (commas (map toks (y # xs))) = Some (MAfter, FArr ((vs @ [x]) @ y # xs) # st)"
    using 3 by simp
  then show ?case using "3.prems" by (simp add: prun_append)
qed auto

lemma prun_members:
  assumes "\<And>k x kvs. (k, x) \<in> set xs \<Longrightarrow> prun (MValue, FKey kvs k # st) (toks x) = Some (MAfter, FObj (kvs @ [(k, x)]) # st)"
    and "xs \<noteq> []" "m = MKey \<or> m = MFirstKey"
  shows "prun (m, FObj kvs # st) (commas (map (\<lambda>(k, j). TLit (JStr k) # TColon # toks j) xs)) = Some (MAfter, FObj (kvs @ xs) # st)"
  using assms
proof (induction xs arbitrary: m kvs rule: induct_list012)
  case (2 kv)
  then show ?case by (cases kv) auto
next
  case (3 kv y xs)
  obtain k x where kv: "kv = (k, x)" by fastforce
  have "prun (MKey, FObj (kvs @ [(k, x)]) # st) (commas (map (\<lambda>(k, j). TLit (JStr k) # TColon # toks j) (y # xs))) = Some (MAfter, FObj ((kvs @ [(k, x)]) @ y # xs) # st)"
    using 3 by simp
  moreover have "prun (m, FObj kvs # st) (TLit (JStr k) # TColon # toks x) = Some (MAfter, FObj (kvs @ [(k, x)]) # st)"
    using "3.prems" kv by auto
  ultimately show ?case by (simp add: kv prun_append [of _ "_ # _ # _", simplified] prun_append)
qed simp

lemma depth_elem: "x \<in> set js \<Longrightarrow> depth x < depth (JArr js)"
  by (simp add: less_Suc_eq_le)

lemma depth_member: "(k, x) \<in> set kvs \<Longrightarrow> depth x < depth (JObj kvs)"
proof -
  assume "(k, x) \<in> set kvs"
  then have "depth x \<in> insert 0 (set (map (\<lambda>(k, j). depth j) kvs))" by force
  then show ?thesis by (simp add: less_Suc_eq_le del: insert_iff)
qed

lemma prun_value:
  "m = MValue \<or> m = MFirstElem \<Longrightarrow> depth j + length st \<le> maxNestingDepth \<Longrightarrow> prun (m, st) (toks j) = finish j st"
proof (induction j arbitrary: m st)
  case (JArr js)
  have el: "prun (m', FArr vs # st) (toks x) = Some (MAfter, FArr (vs @ [x]) # st)" if "x \<in> set js" "m' = MValue \<or> m' = MFirstElem" for x m' vs
    using JArr.IH [OF that(1,2), of "FArr vs # st"] depth_elem [OF that(1)] JArr.prems(2) by simp
  have "length st < maxNestingDepth" using JArr.prems(2) by simp
  with JArr.prems(1) el prun_elems [OF el, of js MFirstElem "[]"] show ?case
    by (cases "js = []") (auto simp: prun_append split: option.split)
next
  case (JObj kvs)
  have el: "prun (MValue, FKey ms k # st) (toks x) = Some (MAfter, FObj (ms @ [(k, x)]) # st)" if "(k, x) \<in> set kvs" for k x ms
    using JObj.IH [OF that, of x MValue "FKey ms k # st"] depth_member [OF that] JObj.prems(2) by simp
  have "length st < maxNestingDepth" using JObj.prems(2) by simp
  with JObj.prems(1) prun_members [OF el, of kvs MFirstKey "[]"] show ?case
    by (cases "kvs = []") (auto simp: prun_append split: option.split)
qed (auto split: option.split)

theorem parse_enc_json:
  assumes "good_json j" "depth j \<le> maxNestingDepth"
  shows "parse_json (enc_json j) = Some j"
proof -
  have "lex [] = Some []" by (simp add: lex.simps)
  then have "lex (enc_json j @ []) = Some (toks j)"
    using lexedD [OF lexed_json [OF assms(1)], of "[]"] by (simp add: number_end_def)
  moreover have "prun (MValue, []) (toks j) = Some (MDone j, [])"
    using prun_value [of MValue j "[]"] assms(2) by simp
  ultimately show ?thesis by (simp add: parse_json_def)
qed

section \<open>Numbers\<close>

lemma digit_char_utoa: "list_all digit_char (utoa n)"
  using set_utoa [of n] by (auto simp only: list_all_iff digit_char_def)

lemma utoa_lead: "n \<noteq> 0 \<Longrightarrow> hd (utoa n) \<noteq> CHR ''0''"
proof (induction n rule: less_induct)
  case (less n)
  show ?case
  proof (cases "n < 10")
    case True
    with less.prems have "n \<in> set [1..<10]" by auto
    moreover have "\<forall>n \<in> set [1..<10]. digit n \<noteq> CHR ''0''" by code_simp
    ultimately have "digit n \<noteq> CHR ''0''" by blast
    with True show ?thesis by simp
  next
    case False
    then have "hd (utoa (n div 10)) \<noteq> CHR ''0''" by (intro less.IH) auto
    with False show ?thesis by (simp add: utoa_large hd_append)
  qed
qed

lemma takeWhile_digits: "list_all digit_char ds \<Longrightarrow> number_end t \<Longrightarrow> takeWhile digit_char (ds @ t) = ds \<and> dropWhile digit_char (ds @ t) = t"
  by (cases t) (auto simp: list_all_iff number_end_def takeWhile_append dropWhile_append takeWhile_eq_all_conv)

lemma lex_frac_end: "number_end t \<Longrightarrow> lex_frac acc t = Some (acc, t)"
  by (auto simp: lex_frac_def lex_exp_def number_end_def split: list.split)

lemma good_num_Itoa: "good_num (Itoa i)"
proof -
  obtain u us where u: "utoa (nat (abs i)) = u # us" by (cases "utoa (nat (abs i))") auto
  then have d: "digit_char u" "list_all digit_char us" using digit_char_utoa [of "nat (abs i)"] by simp_all
  have nd: "\<not> digit_char (CHR ''-'')" "\<not> digit_char CHR ''-''" by code_simp+
  have z: "u = CHR ''0'' \<Longrightarrow> us = [] \<and> i = 0"
    using utoa_lead [of "nat (abs i)"] u by (cases "i = 0") (auto simp: utoa.simps [of 0])
  have l: "lex_num (u # us @ t) = Some (u # us, t)" "lex_num (CHR ''-'' # u # us @ t) = Some (CHR ''-'' # u # us, t)" if "number_end t" for t
    using takeWhile_digits [OF d(2) that] lex_frac_end [OF that] z d nd
    by (auto simp: lex_num_def Let_def)
  show ?thesis
    using l u d by (cases "i < 0") (auto simp: good_num_def Itoa_def)
qed

lemma parse_integer_Itoa: "parse_integer (Itoa i) = Some i"
proof -
  obtain u us where u: "utoa (nat (abs i)) = u # us" by (cases "utoa (nat (abs i))") auto
  have d: "list_all digit_char (u # us)" and v: "digits_val (u # us) = abs i"
    using digit_char_utoa [of "nat (abs i)"] digits_val_utoa [of "nat (abs i)"] by (simp_all add: u)
  have "\<not> digit_char (CHR ''-'')" by code_simp
  with d have "u \<noteq> CHR ''-''" by auto
  with u d v show ?thesis by (cases "i < 0") (simp_all add: Itoa_def parse_integer_def)
qed

end
