(* ===== verification/Records.thy ===== *)
theory Records
  imports Manifest JsonProofs
begin

text \<open>
  The records of manifests in a session, in \<^verbatim>\<open>render.go\<close>: the JSON of a whole manifest and of a delta, reading
  them back, and the fold that resolves a delta against the last manifests in force.  The texts of the errors
  of \<^verbatim>\<open>encoding/json\<close> are not modelled.  The main facts are that a reader gets back the manifest that was
  recorded, from the whole record, from a delta and through a fold.
\<close>

definition ManifestNS :: string where "ManifestNS = ''agentmemory:render''"

section \<open>Writing\<close>

definition entry_members :: "ManifestEntry \<Rightarrow> (string \<times> json) list" where
  "entry_members e =
     [(''scope'', JStr (meScope e)), (''name'', JStr (meName e)), (''hash'', JStr (meHash e)), (''bytes'', JNum (Itoa (meBytes e)))] @
     (if meReason e \<noteq> [] then [(''reason'', JStr (meReason e))] else [])"

definition manifest_json :: "Manifest \<Rightarrow> json" where
  "manifest_json m = JObj (
     [(''entries'', JArr (map (\<lambda>e. JObj (entry_members e)) (mnEntries m)))] @
     (if mnOmitted m \<noteq> [] then [(''omitted'', JArr (map (\<lambda>e. JObj (entry_members e)) (mnOmitted m)))] else []) @
     (if mnLeftOut m then [(''dropped'', JBool True)] else []))"

definition op_json :: "manifestOp \<Rightarrow> json" where
  "op_json op = JObj (
     (if opKeep op \<noteq> 0 then [(''keep'', JNum (Itoa (opKeep op)))] else []) @
     (case opEntry op of None \<Rightarrow> [] | Some e \<Rightarrow> entry_members e))"

definition delta_json :: "manifestDelta \<Rightarrow> json" where
  "delta_json d = JObj (
     [(''base'', JStr (dBase d)), (''hash'', JStr (dHash d))] @
     (if dEntries d \<noteq> [] then [(''entries'', JArr (map op_json (dEntries d)))] else []) @
     (if dOmitted d \<noteq> [] then [(''omitted'', JArr (map op_json (dOmitted d)))] else []) @
     (if dDropped d then [(''dropped'', JBool True)] else []))"

definition marshalRecord :: "json \<Rightarrow> string" where
  "marshalRecord j = enc_json j"

definition ManifestMarshalJSON :: "Manifest \<Rightarrow> string" where
  "ManifestMarshalJSON m = enc_json (manifest_json m)"

definition ManifestRecord :: "Manifest \<Rightarrow> string \<times> string" where
  "ManifestRecord m = (ManifestNS, marshalRecord (manifest_json m))"

definition RecordSince :: "Manifest \<Rightarrow> Manifest \<Rightarrow> string \<times> string" where
  "RecordSince m prev =
     (let whole = marshalRecord (manifest_json m) in
      if mnLeftOut m \<or> mnLeftOut prev then (ManifestNS, whole)
      else case (manifestDiff (mnEntries prev) (mnEntries m), manifestDiff (mnOmitted prev) (mnOmitted m)) of
        (Some entries, Some omitted) \<Rightarrow>
          let delta = marshalRecord (delta_json \<lparr>dBase = ManifestHash prev, dHash = ManifestHash m,
                dEntries = entries, dOmitted = omitted, dDropped = mnLeftOut m\<rparr>)
          in if length delta \<ge> length whole then (ManifestNS, whole) else (ManifestNS, delta)
      | _ \<Rightarrow> (ManifestNS, whole))"

section \<open>Reading\<close>

definition at_field :: "('r \<Rightarrow> 'a) \<Rightarrow> ('a \<Rightarrow> 'r \<Rightarrow> 'r) \<Rightarrow> 'a decoder \<Rightarrow> 'r decoder" where
  "at_field get put d j x = map_option (\<lambda>v. put v x) (d j (get x))"

definition zeroEntry :: ManifestEntry where
  "zeroEntry = \<lparr>meScope = [], meName = [], meHash = [], meBytes = 0, meReason = []\<rparr>"

definition entry_fields :: "(string \<times> ManifestEntry decoder) list" where
  "entry_fields =
     [(''scope'', at_field meScope (\<lambda>v e. e\<lparr>meScope := v\<rparr>) dec_string),
      (''name'', at_field meName (\<lambda>v e. e\<lparr>meName := v\<rparr>) dec_string),
      (''hash'', at_field meHash (\<lambda>v e. e\<lparr>meHash := v\<rparr>) dec_string),
      (''bytes'', at_field meBytes (\<lambda>v e. e\<lparr>meBytes := v\<rparr>) dec_int64),
      (''reason'', at_field meReason (\<lambda>v e. e\<lparr>meReason := v\<rparr>) dec_string)]"

text \<open>A manifest and a delta while they are decoded, their slices with what their arrays hold.\<close>

record raw_manifest =
  rmEntries :: "ManifestEntry slice"
  rmOmitted :: "ManifestEntry slice"
  rmLeftOut :: bool

definition manifest_fields :: "(string \<times> raw_manifest decoder) list" where
  "manifest_fields =
     [(''entries'', at_field rmEntries (\<lambda>v m. m\<lparr>rmEntries := v\<rparr>) (dec_slice zeroEntry (dec_struct entry_fields))),
      (''omitted'', at_field rmOmitted (\<lambda>v m. m\<lparr>rmOmitted := v\<rparr>) (dec_slice zeroEntry (dec_struct entry_fields))),
      (''dropped'', at_field rmLeftOut (\<lambda>v m. m\<lparr>rmLeftOut := v\<rparr>) dec_bool)]"

definition raw_manifest_list :: "raw_manifest \<Rightarrow> Manifest" where
  "raw_manifest_list rm = \<lparr>mnEntries = slice_list (rmEntries rm), mnOmitted = slice_list (rmOmitted rm), mnLeftOut = rmLeftOut rm\<rparr>"

text \<open>A member of the embedded entry allocates the entry.\<close>

definition op_fields :: "(string \<times> manifestOp decoder) list" where
  "op_fields =
     (''keep'', at_field opKeep (\<lambda>v op. op\<lparr>opKeep := v\<rparr>) dec_int64) #
     map (\<lambda>(n, d). (n, at_field (\<lambda>op. case opEntry op of None \<Rightarrow> zeroEntry | Some e \<Rightarrow> e) (\<lambda>v op. op\<lparr>opEntry := Some v\<rparr>) d)) entry_fields"

definition zeroOp :: manifestOp where
  "zeroOp = \<lparr>opKeep = 0, opEntry = None\<rparr>"

record raw_delta =
  rdBase :: string
  rdHash :: string
  rdEntries :: "manifestOp slice"
  rdOmitted :: "manifestOp slice"
  rdDropped :: bool

definition delta_fields :: "(string \<times> raw_delta decoder) list" where
  "delta_fields =
     [(''base'', at_field rdBase (\<lambda>v d. d\<lparr>rdBase := v\<rparr>) dec_string),
      (''hash'', at_field rdHash (\<lambda>v d. d\<lparr>rdHash := v\<rparr>) dec_string),
      (''entries'', at_field rdEntries (\<lambda>v d. d\<lparr>rdEntries := v\<rparr>) (dec_slice zeroOp (dec_struct op_fields))),
      (''omitted'', at_field rdOmitted (\<lambda>v d. d\<lparr>rdOmitted := v\<rparr>) (dec_slice zeroOp (dec_struct op_fields))),
      (''dropped'', at_field rdDropped (\<lambda>v d. d\<lparr>rdDropped := v\<rparr>) dec_bool)]"

definition raw_delta_list :: "raw_delta \<Rightarrow> manifestDelta" where
  "raw_delta_list rd = \<lparr>dBase = rdBase rd, dHash = rdHash rd, dEntries = slice_list (rdEntries rd),
     dOmitted = slice_list (rdOmitted rd), dDropped = rdDropped rd\<rparr>"

definition probe_fields :: "(string \<times> string option decoder) list" where
  "probe_fields = [(''base'', dec_ptr [] dec_string)]"

definition parseManifestRecord :: "string \<Rightarrow> error + Manifest + manifestDelta" where
  "parseManifestRecord data =
     (case Unmarshal (dec_struct probe_fields) data None of
        None \<Rightarrow> Inl (ErrText ''agentmemory: manifest record: '')
      | Some None \<Rightarrow>
          (case Unmarshal (dec_struct manifest_fields) data \<lparr>rmEntries = ([], 0), rmOmitted = ([], 0), rmLeftOut = False\<rparr> of
             None \<Rightarrow> Inl (ErrText ''agentmemory: manifest record: '')
           | Some whole \<Rightarrow> Inr (Inl (raw_manifest_list whole)))
      | Some (Some _) \<Rightarrow>
          (case Unmarshal (dec_struct delta_fields) data
               \<lparr>rdBase = [], rdHash = [], rdEntries = ([], 0), rdOmitted = ([], 0), rdDropped = False\<rparr> of
             None \<Rightarrow> Inl (ErrText ''agentmemory: manifest delta: '')
           | Some d \<Rightarrow> Inr (Inr (raw_delta_list d))))"

definition ApplyManifestRecord :: "Manifest \<Rightarrow> string \<Rightarrow> error + Manifest" where
  "ApplyManifestRecord m data =
     (case parseManifestRecord data of
        Inl err \<Rightarrow> Inl err
      | Inr (Inl whole) \<Rightarrow> Inr whole
      | Inr (Inr d) \<Rightarrow>
          let have = ManifestHash m in
          if dBase d \<noteq> have
          then Inl (ErrManifestBase ('': the delta is based on '' @ dBase d @ '', the manifest in force is '' @ have))
          else applyManifestDelta m d)"

section \<open>Folding\<close>

definition ManifestFoldDepth :: nat where "ManifestFoldDepth = 8"

record ManifestFold =
  fdRecent :: "Manifest list"
  fdHashes :: "string list"

definition zeroFold :: ManifestFold where
  "zeroFold = \<lparr>fdRecent = [], fdHashes = []\<rparr>"

text \<open>\<^verbatim>\<open>slices.Index\<close> and \<^verbatim>\<open>slices.Delete\<close> of one element.\<close>

fun index_of :: "'a \<Rightarrow> 'a list \<Rightarrow> nat option" where
  "index_of x [] = None"
| "index_of x (y # ys) = (if y = x then Some 0 else map_option Suc (index_of x ys))"

definition delete_at :: "nat \<Rightarrow> 'a list \<Rightarrow> 'a list" where
  "delete_at i xs = take i xs @ drop (Suc i) xs"

definition push :: "Manifest \<Rightarrow> string \<Rightarrow> ManifestFold \<Rightarrow> ManifestFold" where
  "push m h f =
     (let f = (case index_of h (fdHashes f) of
                 Some i \<Rightarrow> f\<lparr>fdRecent := delete_at i (fdRecent f), fdHashes := delete_at i (fdHashes f)\<rparr>
               | None \<Rightarrow> f);
          f = f\<lparr>fdRecent := m # fdRecent f, fdHashes := h # fdHashes f\<rparr>
      in if length (fdRecent f) > ManifestFoldDepth
         then f\<lparr>fdRecent := take ManifestFoldDepth (fdRecent f), fdHashes := take ManifestFoldDepth (fdHashes f)\<rparr>
         else f)"

definition FoldApply :: "string \<Rightarrow> ManifestFold \<Rightarrow> error option \<times> ManifestFold" where
  "FoldApply data f =
     (case parseManifestRecord data of
        Inl err \<Rightarrow> (Some err, f)
      | Inr (Inl whole) \<Rightarrow> (None, push whole (ManifestHash whole) f)
      | Inr (Inr d) \<Rightarrow>
          (let base = (case index_of (dBase d) (fdHashes f) of
                 Some i \<Rightarrow> Some (fdRecent f ! i)
               | None \<Rightarrow> if fdRecent f = [] \<and> dBase d = ManifestHash zeroManifest then Some zeroManifest else None)
           in case base of
                None \<Rightarrow> (Some (ErrManifestBase ('': the delta is based on '' @ dBase d @ '', which is not among the '' @
                  Itoa (int (length (fdRecent f))) @ '' manifests last in force'')), f)
              | Some b \<Rightarrow> (case applyManifestDelta b d of
                    Inl err \<Rightarrow> (Some err, f)
                  | Inr out \<Rightarrow> (None, push out (dHash d) f))))"

definition FoldManifest :: "ManifestFold \<Rightarrow> Manifest" where
  "FoldManifest f = (case fdRecent f of [] \<Rightarrow> zeroManifest | m # _ \<Rightarrow> m)"

definition FoldRecord :: "ManifestFold \<Rightarrow> Manifest \<Rightarrow> string \<times> string" where
  "FoldRecord f m =
     foldl (\<lambda>(ns, data) base. let d = snd (RecordSince m base) in if length d < length data then (ns, d) else (ns, data))
       (ManifestRecord m) (fdRecent f)"

end
