(* ===== verification/RecordProofs.thy ===== *)
theory RecordProofs
  imports Records
begin

text \<open>
  The records of manifests read back: a whole record whatever is in force, a delta against the manifest it was
  written on, and the smallest record of a fold through that fold, which keeps its manifests distinct and
  bounded in number.
\<close>

section \<open>Valid strings\<close>

lemma valid_ascii: "(\<And>c. c \<in> set s \<Longrightarrow> byte c < 0x80) \<Longrightarrow> ValidString s"
proof (induction s)
  case (Cons a s)
  then have "byte a < 0x80" "ValidString s" by simp_all
  then show ?case by (auto simp: ValidString_def runes_ascii RuneError_def)
qed (simp add: ValidString_def)

lemma hex_ascii: "c \<in> set ''0123456789abcdef'' \<Longrightarrow> byte c < 0x80"
proof -
  have "\<forall>c \<in> set ''0123456789abcdef''. byte c < 0x80" by code_simp
  then show "c \<in> set ''0123456789abcdef'' \<Longrightarrow> byte c < 0x80" by blast
qed

lemma valid_Hash: "ValidString (Hash s)"
proof (rule valid_ascii)
  fix c assume "c \<in> set (Hash s)"
  then have "c \<in> set ''sha256:'' \<or> c \<in> set ''0123456789abcdef''"
    using set_EncodeToString [of "Sum256 s"] by (auto simp only: Hash_def set_append)
  moreover have "\<forall>c \<in> set ''sha256:''. byte c < 0x80" by code_simp
  ultimately show "byte c < 0x80" using hex_ascii by blast
qed

section \<open>Entries\<close>

definition int64 :: "int \<Rightarrow> bool" where
  "int64 i \<longleftrightarrow> - (2 ^ 63) \<le> i \<and> i < 2 ^ 63"

definition entry_text :: "ManifestEntry \<Rightarrow> bool" where
  "entry_text e \<longleftrightarrow> ValidString (meScope e) \<and> ValidString (meName e) \<and> ValidString (meHash e) \<and> ValidString (meReason e) \<and> int64 (meBytes e)"

definition manifest_text :: "Manifest \<Rightarrow> bool" where
  "manifest_text m \<longleftrightarrow> list_all entry_text (mnEntries m) \<and> list_all entry_text (mnOmitted m)"

lemma dec_int64_Itoa: "int64 i \<Longrightarrow> dec_int64 (JNum (Itoa i)) old = Some i"
  by (simp add: dec_int_def parse_integer_Itoa int64_def)

lemmas dec_int64_num = dec_int64_Itoa [simplified]

lemma dec_entry: "int64 (meBytes e) \<Longrightarrow> dec_struct entry_fields (JObj (entry_members e)) zeroEntry = Some e"
  by (simp add: dec_struct_def entry_members_def entry_fields_def find_field_def at_field_def dec_string_def dec_int64_num zeroEntry_def)

lemma dec_elems_map: "(\<And>x. x \<in> set xs \<Longrightarrow> d (f x) zero = Some x) \<Longrightarrow> dec_elems zero d (map f xs) [] = Some xs"
  by (induction xs) simp_all

lemma dec_slice_map: "(\<And>x. x \<in> set xs \<Longrightarrow> d (f x) zero = Some x) \<Longrightarrow> dec_slice zero d (JArr (map f xs)) ([], 0) = Some (xs, length xs)"
  using dec_elems_map [of xs d f zero] by (simp add: dec_slice_def)

lemma slice_list_all [simp]: "slice_list (xs, length xs) = xs" "slice_list ([], n) = []"
  by (simp_all add: slice_list_def)

lemma depth_JArr_le: "(\<And>x. x \<in> set js \<Longrightarrow> depth x \<le> n) \<Longrightarrow> depth (JArr js) \<le> Suc n"
  by simp

lemma depth_JObj_le: "(\<And>k x. (k, x) \<in> set kvs \<Longrightarrow> depth x \<le> n) \<Longrightarrow> depth (JObj kvs) \<le> Suc n"
  by auto

lemma valid_names_json:
  "ValidString ''scope''" "ValidString ''name''" "ValidString ''hash''" "ValidString ''bytes''" "ValidString ''reason''"
  "ValidString ''entries''" "ValidString ''omitted''" "ValidString ''dropped''" "ValidString ''base''" "ValidString ''keep''"
  by code_simp+

lemma good_entry: "entry_text e \<Longrightarrow> list_all (\<lambda>(k, j). ValidString k \<and> good_json j) (entry_members e)"
  by (simp add: entry_members_def entry_text_def valid_names_json good_num_Itoa)

lemma depth_entry: "(k, x) \<in> set (entry_members e) \<Longrightarrow> depth x = 0"
  by (auto simp: entry_members_def split: if_splits)

section \<open>Whole records\<close>

lemma good_elems: "list_all P xs \<Longrightarrow> (\<And>x. P x \<Longrightarrow> good_json (f x)) \<Longrightarrow> good_json (JArr (map f xs))"
  by (simp add: list_all_iff)

lemma good_manifest: "manifest_text m \<Longrightarrow> good_json (manifest_json m)"
  using good_elems [of entry_text _ "\<lambda>e. JObj (entry_members e)"] good_entry
  by (simp add: manifest_json_def manifest_text_def valid_names_json)

lemma depth_manifest: "depth (manifest_json m) \<le> maxNestingDepth"
proof -
  have e: "depth (JObj (entry_members e)) \<le> Suc 0" for e by (rule depth_JObj_le) (simp add: depth_entry)
  have a: "depth (JArr (map (\<lambda>e. JObj (entry_members e)) es)) \<le> Suc (Suc 0)" for es by (rule depth_JArr_le) (use e in auto)
  have "depth (manifest_json m) \<le> Suc (Suc (Suc 0))"
    unfolding manifest_json_def by (rule depth_JObj_le) (use a in \<open>auto split: if_splits\<close>)
  then show ?thesis by (simp add: maxNestingDepth_def)
qed

lemma folds_apart:
  "fold_name ''base'' \<noteq> fold_name ''entries''" "fold_name ''base'' \<noteq> fold_name ''omitted''" "fold_name ''base'' \<noteq> fold_name ''dropped''"
  "fold_name ''base'' \<noteq> fold_name ''hash''"
  by code_simp+

lemma dec_manifest:
  assumes "manifest_text m"
  shows "dec_struct manifest_fields (manifest_json m) \<lparr>rmEntries = ([], 0), rmOmitted = ([], 0), rmLeftOut = False\<rparr> =
    Some \<lparr>rmEntries = (mnEntries m, length (mnEntries m)), rmOmitted = (mnOmitted m, length (mnOmitted m)), rmLeftOut = mnLeftOut m\<rparr>"
proof -
  have "dec_slice zeroEntry (dec_struct entry_fields) (JArr (map (\<lambda>e. JObj (entry_members e)) es)) ([], 0) = Some (es, length es)"
    if "list_all entry_text es" for es
    by (rule dec_slice_map) (use that in \<open>simp add: dec_entry list_all_iff entry_text_def\<close>)
  then show ?thesis using assms
    by (simp add: dec_struct_def manifest_json_def manifest_fields_def find_field_def at_field_def dec_bool_def manifest_text_def)
qed

lemma parse_whole:
  assumes "manifest_text m"
  shows "parseManifestRecord (enc_json (manifest_json m)) = Inr (Inl m)"
proof -
  note p = parse_enc_json [OF good_manifest [OF assms] depth_manifest]
  have probe: "dec_struct probe_fields (manifest_json m) None = Some None"
    using folds_apart by (simp add: dec_struct_def manifest_json_def probe_fields_def find_field_def)
  show ?thesis
    by (simp add: parseManifestRecord_def Unmarshal_def p probe dec_manifest [OF assms] raw_manifest_list_def)
qed

section \<open>Deltas\<close>

definition op_text :: "manifestOp \<Rightarrow> bool" where
  "op_text op \<longleftrightarrow> int64 (opKeep op) \<and> (case opEntry op of None \<Rightarrow> True | Some e \<Rightarrow> entry_text e)"

definition delta_text :: "manifestDelta \<Rightarrow> bool" where
  "delta_text d \<longleftrightarrow> ValidString (dBase d) \<and> ValidString (dHash d) \<and> list_all op_text (dEntries d) \<and> list_all op_text (dOmitted d)"

lemma dec_op: "op_text op \<Longrightarrow> dec_struct op_fields (op_json op) zeroOp = Some op"
proof (cases "opEntry op")
  case None
  then show "op_text op \<Longrightarrow> ?thesis"
    by (simp add: op_text_def op_json_def op_fields_def dec_struct_def find_field_def at_field_def dec_int64_num zeroOp_def)
next
  case (Some e)
  then show "op_text op \<Longrightarrow> ?thesis"
    by (simp add: op_text_def op_json_def op_fields_def dec_struct_def find_field_def at_field_def dec_int64_num zeroOp_def
        entry_members_def entry_fields_def entry_text_def dec_string_def zeroEntry_def)
qed

lemma good_op: "op_text op \<Longrightarrow> good_json (op_json op)"
  using good_entry by (auto simp: op_text_def op_json_def valid_names_json good_num_Itoa split: option.splits)

lemma depth_op: "depth (op_json op) \<le> Suc 0"
  unfolding op_json_def by (rule depth_JObj_le) (auto dest: depth_entry split: if_splits option.splits)

lemma good_delta: "delta_text d \<Longrightarrow> good_json (delta_json d)"
  using good_elems [of op_text _ op_json] good_op by (simp add: delta_json_def delta_text_def valid_names_json)

lemma depth_delta: "depth (delta_json d) \<le> maxNestingDepth"
proof -
  have a: "depth (JArr (map op_json ops)) \<le> Suc (Suc 0)" for ops by (rule depth_JArr_le) (use depth_op in auto)
  have "depth (delta_json d) \<le> Suc (Suc (Suc 0))"
    unfolding delta_json_def by (rule depth_JObj_le) (use a in \<open>auto split: if_splits\<close>)
  then show ?thesis by (simp add: maxNestingDepth_def)
qed

lemma dec_delta:
  assumes "delta_text d"
  shows "dec_struct delta_fields (delta_json d) \<lparr>rdBase = [], rdHash = [], rdEntries = ([], 0), rdOmitted = ([], 0), rdDropped = False\<rparr> =
    Some \<lparr>rdBase = dBase d, rdHash = dHash d, rdEntries = (dEntries d, length (dEntries d)), rdOmitted = (dOmitted d, length (dOmitted d)), rdDropped = dDropped d\<rparr>"
proof -
  have "dec_slice zeroOp (dec_struct op_fields) (JArr (map op_json ops)) ([], 0) = Some (ops, length ops)"
    if "list_all op_text ops" for ops
    by (rule dec_slice_map) (use that in \<open>simp add: dec_op list_all_iff\<close>)
  then show ?thesis using assms
    by (simp add: dec_struct_def delta_json_def delta_fields_def find_field_def at_field_def dec_bool_def dec_string_def delta_text_def)
qed

lemma parse_delta:
  assumes "delta_text d"
  shows "parseManifestRecord (enc_json (delta_json d)) = Inr (Inr d)"
proof -
  note p = parse_enc_json [OF good_delta [OF assms] depth_delta]
  have probe: "dec_struct probe_fields (delta_json d) None = Some (Some (dBase d))"
    using folds_apart by (simp add: dec_struct_def delta_json_def probe_fields_def find_field_def dec_ptr_def dec_string_def)
  show ?thesis
    by (simp add: parseManifestRecord_def Unmarshal_def p probe dec_delta [OF assms] raw_delta_list_def)
qed

section \<open>The operations a writer writes\<close>

definition diff_op :: "ManifestEntry list \<Rightarrow> ManifestEntry list \<Rightarrow> manifestOp \<Rightarrow> bool" where
  "diff_op prev nxt op \<longleftrightarrow> (\<exists>n \<le> length prev. op = keepOp n) \<or> (\<exists>e \<in> set nxt. op = entryOp e)"

lemma diff_flush_ops:
  assumes "diff_ok prev at seen st" "list_all (diff_op prev nxt) (fst st)"
  shows "list_all (diff_op prev nxt) (fst (diff_flush st))"
proof -
  obtain out cursor run where st: "st = (out, cursor, run)" by (cases st)
  have "diff_op prev nxt (keepOp run)" unfolding diff_op_def using assms(1) by (intro disjI1 exI [of _ run]) (auto simp: st)
  with assms(2) show ?thesis by (simp add: st)
qed

lemma diff_step_ops:
  assumes "diff_ok prev at seen st" "list_all (diff_op prev nxt) (fst st)" "e \<in> set nxt"
  shows "list_all (diff_op prev nxt) (fst (diff_step prev at st e))"
proof -
  obtain out cursor run where st: "st = (out, cursor, run)" by (cases st)
  obtain out' cursor' run' where fl: "diff_flush st = (out', cursor', run')" by (cases "diff_flush st")
  have "list_all (diff_op prev nxt) (out' @ [entryOp e])"
    using diff_flush_ops [OF assms(1,2)] assms(3) fl by (auto simp: diff_op_def)
  then show ?thesis using assms(2) fl
    by (auto simp: st simp del: diff_flush.simps split: option.split)
qed

lemma manifestDiff_ops:
  assumes "manifestDiff prev nxt = Some ops" "\<forall>e \<in> set nxt. names_entry e"
  shows "list_all (diff_op prev nxt) ops"
proof -
  from assms(1) obtain at where at: "manifestIndex prev = Some at"
    and ops: "ops = fst (diff_flush (foldl (diff_step prev at) ([], 0, 0) nxt))"
    by (auto simp: manifestDiff_def split: option.splits)
  have "list_all (diff_op prev nxt) (fst (foldl (diff_step prev at) ([], 0, 0) es))" if "set es \<subseteq> set nxt" for es
    using that
  proof (induction es rule: rev_induct)
    case (snoc e es)
    then have "diff_ok prev at es (foldl (diff_step prev at) ([], 0, 0) es)"
      using assms(2) by (intro diff_ok_fold [OF at]) auto
    with snoc show ?case using diff_step_ops by simp
  qed simp
  with diff_flush_ops [OF diff_ok_fold [OF at assms(2)]] show ?thesis by (simp add: ops)
qed

lemma diff_op_text:
  assumes "diff_op prev nxt op" "list_all entry_text nxt" "length prev < 2 ^ 63"
  shows "op_text op"
proof -
  have "op_text (keepOp n)" if "n \<le> length prev" for n
  proof -
    have "n < 2 ^ 63" using that assms(3) by (rule le_less_trans)
    then have "int n < int (2 ^ 63)" by (simp only: of_nat_less_iff)
    then show ?thesis by (simp add: op_text_def keepOp_def int64_def)
  qed
  then show ?thesis using assms(1,2) by (auto simp: diff_op_def op_text_def entryOp_def int64_def list_all_iff)
qed

definition named_manifest :: "Manifest \<Rightarrow> bool" where
  "named_manifest m \<longleftrightarrow> list_all names_entry (mnEntries m) \<and> list_all names_entry (mnOmitted m)"

definition small_manifest :: "Manifest \<Rightarrow> bool" where
  "small_manifest m \<longleftrightarrow> length (mnEntries m) < 2 ^ 63 \<and> length (mnOmitted m) < 2 ^ 63"

text \<open>What a record written on a manifest is: the whole manifest, or a delta that gives it.\<close>

lemma RecordSince_cases:
  assumes "manifest_text m" "named_manifest m" "small_manifest prev"
  obtains (whole) "snd (RecordSince m prev) = enc_json (manifest_json m)"
  | (delta) d where "parseManifestRecord (snd (RecordSince m prev)) = Inr (Inr d)" "dBase d = ManifestHash prev"
      "dHash d = ManifestHash m" "applyManifestDelta prev d = Inr m"
proof (cases "snd (RecordSince m prev) = enc_json (manifest_json m)")
  case False
  then obtain es oms where d: "manifestDiff (mnEntries prev) (mnEntries m) = Some es" "manifestDiff (mnOmitted prev) (mnOmitted m) = Some oms"
    and lo: "\<not> mnLeftOut m"
    and r: "snd (RecordSince m prev) = enc_json (delta_json \<lparr>dBase = ManifestHash prev, dHash = ManifestHash m, dEntries = es, dOmitted = oms, dDropped = mnLeftOut m\<rparr>)"
    by (auto simp: RecordSince_def Let_def marshalRecord_def split: if_splits option.splits)
  let ?d = "\<lparr>dBase = ManifestHash prev, dHash = ManifestHash m, dEntries = es, dOmitted = oms, dDropped = mnLeftOut m\<rparr>"
  have n: "\<forall>e \<in> set (mnEntries m). names_entry e" "\<forall>e \<in> set (mnOmitted m). names_entry e"
    using assms(2) by (simp_all add: named_manifest_def list_all_iff)
  have "list_all op_text es" "list_all op_text oms"
    using manifestDiff_ops [OF d(1) n(1)] manifestDiff_ops [OF d(2) n(2)] diff_op_text assms(1,3)
    by (auto simp: list_all_iff manifest_text_def small_manifest_def)
  then have "delta_text ?d" by (simp add: delta_text_def ManifestHash_def valid_Hash)
  from parse_delta [OF this] r have p: "parseManifestRecord (snd (RecordSince m prev)) = Inr (Inr ?d)" by simp
  have "applyManifestDelta prev ?d = Inr m"
    using diff_apply [OF d(1) n(1)] diff_apply [OF d(2) n(2)] by (cases m) (simp add: applyManifestDelta_def Let_def)
  with p show ?thesis by (intro delta) simp_all
qed (rule whole)

section \<open>Folds\<close>

definition fold_ok :: "ManifestFold \<Rightarrow> bool" where
  "fold_ok f \<longleftrightarrow> fdHashes f = map ManifestHash (fdRecent f) \<and> distinct (fdHashes f) \<and> length (fdRecent f) \<le> ManifestFoldDepth"

lemma index_of_None: "index_of x xs = None \<longleftrightarrow> x \<notin> set xs"
  by (induction xs) auto

lemma index_of_Some: "index_of x xs = Some i \<Longrightarrow> i < length xs \<and> xs ! i = x"
  by (induction xs arbitrary: i) (auto split: if_splits)

lemma delete_at_map: "delete_at i (map g xs) = map g (delete_at i xs)"
  by (simp add: delete_at_def take_map drop_map)

lemma delete_at_distinct: "distinct xs \<Longrightarrow> i < length xs \<Longrightarrow> distinct (delete_at i xs) \<and> set (delete_at i xs) = set xs - {xs ! i}"
proof -
  assume d: "distinct xs" and i: "i < length xs"
  obtain us v ws where xs: "xs = us @ v # ws" "length us = i" using i by (metis id_take_nth_drop length_take min.absorb4)
  with d show ?thesis by (auto simp: delete_at_def)
qed

lemma push_ok:
  assumes "fold_ok f"
  shows "fold_ok (push m (ManifestHash m) f)" "FoldManifest (push m (ManifestHash m) f) = m"
proof -
  define f1 where "f1 = (case index_of (ManifestHash m) (fdHashes f) of
      Some i \<Rightarrow> f\<lparr>fdRecent := delete_at i (fdRecent f), fdHashes := delete_at i (fdHashes f)\<rparr> | None \<Rightarrow> f)"
  have f1: "fdHashes f1 = map ManifestHash (fdRecent f1) \<and> distinct (fdHashes f1) \<and> ManifestHash m \<notin> set (fdHashes f1) \<and> length (fdRecent f1) \<le> 8"
  proof (cases "index_of (ManifestHash m) (fdHashes f)")
    case None
    then have "f1 = f" by (simp add: f1_def)
    moreover from None have "ManifestHash m \<notin> set (fdHashes f)" by (simp only: index_of_None) simp
    ultimately have "f1 = f \<and> ManifestHash m \<notin> set (fdHashes f)" by simp
    with assms show ?thesis unfolding fold_ok_def ManifestFoldDepth_def by metis
  next
    case (Some i)
    then have i: "i < length (fdHashes f)" "fdHashes f ! i = ManifestHash m" using index_of_Some [OF Some] by simp_all
    have "distinct (fdHashes f)" using assms unfolding fold_ok_def by metis
    note dd = delete_at_distinct [OF this i(1)]
    have g: "fdRecent f1 = delete_at i (fdRecent f)" "fdHashes f1 = delete_at i (fdHashes f)" by (simp_all add: f1_def Some)
    have "fdHashes f = map ManifestHash (fdRecent f)" "length (fdRecent f) \<le> 8" using assms by (simp_all add: fold_ok_def ManifestFoldDepth_def)
    then have "fdHashes f1 = map ManifestHash (fdRecent f1)" "length (fdRecent f1) \<le> 8"
      by (simp_all only: g delete_at_map) (simp add: delete_at_def)
    with dd i(2) g(2) show ?thesis by simp
  qed
  let ?f = "push m (ManifestHash m) f"
  have l: "length (fdRecent f1) = length (fdHashes f1)" using f1 by simp
  have r: "fdRecent ?f = take 8 (m # fdRecent f1)" "fdHashes ?f = take 8 (ManifestHash m # fdHashes f1)"
    unfolding push_def Let_def f1_def [symmetric] ManifestFoldDepth_def by (simp_all add: l)
  have "map ManifestHash (m # fdRecent f1) = ManifestHash m # fdHashes f1" using f1 by simp
  then have "fdHashes ?f = map ManifestHash (fdRecent ?f)" unfolding r by (simp only: take_map [symmetric])
  moreover have "distinct (fdHashes ?f)" unfolding r by (rule distinct_take) (use f1 in \<open>metis distinct.simps(2)\<close>)
  ultimately show "fold_ok ?f" unfolding fold_ok_def by (simp add: r ManifestFoldDepth_def)
  show "FoldManifest ?f = m" by (simp add: FoldManifest_def r)
qed

lemma FoldApply_ok:
  assumes "fold_ok f"
  shows "fold_ok (snd (FoldApply data f))"
proof -
  have "fold_ok (push out (dHash d) f)" if "applyManifestDelta b d = Inr out" for b d out
  proof -
    have "dHash d = ManifestHash out" using that by (auto simp: applyManifestDelta_def Let_def split: sum.splits if_splits)
    with push_ok(1) [OF assms] show ?thesis by simp
  qed
  then show ?thesis using push_ok(1) [OF assms] assms
    by (auto simp: FoldApply_def Let_def split: sum.split option.split)
qed

lemma FoldRecord_cases:
  "snd (FoldRecord f m) = snd (ManifestRecord m) \<or> (\<exists>base \<in> set (fdRecent f). snd (FoldRecord f m) = snd (RecordSince m base))"
proof -
  have "snd (foldl (\<lambda>(ns, data) base. let d = snd (RecordSince m base) in if length d < length data then (ns, d) else (ns, data)) st bs) = snd st \<or>
    (\<exists>base \<in> set bs. snd (foldl (\<lambda>(ns, data) base. let d = snd (RecordSince m base) in if length d < length data then (ns, d) else (ns, data)) st bs) = snd (RecordSince m base))" for st bs
  proof (induction bs rule: rev_induct)
    case (snoc b bs)
    then show ?case by (auto simp: Let_def split: prod.splits)
  qed simp
  then show ?thesis by (simp add: FoldRecord_def)
qed

lemma fold_base:
  assumes "fold_ok f" "base \<in> set (fdRecent f)"
  shows "\<exists>i. index_of (ManifestHash base) (fdHashes f) = Some i \<and> fdRecent f ! i = base"
proof -
  have h: "fdHashes f = map ManifestHash (fdRecent f)" "distinct (map ManifestHash (fdRecent f))"
    using assms(1) unfolding fold_ok_def by metis+
  obtain i where i: "index_of (ManifestHash base) (fdHashes f) = Some i"
    using index_of_None [of "ManifestHash base" "fdHashes f"] h(1) assms(2) by fastforce
  from index_of_Some [OF i] h(1) have "i < length (fdRecent f)" "ManifestHash (fdRecent f ! i) = ManifestHash base" by auto
  moreover from h(2) have "inj_on ManifestHash (set (fdRecent f))" by (simp add: distinct_map)
  ultimately have "fdRecent f ! i = base" using assms(2) by (auto dest: inj_onD)
  with i show ?thesis by blast
qed

section \<open>Properties\<close>

text \<open>The record of a manifest reads back as that manifest: a whole record whatever manifest the reader
  holds, and the record written on an earlier manifest, whole or a delta, for a reader that holds that
  manifest; every string is valid UTF-8, sizes are 64-bit integers and every entry is named.\<close>

theorem manifest_record_roundtrip:
  assumes "manifest_text m" "named_manifest m" "small_manifest prev"
  shows "ApplyManifestRecord other (snd (ManifestRecord m)) = Inr m \<and> ApplyManifestRecord prev (snd (RecordSince m prev)) = Inr m"
proof -
  have w: "ApplyManifestRecord other (enc_json (manifest_json m)) = Inr m" for other
    by (simp add: ApplyManifestRecord_def parse_whole [OF assms(1)])
  moreover have "ApplyManifestRecord prev (snd (RecordSince m prev)) = Inr m"
    using assms
  proof (cases rule: RecordSince_cases)
    case whole
    then show ?thesis by (simp add: w)
  next
    case (delta d)
    then show ?thesis by (simp add: ApplyManifestRecord_def)
  qed
  ultimately show ?thesis by (simp add: ManifestRecord_def marshalRecord_def)
qed

definition sample_manifest :: "int \<Rightarrow> Manifest" where
  "sample_manifest b = \<lparr>mnEntries = [me_sample ''a'' 1, me_sample ''b'' b], mnOmitted = [], mnLeftOut = False\<rparr>"

lemma sample_manifest_text: "int64 b \<Longrightarrow> manifest_text (sample_manifest b) \<and> named_manifest (sample_manifest b) \<and> small_manifest (sample_manifest b)"
proof -
  assume "int64 b"
  moreover have "ValidString ''user''" "ValidString ''a''" "ValidString ''b''" "ValidString ''h''" "ValidString []" by code_simp+
  ultimately show ?thesis
    by (simp add: manifest_text_def named_manifest_def small_manifest_def sample_manifest_def me_sample_def entry_text_def names_entry_def int64_def)
qed

theorem manifest_record_roundtrip_witness:
  "ApplyManifestRecord (sample_manifest 2) (snd (RecordSince (sample_manifest 3) (sample_manifest 2))) = Inr (sample_manifest 3)"
  using manifest_record_roundtrip [of "sample_manifest 3" "sample_manifest 2" zeroManifest] sample_manifest_text [of 2] sample_manifest_text [of 3]
  by (simp add: int64_def)

text \<open>C18: a fold keeps at most eight manifests, no two with one hash, each beside its hash, whatever records it
  is given; and the record a writer takes from a fold is one that fold reads back, leaving the manifest that
  was recorded in force.\<close>

theorem manifest_fold_reads_its_record:
  assumes "fold_ok f" "list_all small_manifest (fdRecent f)" "manifest_text m" "named_manifest m"
  shows "fold_ok (snd (FoldApply data f)) \<and>
    (case FoldApply (snd (FoldRecord f m)) f of (err, f') \<Rightarrow> err = None \<and> FoldManifest f' = m \<and> fold_ok f')"
proof -
  have whole: "FoldApply (enc_json (manifest_json m)) f = (None, push m (ManifestHash m) f)"
    by (simp add: FoldApply_def parse_whole [OF assms(3)])
  have "FoldApply (snd (FoldRecord f m)) f = (None, push m (ManifestHash m) f)"
    using FoldRecord_cases [of f m]
  proof (elim disjE bexE)
    assume "snd (FoldRecord f m) = snd (ManifestRecord m)"
    with whole show ?thesis by (simp add: ManifestRecord_def marshalRecord_def)
  next
    fix base assume base: "base \<in> set (fdRecent f)" and r: "snd (FoldRecord f m) = snd (RecordSince m base)"
    have "small_manifest base" using assms(2) base by (simp add: list_all_iff)
    with assms(3,4) show ?thesis
    proof (cases rule: RecordSince_cases)
      case (delta d)
      with fold_base [OF assms(1) base] r show ?thesis by (auto simp: FoldApply_def)
    qed (use whole r in simp)
  qed
  then show ?thesis using push_ok [OF assms(1)] FoldApply_ok [OF assms(1)] by simp
qed

theorem manifest_fold_reads_its_record_witness:
  "case FoldApply (snd (FoldRecord zeroFold (sample_manifest 3))) zeroFold of (err, f') \<Rightarrow> err = None \<and> FoldManifest f' = sample_manifest 3 \<and> fold_ok f'"
proof -
  have "fold_ok zeroFold" "list_all small_manifest (fdRecent zeroFold)" by (simp_all add: zeroFold_def fold_ok_def)
  from manifest_fold_reads_its_record [OF this, of "sample_manifest 3" "[]"] sample_manifest_text [of 3] show ?thesis
    by (simp add: int64_def)
qed

end
