(* ===== verification/Toolbox.thy ===== *)
theory Toolbox
  imports ToolSafety Json
begin

text \<open>
  \<^verbatim>\<open>Tools\<close> of \<^verbatim>\<open>tools.go\<close>: the checks of its scopes and options, the tools it builds with their schemas and
  descriptions, and a call of one, which is checked against the block, the read-only scopes and the schema
  before the handler runs.  The package \<^verbatim>\<open>agenttool\<close> is not part of the repository: the schema it reflects of an
  argument type, its validation of a call's JSON and its decoding of it are the arguments \<open>reflect\<close>, \<open>validate\<close>
  and \<open>decode\<close>, and of a schema only the fields the code reads or writes are named.  A panic is the text it
  panics with.
\<close>

section \<open>Schemas\<close>

datatype Schema = Schema (scEnum: "string list") (scDescription: string) (scItems: "Schema option")
  (scProperties: "(string \<times> Schema) list") (scRequired: "string list") (scRest: string)

definition with_enum :: "string list \<Rightarrow> Schema \<Rightarrow> Schema" where
  "with_enum vs s = Schema vs (scDescription s) (scItems s) (scProperties s) (scRequired s) (scRest s)"

definition scope_property :: "scope list \<Rightarrow> string \<times> Schema \<Rightarrow> string \<times> Schema" where
  "scope_property scopes = (\<lambda>(n, s).
     if n = ''scope'' then
       (n, if length scopes > 1
           then Schema scopes ''Which memory the entry belongs to; name one of the values'' (scItems s) (scProperties s) (scRequired s) (scRest s)
           else with_enum scopes s)
     else if n = ''scopes'' then
       (n, Schema (scEnum s) (scDescription s) (map_option (with_enum scopes) (scItems s)) (scProperties s) (scRequired s) (scRest s))
     else (n, s))"

definition scopeSchema :: "string + Schema \<Rightarrow> scope list \<Rightarrow> string list \<Rightarrow> string + Schema" where
  "scopeSchema reflected scopes drops =
     (case reflected of
        Inl err \<Rightarrow> Inl (''agentmemory.Tools: '' @ err)
      | Inr tree \<Rightarrow>
          let props = filter (\<lambda>(n, s). n \<notin> set drops) (scProperties tree);
              required = filter (\<lambda>n. n \<notin> set drops) (scRequired tree);
              named = filter (\<lambda>(n, s). n = ''scope'' \<and> length scopes > 1) props
          in Inr (Schema (scEnum tree) (scDescription tree) (scItems tree) (map (scope_property scopes) props)
               (map (\<lambda>_. ''scope'') named @ required) (scRest tree)))"

section \<open>Descriptions\<close>

definition saveDescription :: "(int \<Rightarrow> bool) \<Rightarrow> ('l, 's) toolset \<Rightarrow> 's \<Rightarrow> string" where
  "saveDescription isPrint t s =
     ''Create a memory entry, or replace one whole. To edit an existing entry prefer memory_patch, which sends only the change. Content is Markdown of at most '' @
     Itoa (sMaxEntryBytes (tsStore t) s) @
     '' bytes; a larger write is refused with the sizes. Give a description in meta so the entry can be found. meta replaces the entry'' @ [CHR 0x27] @
     ''s metadata when you give it and keeps what is there when you leave it out, so send an empty object to clear it. The result says what the write replaced and what became of the metadata. '' @
     writerScopes isPrint t"

definition patchDescription :: "(int \<Rightarrow> bool) \<Rightarrow> ('l, 's) toolset \<Rightarrow> string" where
  "patchDescription isPrint t =
     ''Edit a memory entry by replacing old_text with new_text. old_text must appear exactly once in the entry, copied exactly; the call fails and says so when it is absent or repeated. The memory block shows headings of levels one to three at level four and escapes a line that starts with <, so copy such text from memory_search, which shows the entry as stored. Prefer this to memory_save for an edit: the call is the size of the change, and the edit is anchored in the stored text, so a change another session made in the meantime is kept. '' @
     writerScopes isPrint t"

definition forgetDescription :: "(int \<Rightarrow> bool) \<Rightarrow> ('l, 's) toolset \<Rightarrow> string" where
  "forgetDescription isPrint t =
     ''Remove a memory entry. The store'' @ [CHR 0x27] @ ''s journal keeps its last content. '' @ writerScopes isPrint t"

definition insertDescription :: "('l, 's) toolset \<Rightarrow> 's \<Rightarrow> string" where
  "insertDescription t s =
     ''Add a passage to memory without naming it: the entry is named for the time and the content, never overwrites another, and the result says its name. Use it for a fact that belongs in no entry you would name; find it again with memory_search. Content is Markdown of at most '' @
     Itoa (sMaxEntryBytes (tsStore t) s) @ '' bytes. '' @
     (case toInsert (tsOpts t) of
        [only] \<Rightarrow> ''Scope: '' @ only @ '', the only one; the argument may be left out.''
      | ins \<Rightarrow> ''Scopes: '' @ Join ins '', '' @ ''; name one on every call.'')"

definition optionsSentence :: "('l, 's) toolset \<Rightarrow> string" where
  "optionsSentence t =
     (let have = SearchSupport (tsStore t);
          parts =
            (if SearchAny \<in> set have then [''any matches an entry holding any of the words, best first''] else []) @
            (if SearchMeta \<in> set have then [''meta keeps entries whose metadata has those values''] else []) @
            (if SearchUpdatedAfter \<in> set have \<or> SearchUpdatedBefore \<in> set have
             then [Join (filter (\<lambda>n. n \<in> set have) [SearchUpdatedAfter, SearchUpdatedBefore]) '' and '' @ '' bound when an entry was last written'']
             else [])
      in if parts = [] then [] else '' Options: '' @ Join parts ''; '' @ ''.'')"

definition searchDescription :: "('l, 's) toolset \<Rightarrow> string" where
  "searchDescription t =
     ''Find memory entries: the ones the memory block omits, or one to read whole before editing it. Every word of the query must appear in an entry'' @ [CHR 0x27] @
     ''s name, one of its metadata values, such as its description, or its content, in any case.'' @ optionsSentence t @
     '' Returns up to '' @ Itoa (toSearchLimit (tsOpts t)) @ '' entries unless limit says otherwise, and at most '' @ Itoa (toSearchBytes (tsOpts t)) @
     '' bytes of content; the rest are listed by name. Results stay in the conversation, so search for what you need and no more. '' @
     searchScopes t"

definition searchReads :: "'l \<Rightarrow> ('l, 's) toolset \<Rightarrow> 'l list" where
  "searchReads untrusted t = (if toSearchReadsSet (tsOpts t) then toSearchReads (tsOpts t) else [untrusted])"

definition unsupported :: "('l, 's) toolset \<Rightarrow> string list" where
  "unsupported t = (let have = SearchSupport (tsStore t) in filter (\<lambda>n. n \<notin> set have) searchOptionArgs)"

section \<open>The tools\<close>

record 'l Tool =
  tlName :: string
  tlDescription :: string
  tlSchema :: Schema
  tlBarred :: "scope list"
  tlRefuses :: bool
  tlTitle :: string
  tlDestructive :: bool
  tlReadOnly :: bool
  tlReplaySafe :: bool
  tlReads :: "'l list option"

fun panic_scopes :: "(int \<Rightarrow> bool) \<Rightarrow> scope list \<Rightarrow> scope list \<Rightarrow> string option" where
  "panic_scopes isPrint seen [] = None"
| "panic_scopes isPrint seen (s # ss) =
     (if \<not> ValidScope s then Some (''agentmemory.Tools: scope '' @ Quote isPrint s @ '' is not kebab-case'')
      else if s \<in> set seen then Some (''agentmemory.Tools: scope '' @ Quote isPrint s @ '' is given twice'')
      else panic_scopes isPrint (seen @ [s]) ss)"

fun panic_reads :: "(int \<Rightarrow> bool) \<Rightarrow> scope list \<Rightarrow> scope list \<Rightarrow> scope list \<Rightarrow> string option" where
  "panic_reads isPrint scopes seen [] = None"
| "panic_reads isPrint scopes seen (s # ss) =
     (if \<not> ValidScope s then Some (''agentmemory.Tools: read scope '' @ Quote isPrint s @ '' is not kebab-case'')
      else if s \<in> set seen then Some (''agentmemory.Tools: read scope '' @ Quote isPrint s @ '' is given twice'')
      else if s \<in> set scopes then Some (''agentmemory.Tools: scope '' @ Quote isPrint s @ '' is both writable and read-only'')
      else panic_reads isPrint scopes (seen @ [s]) ss)"

fun panic_names :: "(int \<Rightarrow> bool) \<Rightarrow> string list \<Rightarrow> string list \<Rightarrow> string option" where
  "panic_names isPrint seen [] = None"
| "panic_names isPrint seen (n # ns) =
     (if \<not> ValidName n then Some (''agentmemory.Tools: fixed name '' @ Quote isPrint n @ '' is not kebab-case'')
      else if n \<in> set seen then Some (''agentmemory.Tools: fixed name '' @ Quote isPrint n @ '' is given twice'')
      else panic_names isPrint (seen @ [n]) ns)"

fun panic_fixed :: "(int \<Rightarrow> bool) \<Rightarrow> scope list \<Rightarrow> (scope \<times> string list) list \<Rightarrow> string option" where
  "panic_fixed isPrint scopes [] = None"
| "panic_fixed isPrint scopes ((s, ns) # fs) =
     (if s \<notin> set scopes then Some (''agentmemory.Tools: fixed names for '' @ Quote isPrint s @ '', which is not a writable scope'')
      else if ns = [] then Some (''agentmemory.Tools: no fixed names for '' @ Quote isPrint s)
      else case panic_names isPrint [] ns of Some p \<Rightarrow> Some p | None \<Rightarrow> panic_fixed isPrint scopes fs)"

fun panic_inserts :: "(int \<Rightarrow> bool) \<Rightarrow> scope list \<Rightarrow> (scope \<times> string list) list \<Rightarrow> scope list \<Rightarrow> scope list \<Rightarrow> string option" where
  "panic_inserts isPrint scopes fixed seen [] = None"
| "panic_inserts isPrint scopes fixed seen (s # ss) =
     (if s \<notin> set scopes then Some (''agentmemory.Tools: insert into '' @ Quote isPrint s @ '', which is not a writable scope'')
      else if s \<in> set seen then Some (''agentmemory.Tools: insert scope '' @ Quote isPrint s @ '' is given twice'')
      else if map_of fixed s \<noteq> None then Some (''agentmemory.Tools: insert into '' @ Quote isPrint s @ '', whose names are fixed'')
      else panic_inserts isPrint scopes fixed (seen @ [s]) ss)"

definition resolveToolOptions :: "'l ToolOption list \<Rightarrow> 'l toolOptions" where
  "resolveToolOptions opts = foldl (\<lambda>to opt. opt to)
     \<lparr>toSearchLimit = DefaultSearchLimit, toSearchBytes = DefaultSearchBytes, toRendered = None, toReadScopes = [], toFixed = [],
      toInsert = [], toNow = None, toSearchReads = [], toSearchReadsSet = False\<rparr> opts"

definition checkTools :: "(int \<Rightarrow> bool) \<Rightarrow> scope list \<Rightarrow> 'l toolOptions \<Rightarrow> string option" where
  "checkTools isPrint scopes to =
     (case panic_reads isPrint scopes [] (toReadScopes to) of
        Some p \<Rightarrow> Some p
      | None \<Rightarrow> (case panic_fixed isPrint scopes (toFixed to) of
          Some p \<Rightarrow> Some p
        | None \<Rightarrow> panic_inserts isPrint scopes (toFixed to) [] (toInsert to)))"

definition newToolset :: "'s Store \<Rightarrow> scope list \<Rightarrow> 'l toolOptions \<Rightarrow> ('l, 's) toolset" where
  "newToolset S scopes to =
     \<lparr>tsStore = S, tsScopes = scopes,
      tsOpts = to\<lparr>toSearchLimit := (if toSearchLimit to \<le> 0 then DefaultSearchLimit else toSearchLimit to),
                 toSearchBytes := (if toSearchBytes to \<le> 0 then DefaultSearchBytes else toSearchBytes to)\<rparr>\<rparr>"

text \<open>The tools before their schemas are built, each with the scopes its schema names and the properties it leaves
  out.\<close>

definition writer :: "string \<Rightarrow> string \<Rightarrow> string \<Rightarrow> bool \<Rightarrow> ('l, 's) toolset \<Rightarrow> 'l Tool" where
  "writer name description heading destructive t =
     \<lparr>tlName = name, tlDescription = description, tlSchema = Schema [] [] None [] [] [], tlBarred = toReadScopes (tsOpts t), tlRefuses = True,
      tlTitle = heading, tlDestructive = destructive, tlReadOnly = False, tlReplaySafe = False, tlReads = None\<rparr>"

definition tool_list :: "(int \<Rightarrow> bool) \<Rightarrow> 'l \<Rightarrow> ('l, 's) toolset \<Rightarrow> 's \<Rightarrow> ('l Tool \<times> scope list \<times> string list) list" where
  "tool_list isPrint untrusted t s =
     [(writer SaveTool (saveDescription isPrint t s) ''Save memory entry'' True t, tsScopes t, []),
      (writer PatchTool (patchDescription isPrint t) ''Edit memory entry'' False t, tsScopes t, []),
      (writer ForgetTool (forgetDescription isPrint t) ''Forget memory entry'' True t, tsScopes t, []),
      (\<lparr>tlName = SearchTool, tlDescription = searchDescription t, tlSchema = Schema [] [] None [] [] [], tlBarred = [], tlRefuses = False,
        tlTitle = ''Search memory'', tlDestructive = False, tlReadOnly = True, tlReplaySafe = True, tlReads = Some (searchReads untrusted t)\<rparr>,
       tsScopes t @ toReadScopes (tsOpts t), unsupported t)] @
     (if toInsert (tsOpts t) \<noteq> []
      then [(writer InsertTool (insertDescription t s) ''Insert memory entry'' False t, toInsert (tsOpts t), [])] else [])"

fun build_tools :: "(string \<Rightarrow> string + Schema) \<Rightarrow> ('l Tool \<times> scope list \<times> string list) list \<Rightarrow> string + 'l Tool list" where
  "build_tools reflect [] = Inr []"
| "build_tools reflect ((tool, scopes, drops) # tools) =
     (case scopeSchema (reflect (tlName tool)) scopes drops of
        Inl p \<Rightarrow> Inl p
      | Inr tree \<Rightarrow> (case build_tools reflect tools of Inl p \<Rightarrow> Inl p | Inr rest \<Rightarrow> Inr (tool\<lparr>tlSchema := tree\<rparr> # rest)))"

definition ToolsOf :: "(int \<Rightarrow> bool) \<Rightarrow> (string \<Rightarrow> string + Schema) \<Rightarrow> 'l \<Rightarrow> 's Store \<Rightarrow> scope list \<Rightarrow> 'l ToolOption list \<Rightarrow> 's \<Rightarrow>
    string + ('l, 's) toolset \<times> 'l Tool list" where
  "ToolsOf isPrint reflect untrusted S scopes opts s =
     (if scopes = [] then Inl ''agentmemory.Tools: no scopes''
      else case panic_scopes isPrint [] scopes of
        Some p \<Rightarrow> Inl p
      | None \<Rightarrow>
          (let to = resolveToolOptions opts in
           case checkTools isPrint scopes to of
             Some p \<Rightarrow> Inl p
           | None \<Rightarrow>
               (let t = newToolset S scopes to in
                case build_tools reflect (tool_list isPrint untrusted t s) of Inl p \<Rightarrow> Inl p | Inr tools \<Rightarrow> Inr (t, tools))))"

section \<open>A call\<close>

definition refuseReadOnly :: "string \<Rightarrow> scope list \<Rightarrow> tool_error option" where
  "refuseReadOnly args readOnly =
     (if readOnly = [] then None
      else case Unmarshal (dec_struct [(''scope'', dec_string)]) args [] of
        None \<Rightarrow> None
      | Some s \<Rightarrow> if s \<in> set readOnly then Some (TText (readOnlyError s)) else None)"

definition callTool :: "(int \<Rightarrow> bool) \<Rightarrow> (nat \<Rightarrow> time) \<Rightarrow> (Schema \<Rightarrow> string \<Rightarrow> tool_error option) \<Rightarrow> (string \<Rightarrow> string \<Rightarrow> tool_error + tool_call) \<Rightarrow>
    ('l, 's) toolset \<Rightarrow> 'l Tool \<Rightarrow> 's environ \<Rightarrow> ToolContext \<Rightarrow> string \<Rightarrow> 's world \<Rightarrow> (tool_error + Result) \<times> 's world" where
  "callTool isPrint timeNow validate decode t tool en ctx args w =
     (case (if tlRefuses tool then readManifest t (wCalls w) ctx else Inr ctx) of
        Inl err \<Rightarrow> (Inl (TErr err), w)
      | Inr ctx \<Rightarrow> (case refuseReadOnly args (tlBarred tool) of
          Some err \<Rightarrow> (Inl err, w)
        | None \<Rightarrow> (case validate (tlSchema tool) args of
            Some err \<Rightarrow> (Inl err, w)
          | None \<Rightarrow> (case decode (tlName tool) args of
              Inl err \<Rightarrow> (Inl err, w)
            | Inr call \<Rightarrow> execute isPrint timeNow t en ctx call w))))"

end
