(* ===== verification/ToolboxProofs.thy ===== *)
theory ToolboxProofs
  imports Toolbox
begin

text \<open>
  What the tools of \<^verbatim>\<open>Tools\<close> keep: a tool set it does not panic on satisfies \<open>toolset_ok\<close>, every tool it builds
  is one of \<open>tool_list\<close> with its schema filled in, and a call of one that gets past the checks is a call of
  \<^const>\<open>execute\<close>, so that the handlers' theorems hold of it.
\<close>

section \<open>What the checks establish\<close>

lemma panic_scopes_None: "panic_scopes isPrint seen ss = None \<longleftrightarrow> (\<forall>s \<in> set ss. ValidScope s \<and> s \<notin> set seen) \<and> distinct ss"
  by (induction ss arbitrary: seen) auto

lemma panic_reads_None:
  "panic_reads isPrint scopes seen ss = None \<longleftrightarrow> (\<forall>s \<in> set ss. ValidScope s \<and> s \<notin> set seen \<and> s \<notin> set scopes) \<and> distinct ss"
  by (induction ss arbitrary: seen) auto

lemma panic_names_None: "panic_names isPrint seen ns = None \<longleftrightarrow> (\<forall>n \<in> set ns. ValidName n \<and> n \<notin> set seen) \<and> distinct ns"
  by (induction ns arbitrary: seen) auto

lemma panic_fixed_None:
  "panic_fixed isPrint scopes fs = None \<longleftrightarrow>
     (\<forall>(s, ns) \<in> set fs. s \<in> set scopes \<and> ns \<noteq> [] \<and> list_all ValidName ns \<and> distinct ns)"
proof (induction fs)
  case (Cons f fs)
  obtain s ns where "f = (s, ns)" by (cases f)
  with Cons panic_names_None [of isPrint "[]" ns] show ?case by (cases "panic_names isPrint [] ns") (auto simp: list_all_iff)
qed simp

lemma panic_inserts_None:
  "panic_inserts isPrint scopes fixed seen ss = None \<longleftrightarrow>
     (\<forall>s \<in> set ss. s \<in> set scopes \<and> s \<notin> set seen \<and> map_of fixed s = None) \<and> distinct ss"
  by (induction ss arbitrary: seen) auto

lemmas panic_None = panic_scopes_None panic_reads_None panic_names_None panic_fixed_None panic_inserts_None

text \<open>What \<^verbatim>\<open>Tools\<close> makes sure of before it builds a tool.\<close>

definition toolset_ok :: "('l, 's) toolset \<Rightarrow> bool" where
  "toolset_ok t \<longleftrightarrow>
     tsScopes t \<noteq> [] \<and> list_all ValidScope (tsScopes t @ toReadScopes (tsOpts t)) \<and>
     distinct (tsScopes t @ toReadScopes (tsOpts t)) \<and>
     list_all (\<lambda>(s, ns). s \<in> set (tsScopes t) \<and> ns \<noteq> [] \<and> list_all ValidName ns \<and> distinct ns) (toFixed (tsOpts t)) \<and>
     list_all (\<lambda>s. s \<in> set (tsScopes t) \<and> map_of (toFixed (tsOpts t)) s = None) (toInsert (tsOpts t)) \<and> distinct (toInsert (tsOpts t)) \<and>
     0 < toSearchLimit (tsOpts t) \<and> 0 < toSearchBytes (tsOpts t)"

lemma newToolset_simps [simp]:
  "tsStore (newToolset S scopes to) = S" "tsScopes (newToolset S scopes to) = scopes"
  "toReadScopes (tsOpts (newToolset S scopes to)) = toReadScopes to" "toFixed (tsOpts (newToolset S scopes to)) = toFixed to"
  "toInsert (tsOpts (newToolset S scopes to)) = toInsert to" "toRendered (tsOpts (newToolset S scopes to)) = toRendered to"
  "0 < toSearchLimit (tsOpts (newToolset S scopes to))" "0 < toSearchBytes (tsOpts (newToolset S scopes to))"
  by (simp_all add: newToolset_def DefaultSearchLimit_def DefaultSearchBytes_def)

lemma checked_toolset:
  assumes "scopes \<noteq> []" "panic_scopes isPrint [] scopes = None" "checkTools isPrint scopes to = None"
  shows "toolset_ok (newToolset S scopes to)"
  using assms unfolding toolset_ok_def checkTools_def
  by (auto simp: panic_None list_all_iff split: option.splits)

lemma ToolsOf_cases:
  assumes "ToolsOf isPrint reflect untrusted S scopes opts s = Inr (t, tools)"
  shows "toolset_ok t \<and> t = newToolset S scopes (resolveToolOptions opts) \<and> build_tools reflect (tool_list isPrint untrusted t s) = Inr tools"
  using assms unfolding ToolsOf_def
  by (auto simp: Let_def checked_toolset split: if_splits option.splits sum.splits)

section \<open>The tools built\<close>

lemma build_tools_from:
  "build_tools reflect ts = Inr tools \<Longrightarrow> tool \<in> set tools \<Longrightarrow> \<exists>tool0 scopes drops tree. (tool0, scopes, drops) \<in> set ts \<and> tool = tool0\<lparr>tlSchema := tree\<rparr>"
proof (induction reflect ts arbitrary: tools rule: build_tools.induct)
  case (2 reflect tool1 scopes drops ts)
  then obtain tree rest where r: "build_tools reflect ts = Inr rest" "scopeSchema (reflect (tlName tool1)) scopes drops = Inr tree"
    "tools = tool1\<lparr>tlSchema := tree\<rparr> # rest" by (auto split: sum.splits)
  with 2 consider "tool = tool1\<lparr>tlSchema := tree\<rparr>" | "tool \<in> set rest" by auto
  then show ?case using "2.IH" [OF r(2,1)] by cases (metis list.set_intros(1), metis list.set_intros(2))
qed simp

lemma writers_refuse:
  "(tool, x) \<in> set (tool_list isPrint untrusted t s) \<Longrightarrow>
     tlRefuses tool = (tlName tool \<in> set WriteTools) \<and> tlBarred tool = (if tlRefuses tool then toReadScopes (tsOpts t) else [])"
  by (auto simp: tool_list_def writer_def WriteTools_def SaveTool_def PatchTool_def ForgetTool_def SearchTool_def InsertTool_def split: if_splits)

lemma built_writers:
  assumes "ToolsOf isPrint reflect untrusted S scopes opts s = Inr (t, tools)" "tool \<in> set tools"
  shows "tlRefuses tool = (tlName tool \<in> set WriteTools) \<and> tlBarred tool = (if tlRefuses tool then toReadScopes (tsOpts t) else [])"
  using ToolsOf_cases [OF assms(1)] build_tools_from [OF _ assms(2)] writers_refuse by fastforce

lemma build_tools_total:
  "(\<And>n. reflect n = Inr (tree n)) \<Longrightarrow> \<exists>tools. build_tools reflect ts = Inr tools \<and> map tlName tools = map (\<lambda>(tool, x). tlName tool) ts"
  by (induction ts) (auto simp: scopeSchema_def Let_def)

lemma ToolsOf_total:
  assumes "scopes \<noteq> []" "panic_scopes isPrint [] scopes = None" "checkTools isPrint scopes (resolveToolOptions opts) = None"
    "\<And>n. reflect n = Inr (tree n)"
  shows "\<exists>tools. ToolsOf isPrint reflect untrusted S scopes opts s = Inr (newToolset S scopes (resolveToolOptions opts), tools) \<and>
    map tlName tools = [SaveTool, PatchTool, ForgetTool, SearchTool] @ (if toInsert (resolveToolOptions opts) \<noteq> [] then [InsertTool] else [])"
proof -
  define t where "t = newToolset S scopes (resolveToolOptions opts)"
  obtain tools where tools: "build_tools reflect (tool_list isPrint untrusted t s) = Inr tools"
    "map tlName tools = map (\<lambda>(tool, x). tlName tool) (tool_list isPrint untrusted t s)"
    using build_tools_total [of reflect tree] assms(4) by blast
  have "map (\<lambda>(tool, x). tlName tool) (tool_list isPrint untrusted t s) =
      [SaveTool, PatchTool, ForgetTool, SearchTool] @ (if toInsert (resolveToolOptions opts) \<noteq> [] then [InsertTool] else [])"
    by (simp add: tool_list_def writer_def t_def)
  with tools assms(1,2,3) show ?thesis by (simp add: ToolsOf_def Let_def t_def)
qed

lemma callTool_cases:
  assumes "callTool isPrint timeNow validate decode t tool en ctx args w = (r, w')"
  shows "(isl r \<and> w' = w) \<or> (\<exists>ctx call. execute isPrint timeNow t en ctx call w = (r, w'))"
  using assms unfolding callTool_def by (auto split: sum.splits option.splits if_splits)

section \<open>A sample tool set\<close>

definition shown_later :: "nat \<Rightarrow> Manifest" where
  "shown_later k = (if k = 0 then LeaveOut zeroManifest else zeroManifest)"

definition guarded_options :: "unit ToolOption list" where
  "guarded_options = [WithReadScopes [''rules''], WithRendered (Some shown_later), WithInsert [''user'']]"

definition plain_reflect :: "string \<Rightarrow> string + Schema" where
  "plain_reflect name = Inr (Schema [] [] None [(''scope'', Schema [] [] None [] [] ''string'')] [] ''object'')"

definition rules_args :: string where
  "rules_args = ''{'' @ [CHR 0x22] @ ''scope'' @ [CHR 0x22] @ '': '' @ [CHR 0x22] @ ''rules'' @ [CHR 0x22] @ ''}''"

lemma guarded_opts: "resolveToolOptions guarded_options =
    \<lparr>toSearchLimit = DefaultSearchLimit, toSearchBytes = DefaultSearchBytes, toRendered = Some shown_later, toReadScopes = [''rules''], toFixed = [],
     toInsert = [''user''], toNow = None, toSearchReads = [], toSearchReadsSet = False\<rparr>"
  by (simp add: guarded_options_def resolveToolOptions_def WithReadScopes_def WithRendered_def WithInsert_def)

lemma guarded_tools:
  "\<exists>t tools tool. ToolsOf (\<lambda>r. True) plain_reflect () (memStore (\<lambda>r. r)) [''user''] guarded_options sample_store = Inr (t, tools) \<and>
     tool \<in> set tools \<and> tlName tool = SaveTool \<and> toRendered (tsOpts t) = Some shown_later \<and> toReadScopes (tsOpts t) = [''rules'']"
proof -
  have v: "ValidScope ''user''" "ValidScope ''rules''" by code_simp+
  have "checkTools (\<lambda>r. True) [''user''] (resolveToolOptions guarded_options) = None"
    by (simp add: checkTools_def guarded_opts v)
  then obtain tools where t: "ToolsOf (\<lambda>r. True) plain_reflect () (memStore (\<lambda>r. r)) [''user''] guarded_options sample_store =
      Inr (newToolset (memStore (\<lambda>r. r)) [''user''] (resolveToolOptions guarded_options), tools)"
    "map tlName tools = [SaveTool, PatchTool, ForgetTool, SearchTool, InsertTool]"
    using ToolsOf_total [of "[''user'']" "\<lambda>r. True" guarded_options plain_reflect
        "\<lambda>n. Schema [] [] None [(''scope'', Schema [] [] None [] [] ''string'')] [] ''object''" "()" "memStore (\<lambda>r. r)" sample_store]
    by (auto simp: v guarded_opts plain_reflect_def)
  from arg_cong [OF t(2), of set] have "SaveTool \<in> tlName ` set tools" by simp
  then obtain tool where "tool \<in> set tools" "tlName tool = SaveTool" by (metis imageE)
  with t(1) show ?thesis by (simp add: guarded_opts) blast
qed

section \<open>The properties\<close>

text \<open>The tools \<^verbatim>\<open>Tools\<close> builds agree with \<^verbatim>\<open>CheckWrite\<close>: a tool whose call \<^verbatim>\<open>CheckWrite\<close> refuses for the manifest in force
  refuses it itself with that error, whatever its arguments, before it calls the store; and a writer named with a read-only scope
  refuses with the read-only error before its schema is looked at.\<close>

theorem writers_refuse_first:
  assumes "ToolsOf isPrint reflect untrusted S scopes opts s = Inr (t, tools)" "tool \<in> set tools" "toRendered (tsOpts t) = Some fn"
  shows "(\<forall>err. CheckWrite (fn (wCalls w)) (tlName tool) = Some err \<longrightarrow>
        callTool isPrint timeNow validate decode t tool en ctx args w = (Inl (TErr err), w)) \<and>
    (CheckWrite (fn (wCalls w)) (tlName tool) = None \<and> tlName tool \<in> set WriteTools \<and>
       Unmarshal (dec_struct [(''scope'', dec_string)]) args [] = Some sc \<and> sc \<in> set (toReadScopes (tsOpts t)) \<longrightarrow>
        callTool isPrint timeNow validate decode t tool en ctx args w = (Inl (TText (readOnlyError sc)), w))"
  using built_writers [OF assms(1,2)] assms(3)
  by (auto simp: callTool_def CheckWrite_def readManifest_def refuseReadOnly_def Let_def split: if_splits)

theorem writers_refuse_first_witness:
  "\<exists>t tools tool. ToolsOf (\<lambda>r. True) plain_reflect () (memStore (\<lambda>r. r)) [''user''] guarded_options sample_store = Inr (t, tools) \<and>
     tool \<in> set tools \<and> tlName tool = SaveTool \<and>
     callTool (\<lambda>r. True) (\<lambda>k. 0) (\<lambda>sc a. None) (\<lambda>n a. Inr (CallSave sample_save)) t tool sample_env sample_ctx [] (sample_world sample_store) =
       (Inl (TErr ErrBlockDropped), sample_world sample_store) \<and>
     callTool (\<lambda>r. True) (\<lambda>k. 0) (\<lambda>sc a. None) (\<lambda>n a. Inr (CallSave sample_save)) t tool sample_env sample_ctx rules_args
       ((sample_world sample_store)\<lparr>wCalls := 1\<rparr>) =
       (Inl (TText (readOnlyError ''rules'')), (sample_world sample_store)\<lparr>wCalls := 1\<rparr>)"
proof -
  obtain t tools tool where t: "ToolsOf (\<lambda>r. True) plain_reflect () (memStore (\<lambda>r. r)) [''user''] guarded_options sample_store = Inr (t, tools)"
    "tool \<in> set tools" "tlName tool = SaveTool" "toRendered (tsOpts t) = Some shown_later" "toReadScopes (tsOpts t) = [''rules'']"
    using guarded_tools by blast
  have m: "CheckWrite (shown_later 0) SaveTool = Some ErrBlockDropped" "CheckWrite (shown_later 1) SaveTool = None"
    "SaveTool \<in> set WriteTools" by code_simp+
  have a: "Unmarshal (dec_struct [(''scope'', dec_string)]) rules_args [] = Some ''rules''" by code_simp
  note r = writers_refuse_first [OF t(1,2,4), of _ "\<lambda>k. 0" "\<lambda>sc a. None" "\<lambda>n a. Inr (CallSave sample_save)" sample_env sample_ctx]
  from t m a r [of "sample_world sample_store" "[]"] r [of "(sample_world sample_store)\<lparr>wCalls := 1\<rparr>" rules_args "''rules''"]
  show ?thesis by (intro exI [of _ t] exI [of _ tools] exI [of _ tool]) (simp add: t)
qed

text \<open>C28: a call of any tool that \<^verbatim>\<open>Tools\<close> builds over the in-memory store, with no other session writing, leaves every
  entry of every scope outside the writable ones as it is, the read-only scopes among them, and a call that fails leaves the whole store.\<close>

theorem tools_keep_other_scopes:
  assumes "ToolsOf isPrint reflect untrusted (memStore u) scopes opts s = Inr (t, tools)" "tool \<in> set tools" "quiet en" "mem_inv (wState w)"
    "callTool isPrint timeNow validate decode t tool en ctx args w = (r, w')"
  shows "(\<forall>sc n. sc \<notin> set scopes \<or> sc \<in> set (toReadScopes (tsOpts t)) \<longrightarrow>
        map_of (live_scope (wState w') sc) n = map_of (live_scope (wState w) sc) n) \<and>
    (isl r \<longrightarrow> same_store (wState w) (wState w'))"
proof -
  from ToolsOf_cases [OF assms(1)] have t: "toolset_ok t" "tsStore t = memStore u" "tsScopes t = scopes" by auto
  then have ins: "set (toInsert (tsOpts t)) \<subseteq> set (tsScopes t)" and reads: "set (toReadScopes (tsOpts t)) \<inter> set scopes = {}"
    unfolding toolset_ok_def by (auto simp: list_all_iff)
  from callTool_cases [OF assms(5)] show ?thesis
  proof
    assume "isl r \<and> w' = w"
    then show ?thesis by (simp add: same_store_def)
  next
    assume "\<exists>ctx call. execute isPrint timeNow t en ctx call w = (r, w')"
    then obtain ctx' call where x: "execute isPrint timeNow t en ctx' call w = (r, w')" by blast
    note stays = call_stays [OF t(2) assms(3,4) ins x]
    have "map_of (live_scope (wState w') sc) n = map_of (live_scope (wState w) sc) n" if "sc \<notin> set scopes" for sc n
      using conjunct1 [OF stays] that t(3) by (metis same_store_def)
    moreover have "sc \<notin> set scopes" if "sc \<in> set (toReadScopes (tsOpts t))" for sc using reads that by blast
    ultimately show ?thesis using conjunct2 [OF stays] by blast
  qed
qed

theorem tools_keep_other_scopes_witness:
  "\<exists>t tools tool r w'. ToolsOf (\<lambda>r. True) plain_reflect () (memStore (\<lambda>r. r)) [''user''] guarded_options sample_store = Inr (t, tools) \<and>
     tool \<in> set tools \<and> tlName tool = SaveTool \<and>
     callTool (\<lambda>r. True) (\<lambda>k. 0) (\<lambda>sc a. None) (\<lambda>n a. Inr (CallSave sample_save)) t tool sample_env sample_ctx [] (sample_world sample_store) = (r, w') \<and>
     map_of (live_scope (wState w') ''rules'') ''style'' = map_of (live_scope sample_store ''rules'') ''style''"
proof -
  obtain t tools tool where t: "ToolsOf (\<lambda>r. True) plain_reflect () (memStore (\<lambda>r. r)) [''user''] guarded_options sample_store = Inr (t, tools)"
    "tool \<in> set tools" "tlName tool = SaveTool" using guarded_tools by blast
  obtain r w' where c: "callTool (\<lambda>r. True) (\<lambda>k. 0) (\<lambda>sc a. None) (\<lambda>n a. Inr (CallSave sample_save)) t tool sample_env sample_ctx []
      (sample_world sample_store) = (r, w')" by fastforce
  have "mem_inv (wState (sample_world sample_store))" by (simp add: sample_store_facts)
  from tools_keep_other_scopes [OF t(1,2) sample_quiet(1) this c] t c show ?thesis
    by (intro exI [of _ t] exI [of _ tools] exI [of _ tool] exI [of _ r] exI [of _ w']) simp
qed

end
