(* ===== verification/Lock.thy ===== *)
theory Lock
  imports Time Sha256 Fmt
begin

text \<open>
  The lock of \<^verbatim>\<open>filestore/lock.go\<close>: the file \<^verbatim>\<open>.lock\<close> at the store's root, created with \<^verbatim>\<open>O_EXCL\<close>, naming its holder,
  and taken over from a dead holder through a hard link to a claim name.  A writer is a thread of some
  process on some host; its next file system call is its program counter, one constructor for each place between two
  calls, and a step of the system is one call of one writer, the death of a process, or a new process under the identifier of a dead one.
  The step relations follow the functions \<^verbatim>\<open>acquireFile\<close>, \<^verbatim>\<open>createLock\<close>, \<^verbatim>\<open>takeover\<close> and \<^verbatim>\<open>releaseLock\<close>.
  A file is an inode, so that a link and the lock may name one file; its data is the \<^verbatim>\<open>LockInfo\<close> it holds or none.
  What the code relies on of the host is in the rules: a file created exclusively is new, a link fails when its name
  exists, and two locks written at different times never name the same process, host and nanosecond.  Any call may fail; a failing one
  is a step of the system, and no step of \<open>own_call\<close>, the calls of one writer that nothing disturbs.
  \<^verbatim>\<open>BreakLock\<close>, which removes a lock whoever holds it, is outside the step relation.
\<close>

section \<open>Holders\<close>

record LockInfo =
  liPID :: int
  liHost :: string
  liSince :: time

text \<open>\<^verbatim>\<open>Time.UnixNano\<close>, an \<^verbatim>\<open>int64\<close> that wraps; 719162 days lie between the zero time and 1970.\<close>

definition UnixNano :: "time \<Rightarrow> int" where
  "UnixNano t = sint (word_of_int (t - 719162 * 86400 * 10 ^ 9) :: 64 word)"

definition same :: "LockInfo \<Rightarrow> LockInfo \<Rightarrow> bool" where
  "same l k \<longleftrightarrow> liPID l = liPID k \<and> liHost l = liHost k \<and> liSince l = liSince k"

definition fingerprint :: "LockInfo \<Rightarrow> string" where
  "fingerprint l = EncodeToString (take 8 (Sum256 (liHost l @ ''|'' @ Itoa (liPID l) @ ''|'' @ Itoa (UnixNano (liSince l)))))"

text \<open>The processes that no longer run, as pairs of a host and a process identifier.\<close>

definition stale :: "string \<Rightarrow> (string \<times> int) set \<Rightarrow> LockInfo \<Rightarrow> bool" where
  "stale host dead l \<longleftrightarrow> \<not> (liHost l = [] \<or> liHost l \<noteq> host \<or> liPID l \<le> 0) \<and> (host, liPID l) \<in> dead"

lemma same_eq [simp]: "same l k \<longleftrightarrow> l = k"
  by (cases l; cases k) (simp add: same_def)

section \<open>Files and program counters\<close>

type_synonym inode = nat
type_synonym writer = nat

record lock_files =
  lfLock :: "inode option"
  lfClaims :: "string \<Rightarrow> inode option"
  lfData :: "inode \<Rightarrow> LockInfo option"
  lfNew :: inode

text \<open>What \<^verbatim>\<open>takeover\<close> returns: that the lock is gone, that it is not, or an error.\<close>

datatype outcome = Gone | NotGone | TakeoverError

datatype pc =
    Idle                 \<comment> \<open>not in a write\<close>
  | Creating             \<comment> \<open>at the \<^verbatim>\<open>OpenFile\<close> of \<^verbatim>\<open>createLock\<close>\<close>
  | Writing inode        \<comment> \<open>created the lock, its identity not written\<close>
  | Abandoning inode     \<comment> \<open>writing the identity failed, at the \<^verbatim>\<open>Remove\<close>\<close>
  | Looking              \<comment> \<open>at \<^verbatim>\<open>readLock\<close> of \<^verbatim>\<open>acquireFile\<close>\<close>
  | Taking LockInfo      \<comment> \<open>at the \<^verbatim>\<open>Link\<close> of \<^verbatim>\<open>takeover\<close>\<close>
  | Linked LockInfo      \<comment> \<open>at \<^verbatim>\<open>readLock\<close> of the claim\<close>
  | Proved LockInfo      \<comment> \<open>at the \<^verbatim>\<open>Remove\<close> of the lock\<close>
  | Unclaiming LockInfo outcome  \<comment> \<open>at the \<^verbatim>\<open>Remove\<close> of the claim, with what \<^verbatim>\<open>takeover\<close> returns\<close>
  | Holding LockInfo     \<comment> \<open>holds the lock\<close>
  | Removing LockInfo    \<comment> \<open>at the \<^verbatim>\<open>Remove\<close> of \<^verbatim>\<open>releaseLock\<close>\<close>
  | Crashed              \<comment> \<open>of a process that no longer runs\<close>

definition readLock :: "inode option \<Rightarrow> lock_files \<Rightarrow> LockInfo option" where
  "readLock at f = (case at of None \<Rightarrow> None | Some n \<Rightarrow> lfData f n)"

section \<open>The steps of a writer\<close>

text \<open>The identity a writer writes: its process, its host or nothing when the host name cannot be read, and a time that
  no lock of that process has.\<close>

definition fresh_info :: "string \<Rightarrow> int \<Rightarrow> lock_files \<Rightarrow> LockInfo \<Rightarrow> bool" where
  "fresh_info host pid f info \<longleftrightarrow> liPID info = pid \<and> liHost info \<in> {host, []} \<and> info \<notin> ran (lfData f)"

text \<open>A call that fails for a reason of its own, an error of the disk or a permission, is a step only where \<open>fails\<close> holds.\<close>

inductive create_step :: "bool \<Rightarrow> string \<Rightarrow> int \<Rightarrow> lock_files \<times> pc \<Rightarrow> lock_files \<times> pc \<Rightarrow> bool" for fails host pid where
  created: "lfLock f = None \<Longrightarrow>
    create_step fails host pid (f, Creating) (f\<lparr>lfLock := Some (lfNew f), lfNew := Suc (lfNew f)\<rparr>, Writing (lfNew f))"
| create_exists: "lfLock f = Some n \<Longrightarrow> create_step fails host pid (f, Creating) (f, Looking)"
| create_fails: "fails \<Longrightarrow> create_step fails host pid (f, Creating) (f, Idle)"
| written: "fresh_info host pid f info \<Longrightarrow>
    create_step fails host pid (f, Writing n) (f\<lparr>lfData := (lfData f)(n \<mapsto> info)\<rparr>, Holding info)"
| unwritten: "fails \<Longrightarrow> create_step fails host pid (f, Writing n) (f, Abandoning n)"
| unclosed: "fails \<Longrightarrow> fresh_info host pid f info \<Longrightarrow>
    create_step fails host pid (f, Writing n) (f\<lparr>lfData := (lfData f)(n \<mapsto> info)\<rparr>, Abandoning n)"
| abandoned: "create_step fails host pid (f, Abandoning n) (f\<lparr>lfLock := None\<rparr>, Idle)"
| abandon_fails: "fails \<Longrightarrow> create_step fails host pid (f, Abandoning n) (f, Idle)"

text \<open>\<^verbatim>\<open>acquireFile\<close> waits, and then tries again or gives up, when the holder it read is not dead or it could not read one.\<close>

inductive look_step :: "bool \<Rightarrow> string \<Rightarrow> (string \<times> int) set \<Rightarrow> lock_files \<times> pc \<Rightarrow> lock_files \<times> pc \<Rightarrow> bool" for fails host dead where
  acquire: "look_step fails host dead (f, Idle) (f, Creating)"
| look_gone: "lfLock f = None \<Longrightarrow> look_step fails host dead (f, Looking) (f, Creating)"
| look_stale: "readLock (lfLock f) f = Some h \<Longrightarrow> stale host dead h \<Longrightarrow> look_step fails host dead (f, Looking) (f, Taking h)"
| look_again: "\<forall>h. readLock (lfLock f) f = Some h \<longrightarrow> \<not> stale host dead h \<Longrightarrow> look_step fails host dead (f, Looking) (f, Creating)"
| look_timeout: "lfLock f \<noteq> None \<Longrightarrow> \<forall>h. readLock (lfLock f) f = Some h \<longrightarrow> \<not> stale host dead h \<Longrightarrow> look_step fails host dead (f, Looking) (f, Idle)"
| look_fails: "fails \<Longrightarrow> q \<in> {Creating, Idle} \<Longrightarrow> look_step fails host dead (f, Looking) (f, q)"

text \<open>Where \<^verbatim>\<open>acquireFile\<close> goes when \<^verbatim>\<open>takeover\<close> returns: on to the next \<^verbatim>\<open>createLock\<close> when the lock is gone, to the wait when it is not, out
  when the lock could not be removed.\<close>

fun after_takeover :: "outcome \<Rightarrow> pc set" where
  "after_takeover Gone = {Creating}"
| "after_takeover NotGone = {Creating, Idle}"
| "after_takeover TakeoverError = {Idle}"

inductive takeover_step :: "bool \<Rightarrow> lock_files \<times> pc \<Rightarrow> lock_files \<times> pc \<Rightarrow> bool" for fails where
  linked: "lfLock f = Some n \<Longrightarrow> lfClaims f (fingerprint h) = None \<Longrightarrow>
    takeover_step fails (f, Taking h) (f\<lparr>lfClaims := (lfClaims f)(fingerprint h \<mapsto> n)\<rparr>, Linked h)"
| link_exists: "lfClaims f (fingerprint h) = Some n \<Longrightarrow> q \<in> after_takeover NotGone \<Longrightarrow> takeover_step fails (f, Taking h) (f, q)"
| link_gone: "lfLock f = None \<Longrightarrow> q \<in> after_takeover Gone \<Longrightarrow> takeover_step fails (f, Taking h) (f, q)"
| link_fails: "fails \<Longrightarrow> q \<in> after_takeover TakeoverError \<Longrightarrow> takeover_step fails (f, Taking h) (f, q)"
| proved: "readLock (lfClaims f (fingerprint h)) f = Some again \<Longrightarrow> same again h \<Longrightarrow> takeover_step fails (f, Linked h) (f, Proved h)"
| moved_on: "fails \<or> \<not> (\<exists>again. readLock (lfClaims f (fingerprint h)) f = Some again \<and> same again h) \<Longrightarrow>
    takeover_step fails (f, Linked h) (f, Unclaiming h NotGone)"
| removed: "takeover_step fails (f, Proved h) (f\<lparr>lfLock := None\<rparr>, Unclaiming h Gone)"
| remove_fails: "fails \<Longrightarrow> takeover_step fails (f, Proved h) (f, Unclaiming h TakeoverError)"
| unclaimed: "q \<in> after_takeover out \<Longrightarrow> takeover_step fails (f, Unclaiming h out) (f\<lparr>lfClaims := (lfClaims f)(fingerprint h := None)\<rparr>, q)"
| unclaim_fails: "fails \<Longrightarrow> q \<in> after_takeover out \<Longrightarrow> takeover_step fails (f, Unclaiming h out) (f, q)"

inductive release_step :: "bool \<Rightarrow> lock_files \<times> pc \<Rightarrow> lock_files \<times> pc \<Rightarrow> bool" for fails where
  mine: "readLock (lfLock f) f = Some info \<Longrightarrow> same info h \<Longrightarrow> release_step fails (f, Holding h) (f, Removing h)"
| not_mine: "fails \<or> \<not> (\<exists>info. readLock (lfLock f) f = Some info \<and> same info h) \<Longrightarrow> release_step fails (f, Holding h) (f, Idle)"
| released: "release_step fails (f, Removing h) (f\<lparr>lfLock := None\<rparr>, Idle)"
| release_fails: "fails \<Longrightarrow> release_step fails (f, Removing h) (f, Idle)"

section \<open>The system\<close>

record lock_system =
  lsFiles :: lock_files
  lsDead :: "(string \<times> int) set"
  lsPc :: "writer \<Rightarrow> pc"

definition writer_step :: "bool \<Rightarrow> string \<Rightarrow> int \<Rightarrow> (string \<times> int) set \<Rightarrow> lock_files \<times> pc \<Rightarrow> lock_files \<times> pc \<Rightarrow> bool" where
  "writer_step fails host pid dead x y \<longleftrightarrow> create_step fails host pid x y \<or> look_step fails host dead x y \<or> takeover_step fails x y \<or> release_step fails x y"

inductive lock_step :: "(writer \<Rightarrow> string \<times> int) \<Rightarrow> lock_system \<Rightarrow> lock_system \<Rightarrow> bool" for procs where
  call: "writer_step fails (fst (procs i)) (snd (procs i)) (lsDead s) (lsFiles s, lsPc s i) (f', q) \<Longrightarrow>
    lock_step procs s (s\<lparr>lsFiles := f', lsPc := (lsPc s)(i := q)\<rparr>)"
| crash: "lock_step procs s (s\<lparr>lsDead := insert p (lsDead s), lsPc := (\<lambda>i. if procs i = p then Crashed else lsPc s i)\<rparr>)"
| respawn: "p \<in> lsDead s \<Longrightarrow>
    lock_step procs s (s\<lparr>lsDead := lsDead s - {p}, lsPc := (\<lambda>i. if procs i = p then Idle else lsPc s i)\<rparr>)"

definition no_lock :: lock_system where
  "no_lock = \<lparr>lsFiles = \<lparr>lfLock = None, lfClaims = (\<lambda>c. None), lfData = (\<lambda>n. None), lfNew = 0\<rparr>, lsDead = {}, lsPc = (\<lambda>i. Idle)\<rparr>"

text \<open>A writer is inside the store's critical section while it holds the lock.\<close>

definition holds :: "lock_system \<Rightarrow> writer \<Rightarrow> bool" where
  "holds s i \<longleftrightarrow> (case lsPc s i of Holding h \<Rightarrow> True | Removing h \<Rightarrow> True | _ \<Rightarrow> False)"


section \<open>The invariant\<close>

text \<open>\<open>owner\<close> is a writer whose lock file is at the lock's name, \<open>claimed\<close> the claim a writer made and has not yet removed, and
  \<open>hunted\<close> the dead holder a writer is taking the lock over from.\<close>

fun owner :: "pc \<Rightarrow> bool" where
  "owner (Writing n) = True"
| "owner (Abandoning n) = True"
| "owner (Holding h) = True"
| "owner (Removing h) = True"
| "owner _ = False"

fun owned :: "lock_files \<Rightarrow> pc \<Rightarrow> bool" where
  "owned f (Writing n) = (lfLock f = Some n \<and> lfData f n = None)"
| "owned f (Abandoning n) = (lfLock f = Some n)"
| "owned f (Holding h) = (readLock (lfLock f) f = Some h)"
| "owned f (Removing h) = (readLock (lfLock f) f = Some h)"
| "owned f _ = True"

fun claimed :: "pc \<Rightarrow> LockInfo option" where
  "claimed (Linked h) = Some h"
| "claimed (Proved h) = Some h"
| "claimed (Unclaiming h out) = Some h"
| "claimed _ = None"

fun hunted :: "pc \<Rightarrow> LockInfo option" where
  "hunted (Taking h) = Some h"
| "hunted (Linked h) = Some h"
| "hunted (Proved h) = Some h"
| "hunted _ = None"

text \<open>The lock names the dead holder still, when the claim does.\<close>

fun tied :: "lock_files \<Rightarrow> pc \<Rightarrow> bool" where
  "tied f (Linked h) = (readLock (lfClaims f (fingerprint h)) f = Some h \<longrightarrow> lfLock f = lfClaims f (fingerprint h))"
| "tied f (Proved h) = (readLock (lfLock f) f = Some h)"
| "tied f _ = True"

definition files_inv :: "lock_files \<Rightarrow> bool" where
  "files_inv f \<longleftrightarrow> (\<forall>n m h. lfData f n = Some h \<and> lfData f m = Some h \<longrightarrow> n = m) \<and> (\<forall>n. lfNew f \<le> n \<longrightarrow> lfData f n = None) \<and>
     (\<forall>n. lfLock f = Some n \<longrightarrow> n < lfNew f)"

definition writer_inv :: "lock_files \<Rightarrow> (string \<times> int) set \<Rightarrow> string \<times> int \<Rightarrow> pc \<Rightarrow> bool" where
  "writer_inv f dead p q \<longleftrightarrow>
     (q \<noteq> Crashed \<longrightarrow> p \<notin> dead) \<and> owned f q \<and> tied f q \<and>
     (\<forall>h. owner q \<and> readLock (lfLock f) f = Some h \<longrightarrow> liPID h = snd p \<and> liHost h \<in> {fst p, []}) \<and>
     (\<forall>h. hunted q = Some h \<longrightarrow> h \<in> ran (lfData f)) \<and> (\<forall>h. claimed q = Some h \<longrightarrow> lfClaims f (fingerprint h) \<noteq> None)"

definition pair_inv :: "lock_files \<Rightarrow> pc \<Rightarrow> pc \<Rightarrow> bool" where
  "pair_inv f q r \<longleftrightarrow>
     \<not> (owner q \<and> owner r) \<and> (\<forall>h k. claimed q = Some h \<and> claimed r = Some k \<longrightarrow> fingerprint h \<noteq> fingerprint k) \<and>
     (\<forall>h. hunted q = Some h \<and> owner r \<longrightarrow> readLock (lfLock f) f \<noteq> Some h)"

definition lock_inv :: "(writer \<Rightarrow> string \<times> int) \<Rightarrow> lock_system \<Rightarrow> bool" where
  "lock_inv procs s \<longleftrightarrow> files_inv (lsFiles s) \<and> (\<forall>i. writer_inv (lsFiles s) (lsDead s) (procs i) (lsPc s i)) \<and>
     (\<forall>i j. i \<noteq> j \<longrightarrow> pair_inv (lsFiles s) (lsPc s i) (lsPc s j))"

section \<open>Every step keeps the invariant\<close>

lemma after_takeover_pc: "q \<in> after_takeover out \<Longrightarrow> q = Creating \<or> q = Idle"
  by (cases out) auto

lemmas lock_invs = files_inv_def writer_inv_def pair_inv_def fresh_info_def readLock_def

lemma writer_step_cases:
  assumes "writer_step fails host pid dead (f, q) (f', q')"
  obtains "create_step fails host pid (f, q) (f', q')" | "look_step fails host dead (f, q) (f', q')" | "takeover_step fails (f, q) (f', q')" | "release_step fails (f, q) (f', q')"
  using assms unfolding writer_step_def by blast

lemma files_step:
  assumes "files_inv f" "writer_inv f dead p q" "writer_step fails (fst p) (snd p) dead (f, q) (f', q')"
  shows "files_inv f'"
  using assms(3)
proof (cases rule: writer_step_cases)
  case 1
  then show ?thesis using assms(1,2)
    by cases (auto simp: files_inv_def writer_inv_def fresh_info_def ran_def)
next
  case 2
  then show ?thesis using assms(1,2) by cases (auto simp: files_inv_def)
next
  case 3
  then show ?thesis using assms(1,2) by cases (auto simp: files_inv_def)
next
  case 4
  then show ?thesis using assms(1,2) by cases (auto simp: files_inv_def)
qed

lemma own_step:
  assumes "files_inv f" "writer_inv f dead p q" "writer_step fails (fst p) (snd p) dead (f, q) (f', q')"
  shows "writer_inv f' dead p q'"
  using assms(3)
proof (cases rule: writer_step_cases)
  case 1
  then show ?thesis using assms(1,2)
    by cases (auto simp: files_inv_def writer_inv_def fresh_info_def readLock_def split: option.splits)
next
  case 2
  then show ?thesis using assms(1,2) by cases (auto simp: files_inv_def writer_inv_def readLock_def ran_def split: option.splits)
next
  case 3
  then show ?thesis using assms(1,2) by cases (auto simp: files_inv_def writer_inv_def readLock_def ran_def split: option.splits dest!: after_takeover_pc)
next
  case 4
  then show ?thesis using assms(1,2) by cases (auto simp: files_inv_def writer_inv_def readLock_def split: option.splits)
qed



text \<open>What each change of the files keeps of another writer.\<close>

lemma frame_created:
  assumes "files_inv f" "lfLock f = None" "f' = f\<lparr>lfLock := Some (lfNew f), lfNew := Suc (lfNew f)\<rparr>" "writer_inv f dead p r"
  shows "writer_inv f' dead p r" "\<not> owner r"
  using assms by (cases r; auto simp: lock_invs split: option.splits)+

lemma frame_written:
  assumes "lfLock f = Some n" "lfData f n = None" "info \<notin> ran (lfData f)" "f' = f\<lparr>lfData := (lfData f)(n \<mapsto> info)\<rparr>"
    "writer_inv f dead p r" "\<not> owner r"
  shows "writer_inv f' dead p r"
  using assms by (cases r) (auto simp: lock_invs ran_map_upd split: option.splits)

lemma frame_unlocked:
  assumes "f' = f\<lparr>lfLock := None\<rparr>" "writer_inv f dead p r" "\<not> owner r" "\<And>h. hunted r = Some h \<Longrightarrow> claimed r = Some h \<Longrightarrow> readLock (lfLock f) f \<noteq> Some h"
  shows "writer_inv f' dead p r"
  using assms by (cases r) (auto simp: lock_invs split: option.splits)

lemma frame_claims:
  assumes "f' = f\<lparr>lfClaims := (lfClaims f)(c := x)\<rparr>" "writer_inv f dead p r" "\<And>h. claimed r = Some h \<Longrightarrow> fingerprint h \<noteq> c"
  shows "writer_inv f' dead p r"
  using assms by (cases r) (auto simp: lock_invs split: option.splits)

text \<open>The changes a step makes, and which program counters make them.\<close>

lemma step_effect:
  assumes "writer_step fails host pid dead (f, q) (f', q')"
  obtains (look) h where "f' = f" "q = Looking" "q' = Taking h" "readLock (lfLock f) f = Some h" "stale host dead h"
  | (same) "f' = f" "owner q' \<longrightarrow> owner q" "\<And>h. claimed q' = Some h \<Longrightarrow> claimed q = Some h" "\<And>h. hunted q' = Some h \<Longrightarrow> hunted q = Some h"
  | (created) "lfLock f = None" "f' = f\<lparr>lfLock := Some (lfNew f), lfNew := Suc (lfNew f)\<rparr>" "claimed q' = None" "hunted q' = None"
  | (written) n info where "q = Writing n" "fresh_info host pid f info" "f' = f\<lparr>lfData := (lfData f)(n \<mapsto> info)\<rparr>" "claimed q' = None" "hunted q' = None"
  | (unlocked) "f' = f\<lparr>lfLock := None\<rparr>" "owner q \<or> (\<exists>h. q = Proved h)" "\<not> owner q'" "\<And>h. claimed q' = Some h \<Longrightarrow> claimed q = Some h" "hunted q' = None"
  | (linked) h n where "q = Taking h" "q' = Linked h" "lfClaims f (fingerprint h) = None" "f' = f\<lparr>lfClaims := (lfClaims f)(fingerprint h \<mapsto> n)\<rparr>"
  | (unclaimed) h out where "q = Unclaiming h out" "f' = f\<lparr>lfClaims := (lfClaims f)(fingerprint h := None)\<rparr>" "\<not> owner q'" "claimed q' = None" "hunted q' = None"
  using assms
proof (cases rule: writer_step_cases)
  case 1
  then show ?thesis by cases (rule created same written unlocked; force)+
next
  case 2
  then show ?thesis by cases (rule look same; force)+
next
  case 3
  then show ?thesis by cases (rule linked same unlocked unclaimed; force dest!: after_takeover_pc)+
next
  case 4
  then show ?thesis by cases (rule same unlocked; force)+
qed


lemma owner_lock: "writer_inv f dead p r \<Longrightarrow> owner r \<Longrightarrow> lfLock f \<noteq> None"
  by (cases r) (auto simp: lock_invs split: option.splits)

lemma sole_remover:
  assumes "writer_inv f dead p q" "owner q \<or> (\<exists>h. q = Proved h)" "pair_inv f q r" "pair_inv f r q"
  shows "\<not> owner r" "hunted r = Some h \<Longrightarrow> claimed r = Some h \<Longrightarrow> readLock (lfLock f) f \<noteq> Some h"
  using assms unfolding writer_inv_def pair_inv_def by fastforce+

lemma other_step:
  assumes "files_inv f" "writer_inv f dead p q" "writer_step fails (fst p) (snd p) dead (f, q) (f', q')"
    "writer_inv f dead p' r" "pair_inv f q r" "pair_inv f r q"
  shows "writer_inv f' dead p' r"
  using assms(3)
proof (cases rule: step_effect)
  case created
  then show ?thesis using frame_created [OF assms(1) _ _ assms(4)] by blast
next
  case (written n info)
  have "lfLock f = Some n" "lfData f n = None" using assms(2) written(1) by (simp_all add: writer_inv_def)
  moreover have "info \<notin> ran (lfData f)" using written(2) by (simp add: fresh_info_def)
  moreover have "\<not> owner r" using assms(5) written(1) by (simp add: pair_inv_def)
  ultimately show ?thesis using frame_written [OF _ _ _ written(3) assms(4)] by blast
next
  case unlocked
  then show ?thesis using frame_unlocked [OF unlocked(1) assms(4)] sole_remover [OF assms(2) unlocked(2) assms(5,6)] by simp
next
  case (linked h n)
  have "fingerprint k \<noteq> fingerprint h" if "claimed r = Some k" for k
    using assms(4) linked(3) that unfolding writer_inv_def by metis
  then show ?thesis by (rule frame_claims [OF linked(4) assms(4)])
next
  case (unclaimed h out)
  have "fingerprint k \<noteq> fingerprint h" if "claimed r = Some k" for k
    using assms(5) unclaimed(1) that unfolding pair_inv_def by (metis claimed.simps(3))
  then show ?thesis by (rule frame_claims [OF unclaimed(2) assms(4)])
qed (use assms(4) in simp_all)

lemma hunted_known: "writer_inv f dead p q \<Longrightarrow> hunted q = Some h \<Longrightarrow> h \<in> ran (lfData f)"
  by (simp add: writer_inv_def)

lemma hunted_step:
  assumes "writer_step fails host pid dead (f, q) (f', q')" "lfLock f = Some n \<Longrightarrow> n < lfNew f" "\<And>n. lfNew f \<le> n \<Longrightarrow> lfData f n = None"
    "h \<in> ran (lfData f)" "readLock (lfLock f') f' = Some h"
  shows "readLock (lfLock f) f = Some h"
  using assms(1)
proof (cases rule: step_effect)
  case (written n info)
  then show ?thesis using assms(4,5) by (auto simp: readLock_def fresh_info_def split: option.splits if_splits)
qed (use assms(2-5) in \<open>auto simp: readLock_def split: option.splits\<close>)

lemma step_owner:
  assumes "files_inv f" "writer_inv f dead p q" "writer_step fails (fst p) (snd p) dead (f, q) (f', q')" "owner q'"
  shows "owner q \<or> lfLock f = None"
  using assms(3) by (cases rule: step_effect) (use assms in auto)

lemma pair_step:
  assumes "files_inv f" "writer_inv f dead p q" "writer_step fails (fst p) (snd p) dead (f, q) (f', q')"
    "writer_inv f dead p' r" "pair_inv f q r" "pair_inv f r q"
  shows "pair_inv f' q' r \<and> pair_inv f' r q'"
proof -
  have "\<not> (owner q' \<and> owner r)" using step_owner [OF assms(1-3)] assms(5) owner_lock [OF assms(4)] unfolding pair_inv_def by blast
  moreover have "fingerprint h \<noteq> fingerprint k" if "claimed q' = Some h" "claimed r = Some k" for h k
    using assms(3) by (cases rule: step_effect) (use assms that in \<open>auto simp: pair_inv_def writer_inv_def\<close>)
  moreover have "readLock (lfLock f') f' \<noteq> Some h" if "hunted q' = Some h" "owner r" for h
    using assms(3)
  proof (cases rule: step_effect)
    case (look k)
    then show ?thesis using assms(4) that unfolding writer_inv_def stale_def by (cases p') auto
  next
    case (linked k n)
    then show ?thesis using assms(5) that by (auto simp: pair_inv_def readLock_def split: option.splits)
  qed (use assms(5) that in \<open>auto simp: pair_inv_def\<close>)
  moreover have "readLock (lfLock f') f' \<noteq> Some h" if "hunted r = Some h" "owner q'" for h
  proof
    assume "readLock (lfLock f') f' = Some h"
    then have "readLock (lfLock f) f = Some h"
      using hunted_step [OF assms(3) _ _ hunted_known [OF assms(4) that(1)]] assms(1) unfolding files_inv_def by blast
    then show False using step_owner [OF assms(1-3) that(2)] assms(6) that(1) unfolding pair_inv_def by (auto simp: readLock_def)
  qed
  ultimately show ?thesis unfolding pair_inv_def by metis
qed


lemma others_step:
  assumes "files_inv f" "writer_step fails host pid dead (f, q) (f', q')" "writer_inv f dead p r" "pair_inv f r r'"
  shows "pair_inv f' r r'"
proof -
  have "readLock (lfLock f') f' \<noteq> Some h" if "hunted r = Some h" "owner r'" for h
    using hunted_step [OF assms(2) _ _ hunted_known [OF assms(3) that(1)]] assms(1,4) that unfolding files_inv_def pair_inv_def by blast
  then show ?thesis using assms(4) unfolding pair_inv_def by blast
qed

lemma lock_inv_step:
  assumes "lock_step procs s s'" "lock_inv procs s"
  shows "lock_inv procs s'"
  using assms(1)
proof cases
  case (call fails i f' q)
  note step = call(2)
  from assms(2) have f: "files_inv (lsFiles s)" and w: "writer_inv (lsFiles s) (lsDead s) (procs j) (lsPc s j)"
    and p: "j \<noteq> k \<Longrightarrow> pair_inv (lsFiles s) (lsPc s j) (lsPc s k)" for j k by (auto simp: lock_inv_def)
  have "writer_inv f' (lsDead s) (procs j) (if j = i then q else lsPc s j)" for j
    using own_step [OF f w step] other_step [OF f w step w p p, of j] by auto
  moreover have "pair_inv f' (if j = i then q else lsPc s j) (if k = i then q else lsPc s k)" if "j \<noteq> k" for j k
    using that pair_step [OF f w step w p p] others_step [OF f step w p [OF that]] by auto
  ultimately show ?thesis using files_step [OF f w step] call(1) by (simp add: lock_inv_def)
next
  case (crash p)
  then show ?thesis using assms(2) by (auto simp: lock_inv_def writer_inv_def pair_inv_def)
next
  case (respawn p)
  then show ?thesis using assms(2) by (auto simp: lock_inv_def writer_inv_def pair_inv_def)
qed

lemma lock_inv_init: "lock_inv procs no_lock"
  by (simp add: lock_inv_def no_lock_def files_inv_def writer_inv_def pair_inv_def)

lemma lock_inv_reachable: "(lock_step procs)\<^sup>*\<^sup>* no_lock s \<Longrightarrow> lock_inv procs s"
  by (induction rule: rtranclp_induct) (auto intro: lock_inv_init lock_inv_step)


section \<open>An orphaned claim\<close>

text \<open>A claim a crashed writer left: the lock names a dead holder, its claim name exists and no writer made it.\<close>

definition orphaned :: "LockInfo \<Rightarrow> lock_system \<Rightarrow> bool" where
  "orphaned h s \<longleftrightarrow> readLock (lfLock (lsFiles s)) (lsFiles s) = Some h \<and> lfClaims (lsFiles s) (fingerprint h) \<noteq> None \<and>
     (\<forall>i. \<not> owner (lsPc s i) \<and> (\<forall>k. claimed (lsPc s i) = Some k \<longrightarrow> fingerprint k \<noteq> fingerprint h))"

lemma orphaned_call:
  assumes "writer_step fails host pid dead (f, q) (f', q')" "writer_inv f dead p q" "readLock (lfLock f) f = Some h" "lfClaims f (fingerprint h) \<noteq> None"
    "\<not> owner q" "\<And>k. claimed q = Some k \<Longrightarrow> fingerprint k \<noteq> fingerprint h"
  shows "readLock (lfLock f') f' = Some h \<and> lfClaims f' (fingerprint h) \<noteq> None \<and> \<not> owner q' \<and>
    (\<forall>k. claimed q' = Some k \<longrightarrow> fingerprint k \<noteq> fingerprint h)"
  using assms(1)
proof (cases rule: step_effect)
  case unlocked
  then obtain k where "q = Proved k" using assms(5) by blast
  then show ?thesis using assms(2,3,6) by (simp add: writer_inv_def)
next
  case (linked k n)
  then show ?thesis using assms(3,4) by (auto simp: readLock_def split: option.splits)
next
  case (unclaimed k out)
  then show ?thesis using assms(3,4,6) by (auto simp: readLock_def split: option.splits)
qed (use assms(3-6) in \<open>auto simp: readLock_def\<close>)

lemma orphaned_step:
  assumes "lock_step procs s s'" "lock_inv procs s" "orphaned h s"
  shows "orphaned h s'"
  using assms(1)
proof cases
  case (call fails i f' q)
  have "writer_inv (lsFiles s) (lsDead s) (procs i) (lsPc s i)" using assms(2) by (simp add: lock_inv_def)
  from orphaned_call [OF call(2) this] show ?thesis using assms(3) call(1) by (auto simp: orphaned_def)
qed (use assms(3) in \<open>auto simp: orphaned_def\<close>)

section \<open>A sample run\<close>

text \<open>Two writers of one host: the process of the first dies holding the lock.\<close>

definition two_writers :: "writer \<Rightarrow> string \<times> int" where
  "two_writers i = (''host'', int i + 1)"

definition first_info :: LockInfo where "first_info = \<lparr>liPID = 1, liHost = ''host'', liSince = 5\<rparr>"

definition first_holds :: lock_system where
  "first_holds = \<lparr>lsFiles = \<lparr>lfLock = Some 0, lfClaims = (\<lambda>c. None), lfData = (\<lambda>n. None)(0 \<mapsto> first_info), lfNew = 1\<rparr>, lsDead = {},
     lsPc = (\<lambda>i. Idle)(0 := Holding first_info)\<rparr>"

definition first_dead :: lock_system where
  "first_dead = \<lparr>lsFiles = lsFiles first_holds, lsDead = {(''host'', 1)}, lsPc = (\<lambda>i. Idle)(0 := Crashed)\<rparr>"

definition second_dead :: lock_system where
  "second_dead = \<lparr>lsFiles = (lsFiles first_holds)\<lparr>lfClaims := (\<lambda>c. None)(fingerprint first_info \<mapsto> 0)\<rparr>, lsDead = {(''host'', 1), (''host'', 2)},
     lsPc = (\<lambda>i. Idle)(0 := Crashed, 1 := Crashed)\<rparr>"

lemma call_steps:
  assumes "(lock_step procs)\<^sup>*\<^sup>* s0 s" "writer_step fails (fst (procs i)) (snd (procs i)) (lsDead s) (lsFiles s, lsPc s i) (f', q)"
    "s' = s\<lparr>lsFiles := f', lsPc := (lsPc s)(i := q)\<rparr>"
  shows "(lock_step procs)\<^sup>*\<^sup>* s0 s'"
  using assms lock_step.call [of fails procs i s f' q] by (simp add: rtranclp.rtrancl_into_rtrancl)

lemma first_holds_reached: "(lock_step two_writers)\<^sup>*\<^sup>* no_lock first_holds"
proof -
  let ?f = "lsFiles no_lock" and ?at = "\<lambda>f q. no_lock\<lparr>lsFiles := f, lsPc := (\<lambda>i. Idle)(0 := q)\<rparr>"
  have "(lock_step two_writers)\<^sup>*\<^sup>* no_lock (?at ?f Creating)"
    by (rule call_steps [OF rtranclp.rtrancl_refl, of False _ 0 _ ?f Creating]) (simp_all add: writer_step_def look_step.simps no_lock_def)
  then have "(lock_step two_writers)\<^sup>*\<^sup>* no_lock (?at (?f\<lparr>lfLock := Some 0, lfNew := 1\<rparr>) (Writing 0))"
    by (rule call_steps [of _ _ _ False 0 "?f\<lparr>lfLock := Some 0, lfNew := 1\<rparr>" "Writing 0"]) (simp_all add: writer_step_def create_step.simps no_lock_def)
  then show ?thesis
    by (rule call_steps [of _ _ _ False 0 "lsFiles first_holds" "Holding first_info"])
       (simp_all add: writer_step_def create_step.simps no_lock_def first_holds_def fresh_info_def first_info_def two_writers_def)
qed

lemma first_dead_reached: "(lock_step two_writers)\<^sup>*\<^sup>* no_lock first_dead"
proof -
  have "(\<lambda>i. if two_writers i = (''host'', 1) then Crashed else lsPc first_holds i) = lsPc first_dead"
    by (auto simp: two_writers_def first_holds_def first_dead_def)
  then have "lock_step two_writers first_holds first_dead"
    using lock_step.crash [of two_writers first_holds "(''host'', 1)"] by (simp add: first_holds_def first_dead_def)
  with first_holds_reached show ?thesis by (rule rtranclp.rtrancl_into_rtrancl)
qed

lemma second_dead_reached: "(lock_step two_writers)\<^sup>*\<^sup>* no_lock second_dead"
proof -
  let ?f = "lsFiles first_dead" and ?at = "\<lambda>f q. first_dead\<lparr>lsFiles := f, lsPc := (lsPc first_dead)(1 := q)\<rparr>"
  have "(lock_step two_writers)\<^sup>*\<^sup>* no_lock (?at ?f Creating)"
    by (rule call_steps [OF first_dead_reached, of False 1 ?f Creating]) (simp_all add: writer_step_def look_step.simps first_dead_def)
  then have "(lock_step two_writers)\<^sup>*\<^sup>* no_lock (?at ?f Looking)"
    by (rule call_steps [of _ _ _ False 1 ?f Looking]) (simp_all add: writer_step_def create_step.simps first_dead_def first_holds_def)
  then have "(lock_step two_writers)\<^sup>*\<^sup>* no_lock (?at ?f (Taking first_info))"
    by (rule call_steps [of _ _ _ False 1 ?f "Taking first_info"])
       (simp_all add: writer_step_def look_step.simps first_dead_def first_holds_def readLock_def stale_def first_info_def two_writers_def)
  then have "(lock_step two_writers)\<^sup>*\<^sup>* no_lock (?at (lsFiles second_dead) (Linked first_info))"
    by (rule call_steps [of _ _ _ False 1 "lsFiles second_dead" "Linked first_info"])
       (simp_all add: writer_step_def takeover_step.simps first_dead_def first_holds_def second_dead_def)
  moreover have "(\<lambda>i. if two_writers i = (''host'', 2) then Crashed else lsPc (?at (lsFiles second_dead) (Linked first_info)) i) = lsPc second_dead"
    by (auto simp: two_writers_def first_dead_def second_dead_def)
  then have "lock_step two_writers (?at (lsFiles second_dead) (Linked first_info)) second_dead"
    using lock_step.crash [of two_writers "?at (lsFiles second_dead) (Linked first_info)" "(''host'', 2)"]
    by (simp add: first_dead_def second_dead_def insert_commute)
  ultimately show ?thesis by (rule rtranclp.rtrancl_into_rtrancl)
qed

section \<open>One writer alone\<close>

text \<open>A call of one writer that does not fail, no other writer and no process doing anything.\<close>

definition own_call :: "(writer \<Rightarrow> string \<times> int) \<Rightarrow> writer \<Rightarrow> lock_system \<Rightarrow> lock_system \<Rightarrow> bool" where
  "own_call procs i s s' \<longleftrightarrow> (\<exists>f' q. writer_step False (fst (procs i)) (snd (procs i)) (lsDead s) (lsFiles s, lsPc s i) (f', q) \<and>
     s' = s\<lparr>lsFiles := f', lsPc := (lsPc s)(i := q)\<rparr>)"

lemma own_call_step: "own_call procs i s s' \<Longrightarrow> lock_step procs s s'"
  unfolding own_call_def by (auto intro: lock_step.call)

lemmas calls_of = writer_step_def create_step.simps look_step.simps takeover_step.simps release_step.simps

definition at_call :: "writer \<Rightarrow> lock_system \<Rightarrow> lock_files \<Rightarrow> pc \<Rightarrow> lock_system" where
  "at_call i s f q = s\<lparr>lsFiles := f, lsPc := (lsPc s)(i := q)\<rparr>"

lemma own_call_at:
  "own_call procs i (at_call i s f q) s' \<longleftrightarrow>
     (\<exists>f' q'. writer_step False (fst (procs i)) (snd (procs i)) (lsDead s) (f, q) (f', q') \<and> s' = at_call i s f' q')"
  by (simp add: own_call_def at_call_def)

text \<open>The state after a takeover: a new lock file, written by the writer that took over.\<close>

definition taken_over :: "writer \<Rightarrow> LockInfo \<Rightarrow> lock_system \<Rightarrow> lock_system" where
  "taken_over i info s = (let f = lsFiles s in
     s\<lparr>lsFiles := f\<lparr>lfLock := Some (lfNew f), lfNew := Suc (lfNew f), lfData := (lfData f)(lfNew f \<mapsto> info)\<rparr>, lsPc := (lsPc s)(i := Holding info)\<rparr>)"

lemma next_calls:
  "lfLock f = Some n \<Longrightarrow> own_call procs i (at_call i s f Creating) s' \<longleftrightarrow> s' = at_call i s f Looking"
  "readLock (lfLock f) f = Some h \<Longrightarrow> stale (fst (procs i)) (lsDead s) h \<Longrightarrow> own_call procs i (at_call i s f Looking) s' \<longleftrightarrow> s' = at_call i s f (Taking h)"
  "lfLock f = Some n \<Longrightarrow> lfClaims f (fingerprint h) = None \<Longrightarrow>
    own_call procs i (at_call i s f (Taking h)) s' \<longleftrightarrow> s' = at_call i s (f\<lparr>lfClaims := (lfClaims f)(fingerprint h \<mapsto> n)\<rparr>) (Linked h)"
  "readLock (lfClaims f (fingerprint h)) f = Some h \<Longrightarrow> own_call procs i (at_call i s f (Linked h)) s' \<longleftrightarrow> s' = at_call i s f (Proved h)"
  "own_call procs i (at_call i s f (Proved h)) s' \<longleftrightarrow> s' = at_call i s (f\<lparr>lfLock := None\<rparr>) (Unclaiming h Gone)"
  "own_call procs i (at_call i s f (Unclaiming h Gone)) s' \<longleftrightarrow> s' = at_call i s (f\<lparr>lfClaims := (lfClaims f)(fingerprint h := None)\<rparr>) Creating"
  "lfLock f = None \<Longrightarrow> own_call procs i (at_call i s f Creating) s' \<longleftrightarrow>
    s' = at_call i s (f\<lparr>lfLock := Some (lfNew f), lfNew := Suc (lfNew f)\<rparr>) (Writing (lfNew f))"
  "own_call procs i (at_call i s f (Writing m)) s' \<longleftrightarrow>
    (\<exists>info. fresh_info (fst (procs i)) (snd (procs i)) f info \<and> s' = at_call i s (f\<lparr>lfData := (lfData f)(m \<mapsto> info)\<rparr>) (Holding info))"
  unfolding own_call_at by (auto simp: calls_of readLock_def)

lemma run_Suc: "(R ^^ Suc n) s s' \<longleftrightarrow> (\<exists>t. R s t \<and> (R ^^ n) t s')"
  by (metis relpowp_Suc_D2 relpowp_Suc_I2)

lemma taken_over_run:
  assumes "lsPc s i = Creating" "readLock (lfLock (lsFiles s)) (lsFiles s) = Some h" "stale (fst (procs i)) (lsDead s) h"
    "lfClaims (lsFiles s) (fingerprint h) = None"
  shows "(own_call procs i ^^ 8) s s' \<longleftrightarrow> (\<exists>info. fresh_info (fst (procs i)) (snd (procs i)) (lsFiles s) info \<and> s' = taken_over i info s)"
proof -
  define f where "f = lsFiles s"
  obtain n where n: "lfLock f = Some n" "lfData f n = Some h" using assms(2) by (auto simp: readLock_def f_def split: option.splits)
  define g where "g = f\<lparr>lfClaims := (lfClaims f)(fingerprint h \<mapsto> n)\<rparr>"
  have s: "s = at_call i s f Creating" using assms(1) by (simp add: at_call_def f_def fun_upd_idem)
  have r: "readLock (lfLock f) f = Some h" "lfClaims f (fingerprint h) = None" "readLock (lfClaims g (fingerprint h)) g = Some h"
    using assms(2,4) n by (simp_all add: f_def [symmetric] g_def readLock_def)
  have e: "g\<lparr>lfLock := None, lfClaims := (lfClaims g)(fingerprint h := None)\<rparr> = f\<lparr>lfLock := None\<rparr>"
    using r(2) by (cases f) (simp add: g_def fun_upd_idem)
  have "(own_call procs i ^^ 8) (at_call i s f Creating) s' \<longleftrightarrow>
    (\<exists>info. fresh_info (fst (procs i)) (snd (procs i)) f info \<and> s' = taken_over i info s)"
    using next_calls(3) [OF n(1) r(2), folded g_def] e
    by (simp only: eval_nat_numeral BitM.simps run_Suc next_calls(1) [OF n(1)] next_calls(2) [of f h procs i s, OF r(1) assms(3)] next_calls(4) [OF r(3)] next_calls(5,6) simp_thms)
      (simp add: next_calls(7,8), simp add: taken_over_def Let_def at_call_def f_def [symmetric] fresh_info_def)
  then show ?thesis using s unfolding f_def by metis
qed

section \<open>The properties\<close>

text \<open>C29: in every state that writers on any hosts reach, with processes dying at any step and process identifiers used again,
  at most one writer holds the lock, and the lock file then names that writer's process.\<close>

theorem one_holder:
  assumes "(lock_step procs)\<^sup>*\<^sup>* no_lock s" "holds s i"
  shows "(\<forall>j. holds s j \<longrightarrow> j = i) \<and>
    (\<exists>h. readLock (lfLock (lsFiles s)) (lsFiles s) = Some h \<and> liPID h = snd (procs i) \<and> liHost h \<in> {fst (procs i), []})"
proof -
  note v = lock_inv_reachable [OF assms(1)]
  have owner: "owner (lsPc s j)" if "holds s j" for j using that by (auto simp: holds_def split: pc.splits)
  have "j = i" if "holds s j" for j
    using v owner [OF that] owner [OF assms(2)] unfolding lock_inv_def pair_inv_def by blast
  moreover have "\<exists>h. readLock (lfLock (lsFiles s)) (lsFiles s) = Some h"
    using v assms(2) unfolding lock_inv_def writer_inv_def holds_def by (cases "lsPc s i") (auto dest: spec [of _ i])
  ultimately show ?thesis using v owner [OF assms(2)] unfolding lock_inv_def writer_inv_def by blast
qed

theorem one_holder_witness:
  "holds first_holds 0 \<and> \<not> holds first_holds 1 \<and> readLock (lfLock (lsFiles first_holds)) (lsFiles first_holds) = Some first_info"
proof -
  have h: "holds first_holds 0" by (simp add: holds_def first_holds_def)
  have "\<not> holds first_holds 1" using conjunct1 [OF one_holder [OF first_holds_reached h]] by (metis zero_neq_one)
  with h show ?thesis by (simp add: first_holds_def readLock_def)
qed

text \<open>C30: a lock whose holder is dead, with no claim on it, is taken over in one acquisition.  A writer of that holder's host that reaches \<^verbatim>\<open>createLock\<close>
  holds the lock after eight calls of its own, none of which fails: the create that finds the lock, the read of its holder, the link, the read of the claim,
  the two removals, the create and the write of its identity.  Every such run ends there, with the lock naming a new identity of the writer, every other writer where it was, and no claim left behind.\<close>

theorem dead_lock_taken_over:
  assumes "lsPc s i = Creating" "readLock (lfLock (lsFiles s)) (lsFiles s) = Some h" "stale (fst (procs i)) (lsDead s) h"
    "lfClaims (lsFiles s) (fingerprint h) = None" "fresh_info (fst (procs i)) (snd (procs i)) (lsFiles s) info"
  shows "(\<exists>s'. (own_call procs i ^^ 8) s s') \<and>
    (\<forall>s'. (own_call procs i ^^ 8) s s' \<longrightarrow>
      (\<exists>info'. fresh_info (fst (procs i)) (snd (procs i)) (lsFiles s) info' \<and> lsPc s' = (lsPc s)(i := Holding info') \<and>
        readLock (lfLock (lsFiles s')) (lsFiles s') = Some info' \<and> lfClaims (lsFiles s') = lfClaims (lsFiles s) \<and> lsDead s' = lsDead s))"
  using taken_over_run [where procs = procs and i = i, OF assms(1-4)] assms(5) by (auto simp: taken_over_def readLock_def Let_def)

theorem dead_lock_taken_over_witness:
  "\<exists>s'. (own_call two_writers 1 ^^ 8) (first_dead\<lparr>lsPc := (lsPc first_dead)(1 := Creating)\<rparr>) s' \<and> holds s' 1"
proof -
  let ?s = "first_dead\<lparr>lsPc := (lsPc first_dead)(1 := Creating)\<rparr>" and ?info = "\<lparr>liPID = 2, liHost = ''host'', liSince = 9\<rparr>"
  have "stale (fst (two_writers 1)) (lsDead ?s) first_info" "fresh_info (fst (two_writers 1)) (snd (two_writers 1)) (lsFiles ?s) ?info"
    "readLock (lfLock (lsFiles ?s)) (lsFiles ?s) = Some first_info" "lfClaims (lsFiles ?s) (fingerprint first_info) = None"
    by (simp_all add: stale_def two_writers_def first_info_def first_dead_def first_holds_def fresh_info_def readLock_def)
  with dead_lock_taken_over [of ?s 1 first_info two_writers ?info] obtain s' info' where
    "(own_call two_writers 1 ^^ 8) ?s s'" "lsPc s' = (lsPc ?s)(1 := Holding info')" by auto
  then show ?thesis by (auto simp: holds_def)
qed

text \<open>A claim that a writer which died between its link and its removal left behind keeps the dead holder's lock for ever: no
  writer gets the lock, whatever the writers do.\<close>

theorem orphaned_claim_blocks:
  assumes "(lock_step procs)\<^sup>*\<^sup>* no_lock s" "orphaned h s" "(lock_step procs)\<^sup>*\<^sup>* s s'"
  shows "orphaned h s' \<and> (\<forall>i. \<not> holds s' i)"
proof -
  have "orphaned h s' \<and> lock_inv procs s'"
    using assms(3) by (induction rule: rtranclp_induct) (auto intro: assms(2) lock_inv_reachable [OF assms(1)] orphaned_step lock_inv_step)
  then show ?thesis by (auto simp: orphaned_def holds_def split: pc.splits) (metis owner.simps)+
qed

theorem orphaned_claim_blocks_witness:
  "\<exists>s'. (lock_step two_writers)\<^sup>*\<^sup>* second_dead s' \<and> lsPc s' 1 = Creating \<and> orphaned first_info s' \<and> \<not> holds s' 1"
proof -
  let ?live = "second_dead\<lparr>lsDead := lsDead second_dead - {(''host'', 2)}, lsPc := (\<lambda>i. if two_writers i = (''host'', 2) then Idle else lsPc second_dead i)\<rparr>"
  have "lock_step two_writers second_dead ?live" by (rule lock_step.respawn) (simp add: second_dead_def)
  then have "(lock_step two_writers)\<^sup>*\<^sup>* second_dead ?live" by (rule r_into_rtranclp)
  then have r: "(lock_step two_writers)\<^sup>*\<^sup>* second_dead (?live\<lparr>lsPc := (lsPc ?live)(1 := Creating)\<rparr>)"
    by (rule call_steps [of _ _ _ False 1 "lsFiles ?live" Creating]) (simp_all add: writer_step_def look_step.simps two_writers_def)
  have "orphaned first_info second_dead" by (simp add: orphaned_def second_dead_def first_holds_def readLock_def)
  from orphaned_claim_blocks [OF second_dead_reached this r] r show ?thesis
    by (intro exI [of _ "?live\<lparr>lsPc := (lsPc ?live)(1 := Creating)\<rparr>"]) simp
qed

end
