(* ===== verification/TimeFormat.thy ===== *)
theory TimeFormat
  imports Time
begin

text \<open>
  \<^verbatim>\<open>Format\<close> at the layout \<^verbatim>\<open>time.RFC3339Nano\<close> of a time in UTC, with the fraction's trailing zeros cut, and
  that \<^verbatim>\<open>time.Parse\<close> at that layout reads back every time from year 1 to year 9999.
\<close>

text \<open>\<^verbatim>\<open>appendNano\<close>: nine digits, trailing zeros and a bare period cut.\<close>

definition trim_zeros :: "string \<Rightarrow> string" where
  "trim_zeros s = rev (dropWhile (\<lambda>c. c = CHR ''0'') (rev s))"

definition appendNano :: "int \<Rightarrow> string" where
  "appendNano ns = (let ds = trim_zeros (appendInt ns 9) in if ds = [] then [] else CHR ''.'' # ds)"

definition FormatRFC3339Nano :: "time \<Rightarrow> string" where
  "FormatRFC3339Nano t =
     (let (y, m, d) = civil_date t; (hh, mm, ss, ns) = clock_time t in
      appendInt y 4 @ ''-'' @ appendInt m 2 @ ''-'' @ appendInt d 2 @ ''T'' @
      appendInt hh 2 @ '':'' @ appendInt mm 2 @ '':'' @ appendInt ss 2 @ appendNano ns @ ''Z'')"

section \<open>The calendar\<close>

lemma cycle_last:
  fixes d L :: int
  assumes "0 \<le> d" "d \<le> 4 * L" "0 < L" "n = d div L - d div L div 4" "n < 3"
  shows "d - L * n < L"
proof -
  have "d div L \<le> 4 * L div L" using assms(2,3) by (intro zdiv_mono1)
  moreover have "0 \<le> d div L" using assms(1,3) by (simp add: pos_imp_zdiv_nonneg_iff)
  ultimately have "d div L \<in> {0, 1, 2, 3, 4}" using assms(3) by auto
  then have "n = d div L" using assms(4,5) by auto
  then show ?thesis using assms(3) by (simp add: minus_mult_div_eq_mod)
qed

lemma year_day_inverse:
  assumes "year_day days = (y, d)"
  shows "days_before_year y + d = days" "d < (if isLeap y then 366 else 365)"
proof -
  define q where "q = days div 146097"
  define d0 where "d0 = days mod 146097"
  define n1 where "n1 = d0 div 36524 - d0 div 36524 div 4"
  define d1 where "d1 = d0 - 36524 * n1"
  define n2 where "n2 = d1 div 1461"
  define d2 where "d2 = d1 - 1461 * n2"
  define n3 where "n3 = d2 div 365 - d2 div 365 div 4"
  have yd: "y = 400 * q + 100 * n1 + 4 * n2 + n3 + 1" "d = d2 - 365 * n3"
    using assms by (simp_all add: year_day_def Let_def d0_def n1_def d1_def n2_def d2_def n3_def q_def)
  have days: "days = 146097 * q + d0" by (simp add: q_def d0_def)
  have d0: "0 \<le> d0" "d0 \<le> 4 * 36524" "d0 < 146097" by (simp_all add: d0_def zle_iff_zadd [symmetric])
  note n1 = cycle_bounds [OF d0(1,2) _ n1_def, folded d1_def, simplified]
  have d1: "d1 = 1461 * n2 + d2" "0 \<le> d2" "d2 < 1461"
    unfolding d2_def n2_def by (simp_all add: minus_mult_div_eq_mod)
  have n2: "0 \<le> n2" "n2 \<le> 24" using n1(3,4) d1 by linarith+
  have d2: "d2 \<le> 4 * 365" using d1(3) by simp
  note n3 = cycle_bounds [OF d1(2) d2 _ n3_def, folded yd(2), simplified]
  have e4: "(y - 1) div 4 = 100 * q + 25 * n1 + n2" by (rule int_div_pos_eq [of _ _ _ n3]) (use yd(1) n3 in simp_all)
  have e100: "(y - 1) div 100 = 4 * q + n1" by (rule int_div_pos_eq [of _ _ _ "4 * n2 + n3"]) (use yd(1) n2 n3 in simp_all)
  have e400: "(y - 1) div 400 = q" by (rule int_div_pos_eq [of _ _ _ "100 * n1 + 4 * n2 + n3"]) (use yd(1) n1 n2 n3 in simp_all)
  show "days_before_year y + d = days"
    unfolding days_before_year_def Let_def e4 e100 e400 using days d1(1) yd by (simp add: d1_def algebra_simps)
  show "d < (if isLeap y then 366 else 365)"
  proof (cases "d = 365")
    case True
    have "n3 = 3"
    proof (rule ccontr)
      assume "n3 \<noteq> 3"
      then have "n3 < 3" using n3 by simp
      then have "d < 365" unfolding yd(2) using cycle_last [OF d1(2) d2 _ n3_def] by simp
      with True show False by simp
    qed
    with True have d2v: "d2 = 1460" using yd(2) by simp
    have "isLeap y"
    proof (cases "n2 = 24")
      case True
      then have "d1 = 36524" using d1(1) d2v by simp
      then have "n1 = 3" using cycle_last [OF d0(1,2) _ n1_def, folded d1_def] n1 by fastforce
      then have "y = 400 * (q + 1)" using yd(1) True \<open>n3 = 3\<close> by simp
      then show ?thesis by (simp add: isLeap_def)
    next
      case False
      then have "y = 100 * (4 * q + n1) + (4 * n2 + 4)" "0 < 4 * n2 + 4" "4 * n2 + 4 < 100" using yd(1) n2 \<open>n3 = 3\<close> by auto
      then have "y mod 100 = 4 * n2 + 4" by (intro int_mod_pos_eq [of _ _ "4 * q + n1"]) auto
      moreover have "y = 4 * (100 * q + 25 * n1 + n2 + 1)" using yd(1) \<open>n3 = 3\<close> by simp
      ultimately show ?thesis using n2 by (simp add: isLeap_def)
    qed
    with True show ?thesis by simp
  next
    case False
    then show ?thesis using n3 by auto
  qed
qed


lemma month_day_inverse:
  "ls \<noteq> [] \<Longrightarrow> 0 \<le> d \<Longrightarrow> d < sum_list ls \<Longrightarrow> month_day m ls d = (m', d') \<Longrightarrow>
     m \<le> m' \<and> nat (m' - m) < length ls \<and> 1 \<le> d' \<and> d' \<le> ls ! nat (m' - m) \<and> sum_list (take (nat (m' - m)) ls) + d' = d + 1"
proof (induction m ls d rule: month_day.induct)
  case (3 m l l' ls d)
  show ?case
  proof (cases "d < l")
    case True
    then show ?thesis using "3.prems" by auto
  next
    case False
    with 3 have IH: "m + 1 \<le> m'" "nat (m' - (m + 1)) < length (l' # ls)" "1 \<le> d'" "d' \<le> (l' # ls) ! nat (m' - (m + 1))"
      "sum_list (take (nat (m' - (m + 1))) (l' # ls)) + d' = d - l + 1" by auto
    then have "nat (m' - m) = Suc (nat (m' - (m + 1)))" by simp
    with IH show ?thesis by simp
  qed
qed auto

lemma civil_date_inverse:
  assumes "civil_date t = (y, m, d)"
  shows "date_days y m d = t div (86400 * 10 ^ 9)" "1 \<le> m" "m \<le> 12" "1 \<le> d" "d \<le> month_lengths (isLeap y) ! nat (m - 1)"
proof -
  obtain yd where yd: "year_day (t div (86400 * 10 ^ 9)) = (y, yd)" and md: "month_day 1 (month_lengths (isLeap y)) yd = (m, d)"
    using assms by (auto simp: civil_date_def split: prod.splits)
  note inv = year_day_inverse [OF yd]
  have l: "month_lengths (isLeap y) \<noteq> []" "length (month_lengths (isLeap y)) = 12" by (simp_all add: month_lengths_def)
  have "yd < sum_list (month_lengths (isLeap y))" using inv(2) by (simp add: sum_month_lengths)
  from month_day_inverse [OF l(1) year_day_bounds(1) [OF yd] this md] l(2) have mi:
    "1 \<le> m" "nat (m - 1) < 12" "1 \<le> d" "d \<le> month_lengths (isLeap y) ! nat (m - 1)"
    "sum_list (take (nat (m - 1)) (month_lengths (isLeap y))) + d = yd + 1" by auto
  then show "1 \<le> m" "m \<le> 12" "1 \<le> d" "d \<le> month_lengths (isLeap y) ! nat (m - 1)" by auto
  show "date_days y m d = t div (86400 * 10 ^ 9)" using mi(5) inv(1) by (simp add: date_days_def)
qed

lemma clock_time_inverse:
  assumes "clock_time t = (hh, mm, ss, ns)"
  shows "(hh * 3600 + mm * 60 + ss) * 10 ^ 9 + ns = t mod (86400 * 10 ^ 9)" "0 \<le> ns" "ns < 10 ^ 9"
proof -
  define r where "r = t mod (86400 * 10 ^ 9)"
  define s where "s = r div 10 ^ 9"
  have e: "hh = s div 3600" "mm = s div 60 mod 60" "ss = s mod 60" "ns = r mod 10 ^ 9"
    using assms by (simp_all add: clock_time_def Let_def r_def s_def)
  have "s div 3600 = s div 60 div 60" by (simp add: zdiv_zmult2_eq [symmetric])
  then have "s = hh * 3600 + mm * 60 + ss"
    using div_mult_mod_eq [of "s div 60" 60] div_mult_mod_eq [of s 60] unfolding e by linarith
  moreover have "s * 10 ^ 9 + ns = r" unfolding s_def e by simp
  ultimately show "(hh * 3600 + mm * 60 + ss) * 10 ^ 9 + ns = t mod (86400 * 10 ^ 9)" by (simp add: r_def)
  show "0 \<le> ns" "ns < 10 ^ 9" by (simp_all add: e)
qed

section \<open>Reading the fields back\<close>

lemma digits_val_zeros: "digits_val (replicate k (CHR ''0'') @ s) = digits_val s"
  by (induction k) (simp_all add: digits_val_def digit_val_def)

lemma digits_val_appendInt: "0 \<le> x \<Longrightarrow> digits_val (appendInt x w) = x"
  by (simp add: appendInt_def Let_def digits_val_zeros)

lemma digits_digit_char: "digits s \<Longrightarrow> list_all digit_char s"
  by (auto simp only: digits_def list_all_iff digit_char_def)

lemma getnum_appendInt:
  assumes "0 \<le> x" "x < 100"
  shows "getnum fixed (appendInt x 2 @ s) = Some (x, s)"
proof -
  have "length (appendInt x 2) = 2" using assms by (intro length_appendInt) simp_all
  then obtain a b where ab: "appendInt x 2 = [a, b]" by (metis length_0_conv length_Suc_conv numeral_2_eq_2)
  then have "digit_char a" "digit_char b" "10 * digit_val a + digit_val b = x"
    using digits_digit_char [OF digits_appendInt [OF assms(1), of 2]] digits_val_appendInt [OF assms(1), of 2] by (simp_all add: digits_val_def)
  then show ?thesis by (simp add: getnum_def ab)
qed

lemma getyear_appendInt: "0 \<le> y \<Longrightarrow> y \<le> 9999 \<Longrightarrow> getyear (appendInt y 4 @ s) = Some (y, s)"
  using length_appendInt [of y 4] digits_digit_char [OF digits_appendInt, of y 4] digits_val_appendInt [of y 4] by (simp add: getyear_def)

lemma trim_zeros_val: "digits_val (trim_zeros s) * 10 ^ (length s - length (trim_zeros s)) = digits_val s \<and> length (trim_zeros s) \<le> length s"
proof (induction s rule: rev_induct)
  case (snoc c s)
  show ?case
  proof (cases "c = CHR ''0''")
    case True
    then have "trim_zeros (s @ [c]) = trim_zeros s" by (simp add: trim_zeros_def)
    with snoc True show ?thesis by (auto simp: Suc_diff_le digit_val_def)
  next
    case False
    then have "trim_zeros (s @ [c]) = s @ [c]" by (simp add: trim_zeros_def)
    then show ?thesis by simp
  qed
qed (simp add: trim_zeros_def)

lemma set_trim_zeros: "set (trim_zeros s) \<subseteq> set s"
  unfolding trim_zeros_def by (metis set_dropWhileD set_rev subsetI)

lemma getfraction_appendNano:
  assumes "0 \<le> ns" "ns < 10 ^ 9"
  shows "getfraction (appendNano ns @ ''Z'') = (ns, ''Z'')"
proof -
  define ds where "ds = trim_zeros (appendInt ns 9)"
  have l: "length (appendInt ns 9) = 9" using assms by (intro length_appendInt) simp_all
  have v: "digits_val ds * 10 ^ (9 - length ds) = ns" "length ds \<le> 9"
    using trim_zeros_val [of "appendInt ns 9"] digits_val_appendInt [OF assms(1), of 9] by (simp_all add: ds_def l)
  have d: "list_all digit_char ds"
    using set_trim_zeros [of "appendInt ns 9"] digits_digit_char [OF digits_appendInt [OF assms(1), of 9]] by (auto simp: ds_def list_all_iff)
  have z: "\<not> digit_char (CHR ''Z'')" by code_simp
  show ?thesis
  proof (cases ds)
    case Nil
    then have "appendNano ns = []" by (simp add: appendNano_def ds_def)
    moreover have "ns = 0" using Nil v by (simp add: digits_val_def)
    ultimately show ?thesis by (simp add: getfraction_def)
  next
    case (Cons c cs)
    have "takeWhile digit_char (ds @ ''Z'') = ds" using d z by (simp add: takeWhile_append list_all_iff)
    then show ?thesis using Cons d v by (simp add: appendNano_def Let_def ds_def [symmetric] getfraction_def)
  qed
qed

lemma ranged_Some: "lo \<le> n \<Longrightarrow> n \<le> hi \<Longrightarrow> ranged lo hi (Some (n, s)) = Some (n, s)"
  by (simp add: ranged_def)

lemma expect_Cons [simp]: "expect c (c # s) = Some s"
  by (simp add: expect_def)

text \<open>\<^verbatim>\<open>Time.MarshalJSON\<close> refuses a year that has not four digits.\<close>

definition year_fits :: "time \<Rightarrow> bool" where
  "year_fits t = (let y = fst (civil_date t) in 0 \<le> y \<and> y \<le> 9999)"

lemma parse_format:
  assumes "year_fits t"
  shows "ParseRFC3339Nano (FormatRFC3339Nano t) = Some t"
proof -
  obtain y m d where c: "civil_date t = (y, m, d)" by (cases "civil_date t")
  obtain hh mm ss ns where k: "clock_time t = (hh, mm, ss, ns)" by (cases "clock_time t")
  have cb: "0 \<le> y" "y \<le> 9999" using assms by (simp_all add: year_fits_def c)
  note ci = civil_date_inverse [OF c]
  note kb = clock_time_bounds [OF k] and ki = clock_time_inverse [OF k]
  have "month_lengths (isLeap y) ! nat (m - 1) < 100" using ci(2,3) by (auto simp: month_lengths_def nth_Cons')
  then have d: "d < 100" using ci(5) by simp
  have "date_days y m d * 86400 * 10 ^ 9 + t mod (86400 * 10 ^ 9) = t" unfolding ci(1) using div_mult_mod_eq [of t "86400 * 10 ^ 9"] by simp
  then have "(date_days y m d * 86400 + hh * 3600 + mm * 60 + ss) * 10 ^ 9 + ns = t" using ki(1) by (simp add: algebra_simps)
  then show ?thesis
    using cb ci(2-5) kb d unfolding FormatRFC3339Nano_def ParseRFC3339Nano_def c k
    by (simp add: getyear_appendInt getnum_appendInt ranged_Some getfraction_appendNano [OF ki(2,3)] getzone_def)
qed

end
