(* ===== verification/Frontmatter.thy ===== *)
theory Frontmatter
  imports TimeFormat Memory "HOL-Library.AList"
begin

text \<open>
  \<^verbatim>\<open>filestore/frontmatter.go\<close>: an entry file is a block of \<^verbatim>\<open>key: value\<close> lines between two \<^verbatim>\<open>---\<close> lines, and then the
  content as it is.  \<open>encode_entry\<close> writes one and \<open>decode_entry\<close> reads one, a file a person wrote by hand included; reading
  back what was written gives the content, the time and the metadata, whatever the content holds.
\<close>

section \<open>Writing\<close>

definition delimiter :: string where "delimiter = ''---'' @ [LF]"

definition writeField :: "string \<Rightarrow> string \<Rightarrow> string" where
  "writeField key val = key @ '':'' @ (if val \<noteq> [] then CHR '' '' # val else []) @ [LF]"

definition encode_entry :: "Entry \<Rightarrow> string" where
  "encode_entry e =
     delimiter @ writeField ''name'' (eName e) @ writeField ''updated'' (FormatRFC3339Nano (eUpdated e)) @
     concat (map (\<lambda>k. writeField k (case mlookup (eMeta e) k of None \<Rightarrow> [] | Some v \<Rightarrow> v)) (sort (map fst (mitems (eMeta e))))) @
     delimiter @ eContent e"

section \<open>Reading\<close>

record decoded =
  dcMeta :: "gomap option"
  dcUpdated :: time
  dcContent :: string

text \<open>\<^verbatim>\<open>strings.SplitSeq\<close> and \<^verbatim>\<open>strings.Cut\<close> at one byte.\<close>

fun SplitByte :: "char \<Rightarrow> string \<Rightarrow> string list" where
  "SplitByte c [] = [[]]"
| "SplitByte c (x # xs) =
     (if x = c then [] # SplitByte c xs else case SplitByte c xs of [] \<Rightarrow> [[x]] | l # ls \<Rightarrow> (x # l) # ls)"

definition CutByte :: "char \<Rightarrow> string \<Rightarrow> (string \<times> string) option" where
  "CutByte c s = (if c \<in> set s then Some (takeWhile (\<lambda>x. x \<noteq> c) s, drop 1 (dropWhile (\<lambda>x. x \<noteq> c) s)) else None)"

definition decode_line :: "string \<Rightarrow> decoded \<Rightarrow> decoded" where
  "decode_line ln d =
     (case CutByte (CHR '':'') ln of
        None \<Rightarrow> d
      | Some (key, val) \<Rightarrow>
          let key = TrimSpace key; val = TrimSpace val in
          if key = ''name'' then d
          else if key = ''updated'' then (case ParseRFC3339Nano val of Some t \<Rightarrow> d\<lparr>dcUpdated := t\<rparr> | None \<Rightarrow> d)
          else if \<not> ValidName key then d
          else d\<lparr>dcMeta := Some (AList.update key val (mitems (dcMeta d)))\<rparr>)"

definition decode_block :: "string \<Rightarrow> string \<Rightarrow> decoded" where
  "decode_block block rest = fold decode_line (SplitByte LF block) \<lparr>dcMeta = None, dcUpdated = 0, dcContent = rest\<rparr>"

definition decode_entry :: "string \<Rightarrow> decoded" where
  "decode_entry s =
     (let plain = \<lparr>dcMeta = None, dcUpdated = 0, dcContent = s\<rparr> in
      if \<not> HasPrefix s delimiter then plain
      else
        let rest = drop (length delimiter) s in
        if HasPrefix rest delimiter then decode_block [] (drop (length delimiter) rest)
        else case Index rest (LF # delimiter) of
               None \<Rightarrow> plain
             | Some i \<Rightarrow> decode_block (take i rest) (drop (i + 1 + length delimiter) rest))"

section \<open>Lines\<close>

lemma SplitByte_not_Nil [simp]: "SplitByte c s \<noteq> []"
  by (induction s) (auto split: list.splits)

lemma SplitByte_cut: "c \<notin> set l \<Longrightarrow> SplitByte c (l @ c # s) = l # SplitByte c s"
  by (induction l) auto

lemma SplitByte_plain: "c \<notin> set l \<Longrightarrow> SplitByte c l = [l]"
  by (induction l) auto

lemma SplitByte_Join: "ls \<noteq> [] \<Longrightarrow> \<forall>l \<in> set ls. c \<notin> set l \<Longrightarrow> SplitByte c (Join ls [c]) = ls"
  by (induction ls "[c]" rule: Join.induct) (auto simp: SplitByte_plain SplitByte_cut)

lemma Index_skip: "c \<notin> set l \<Longrightarrow> Index (l @ s) (c # w) = map_option ((+) (length l)) (Index s (c # w))"
  by (induction l) (auto simp: gostr option.map_comp comp_def map_option_idI map_option_case split: option.splits)

lemma Index_block:
  "ls \<noteq> [] \<Longrightarrow> \<forall>l \<in> set ls. LF \<notin> set l \<Longrightarrow> \<forall>l \<in> set (tl ls). l \<noteq> ''---'' \<Longrightarrow>
     Index (Join ls [LF] @ LF # delimiter @ c) (LF # delimiter) = Some (length (Join ls [LF]))"
proof (induction ls "[LF]" rule: Join.induct)
  case (2 l)
  then show ?case by (simp add: Index_skip gostr)
next
  case (3 l m ls)
  then have IH: "Index (Join (m # ls) [LF] @ LF # delimiter @ c) (LF # delimiter) = Some (length (Join (m # ls) [LF]))" by simp
  obtain rest where r: "Join (m # ls) [LF] @ LF # delimiter @ c = m @ LF # rest" by (cases ls) auto
  have "\<not> HasPrefix (LF # Join (m # ls) [LF] @ LF # delimiter @ c) (LF # delimiter)"
  proof
    assume "HasPrefix (LF # Join (m # ls) [LF] @ LF # delimiter @ c) (LF # delimiter)"
    then obtain t where "m @ LF # rest = delimiter @ t" using r by (auto simp: gostr)
    then have "m @ LF # rest = ''---'' @ LF # t" by (simp add: delimiter_def)
    moreover have "LF \<notin> set m" "LF \<notin> set ''---''" using 3(3) by auto
    ultimately have "m = ''---''" by (metis cut_unique)
    then show False using 3(4) by simp
  qed
  then have "Index (LF # Join (m # ls) [LF] @ LF # delimiter @ c) (LF # delimiter) = Some (Suc (length (Join (m # ls) [LF])))"
    using IH by simp
  then show ?case using 3(3) by (simp add: Index_skip)
qed simp


section \<open>White space\<close>

definition tight :: "char \<Rightarrow> bool" where
  "tight c \<longleftrightarrow> byte c < 0x80 \<and> \<not> IsSpace (byte c)"

lemma TrimLeftSpace_tight: "tight c \<Longrightarrow> TrimLeftSpace (c # s) = c # s"
  using concat_runes [of s] by (simp add: TrimLeftSpace_def tight_def runes_ascii)

lemma TrimRightSpace_tight: "s \<noteq> [] \<Longrightarrow> tight (last s) \<Longrightarrow> TrimRightSpace s = s"
  by (simp add: TrimRightSpace.simps [of s] DecodeLastRune_def tight_def)

lemma TrimSpace_Nil [simp]: "TrimSpace [] = []"
  by (simp add: TrimSpace_def TrimLeftSpace_def TrimRightSpace.simps)

lemma TrimSpace_tight: "s \<noteq> [] \<Longrightarrow> tight (hd s) \<Longrightarrow> tight (last s) \<Longrightarrow> TrimSpace s = s"
  unfolding TrimSpace_def by (metis TrimLeftSpace_tight TrimRightSpace_tight list.collapse)

lemma TrimSpace_space: "TrimSpace (CHR '' '' # v) = TrimSpace v"
proof -
  have "byte (CHR '' '') < 0x80" "IsSpace (byte (CHR '' ''))" by code_simp+
  then show ?thesis by (simp add: TrimSpace_def TrimLeftSpace_def runes_ascii)
qed

lemma tight_chars: "\<forall>c \<in> set ''abcdefghijklmnopqrstuvwxyz0123456789-Z''. tight c"
  by code_simp

section \<open>The round trip\<close>

definition field_line :: "string \<times> string \<Rightarrow> string" where
  "field_line = (\<lambda>(k, v). k @ CHR '':'' # (if v \<noteq> [] then CHR '' '' # v else []))"

definition entry_lines :: "Entry \<Rightarrow> string list" where
  "entry_lines e = map field_line ((''name'', eName e) # (''updated'', FormatRFC3339Nano (eUpdated e)) # sorted_items (mitems (eMeta e)))"

lemma concat_lines: "ls \<noteq> [] \<Longrightarrow> concat (map (\<lambda>l. l @ [LF]) ls) = Join ls [LF] @ [LF]"
  by (induction ls "[LF]" rule: Join.induct) auto

lemma encode_lines: "encode_entry e = delimiter @ Join (entry_lines e) [LF] @ LF # delimiter @ eContent e"
proof -
  have f: "writeField k v = field_line (k, v) @ [LF]" for k v by (simp add: writeField_def field_line_def)
  have "encode_entry e = delimiter @ concat (map (\<lambda>l. l @ [LF]) (entry_lines e)) @ delimiter @ eContent e"
    by (simp add: encode_entry_def entry_lines_def f sorted_items_def mlookup_def comp_def)
  moreover have "entry_lines e \<noteq> []" by (simp add: entry_lines_def)
  ultimately show ?thesis by (simp add: concat_lines)
qed

lemma CutByte_field: "CHR '':'' \<notin> set k \<Longrightarrow> CutByte (CHR '':'') (field_line (k, v)) = Some (k, if v \<noteq> [] then CHR '' '' # v else [])"
proof -
  assume "CHR '':'' \<notin> set k"
  then have "takeWhile (\<lambda>x. x \<noteq> CHR '':'') (k @ CHR '':'' # s) = k" "dropWhile (\<lambda>x. x \<noteq> CHR '':'') (k @ CHR '':'' # s) = CHR '':'' # s" for s
    by (induction k) auto
  then show ?thesis by (simp add: CutByte_def field_line_def)
qed


lemma decode_field:
  assumes "CHR '':'' \<notin> set k" "TrimSpace k = k" "TrimSpace v = v"
  shows "decode_line (field_line (k, v)) d =
    (if k = ''name'' then d
     else if k = ''updated'' then (case ParseRFC3339Nano v of Some t \<Rightarrow> d\<lparr>dcUpdated := t\<rparr> | None \<Rightarrow> d)
     else if \<not> ValidName k then d
     else d\<lparr>dcMeta := Some (AList.update k v (mitems (dcMeta d)))\<rparr>)"
  using assms(2,3) by (auto simp: decode_line_def CutByte_field [OF assms(1)] TrimSpace_space Let_def)

lemma name_char_tight: "name_char c \<or> c = CHR ''-'' \<Longrightarrow> tight c"
proof -
  have "\<forall>c. name_char c \<or> c = CHR ''-'' \<longrightarrow> tight c" by code_simp
  then show "name_char c \<or> c = CHR ''-'' \<Longrightarrow> tight c" by blast
qed

lemma ValidName_trim: "ValidName k \<Longrightarrow> TrimSpace k = k"
proof -
  assume k: "ValidName k"
  then have "k \<noteq> []" by auto
  moreover have "tight c" if "c \<in> set k" for c
    using ValidName_chars [OF k that] name_char_tight by auto
  ultimately show ?thesis by (intro TrimSpace_tight) auto
qed

lemma update_new: "k \<notin> fst ` set al \<Longrightarrow> AList.update k v al = al @ [(k, v)]"
  by (induction al) auto

lemma decode_meta:
  assumes "\<forall>(k, v) \<in> set ms. pair_ok k v" "distinct (map fst (mitems (dcMeta d) @ ms))"
  shows "fold decode_line (map field_line ms) d = (if ms = [] then d else d\<lparr>dcMeta := Some (mitems (dcMeta d) @ ms)\<rparr>)"
  using assms
proof (induction ms arbitrary: d)
  case (Cons kv ms)
  obtain k v where kv: "kv = (k, v)" by (cases kv)
  with Cons.prems(1) have ok: "pair_ok k v" by simp
  then have k: "ValidName k" "k \<noteq> ''name''" "k \<noteq> ''updated''" "TrimSpace v = v"
    by (auto simp: pair_ok_def reservedMetaKeys_def)
  have "k \<notin> fst ` set (mitems (dcMeta d))" using Cons.prems(2) kv by auto
  then have "decode_line (field_line kv) d = d\<lparr>dcMeta := Some (mitems (dcMeta d) @ [(k, v)])\<rparr>"
    using k unfolding kv by (simp add: decode_field [OF ValidName_excludes(2) [OF k(1)] ValidName_trim [OF k(1)] k(4)] update_new)
  moreover have "fold decode_line (map field_line ms) (d\<lparr>dcMeta := Some (mitems (dcMeta d) @ [(k, v)])\<rparr>) =
      d\<lparr>dcMeta := Some (mitems (dcMeta d) @ kv # ms)\<rparr>"
    using Cons.prems kv by (subst Cons.IH) (auto simp: mitems_def)
  ultimately show ?case by simp
qed simp


lemma Format_ends: "FormatRFC3339Nano t \<noteq> [] \<and> last (FormatRFC3339Nano t) = CHR ''Z''"
  by (simp add: FormatRFC3339Nano_def split: prod.splits)

lemma Format_chars:
  assumes "year_fits t" "c \<in> set (FormatRFC3339Nano t)"
  shows "tight c" "c \<noteq> LF"
proof -
  obtain y m d where cd: "civil_date t = (y, m, d)" by (cases "civil_date t")
  obtain hh mm ss ns where k: "clock_time t = (hh, mm, ss, ns)" by (cases "clock_time t")
  have pos: "0 \<le> y" "0 \<le> m" "0 \<le> d" "0 \<le> hh" "0 \<le> mm" "0 \<le> ss" "0 \<le> ns"
    using assms(1) civil_date_inverse [OF cd] clock_time_bounds [OF k] clock_time_inverse [OF k] by (simp_all add: year_fits_def cd)
  define A where "A = set ''0123456789-:.TZ''"
  have A: "CHR ''-'' \<in> A" "CHR '':'' \<in> A" "CHR ''.'' \<in> A" "CHR ''T'' \<in> A" "CHR ''Z'' \<in> A" "set ''0123456789'' \<subseteq> A"
    by (simp_all add: A_def)
  have num: "set (appendInt x w) \<subseteq> A" if "0 \<le> x" for x w using digits_appendInt [OF that, of w] A(6) unfolding digits_def by (rule subset_trans)
  have "set (appendNano ns) \<subseteq> A"
    using subset_trans [OF set_trim_zeros num [OF pos(7)], of 9] A(3) by (simp add: appendNano_def Let_def)
  then have "set (FormatRFC3339Nano t) \<subseteq> A" using num pos A(1-5) by (simp add: FormatRFC3339Nano_def cd k)
  moreover have "\<forall>c \<in> A. tight c \<and> c \<noteq> LF" unfolding A_def by code_simp
  ultimately show "tight c" "c \<noteq> LF" using assms(2) by blast+
qed


lemma decode_joined:
  assumes "ls \<noteq> []" "\<forall>l \<in> set ls. LF \<notin> set l" "\<forall>l \<in> set ls. l \<noteq> ''---''"
  shows "decode_entry (delimiter @ Join ls [LF] @ LF # delimiter @ c) = fold decode_line ls \<lparr>dcMeta = None, dcUpdated = 0, dcContent = c\<rparr>"
proof -
  let ?rest = "Join ls [LF] @ LF # delimiter @ c"
  obtain l ls' where ls: "ls = l # ls'" using assms(1) by (cases ls) auto
  obtain t where t: "?rest = l @ LF # t" unfolding ls by (cases ls') auto
  have "\<not> HasPrefix ?rest delimiter"
  proof
    assume "HasPrefix ?rest delimiter"
    then obtain u where "l @ LF # t = ''---'' @ LF # u" unfolding t by (auto simp: gostr delimiter_def)
    moreover have "LF \<notin> set l" "LF \<notin> set ''---''" using assms(2) ls by auto
    ultimately have "l = ''---''" by (metis cut_unique)
    then show False using assms(3) ls by simp
  qed
  moreover have "Index ?rest (LF # delimiter) = Some (length (Join ls [LF]))"
    using assms by (intro Index_block) (auto dest: list.set_sel(2) [rotated])
  moreover have "HasPrefix (delimiter @ ?rest) delimiter" by (simp add: gostr)
  ultimately show ?thesis using SplitByte_Join [OF assms(1,2)] by (simp add: decode_entry_def decode_block_def Let_def)
qed

lemma field_line_bounds:
  assumes "LF \<notin> set k" "LF \<notin> set v"
  shows "LF \<notin> set (field_line (k, v))" "field_line (k, v) \<noteq> ''---''"
proof -
  show "LF \<notin> set (field_line (k, v))" using assms by (simp add: field_line_def)
  have "CHR '':'' \<in> set (field_line (k, v))" by (simp add: field_line_def)
  then show "field_line (k, v) \<noteq> ''---''" by auto
qed

lemma MetaHash_sorted: "mlen m \<noteq> 0 \<Longrightarrow> MetaHash (Some (sorted_items (mitems m))) = MetaHash m"
proof -
  assume "mlen m \<noteq> 0"
  then have "mlen (Some (sorted_items (mitems m))) \<noteq> 0" by (simp add: mlen_def sorted_items_def mitems_def split: option.splits)
  moreover have "map fst (sorted_items (mitems m)) = sort (map fst (mitems m))" by (simp add: sorted_items_def comp_def)
  then have "metaText (sorted_items (mitems m)) = metaText (mitems m)" by (simp add: metaText_def map_of_sorted_items sorted_sort_id)
  ultimately show ?thesis using \<open>mlen m \<noteq> 0\<close> by (simp add: MetaHash_def mitems_def)
qed

lemma decode_encode_entry:
  assumes "entry_ok e limit" "wf_gomap (eMeta e)" "year_fits (eUpdated e)"
  shows "decode_entry (encode_entry e) =
    \<lparr>dcMeta = (if mlen (eMeta e) = 0 then None else Some (sorted_items (mitems (eMeta e)))), dcUpdated = eUpdated e, dcContent = eContent e\<rparr>"
proof -
  let ?ms = "sorted_items (mitems (eMeta e))" and ?u = "FormatRFC3339Nano (eUpdated e)"
  have name: "ValidName (eName e)" and meta: "meta_ok (mitems (eMeta e))" using assms(1) by (simp_all add: entry_ok_def)
  have d: "distinct (map fst (mitems (eMeta e)))" using assms(2) by (simp add: wf_gomap_items)
  have ms: "\<forall>(k, v) \<in> set ?ms. pair_ok k v" using meta sorted_items_in [OF _ d] by (auto simp: meta_ok_def)
  have "LF \<notin> set v" if "pair_ok k v" for k v using that by (auto simp: pair_ok_def ContainsAny_def)
  moreover have "LF \<notin> set k" if "pair_ok k v" for k v using that ValidName_excludes(4) by (auto simp: pair_ok_def)
  ultimately have "\<forall>(k, v) \<in> set ?ms. LF \<notin> set k \<and> LF \<notin> set v" using ms by blast
  moreover have "LF \<notin> set ?u" using Format_chars(2) [OF assms(3)] by blast
  ultimately have lf: "\<forall>(k, v) \<in> set ((''name'', eName e) # (''updated'', ?u) # ?ms). LF \<notin> set k \<and> LF \<notin> set v"
    using ValidName_excludes(4) [OF name] by simp
  have "LF \<notin> set l \<and> l \<noteq> ''---''" if "l \<in> set (entry_lines e)" for l
  proof -
    from that obtain k v where kv: "(k, v) \<in> set ((''name'', eName e) # (''updated'', ?u) # ?ms)" "l = field_line (k, v)"
      unfolding entry_lines_def set_map by force
    from bspec [OF lf kv(1)] have "LF \<notin> set k" "LF \<notin> set v" by simp_all
    then show ?thesis unfolding kv(2) by (intro conjI field_line_bounds)
  qed
  then have l: "\<forall>l \<in> set (entry_lines e). LF \<notin> set l" "\<forall>l \<in> set (entry_lines e). l \<noteq> ''---''" "entry_lines e \<noteq> []"
    by (blast, blast, simp add: entry_lines_def)
  have "tight (hd ?u)" using Format_ends [of "eUpdated e"] Format_chars(1) [OF assms(3)] by auto
  moreover have "tight (CHR ''Z'')" by code_simp
  ultimately have u: "TrimSpace ?u = ?u" using Format_ends [of "eUpdated e"] by (intro TrimSpace_tight) simp_all
  have "CHR '':'' \<notin> set ''name''" "TrimSpace ''name'' = ''name''" "CHR '':'' \<notin> set ''updated''" "TrimSpace ''updated'' = ''updated''"
    by code_simp+
  note fields = decode_field [OF this(1,2) ValidName_trim [OF name]] decode_field [OF this(3,4) u]
  have "distinct (map fst ?ms)" by (simp add: sorted_items_def comp_def d)
  then have "fold decode_line (entry_lines e) \<lparr>dcMeta = None, dcUpdated = 0, dcContent = eContent e\<rparr> =
      (if ?ms = [] then \<lparr>dcMeta = None, dcUpdated = eUpdated e, dcContent = eContent e\<rparr>
       else \<lparr>dcMeta = Some ?ms, dcUpdated = eUpdated e, dcContent = eContent e\<rparr>)"
    using decode_meta [OF ms, of "\<lparr>dcMeta = None, dcUpdated = eUpdated e, dcContent = eContent e\<rparr>"]
    by (simp add: entry_lines_def fields parse_format [OF assms(3)] mitems_def)
  moreover have "length ?ms = mlen (eMeta e)" by (simp add: sorted_items_def mlen_def mitems_def split: option.splits)
  then have "?ms = [] \<longleftrightarrow> mlen (eMeta e) = 0" by (metis length_0_conv)
  ultimately show ?thesis unfolding encode_lines decode_joined [OF l(3,1,2)] by simp
qed

text \<open>C40: an entry file reads back as the entry it was written for: whatever the content holds, a block delimiter included, the
  content and the time are the same, and the metadata has the same values and the same hash.\<close>

theorem entry_file_roundtrip:
  assumes "CheckEntry e limit None = None" "wf_gomap (eMeta e)" "year_fits (eUpdated e)"
  shows "dcContent (decode_entry (encode_entry e)) = eContent e \<and> dcUpdated (decode_entry (encode_entry e)) = eUpdated e \<and>
    mlookup (dcMeta (decode_entry (encode_entry e))) = mlookup (eMeta e) \<and> MetaHash (dcMeta (decode_entry (encode_entry e))) = MetaHash (eMeta e)"
proof -
  have "entry_ok e limit" using assms(1) by (simp add: CheckEntry_None)
  note d = decode_encode_entry [OF this assms(2,3)]
  have "mlookup None = mlookup m" if "mlen m = 0" for m using that by (auto simp: mlookup_def mlen_def mitems_def split: option.splits)
  moreover have "mlookup (Some (sorted_items (mitems m))) = mlookup m" for m by (simp add: fun_eq_iff mlookup_def mitems_def map_of_sorted_items)
  ultimately show ?thesis unfolding d by (simp add: MetaHash_sorted) (simp add: MetaHash_def mlen_def)
qed

definition ruled_entry :: Entry where
  "ruled_entry = \<lparr>eScope = ''user'', eName = ''style'', eContent = delimiter @ ''name: tea'' @ [LF] @ delimiter,
     eMeta = Some [(''type'', ''feedback''), (''description'', ''How: tersely'')], eHash = [], eMetaHash = [], eUpdated = 63000000000123456789, eDeleted = False\<rparr>"

theorem entry_file_roundtrip_witness: "dcContent (decode_entry (encode_entry ruled_entry)) = eContent ruled_entry"
proof -
  have "CheckEntry ruled_entry 0 None = None" "wf_gomap (eMeta ruled_entry)" "year_fits (eUpdated ruled_entry)" by code_simp+
  from entry_file_roundtrip [OF this] show ?thesis by blast
qed

end
