(* ===== verification/FileJournal.thy ===== *)
theory FileJournal
  imports Frontmatter RecordProofs Store
begin

text \<open>
  \<^verbatim>\<open>filestore/journal.go\<close>: the journal is one JSON object per line, each a \<^verbatim>\<open>Change\<close>.  A journal is the bytes of its file.
  \<open>scanJournal\<close> reads the lines from an offset on, \<open>tailLines\<close> reads them backwards in growing chunks, and \<open>appendJournal\<close> adds a record
  and ends a line a cut-off write left.  Of \<^verbatim>\<open>encoding/json\<close> a time's value is the string the literal stands for, and the texts of
  its errors are not modelled.
\<close>

section \<open>A record as JSON\<close>

definition entry_json :: "Entry \<Rightarrow> json" where
  "entry_json e = JObj (
     [(''scope'', JStr (eScope e)), (''name'', JStr (eName e)), (''content'', JStr (eContent e))] @
     (if mlen (eMeta e) \<noteq> 0 then [(''meta'', JObj (map (\<lambda>(k, v). (k, JStr v)) (sorted_items (mitems (eMeta e)))))] else []) @
     [(''hash'', JStr (eHash e))] @
     (if eMetaHash e \<noteq> [] then [(''meta_hash'', JStr (eMetaHash e))] else []) @
     [(''updated'', JStr (FormatRFC3339Nano (eUpdated e)))] @
     (if eDeleted e then [(''deleted'', JBool True)] else []))"

definition change_json :: "Change \<Rightarrow> json" where
  "change_json c = JObj (
     [(''seq'', JNum (Itoa (uint (cSeq c)))), (''entry'', entry_json (cEntry c))] @
     (if cPrev c \<noteq> [] then [(''prev'', JStr (cPrev c))] else []) @
     (if cReplaced c \<noteq> [] then [(''replaced'', JStr (cReplaced c))] else []) @
     (if cSession c \<noteq> [] then [(''session'', JStr (cSession c))] else []) @
     (if cSource c \<noteq> [] then [(''source'', JStr (cSource c))] else []) @
     [(''at'', JStr (FormatRFC3339Nano (cAt c)))])"

definition marshal_change :: "Change \<Rightarrow> string option" where
  "marshal_change c = (if year_fits (eUpdated (cEntry c)) \<and> year_fits (cAt c) then Some (enc_json (change_json c)) else None)"

section \<open>Reading a record\<close>

definition dec_time :: "time decoder" where
  "dec_time j old = (case j of JStr s \<Rightarrow> ParseRFC3339Nano s | JNull \<Rightarrow> Some old | _ \<Rightarrow> None)"

fun dec_pairs :: "(string \<times> json) list \<Rightarrow> gomap \<Rightarrow> gomap option" where
  "dec_pairs [] m = Some m"
| "dec_pairs ((k, j) # kvs) m = (case dec_string j [] of None \<Rightarrow> None | Some v \<Rightarrow> dec_pairs kvs (AList.update k v m))"

definition dec_map :: "gomap option decoder" where
  "dec_map j old = (case j of JObj kvs \<Rightarrow> map_option Some (dec_pairs kvs (mitems old)) | JNull \<Rightarrow> Some None | _ \<Rightarrow> None)"

definition zero_entry :: Entry where
  "zero_entry = \<lparr>eScope = [], eName = [], eContent = [], eMeta = None, eHash = [], eMetaHash = [], eUpdated = 0, eDeleted = False\<rparr>"

definition zero_change :: Change where
  "zero_change = \<lparr>cSeq = 0, cEntry = zero_entry, cPrev = [], cReplaced = [], cSession = [], cSource = [], cAt = 0\<rparr>"

definition mem_entry_fields :: "(string \<times> Entry decoder) list" where
  "mem_entry_fields =
     [(''scope'', at_field eScope (\<lambda>v e. e\<lparr>eScope := v\<rparr>) dec_string),
      (''name'', at_field eName (\<lambda>v e. e\<lparr>eName := v\<rparr>) dec_string),
      (''content'', at_field eContent (\<lambda>v e. e\<lparr>eContent := v\<rparr>) dec_string),
      (''meta'', at_field eMeta (\<lambda>v e. e\<lparr>eMeta := v\<rparr>) dec_map),
      (''hash'', at_field eHash (\<lambda>v e. e\<lparr>eHash := v\<rparr>) dec_string),
      (''meta_hash'', at_field eMetaHash (\<lambda>v e. e\<lparr>eMetaHash := v\<rparr>) dec_string),
      (''updated'', at_field eUpdated (\<lambda>v e. e\<lparr>eUpdated := v\<rparr>) dec_time),
      (''deleted'', at_field eDeleted (\<lambda>v e. e\<lparr>eDeleted := v\<rparr>) dec_bool)]"

definition change_fields :: "(string \<times> Change decoder) list" where
  "change_fields =
     [(''seq'', at_field cSeq (\<lambda>v c. c\<lparr>cSeq := v\<rparr>) dec_uint64),
      (''entry'', at_field cEntry (\<lambda>v c. c\<lparr>cEntry := v\<rparr>) (dec_struct mem_entry_fields)),
      (''prev'', at_field cPrev (\<lambda>v c. c\<lparr>cPrev := v\<rparr>) dec_string),
      (''replaced'', at_field cReplaced (\<lambda>v c. c\<lparr>cReplaced := v\<rparr>) dec_string),
      (''session'', at_field cSession (\<lambda>v c. c\<lparr>cSession := v\<rparr>) dec_string),
      (''source'', at_field cSource (\<lambda>v c. c\<lparr>cSource := v\<rparr>) dec_string),
      (''at'', at_field cAt (\<lambda>v c. c\<lparr>cAt := v\<rparr>) dec_time)]"

definition decodeRecord :: "string \<Rightarrow> string + Change" where
  "decodeRecord ln =
     (case Unmarshal (dec_struct change_fields) ln zero_change of
        None \<Rightarrow> Inl []
      | Some c \<Rightarrow>
          if cSeq c = 0 then Inl ''record has no seq''
          else if \<not> ValidScope (eScope (cEntry c)) \<or> \<not> ValidName (eName (cEntry c)) then Inl ''record names no entry''
          else if eHash (cEntry c) = [] then Inl ''record has no hash''
          else Inr c)"

section \<open>Scanning\<close>

text \<open>The loop of \<^verbatim>\<open>scanJournal\<close>: what it calls its function with, and the offset after the last complete line.\<close>

function scan_loop :: "nat \<Rightarrow> int \<Rightarrow> string \<Rightarrow> (error + Change) list \<times> int" where
  "scan_loop lineNo pos s =
     (if LF \<notin> set s then ([], pos)
      else
        let ln = takeWhile (\<lambda>c. c \<noteq> LF) s; rest = drop (Suc (length ln)) s;
            (ys, pos') = scan_loop (Suc lineNo) (pos + int (length ln) + 1) rest
        in if TrimSpace ln = [] then (ys, pos')
           else (case decodeRecord ln of
                   Inl err \<Rightarrow> (Inl (ErrText (''filestore: journal line '' @ Itoa (int lineNo) @ '': '' @ err)) # ys, pos')
                 | Inr c \<Rightarrow> (Inr c # ys, pos')))"
  by pat_completeness auto
termination by (relation "measure (\<lambda>(n, pos, s). length s)") (auto intro!: diff_less length_pos_if_in_set)

declare scan_loop.simps [simp del]

text \<open>A journal that does not exist is \<^const>\<open>None\<close>.\<close>

definition scanJournal :: "int \<Rightarrow> string option \<Rightarrow> (error + Change) list \<times> int" where
  "scanJournal off journal =
     (case journal of
        None \<Rightarrow> ([], 0)
      | Some data \<Rightarrow> if off > int (length data) then ([], int (length data)) else scan_loop 1 off (drop (nat off) data))"

definition readJournal :: "uint64 \<Rightarrow> string option \<Rightarrow> (error + Change) list" where
  "readJournal after journal = filter (\<lambda>y. case y of Inl err \<Rightarrow> True | Inr c \<Rightarrow> cSeq c > after) (fst (scanJournal 0 journal))"

section \<open>Appending\<close>

definition appendJournal :: "Change \<Rightarrow> string option \<Rightarrow> error + string \<times> int" where
  "appendJournal c journal =
     (case marshal_change c of
        None \<Rightarrow> Inl (ErrText ''filestore: encode journal record: '')
      | Some ln \<Rightarrow>
          let data = (case journal of None \<Rightarrow> [] | Some data \<Rightarrow> data);
              ln = (if data \<noteq> [] \<and> last data \<noteq> LF then LF # ln else ln);
              data' = data @ ln @ [LF]
          in Inr (data', int (length data')))"

definition headLimit :: nat where "headLimit = 65536"

definition headLine :: "string option \<Rightarrow> string" where
  "headLine journal =
     (case journal of
        None \<Rightarrow> []
      | Some data \<Rightarrow>
          let lim = take headLimit data; ln = takeWhile (\<lambda>c. c \<noteq> LF) lim
          in if LF \<in> set lim then ln @ [LF] else ln)"

section \<open>Reading the tail\<close>

definition LastIndexByte :: "string \<Rightarrow> char \<Rightarrow> nat option" where
  "LastIndexByte s c =
     (if c \<in> set s then Some (length s - 1 - length (takeWhile (\<lambda>x. x \<noteq> c) (rev s))) else None)"

lemma LastIndexByte_less: "LastIndexByte s c = Some i \<Longrightarrow> i < length s"
  by (cases s) (auto simp: LastIndexByte_def split: if_splits)

text \<open>The inner loop of \<^verbatim>\<open>tailLines\<close>: the lines before the newline at \<open>limit\<close>, last first, the first line of the file included when \<open>whole\<close>
  says it is in the buffer, and where the line that is not yet whole ends, \<^const>\<open>None\<close> when there is none.\<close>

function tail_inner :: "bool \<Rightarrow> string \<Rightarrow> nat \<Rightarrow> string list \<times> nat option" where
  "tail_inner whole buf limit =
     (case LastIndexByte (take limit buf) LF of
        None \<Rightarrow> if whole then ([take limit buf], None) else ([], Some limit)
      | Some start \<Rightarrow>
          (case tail_inner whole buf start of (ls, lim) \<Rightarrow> (take (limit - (start + 1)) (drop (start + 1) buf) # ls, lim)))"
  by pat_completeness auto
termination
  by (relation "measure (\<lambda>(whole, buf, limit). limit)") (auto dest!: LastIndexByte_less)

declare tail_inner.simps [simp del]

function tail_loop :: "string \<Rightarrow> nat \<Rightarrow> nat \<Rightarrow> string \<Rightarrow> nat option \<Rightarrow> string list" where
  "tail_loop data start chunk buf limit =
     (if start = 0 \<or> chunk = 0 then []
      else
        let n = min chunk start; buf = take n (drop (start - n) data) @ buf; start = start - n;
            limit = (case limit of None \<Rightarrow> LastIndexByte buf LF | Some l \<Rightarrow> Some (l + n))
        in case limit of
             None \<Rightarrow> tail_loop data start (2 * chunk) buf None
           | Some l \<Rightarrow>
               (case tail_inner (start = 0) buf l of
                  (ls, None) \<Rightarrow> ls
                | (ls, Some l) \<Rightarrow> ls @ tail_loop data start (2 * chunk) (take (l + 1) buf) (Some l)))"
  by pat_completeness auto
termination by (relation "measure (\<lambda>(data, start, chunk, buf, limit). start)") auto

declare tail_loop.simps [simp del]

text \<open>The lines \<^verbatim>\<open>tailLines\<close> calls its function with, last first; a caller that stops has looked at a prefix of them.  The chunk
  starts at four kilobytes.\<close>

definition tailLines :: "string \<Rightarrow> string list" where
  "tailLines data = tail_loop data (length data) 4096 [] None"

definition lastSeq :: "string option \<Rightarrow> uint64" where
  "lastSeq journal =
     (case journal of
        None \<Rightarrow> 0
      | Some data \<Rightarrow>
          (case List.find (\<lambda>ln. \<not> (TrimSpace ln = [] \<or> isl (decodeRecord ln))) (tailLines data) of
             None \<Rightarrow> 0
           | Some ln \<Rightarrow> (case decodeRecord ln of Inl _ \<Rightarrow> 0 | Inr c \<Rightarrow> cSeq c)))"

end
