(* ===== verification/FileTail.thy ===== *)
theory FileTail
  imports FileJournal
begin

text \<open>
  The journal's lines: \<open>complete_lines\<close> is what a file's bytes hold, a cut-off last line left out.  \<open>scanJournal\<close> reads them in order,
  and \<open>tailLines\<close>, which reads the file backwards in chunks that double, gives them in reverse, so that \<open>lastSeq\<close> is the number of the
  last record a whole scan finds.
\<close>

definition complete_lines :: "string \<Rightarrow> string list" where
  "complete_lines s = butlast (SplitByte LF s)"

section \<open>Splitting\<close>

lemma SplitByte_append:
  "SplitByte c (a @ b) = butlast (SplitByte c a) @ (last (SplitByte c a) @ hd (SplitByte c b)) # tl (SplitByte c b)"
proof (induction a)
  case (Cons x a)
  obtain l ls where a: "SplitByte c a = l # ls" by (cases "SplitByte c a") auto
  show ?case using Cons by (cases ls) (auto simp: a)
qed simp

lemma complete_lines_Nil [simp]: "complete_lines [] = []"
  by (simp add: complete_lines_def)

lemma complete_lines_LF: "complete_lines (s @ [LF]) = SplitByte LF s"
  by (simp add: complete_lines_def SplitByte_append butlast_append)

lemma complete_lines_partial: "LF \<notin> set q \<Longrightarrow> complete_lines (s @ q) = complete_lines s"
  by (simp add: complete_lines_def SplitByte_append SplitByte_plain butlast_append)

lemma complete_lines_cut: "LF \<notin> set q \<Longrightarrow> complete_lines (s @ LF # q) = SplitByte LF s"
  using complete_lines_partial [of q "s @ [LF]"] by (simp add: complete_lines_LF)

lemma complete_lines_append: "complete_lines (s @ LF # t) = SplitByte LF s @ complete_lines t"
  by (simp add: complete_lines_def SplitByte_append butlast_append)

lemma LastIndexByte_None: "LastIndexByte s c = None \<longleftrightarrow> c \<notin> set s"
  by (simp add: LastIndexByte_def)

lemma LastIndexByte_Some:
  assumes "LastIndexByte s c = Some i"
  obtains q where "s = take i s @ c # q" "c \<notin> set q" "i < length s"
proof -
  have c: "c \<in> set (rev s)" and i: "i = length s - 1 - length (takeWhile (\<lambda>x. x \<noteq> c) (rev s))"
    using assms by (auto simp: LastIndexByte_def split: if_splits)
  define q where "q = rev (takeWhile (\<lambda>x. x \<noteq> c) (rev s))"
  obtain p where "dropWhile (\<lambda>x. x \<noteq> c) (rev s) = c # p"
    using c by (metis (mono_tags, lifting) dropWhile_eq_Nil_conv hd_dropWhile list.collapse)
  then have "rev s = takeWhile (\<lambda>x. x \<noteq> c) (rev s) @ c # p" by (metis takeWhile_dropWhile_id)
  then have s: "s = rev p @ c # q" unfolding q_def by (metis append.assoc append_Cons append_Nil rev.simps(2) rev_append rev_rev_ident)
  have "i = length (rev p)" unfolding i using arg_cong [OF s, of length] by (simp add: q_def)
  moreover have "c \<notin> set q" by (auto simp: q_def dest: set_takeWhileD)
  moreover have "take (length p) s = rev p" by (subst s) simp
  moreover have "length p < length s" by (subst s) simp
  ultimately show ?thesis using that [of q] s by simp
qed

section \<open>Reading backwards\<close>

lemma tail_inner_lines:
  assumes "l \<le> length buf" "SplitByte LF (take l buf) = f # ls"
  shows "tail_inner whole buf l = (rev ls @ (if whole then [f] else []), if whole then None else Some (length f))"
  using assms
proof (induction l arbitrary: f ls rule: less_induct)
  case (less l)
  show ?case
  proof (cases "LastIndexByte (take l buf) LF")
    case None
    then have "SplitByte LF (take l buf) = [take l buf]" by (simp add: LastIndexByte_None SplitByte_plain)
    with less.prems have "f = take l buf" "ls = []" by auto
    then show ?thesis using None less.prems(1) by (simp add: tail_inner.simps [of _ _ l])
  next
    case (Some i)
    then obtain q where q: "take l buf = take i (take l buf) @ LF # q" "LF \<notin> set q" "i < length (take l buf)" by (rule LastIndexByte_Some)
    have i: "i < l" using q(3) by simp
    then have t: "take l buf = take i buf @ LF # q" using q(1) by simp
    have "take (l - (i + 1)) (drop (i + 1) buf) = drop (i + 1) (take l buf)" by (simp add: drop_take)
    also have "\<dots> = q" using i less.prems(1) unfolding t by simp
    finally have qe: "take (l - (i + 1)) (drop (i + 1) buf) = q" .
    obtain g gs where g: "SplitByte LF (take i buf) = g # gs" by (cases "SplitByte LF (take i buf)") auto
    have "SplitByte LF (take l buf) = (g # gs) @ [q]" unfolding t by (simp add: SplitByte_append SplitByte_plain [OF q(2)] g)
    then have fg: "f = g" "ls = gs @ [q]" using less.prems(2) by auto
    have "tail_inner whole buf i = (rev gs @ (if whole then [g] else []), if whole then None else Some (length g))"
      using less.IH [OF i _ g] less.prems(1) i by simp
    then show ?thesis using Some qe fg by (simp add: tail_inner.simps [of _ _ l])
  qed
qed

lemma tail_step:
  assumes "newbuf = p @ LF # q" "SplitByte LF p = f # ls"
  shows "tail_inner whole newbuf (length p) = (rev ls @ (if whole then [f] else []), if whole then None else Some (length f))"
    "take (length f + 1) newbuf = f @ [LF]" "LF \<notin> set f" "SplitByte LF (D @ p) = SplitByte LF (D @ f) @ ls"
proof -
  show "tail_inner whole newbuf (length p) = (rev ls @ (if whole then [f] else []), if whole then None else Some (length f))"
    using assms by (intro tail_inner_lines) simp_all
  have f: "LF \<notin> set f \<and> (\<exists>t. p @ LF # q = f @ LF # t)"
    using assms(2)
  proof (induction p arbitrary: f)
    case (Cons x p)
    then show ?case by (auto split: if_splits list.splits)
  qed auto
  then obtain t where "p @ LF # q = f @ LF # t" by blast
  then show "take (length f + 1) newbuf = f @ [LF]" unfolding assms(1) by simp
  show "LF \<notin> set f" using f by blast
  then show "SplitByte LF (D @ p) = SplitByte LF (D @ f) @ ls" using assms(2) by (simp add: SplitByte_append SplitByte_plain)
qed

lemma tail_loop_lines:
  assumes "0 < chunk" "start \<le> length data"
    "limit = None \<and> LF \<notin> set buf \<or> 0 < start \<and> (\<exists>seg. limit = Some (length seg) \<and> buf = seg @ [LF] \<and> LF \<notin> set seg)"
  shows "tail_loop data start chunk buf limit = rev (complete_lines (take start data @ buf))"
  using assms
proof (induction start arbitrary: chunk buf limit rule: less_induct)
  case (less start)
  show ?case
  proof (cases "start = 0")
    case True
    with less.prems(3) have "LF \<notin> set buf" by auto
    then show ?thesis using True complete_lines_partial [of buf "[]"] by (simp add: tail_loop.simps)
  next
    case False
    define n where "n = min chunk start"
    define s' where "s' = start - n"
    define new where "new = take n (drop s' data) @ buf"
    define lim where "lim = (case limit of None \<Rightarrow> LastIndexByte new LF | Some l \<Rightarrow> Some (l + n))"
    have less': "s' < start" "s' \<le> length data" "0 < 2 * chunk" using False less.prems(1,2) by (simp_all add: s'_def n_def)
    have "take start data = take s' data @ take n (drop s' data)"
      using take_add [of s' n data] by (simp add: s'_def n_def)
    then have whole: "take start data @ buf = take s' data @ new" by (simp add: new_def)
    have step: "tail_loop data start chunk buf limit =
      (case lim of None \<Rightarrow> tail_loop data s' (2 * chunk) new None
       | Some l \<Rightarrow> (case tail_inner (s' = 0) new l of (ls, None) \<Rightarrow> ls
            | (ls, Some l) \<Rightarrow> ls @ tail_loop data s' (2 * chunk) (take (Suc l) new) (Some l)))"
      unfolding lim_def new_def s'_def n_def using False less.prems(1) by (subst tail_loop.simps) (simp add: Let_def)
    show ?thesis
    proof (cases lim)
      case None
      then have "LF \<notin> set new" by (auto simp: lim_def LastIndexByte_None split: option.splits)
      then show ?thesis using None less.IH [OF less'(1,3,2), of None new] by (simp add: step whole)
    next
      case (Some l)
      obtain p q where pq: "new = p @ LF # q" "LF \<notin> set q" "l = length p"
      proof (cases limit)
        case l: None
        then have "LastIndexByte new LF = Some l" using Some by (simp add: lim_def)
        then obtain q where "new = take l new @ LF # q" "LF \<notin> set q" "l < length new" by (rule LastIndexByte_Some)
        then show ?thesis using that [of "take l new" q] by simp
      next
        case l: (Some m)
        then obtain seg where "buf = seg @ [LF]" "m = length seg" using less.prems(3) by auto
        moreover have "length (take n (drop s' data)) = n" using less.prems(2) by (simp add: s'_def n_def)
        ultimately show ?thesis using l Some that [of "take n (drop s' data) @ seg" "[]"] by (simp add: lim_def new_def)
      qed
      obtain f ls where f: "SplitByte LF p = f # ls" by (cases "SplitByte LF p") auto
      note st = tail_step [OF pq(1) f]
      have lines: "complete_lines (take s' data @ new) = SplitByte LF (take s' data @ f) @ ls"
        using complete_lines_cut [OF pq(2), of "take s' data @ p"] st(4) [of "take s' data"] by (simp add: pq(1))
      show ?thesis
      proof (cases "s' = 0")
        case True
        then show ?thesis using lines SplitByte_plain [OF st(3)] by (simp add: step Some pq(3) st(1) whole)
      next
        case False
        have "tail_loop data s' (2 * chunk) (f @ [LF]) (Some (length f)) = rev (complete_lines (take s' data @ f @ [LF]))"
          using False st(3) by (intro less.IH less') auto
        also have "\<dots> = rev (SplitByte LF (take s' data @ f))" using complete_lines_LF [of "take s' data @ f"] by simp
        finally show ?thesis using False lines st(2) by (simp add: step Some pq(3) st(1) whole)
      qed
    qed
  qed
qed

lemma tailLines_rev: "tailLines data = rev (complete_lines data)"
  using tail_loop_lines [of 4096 "length data" data None "[]"] by (simp add: tailLines_def)

section \<open>Scanning\<close>

definition line_yield :: "nat \<times> string \<Rightarrow> (error + Change) list" where
  "line_yield = (\<lambda>(n, ln). if TrimSpace ln = [] then []
     else case decodeRecord ln of
            Inl err \<Rightarrow> [Inl (ErrText (''filestore: journal line '' @ Itoa (int n) @ '': '' @ err))]
          | Inr c \<Rightarrow> [Inr c])"

lemma SplitByte_head: "LF \<in> set s \<Longrightarrow> SplitByte LF s = takeWhile (\<lambda>c. c \<noteq> LF) s # SplitByte LF (drop (Suc (length (takeWhile (\<lambda>c. c \<noteq> LF) s))) s)"
  by (induction s) auto

lemma scan_loop_lines:
  "scan_loop n pos s = (concat (map line_yield (enumerate n (complete_lines s))), pos + int (length s - length (last (SplitByte LF s))))"
proof (induction n pos s rule: scan_loop.induct)
  case (1 n pos s)
  show ?case
  proof (cases "LF \<in> set s")
    case False
    then show ?thesis by (simp add: scan_loop.simps [of n pos s] complete_lines_def SplitByte_plain)
  next
    case True
    define ln where "ln = takeWhile (\<lambda>c. c \<noteq> LF) s"
    define rest where "rest = drop (Suc (length ln)) s"
    have split: "SplitByte LF s = ln # SplitByte LF rest" using SplitByte_head [OF True] by (simp add: ln_def rest_def)
    have "length ln < length s" unfolding ln_def using True by (induction s) auto
    then have len: "length s = Suc (length ln) + length rest" by (simp add: rest_def)
    have "length (last (SplitByte LF rest)) \<le> length rest" by (induction rest) (auto split: list.splits if_splits)
    then have pos: "pos + int (length s - length (last (SplitByte LF rest))) =
        pos + int (length ln) + 1 + int (length rest - length (last (SplitByte LF rest)))" using len by simp
    have IH: "scan_loop (Suc n) (pos + int (length ln) + 1) rest = (concat (map line_yield (enumerate (Suc n) (complete_lines rest))),
        pos + int (length ln) + 1 + int (length rest - length (last (SplitByte LF rest))))"
      using "1.IH" [OF _ ln_def rest_def] True by simp
    have "scan_loop n pos s = (line_yield (n, ln) @ concat (map line_yield (enumerate (Suc n) (complete_lines rest))),
        pos + int (length ln) + 1 + int (length rest - length (last (SplitByte LF rest))))"
      using True IH by (subst scan_loop.simps) (simp add: Let_def ln_def [symmetric] rest_def [symmetric] line_yield_def split: sum.splits)
    then show ?thesis using split pos by (simp add: complete_lines_def)
  qed
qed


lemma scan_all: "scanJournal 0 (Some data) = (concat (map line_yield (enumerate 1 (complete_lines data))), int (length data - length (last (SplitByte LF data))))"
  by (simp add: scanJournal_def scan_loop_lines)

section \<open>The last record\<close>

definition records_of :: "(error + Change) list \<Rightarrow> Change list" where
  "records_of ys = concat (map (case_sum (\<lambda>_. []) (\<lambda>c. [c])) ys)"

lemma records_of_append [simp]: "records_of (ys @ zs) = records_of ys @ records_of zs"
  by (simp add: records_of_def)

lemma records_of_simps [simp]: "records_of [] = []" "records_of (Inl err # ys) = records_of ys" "records_of (Inr c # ys) = c # records_of ys"
  by (simp_all add: records_of_def)

lemma records_of_line:
  "records_of (line_yield (n, ln)) = (if TrimSpace ln = [] \<or> isl (decodeRecord ln) then [] else [projr (decodeRecord ln)])"
  by (auto simp: line_yield_def split: sum.splits)

lemma last_line:
  "(case List.find (\<lambda>ln. \<not> (TrimSpace ln = [] \<or> isl (decodeRecord ln))) (rev ls) of
      None \<Rightarrow> 0 | Some ln \<Rightarrow> (case decodeRecord ln of Inl _ \<Rightarrow> 0 | Inr c \<Rightarrow> cSeq c)) =
   (case rev (records_of (concat (map line_yield (enumerate n ls)))) of [] \<Rightarrow> 0 | c # _ \<Rightarrow> cSeq c)"
proof (induction ls rule: rev_induct)
  case (snoc ln ls)
  then show ?case by (auto simp: enumerate_append_eq records_of_line split: sum.splits)
qed simp

lemma last_record:
  "lastSeq journal = (case rev (records_of (fst (scanJournal 0 journal))) of [] \<Rightarrow> 0 | c # _ \<Rightarrow> cSeq c)"
proof (cases journal)
  case None
  then show ?thesis by (simp add: lastSeq_def scanJournal_def)
next
  case (Some data)
  then show ?thesis using last_line [of "complete_lines data" 1] by (simp add: lastSeq_def tailLines_rev scan_all)
qed

text \<open>C38: the sequence number read from the journal's tail, in chunks that double, is that of the last record a scan of the whole journal
  finds, past a cut-off last line and past damaged ones, and zero for a journal with none.\<close>

theorem tail_reads_last_record:
  "lastSeq journal = (case rev (records_of (fst (scanJournal 0 journal))) of [] \<Rightarrow> 0 | c # _ \<Rightarrow> cSeq c)"
  by (rule last_record)

end
