(* ===== verification/FileRecord.thy ===== *)
theory FileRecord
  imports FileTail
begin

text \<open>
  A record written to the journal reads back: \<open>record_ok\<close> is what a record of the store satisfies, its strings valid UTF-8 and its times in
  the years \<^verbatim>\<open>time.Time\<close> marshals, and \<open>canonical\<close> says its metadata is listed in key order, which is how a map reads back.
\<close>

section \<open>One line\<close>

lemma hexdigit_not_LF: "hexdigit n \<noteq> LF"
proof -
  have "hexdigit n \<in> set ''0123456789abcdef''" unfolding hexdigit_def by (rule nth_mem) (simp add: nat_less_iff)
  moreover have "\<forall>c \<in> set ''0123456789abcdef''. c \<noteq> LF" by code_simp
  ultimately show ?thesis by blast
qed

lemma enc_ascii_no_LF: "LF \<notin> set (enc_ascii c)"
proof (cases rule: enc_ascii_cases [of c])
  case (same e)
  then have "e \<noteq> LF" by (auto simp: escape_char_def)
  with same show ?thesis by simp
next
  case low
  then show ?thesis using hexdigit_not_LF [of "byte c div 16"] hexdigit_not_LF [of "byte c"] by (auto simp: hexw2)
next
  case plain
  then show ?thesis by auto
qed

lemma enc_rune_no_LF: "good_rune p \<Longrightarrow> LF \<notin> set (enc_rune p)"
proof -
  assume g: "good_rune p"
  have "\<not> 0x80 \<le> byte LF" by code_simp
  moreover have "LF \<notin> set (hexw (Suc 0) n)" for n using hexdigit_not_LF [of n] hexw1 [of n] by simp
  ultimately show ?thesis using g enc_ascii_no_LF by (cases p) (auto simp: enc_rune_def good_rune_def)
qed

lemma enc_string_no_LF: "ValidString s \<Longrightarrow> LF \<notin> set (enc_string s)"
  using valid_runes enc_rune_no_LF by (auto simp: enc_string_def)

fun plain_json :: "json \<Rightarrow> bool" where
  "plain_json (JNum n) \<longleftrightarrow> LF \<notin> set n"
| "plain_json (JStr s) \<longleftrightarrow> ValidString s"
| "plain_json (JArr js) \<longleftrightarrow> list_all plain_json js"
| "plain_json (JObj kvs) \<longleftrightarrow> list_all (\<lambda>(k, j). ValidString k \<and> plain_json j) kvs"
| "plain_json _ \<longleftrightarrow> True"

lemma set_Join: "c \<in> set (Join xs sep) \<Longrightarrow> c \<in> set sep \<or> (\<exists>x \<in> set xs. c \<in> set x)"
  by (induction xs sep rule: Join.induct) auto

lemma enc_json_no_LF: "plain_json j \<Longrightarrow> LF \<notin> set (enc_json j)"
proof (induction j rule: enc_json.induct)
  case (5 js)
  then show ?case by (auto simp: list_all_iff dest!: set_Join)
next
  case (6 kvs)
  then show ?case using enc_string_no_LF by (force simp: list_all_iff dest!: set_Join)
qed (auto simp: enc_string_no_LF)

lemma Itoa_no_LF: "LF \<notin> set (Itoa i)"
  using set_Itoa [of i] by auto

section \<open>The round trip of a record\<close>

definition canonical :: "gomap option \<Rightarrow> bool" where
  "canonical m \<longleftrightarrow> m \<noteq> Some [] \<and> sorted_items (mitems m) = mitems m \<and> distinct (map fst (mitems m))"

definition record_ok :: "Change \<Rightarrow> bool" where
  "record_ok c \<longleftrightarrow> cSeq c \<noteq> 0 \<and> ValidName (eScope (cEntry c)) \<and> ValidName (eName (cEntry c)) \<and> eHash (cEntry c) \<noteq> [] \<and>
     list_all ValidString [eContent (cEntry c), eHash (cEntry c), eMetaHash (cEntry c), cPrev c, cReplaced c, cSession c, cSource c] \<and>
     list_all (\<lambda>(k, v). ValidString k \<and> ValidString v) (mitems (eMeta (cEntry c))) \<and> canonical (eMeta (cEntry c)) \<and>
     year_fits (eUpdated (cEntry c)) \<and> year_fits (cAt c)"

lemma ValidName_string: "ValidName s \<Longrightarrow> ValidString s"
proof (rule valid_ascii)
  fix c assume "ValidName s" "c \<in> set s"
  then show "byte c < 0x80" using ValidName_chars [of s c] name_char_tight [of c] by (auto simp: tight_def)
qed

lemma entry_ok_text: "entry_ok e limit \<Longrightarrow> ValidString (eContent e) \<and> list_all (\<lambda>(k, v). ValidString k \<and> ValidString v) (mitems (eMeta e))"
  by (auto simp: entry_ok_def meta_ok_def pair_ok_def list_all_iff ValidName_string)

lemma Format_valid: "year_fits t \<Longrightarrow> ValidString (FormatRFC3339Nano t)"
  by (rule valid_ascii) (auto simp: tight_def dest: Format_chars(1))

lemma dec_pairs_items:
  "distinct (map fst (m @ kvs)) \<Longrightarrow> dec_pairs (map (\<lambda>(k, v). (k, JStr v)) kvs) m = Some (m @ kvs)"
  by (induction kvs arbitrary: m) (auto simp: dec_string_def update_new)

lemma dec_map_items: "distinct (map fst kvs) \<Longrightarrow> dec_map (JObj (map (\<lambda>(k, v). (k, JStr v)) kvs)) None = Some (Some kvs)"
  using dec_pairs_items [of "[]" kvs] by (simp add: dec_map_def)

lemma dec_time_format: "year_fits t \<Longrightarrow> dec_time (JStr (FormatRFC3339Nano t)) old = Some t"
  by (simp add: dec_time_def parse_format)

lemma dec_mem_entry:
  assumes "canonical (eMeta e)" "year_fits (eUpdated e)"
  shows "dec_struct mem_entry_fields (entry_json e) zero_entry = Some e"
proof -
  have m: "(if mlen (eMeta e) = 0 then None else Some (mitems (eMeta e))) = eMeta e"
    using assms(1) by (cases "eMeta e") (auto simp: canonical_def mlen_def)
  have d: "distinct (map fst (mitems (eMeta e)))" "sorted_items (mitems (eMeta e)) = mitems (eMeta e)" using assms(1) by (simp_all add: canonical_def)
  show ?thesis
    using m by (cases "mlen (eMeta e) = 0")
      (simp_all add: dec_struct_def entry_json_def mem_entry_fields_def find_field_def at_field_def dec_string_def dec_bool_def
        dec_map_items [OF d(1)] d(2) dec_time_format [OF assms(2)] zero_entry_def)
qed

lemma dec_uint64_Itoa: "dec_uint64 (JNum (Itoa (uint (w :: uint64)))) old = Some w"
proof -
  have "hd (Itoa (uint w)) \<noteq> CHR ''-''"
    using hyphen_not_utoa [of "nat (uint w)"] by (metis Itoa_def hd_in_set not_less uint_ge_0 utoa_not_Nil)
  moreover have "uint w < 2 ^ 64" using uint_lt2p [of w] by simp
  ultimately show ?thesis by (simp add: dec_uint64_def parse_integer_Itoa)
qed

lemma dec_struct_JObj: "dec_struct fs (JObj kvs) x = dec_members fs kvs x"
  by (simp add: dec_struct_def)

lemma dec_change:
  assumes "record_ok c"
  shows "dec_struct change_fields (change_json c) zero_change = Some c"
proof -
  have e: "dec_struct mem_entry_fields (entry_json (cEntry c)) zero_entry = Some (cEntry c)"
    and t: "year_fits (cAt c)" using assms by (simp_all add: record_ok_def dec_mem_entry)
  show ?thesis
    by (simp add: dec_struct_JObj change_json_def change_fields_def find_field_def at_field_def dec_string_def
        e dec_uint64_Itoa dec_time_format [OF t] zero_change_def)
qed


lemma change_names:
  "ValidString ''content''" "ValidString ''meta''" "ValidString ''meta_hash''" "ValidString ''updated''" "ValidString ''deleted''" "ValidString ''seq''"
  "ValidString ''entry''" "ValidString ''prev''" "ValidString ''replaced''" "ValidString ''session''" "ValidString ''source''" "ValidString ''at''"
  by code_simp+

lemma good_change:
  assumes "record_ok c"
  shows "good_json (change_json c)" "plain_json (change_json c)" "depth (change_json c) \<le> maxNestingDepth"
proof -
  let ?e = "cEntry c"
  have m: "sorted_items (mitems (eMeta ?e)) = mitems (eMeta ?e)" "list_all (\<lambda>(k, v). ValidString k \<and> ValidString v) (mitems (eMeta ?e))"
    using assms by (simp_all add: record_ok_def canonical_def)
  have s: "ValidString (eScope ?e)" "ValidString (eName ?e)" "ValidString (FormatRFC3339Nano (eUpdated ?e))" "ValidString (FormatRFC3339Nano (cAt c))"
    using assms by (simp_all add: record_ok_def ValidName_string Format_valid)
  have meta: "good_json (JObj (map (\<lambda>(k, v). (k, JStr v)) (mitems (eMeta ?e))))" "plain_json (JObj (map (\<lambda>(k, v). (k, JStr v)) (mitems (eMeta ?e))))"
    using m(2) by (auto simp: list_all_iff)
  have "good_json (entry_json ?e)" "plain_json (entry_json ?e)"
    using assms s meta m(1) unfolding entry_json_def by (simp_all add: record_ok_def valid_names_json change_names)
  then show "good_json (change_json c)" "plain_json (change_json c)"
    using assms s unfolding change_json_def by (simp_all add: record_ok_def valid_names_json change_names good_num_Itoa Itoa_no_LF)
  have "depth (JObj (map (\<lambda>(k, v). (k, JStr v)) kvs)) \<le> Suc 0" for kvs by (rule depth_JObj_le) auto
  then have "depth (entry_json ?e) \<le> Suc (Suc 0)"
    unfolding entry_json_def by (intro depth_JObj_le) (auto split: if_splits simp del: depth.simps(2))
  then have "depth (change_json c) \<le> Suc (Suc (Suc 0))"
    unfolding change_json_def by (intro depth_JObj_le) (auto split: if_splits)
  then show "depth (change_json c) \<le> maxNestingDepth" by (simp add: maxNestingDepth_def)
qed

lemma decode_record: "record_ok c \<Longrightarrow> decodeRecord (enc_json (change_json c)) = Inr c"
proof -
  assume c: "record_ok c"
  have "Unmarshal (dec_struct change_fields) (enc_json (change_json c)) zero_change = Some c"
    by (simp add: Unmarshal_def parse_enc_json [OF good_change(1,3) [OF c]] dec_change [OF c])
  then show ?thesis using c by (simp add: decodeRecord_def record_ok_def ValidScope_def)
qed

lemma marshal_record: "record_ok c \<Longrightarrow> marshal_change c = Some (enc_json (change_json c))"
  by (simp add: marshal_change_def record_ok_def)

lemma record_line: "record_ok c \<Longrightarrow> LF \<notin> set (enc_json (change_json c)) \<and> TrimSpace (enc_json (change_json c)) \<noteq> []"
proof -
  assume c: "record_ok c"
  have "enc_json (change_json c) \<noteq> [] \<and> hd (enc_json (change_json c)) = CHR ''{'' \<and> last (enc_json (change_json c)) = CHR ''}''"
    by (simp add: change_json_def)
  moreover have "tight (CHR ''{'')" "tight (CHR ''}'')" by code_simp+
  ultimately have "TrimSpace (enc_json (change_json c)) = enc_json (change_json c)" "enc_json (change_json c) \<noteq> []"
    by (simp_all add: TrimSpace_tight)
  then show ?thesis using enc_json_no_LF [OF good_change(2) [OF c]] by simp
qed


section \<open>Appending\<close>

abbreviation journal_data :: "string option \<Rightarrow> string" where
  "journal_data journal \<equiv> (case journal of None \<Rightarrow> [] | Some data \<Rightarrow> data)"

definition cut_off :: "string \<Rightarrow> string" where
  "cut_off data = last (SplitByte LF data)"

lemma cut_off_Nil: "cut_off data = [] \<longleftrightarrow> data = [] \<or> last data = LF"
proof (induction data rule: rev_induct)
  case (snoc c data)
  then show ?case by (simp add: cut_off_def SplitByte_append)
qed (simp add: cut_off_def)

lemma lines_and_cut: "SplitByte LF data = complete_lines data @ [cut_off data]"
  by (simp add: complete_lines_def cut_off_def)

lemma append_line:
  assumes "LF \<notin> set ln"
  shows "complete_lines (data @ (if data \<noteq> [] \<and> last data \<noteq> LF then LF # ln else ln) @ [LF]) =
    complete_lines data @ (if cut_off data = [] then [] else [cut_off data]) @ [ln]"
proof (cases "cut_off data = []")
  case True
  then show ?thesis
    using lines_and_cut [of data] assms complete_lines_LF [of "data @ ln"] by (auto simp: cut_off_Nil SplitByte_append SplitByte_plain)
next
  case False
  then have "complete_lines (data @ LF # ln @ [LF]) = SplitByte LF data @ [ln]"
    using complete_lines_append [of data "ln @ [LF]"] complete_lines_LF [of ln] assms by (simp add: SplitByte_plain)
  then show ?thesis using False lines_and_cut [of data] by (auto simp: cut_off_Nil)
qed

lemma append_scan:
  assumes "record_ok c" "appendJournal c journal = Inr (data', off)"
  shows "fst (scanJournal 0 (Some data')) =
      fst (scanJournal 0 journal) @ line_yield (Suc (length (complete_lines (journal_data journal))), cut_off (journal_data journal)) @ [Inr c]"
    "snd (scanJournal 0 (Some data')) = off" "off = int (length data')"
proof -
  let ?data = "journal_data journal" and ?ln = "enc_json (change_json c)"
  note ln = record_line [OF assms(1)]
  have d: "data' = ?data @ (if ?data \<noteq> [] \<and> last ?data \<noteq> LF then LF # ?ln else ?ln) @ [LF]" and off: "off = int (length data')"
    using assms(2) by (auto simp: appendJournal_def marshal_record [OF assms(1)] Let_def)
  have y: "line_yield (n, ?ln) = [Inr c]" for n using ln decode_record [OF assms(1)] by (simp add: line_yield_def)
  have old: "fst (scanJournal 0 journal) = concat (map line_yield (enumerate 1 (complete_lines ?data)))"
    by (cases journal) (simp_all add: scan_loop_lines scanJournal_def)
  have "line_yield (n, []) = []" for n by (simp add: line_yield_def)
  then show "fst (scanJournal 0 (Some data')) = fst (scanJournal 0 journal) @ line_yield (Suc (length (complete_lines ?data)), cut_off ?data) @ [Inr c]"
    using append_line [of ?ln ?data] ln unfolding d by (simp add: scan_all old enumerate_append_eq y)
  have "last (SplitByte LF data') = []" using cut_off_Nil [of data'] by (simp add: d cut_off_def)
  then show "snd (scanJournal 0 (Some data')) = off" by (simp add: scan_all off)
  show "off = int (length data')" by (fact off)
qed

lemma append_total: "record_ok c \<Longrightarrow> \<exists>data' off. appendJournal c journal = Inr (data', off)"
  by (simp add: appendJournal_def marshal_record Let_def)

section \<open>The properties\<close>

text \<open>A record appended to any journal, one whose last write was cut off or that holds damaged lines included, reads back as it was,
  last, after every record the journal held; only the bytes the cut-off write left become a line of their own.\<close>

theorem appended_record_reads_back:
  assumes "record_ok c"
  shows "\<exists>data' off. appendJournal c (Some data) = Inr (data', off) \<and>
    fst (scanJournal 0 (Some data')) = fst (scanJournal 0 (Some data)) @ line_yield (Suc (length (complete_lines data)), cut_off data) @ [Inr c] \<and>
    lastSeq (Some data') = cSeq c"
proof -
  obtain data' off where a: "appendJournal c (Some data) = Inr (data', off)" using append_total [OF assms] by blast
  have "lastSeq (Some data') = cSeq c"
    using append_scan(1) [OF assms a] last_record [of "Some data'"] by simp
  with a append_scan(1) [OF assms a] show ?thesis by auto
qed

definition sample_change :: "uint64 \<Rightarrow> string \<Rightarrow> Change" where
  "sample_change seq content = \<lparr>cSeq = seq, cEntry = \<lparr>eScope = ''user'', eName = ''tea'', eContent = content, eMeta = Some [(''type'', ''taste'')],
     eHash = ''sha256:0'', eMetaHash = [], eUpdated = 63000000000000000000, eDeleted = False\<rparr>, cPrev = [], cReplaced = [], cSession = ''s1'', cSource = [],
     cAt = 63000000000000000000\<rparr>"

lemma sample_changes: "record_ok (sample_change 1 ''oolong'')" "record_ok (sample_change 1 ''green'')"
  by code_simp+

theorem appended_record_reads_back_witness:
  "\<exists>data' off. appendJournal (sample_change 1 ''oolong'') (Some ''{cut'') = Inr (data', off) \<and> lastSeq (Some data') = 1"
  using appended_record_reads_back [OF sample_changes(1), of "''{cut''"] by (auto simp: sample_change_def)

text \<open>C39: a write cut off between its record and the newline leaves a whole record that neither a scan nor the tail counts; the next writer
  takes the same number and ends that line, so that the journal then holds two records with one sequence number.\<close>

theorem cut_newline_repeats_seq:
  assumes "record_ok c" "record_ok d" "data = [] \<or> last data = LF" "cSeq d = lastSeq (Some (data @ enc_json (change_json c))) + 1"
    "cSeq c = lastSeq (Some data) + 1"
  shows "\<exists>data' off. appendJournal d (Some (data @ enc_json (change_json c))) = Inr (data', off) \<and>
    records_of (fst (scanJournal 0 (Some data'))) = records_of (fst (scanJournal 0 (Some data))) @ [c, d] \<and> cSeq c = cSeq d"
proof -
  let ?ln = "enc_json (change_json c)"
  note ln = record_line [OF assms(1)]
  have part: "complete_lines (data @ ?ln) = complete_lines data" using ln by (simp add: complete_lines_partial)
  have "cut_off data = []" using assms(3) by (simp add: cut_off_Nil)
  then have cut: "cut_off (data @ ?ln) = ?ln" using ln by (simp add: cut_off_def SplitByte_append SplitByte_plain)
  have seq: "lastSeq (Some (data @ ?ln)) = lastSeq (Some data)" by (simp add: lastSeq_def tailLines_rev part)
  obtain data' off where a: "appendJournal d (Some (data @ ?ln)) = Inr (data', off)" using append_total [OF assms(2)] by blast
  have "records_of (line_yield (n, ?ln)) = [c]" for n using ln decode_record [OF assms(1)] by (simp add: line_yield_def)
  then have "records_of (fst (scanJournal 0 (Some data'))) = records_of (fst (scanJournal 0 (Some (data @ ?ln)))) @ [c, d]"
    using append_scan(1) [OF assms(2) a] cut by simp
  moreover have "fst (scanJournal 0 (Some (data @ ?ln))) = fst (scanJournal 0 (Some data))" by (simp add: scan_all part)
  ultimately show ?thesis using a seq assms(4,5) by auto
qed

theorem cut_newline_repeats_seq_witness:
  "\<exists>data' off. appendJournal (sample_change 1 ''green'') (Some (enc_json (change_json (sample_change 1 ''oolong'')))) = Inr (data', off) \<and>
    records_of (fst (scanJournal 0 (Some data'))) = [sample_change 1 ''oolong'', sample_change 1 ''green'']"
proof -
  have e: "lastSeq (Some []) = 0" by (simp add: lastSeq_def tailLines_rev)
  have "lastSeq (Some ([] @ enc_json (change_json (sample_change 1 ''oolong'')))) = 0"
    using record_line [OF sample_changes(1)] by (simp add: lastSeq_def tailLines_rev complete_lines_def SplitByte_plain)
  with e have "cSeq (sample_change 1 ''green'') = lastSeq (Some ([] @ enc_json (change_json (sample_change 1 ''oolong'')))) + 1"
    "cSeq (sample_change 1 ''oolong'') = lastSeq (Some []) + 1" by (simp_all add: sample_change_def)
  moreover have "fst (scanJournal 0 (Some [])) = []" by (simp add: scan_all)
  ultimately show ?thesis using cut_newline_repeats_seq [OF sample_changes, of "[]"] by auto
qed

end
