(* ===== verification/FileStore.thy ===== *)
theory FileStore
  imports FileRecord Search
begin

text \<open>
  The directory-backed store of \<^verbatim>\<open>filestore.go\<close>, \<^verbatim>\<open>state.go\<close> and \<^verbatim>\<open>fsys.go\<close>.  The store's directory is a list of paths below it with what
  \<^verbatim>\<open>Lstat\<close> finds at each: a regular file with its bytes and its modification time, a directory, a link, or something else, a file with a second
  name included.  An operation runs under the lock, so it is a function of the directory; \<open>fsLocked\<close> is the error \<^verbatim>\<open>acquire\<close> gives when the lock
  is not to be had, \<open>fsDeny\<close> the paths a write to which fails, and \<open>fsTime\<close> the time the file system stamps on what is written.  Other failures of the
  file system, and the temporary file of \<^verbatim>\<open>writeAtomic\<close>, which is renamed or removed before it returns, are not modelled.
\<close>

section \<open>The directory\<close>

datatype node = Regular (nodeData: string) (nodeTime: time) | Directory | Link | Other

record FileStore =
  fsMax :: int
  fsNodes :: "(string \<times> node) list"
  fsTime :: time
  fsLocked :: "error option"
  fsDeny :: "string \<Rightarrow> bool"

type_synonym 'a fs_op = "FileStore \<Rightarrow> (error + 'a) \<times> FileStore"

definition fs_bind :: "'a fs_op \<Rightarrow> ('a \<Rightarrow> 'b fs_op) \<Rightarrow> 'b fs_op" where
  "fs_bind m k s = (case m s of (Inl err, s') \<Rightarrow> (Inl err, s') | (Inr x, s') \<Rightarrow> k x s')"

definition fs_read :: "(FileStore \<Rightarrow> error + 'a) \<Rightarrow> 'a fs_op" where
  "fs_read f s = (f s, s)"

definition fs_return :: "'a \<Rightarrow> 'a fs_op" where
  "fs_return x s = (Inr x, s)"

definition Lstat :: "FileStore \<Rightarrow> string \<Rightarrow> node option" where
  "Lstat s path = map_of (fsNodes s) path"

definition errNotRegular :: "string \<Rightarrow> error" where
  "errNotRegular name = ErrText (''filestore: '' @ name @ '': not a regular file'')"

definition linkedScope :: "scope \<Rightarrow> error" where
  "linkedScope scope = ErrText (''filestore: scope directory '' @ scope @
     '' is a link, which the store does not follow; replace it with a directory: not a regular file'')"

definition scopeIsDir :: "scope \<Rightarrow> FileStore \<Rightarrow> error + bool" where
  "scopeIsDir scope s =
     (case Lstat s scope of None \<Rightarrow> Inr False | Some Link \<Rightarrow> Inl (linkedScope scope) | Some nd \<Rightarrow> Inr (nd = Directory))"

definition isDir :: "string \<Rightarrow> FileStore \<Rightarrow> bool" where
  "isDir name s = (Lstat s name = Some Directory)"

text \<open>\<^verbatim>\<open>readRegular\<close>: none for a name that does not exist.\<close>

definition readRegular :: "string \<Rightarrow> FileStore \<Rightarrow> error + (string \<times> time) option" where
  "readRegular name s =
     (case Lstat s name of None \<Rightarrow> Inr None | Some (Regular data t) \<Rightarrow> Inr (Some (data, t)) | Some _ \<Rightarrow> Inl (errNotRegular name))"

definition dirOf :: "string \<Rightarrow> string" where
  "dirOf name = (if CHR ''/'' \<in> set name then takeWhile (\<lambda>c. c \<noteq> CHR ''/'') name else ''.'')"

definition setNode :: "string \<Rightarrow> node \<Rightarrow> FileStore \<Rightarrow> FileStore" where
  "setNode name nd s = s\<lparr>fsNodes := AList.update name nd (fsNodes s)\<rparr>"

definition writeAtomic :: "string \<Rightarrow> string \<Rightarrow> unit fs_op" where
  "writeAtomic name data s =
     (let dir = dirOf name in
      if dir \<noteq> ''.'' \<and> Lstat s dir = None \<and> fsDeny s dir then (Inl (ErrText (''filestore: create '' @ dir @ '': '')), s)
      else
      let s = (if dir \<noteq> ''.'' \<and> Lstat s dir = None then setNode dir Directory s else s) in
      if dir \<noteq> ''.'' \<and> \<not> isDir dir s
      then (Inl (ErrText (''filestore: '' @ dir @ '' is not a directory of the store'' @ [CHR 0x27] @ ''s: it is a link or a file'')), s)
      else if fsDeny s name \<or> isDir name s then (Inl (ErrText (''filestore: write '' @ name @ '': '')), s)
      else (Inr (), setNode name (Regular data (fsTime s)) s))"

definition removeFile :: "string \<Rightarrow> unit fs_op" where
  "removeFile name s =
     (if fsDeny s name \<or> Lstat s name = None then (Inl (ErrText (''remove '' @ name)), s)
      else (Inr (), s\<lparr>fsNodes := AList.delete name (fsNodes s)\<rparr>))"

text \<open>\<^verbatim>\<open>modTime\<close> is asked for an entry file that was read before, so only a regular file carries a time.\<close>

definition modTime :: "string \<Rightarrow> FileStore \<Rightarrow> time option" where
  "modTime name s = (case Lstat s name of Some (Regular data t) \<Rightarrow> Some t | _ \<Rightarrow> None)"

section \<open>Names\<close>

definition indexName :: string where "indexName = ''INDEX.md''"
definition journalName :: string where "journalName = ''journal.jsonl''"
definition stateName :: string where "stateName = ''.state.json''"

definition entryName :: "scope \<Rightarrow> string \<Rightarrow> string" where
  "entryName scope name = scope @ ''/'' @ name @ ''.md''"

definition key :: "scope \<Rightarrow> string \<Rightarrow> string" where
  "key scope name = scope @ ''/'' @ name"

definition checkNames :: "scope \<Rightarrow> string \<Rightarrow> error option" where
  "checkNames scope name =
     (if \<not> ValidScope scope then Some (ErrInvalid (ScopeNotKebab scope))
      else if \<not> ValidName name then Some (ErrInvalid (NameNotKebab name)) else None)"

definition hashOf :: "Entry option \<Rightarrow> string" where
  "hashOf e = (case e of None \<Rightarrow> [] | Some e \<Rightarrow> eHash e)"

section \<open>Reading entries\<close>

definition readEntry :: "scope \<Rightarrow> string \<Rightarrow> FileStore \<Rightarrow> error + Entry option" where
  "readEntry scope name s =
     (case scopeIsDir scope s of
        Inl err \<Rightarrow> Inl err
      | Inr False \<Rightarrow> Inr None
      | Inr True \<Rightarrow>
          (case readRegular (entryName scope name) s of
             Inl err \<Rightarrow> Inr None
           | Inr None \<Rightarrow> Inr None
           | Inr (Some (data, t)) \<Rightarrow>
               let d = decode_entry data in
               Inr (Some \<lparr>eScope = scope, eName = name, eContent = dcContent d, eMeta = dcMeta d, eHash = Hash (dcContent d),
                 eMetaHash = MetaHash (dcMeta d), eUpdated = (if dcUpdated d = 0 then t else dcUpdated d), eDeleted = False\<rparr>)))"

definition FileGet :: "scope \<Rightarrow> string \<Rightarrow> FileStore \<Rightarrow> error + Entry" where
  "FileGet scope name s =
     (case checkNames scope name of
        Some err \<Rightarrow> Inl err
      | None \<Rightarrow> (case readEntry scope name s of
          Inl err \<Rightarrow> Inl err | Inr None \<Rightarrow> Inl (ErrNotFound scope name) | Inr (Some e) \<Rightarrow> Inr e))"

text \<open>\<^verbatim>\<open>ReadDir\<close>: the names directly in a directory, in the order the directory has them; those of the root for the name \<^verbatim>\<open>.\<close>\<close>

definition ReadDir :: "string \<Rightarrow> FileStore \<Rightarrow> (string \<times> node) list" where
  "ReadDir dir s =
     (let names = (if dir = ''.'' then fsNodes s
                   else map (\<lambda>(p, nd). (drop (length dir + 1) p, nd)) (filter (\<lambda>(p, nd). HasPrefix p (dir @ ''/'')) (fsNodes s)))
      in filter (\<lambda>(p, nd). CHR ''/'' \<notin> set p) names)"

fun read_names :: "scope \<Rightarrow> (string \<times> node) list \<Rightarrow> FileStore \<Rightarrow> error + Entry list" where
  "read_names scope [] s = Inr []"
| "read_names scope ((file, nd) # des) s =
     (if \<not> HasSuffix file ''.md'' \<or> nd \<in> {Directory, Link} \<or> \<not> ValidName (TrimSuffix file ''.md'') then read_names scope des s
      else case readEntry scope (TrimSuffix file ''.md'') s of
             Inl err \<Rightarrow> Inl err
           | Inr None \<Rightarrow> read_names scope des s
           | Inr (Some e) \<Rightarrow> (case read_names scope des s of Inl err \<Rightarrow> Inl err | Inr es \<Rightarrow> Inr (e # es)))"

definition listScope :: "scope \<Rightarrow> FileStore \<Rightarrow> error + Entry list" where
  "listScope scope s =
     (case scopeIsDir scope s of
        Inl err \<Rightarrow> Inl err
      | Inr False \<Rightarrow> Inr []
      | Inr True \<Rightarrow> (case read_names scope (ReadDir scope s) s of Inl err \<Rightarrow> Inl err | Inr es \<Rightarrow> Inr (sort_key eName es)))"

definition FileList :: "scope \<Rightarrow> FileStore \<Rightarrow> error + Entry list" where
  "FileList scope s = (if \<not> ValidScope scope then Inl (ErrInvalid (ScopeNotKebab scope)) else listScope scope s)"

fun list_all_scopes :: "scope list \<Rightarrow> FileStore \<Rightarrow> error + Entry list" where
  "list_all_scopes [] s = Inr []"
| "list_all_scopes (scope # scopes) s =
     (case FileList scope s of
        Inl err \<Rightarrow> Inl err
      | Inr es \<Rightarrow> (case list_all_scopes scopes s of Inl err \<Rightarrow> Inl err | Inr all \<Rightarrow> Inr (es @ all)))"

definition FileSearchWith :: "(int \<Rightarrow> int) \<Rightarrow> scope list \<Rightarrow> string \<Rightarrow> int \<Rightarrow> SearchOptions \<Rightarrow> FileStore \<Rightarrow> error + Entry list" where
  "FileSearchWith ulower scopes query limit opts s =
     (case List.find (\<lambda>sc. CheckScope sc \<noteq> None) scopes of
        Some sc \<Rightarrow> Inl (ErrInvalid (BadScope sc))
      | None \<Rightarrow> (case CheckOptions opts AllSearchOptions of
            Some err \<Rightarrow> Inl err
          | None \<Rightarrow> (case list_all_scopes scopes s of Inl err \<Rightarrow> Inl err | Inr all \<Rightarrow> Inr (FilterEntries ulower opts all query limit))))"

definition FileSearch :: "(int \<Rightarrow> int) \<Rightarrow> scope list \<Rightarrow> string \<Rightarrow> int \<Rightarrow> FileStore \<Rightarrow> error + Entry list" where
  "FileSearch ulower scopes query limit s = FileSearchWith ulower scopes query limit zeroSearchOptions s"

definition EmDash :: string where "EmDash = [CHR 0xE2, CHR 0x80, CHR 0x94]"

definition reindex :: "scope \<Rightarrow> unit fs_op" where
  "reindex scope = fs_bind (fs_read (listScope scope)) (\<lambda>es.
     writeAtomic (scope @ ''/'' @ indexName)
       (''# '' @ scope @ [LF, LF] @ (if es = [] then ''No entries.'' @ [LF] else []) @
        concat (map (\<lambda>e. ''- ['' @ eName e @ '']('' @ eName e @ ''.md)'' @
          (if Description e \<noteq> [] then '' '' @ EmDash @ '' '' @ Description e else []) @ [LF]) es)))"


section \<open>The cursor\<close>

record stateEntry =
  seHash :: string
  seMeta :: string

record journalState =
  jsSeq :: uint64
  jsOff :: int
  jsHead :: string
  jsEntries :: "(string \<times> stateEntry) list"
  jsRead :: bool

definition zeroState :: journalState where
  "zeroState = \<lparr>jsSeq = 0, jsOff = 0, jsHead = [], jsEntries = [], jsRead = False\<rparr>"

definition note_entry :: "Entry \<Rightarrow> journalState \<Rightarrow> journalState" where
  "note_entry e st =
     (let k = key (eScope e) (eName e) in
      if eDeleted e then st\<lparr>jsEntries := AList.delete k (jsEntries st)\<rparr>
      else st\<lparr>jsEntries := AList.update k \<lparr>seHash = eHash e, seMeta = MetaHash (eMeta e)\<rparr> (jsEntries st)\<rparr>)"

definition heldEntry :: "journalState \<Rightarrow> scope \<Rightarrow> string \<Rightarrow> Entry option" where
  "heldEntry st scope name =
     map_option (\<lambda>se. zero_entry\<lparr>eScope := scope, eName := name, eHash := seHash se\<rparr>) (map_of (jsEntries st) (key scope name))"

definition agrees :: "stateEntry \<Rightarrow> Entry \<Rightarrow> bool" where
  "agrees se e \<longleftrightarrow> seHash se = eHash e \<and> seMeta se = MetaHash (eMeta e)"

text \<open>Its JSON.\<close>

definition state_json :: "journalState \<Rightarrow> json" where
  "state_json st = JObj (
     [(''seq'', JNum (Itoa (uint (jsSeq st)))), (''off'', JNum (Itoa (jsOff st)))] @
     (if jsHead st \<noteq> [] then [(''head'', JStr (jsHead st))] else []) @
     (if jsEntries st \<noteq> [] then [(''entries'', JObj (map (\<lambda>k. (k, case map_of (jsEntries st) k of None \<Rightarrow> JNull
         | Some se \<Rightarrow> JObj ([(''hash'', JStr (seHash se))] @ (if seMeta se \<noteq> [] then [(''meta'', JStr (seMeta se))] else []))))
       (sort (map fst (jsEntries st)))))] else []))"

definition state_entry_fields :: "(string \<times> stateEntry decoder) list" where
  "state_entry_fields =
     [(''hash'', at_field seHash (\<lambda>v se. se\<lparr>seHash := v\<rparr>) dec_string),
      (''meta'', at_field seMeta (\<lambda>v se. se\<lparr>seMeta := v\<rparr>) dec_string)]"

fun dec_state_pairs :: "(string \<times> json) list \<Rightarrow> (string \<times> stateEntry) list \<Rightarrow> (string \<times> stateEntry) list option" where
  "dec_state_pairs [] m = Some m"
| "dec_state_pairs ((k, j) # kvs) m =
     (case dec_struct state_entry_fields j \<lparr>seHash = [], seMeta = []\<rparr> of
        None \<Rightarrow> None | Some se \<Rightarrow> dec_state_pairs kvs (AList.update k se m))"

definition dec_state_map :: "(string \<times> stateEntry) list decoder" where
  "dec_state_map j old = (case j of JObj kvs \<Rightarrow> dec_state_pairs kvs old | JNull \<Rightarrow> Some [] | _ \<Rightarrow> None)"

definition state_fields :: "(string \<times> journalState decoder) list" where
  "state_fields =
     [(''seq'', at_field jsSeq (\<lambda>v st. st\<lparr>jsSeq := v\<rparr>) dec_uint64),
      (''off'', at_field jsOff (\<lambda>v st. st\<lparr>jsOff := v\<rparr>) dec_int64),
      (''head'', at_field jsHead (\<lambda>v st. st\<lparr>jsHead := v\<rparr>) dec_string),
      (''entries'', at_field jsEntries (\<lambda>v st. st\<lparr>jsEntries := v\<rparr>) dec_state_map)]"

text \<open>Opening the journal: none when it does not exist.\<close>

definition openJournal :: "FileStore \<Rightarrow> error + string option" where
  "openJournal s =
     (case readRegular journalName s of
        Inl err \<Rightarrow> Inl (ErrText (''filestore: open journal: filestore: '' @ journalName @ '': not a regular file''))
      | Inr r \<Rightarrow> Inr (map_option fst r))"

text \<open>What the scan of \<^verbatim>\<open>loadState\<close> and of \<^verbatim>\<open>rebuildState\<close> does with each line.\<close>

definition catch_up :: "error + Change \<Rightarrow> journalState \<Rightarrow> journalState" where
  "catch_up y st = (case y of Inl err \<Rightarrow> st | Inr c \<Rightarrow> note_entry (cEntry c) (st\<lparr>jsSeq := cSeq c\<rparr>))"

definition rebuildState :: "FileStore \<Rightarrow> error + journalState" where
  "rebuildState s =
     (case openJournal s of
        Inl err \<Rightarrow> Inl err
      | Inr journal \<Rightarrow>
          (case scanJournal 0 journal of
             (ys, off) \<Rightarrow> Inr ((fold catch_up ys zeroState)\<lparr>jsOff := off, jsHead := Hash (headLine journal)\<rparr>)))"

definition readState :: "FileStore \<Rightarrow> journalState" where
  "readState s =
     (case readRegular stateName s of
        Inr (Some (data, t)) \<Rightarrow>
          (case Unmarshal (dec_struct state_fields) data zeroState of None \<Rightarrow> zeroState | Some st \<Rightarrow> st\<lparr>jsRead := True\<rparr>)
      | _ \<Rightarrow> zeroState)"

definition loadState :: "FileStore \<Rightarrow> error + journalState" where
  "loadState s =
     (let st = readState s in
      case openJournal s of
        Inl err \<Rightarrow> Inl err
      | Inr journal \<Rightarrow>
          if jsHead st \<noteq> Hash (headLine journal) then rebuildState s
          else case scanJournal (jsOff st) journal of
                 (ys, off) \<Rightarrow> if off < jsOff st then rebuildState s else Inr ((fold catch_up ys st)\<lparr>jsOff := off\<rparr>))"

definition saveState :: "journalState \<Rightarrow> unit fs_op" where
  "saveState st = writeAtomic stateName (enc_json (state_json st) @ [LF])"

section \<open>Appending changes\<close>

definition nextSeq :: "journalState \<Rightarrow> FileStore \<Rightarrow> error + uint64 \<times> journalState" where
  "nextSeq st s =
     (case openJournal s of
        Inl err \<Rightarrow> Inl err
      | Inr journal \<Rightarrow>
          let tail = lastSeq journal; st = (if tail > jsSeq st then st\<lparr>jsSeq := tail\<rparr> else st) in Inr (jsSeq st + 1, st))"

definition storeAppend :: "Change \<Rightarrow> int fs_op" where
  "storeAppend c s =
     (case openJournal s of
        Inl err \<Rightarrow> (Inl err, s)
      | Inr journal \<Rightarrow>
          if fsDeny s journalName then (Inl (ErrText ''filestore: append journal: ''), s)
          else (case appendJournal c journal of
                  Inl err \<Rightarrow> (Inl err, s)
                | Inr (data, off) \<Rightarrow> (Inr off, setNode journalName (Regular data (fsTime s)) s)))"

definition appendChange :: "journalState \<Rightarrow> Change \<Rightarrow> (Change \<times> journalState) fs_op" where
  "appendChange st c =
     fs_bind (fs_read (nextSeq st)) (\<lambda>(seq, st).
     let c = c\<lparr>cSeq := seq\<rparr> in
     fs_bind (storeAppend c) (\<lambda>off.
     let fresh = (jsOff st = 0); st = note_entry (cEntry c) (st\<lparr>jsSeq := cSeq c, jsOff := off\<rparr>) in
     if fresh then fs_bind (fs_read openJournal) (\<lambda>journal. fs_return (c, st\<lparr>jsHead := Hash (headLine journal)\<rparr>))
     else fs_return (c, st)))"

definition lastRecordFor :: "scope \<Rightarrow> string \<Rightarrow> FileStore \<Rightarrow> error + Change option" where
  "lastRecordFor scope name s =
     (case openJournal s of
        Inl err \<Rightarrow> Inl err
      | Inr journal \<Rightarrow>
          Inr (case rev (filter (\<lambda>c. eScope (cEntry c) = scope \<and> eName (cEntry c) = name) (records_of (fst (scanJournal 0 journal)))) of
                 [] \<Rightarrow> None | c # _ \<Rightarrow> Some c))"

definition outsideChange :: "Entry \<Rightarrow> string \<Rightarrow> time \<Rightarrow> Change" where
  "outsideChange e prev at = \<lparr>cSeq = 0, cEntry = e, cPrev = prev, cReplaced = prev, cSession = [], cSource = SourceReconciled, cAt = at\<rparr>"

definition outside :: "journalState \<Rightarrow> scope \<Rightarrow> string \<Rightarrow> Entry option \<Rightarrow> time \<Rightarrow> FileStore \<Rightarrow> error + Change option" where
  "outside st scope name cur at s =
     (let known = map_of (jsEntries st) (key scope name) in
      case cur of
        None \<Rightarrow>
          (case known of
             None \<Rightarrow> Inr None
           | Some se \<Rightarrow>
               (case lastRecordFor scope name s of
                  Inl err \<Rightarrow> Inl err
                | Inr None \<Rightarrow> Inr None
                | Inr (Some lst) \<Rightarrow>
                    let e = (cEntry lst)\<lparr>eDeleted := True, eUpdated := at, eMetaHash := MetaHash (eMeta (cEntry lst))\<rparr>
                    in Inr (Some (outsideChange e (seHash se) at))))
      | Some cur \<Rightarrow>
          if (case known of None \<Rightarrow> False | Some se \<Rightarrow> agrees se cur) then Inr None
          else if CheckEntry cur (fsMax s) None \<noteq> None then Inr None
          else
            let e = (case modTime (entryName scope name) s of Some t \<Rightarrow> cur\<lparr>eUpdated := t\<rparr> | None \<Rightarrow> cur);
                prev = (case known of None \<Rightarrow> [] | Some se \<Rightarrow> seHash se)
            in Inr (Some (outsideChange e prev at)))"

definition noteOutside :: "journalState \<Rightarrow> scope \<Rightarrow> string \<Rightarrow> Entry option \<Rightarrow> time \<Rightarrow> journalState fs_op" where
  "noteOutside st scope name cur at =
     fs_bind (fs_read (outside st scope name cur at)) (\<lambda>c.
     case c of None \<Rightarrow> fs_return st | Some c \<Rightarrow> fs_bind (appendChange st c) (\<lambda>(c, st). fs_return st))"

section \<open>Writing\<close>

text \<open>What a put does once its checks have passed.\<close>

definition commitPut :: "string \<Rightarrow> time \<Rightarrow> PutOptions \<Rightarrow> Entry option \<Rightarrow> Entry \<Rightarrow> Change fs_op" where
  "commitPut session now po stored e =
     (let sc = eScope e; n = eName e in
      fs_bind (fs_read loadState) (\<lambda>st.
      fs_bind (writeAtomic (entryName sc n) (encode_entry e)) (\<lambda>_.
      fs_bind (reindex sc) (\<lambda>_.
      fs_bind (noteOutside st sc n stored now) (\<lambda>st.
      let held = heldEntry st sc n;
          prev = BaseFor po held;
          prev = (case stored of None \<Rightarrow> prev | Some se \<Rightarrow> if prev = eHash se \<and> hashOf held \<noteq> eHash se then hashOf held else prev)
      in fs_bind (appendChange st \<lparr>cSeq = 0, cEntry = e, cPrev = prev, cReplaced = hashOf held, cSession = session, cSource = [], cAt = now\<rparr>) (\<lambda>(c, st).
         fs_bind (saveState st) (\<lambda>_. fs_return c)))))))"

definition FilePut :: "string \<Rightarrow> time \<Rightarrow> Entry \<Rightarrow> PutOption list \<Rightarrow> Change fs_op" where
  "FilePut session now e opts s =
     (let po = ResolvePutOptions opts; sc = eScope e; n = eName e in
      case CheckEntry e 0 None of
        Some err \<Rightarrow> (Inl err, s)
      | None \<Rightarrow> (case fsLocked s of
        Some err \<Rightarrow> (Inl err, s)
      | None \<Rightarrow> (case readEntry sc n s of
        Inl err \<Rightarrow> (Inl err, s)
      | Inr stored \<Rightarrow> (case CheckEntry e (fsMax s) stored of
        Some err \<Rightarrow> (Inl err, s)
      | None \<Rightarrow> (case Check po sc n stored of
        Some err \<Rightarrow> (Inl err, s)
      | None \<Rightarrow>
          let e = e\<lparr>eHash := Hash (eContent e), eMetaHash := MetaHash (eMeta e), eUpdated := now, eDeleted := False,
                    eMeta := (if mlen (eMeta e) = 0 then None else eMeta e)\<rparr>
          in commitPut session now po stored e s)))))"

definition commitForget :: "string \<Rightarrow> time \<Rightarrow> Entry \<Rightarrow> scope \<Rightarrow> string \<Rightarrow> Change fs_op" where
  "commitForget session now stored sc n =
     fs_bind (fs_read loadState) (\<lambda>st.
     fs_bind (removeFile (entryName sc n)) (\<lambda>_.
     fs_bind (reindex sc) (\<lambda>_.
     fs_bind (noteOutside st sc n (Some stored) now) (\<lambda>st.
     let held = heldEntry st sc n;
         unknown = (case map_of (jsEntries st) (key sc n) of None \<Rightarrow> True | Some se \<Rightarrow> \<not> agrees se stored)
     in fs_bind (if unknown then fs_read (lastRecordFor sc n) else fs_return None) (\<lambda>lst.
        let e = (case lst of Some c \<Rightarrow> if \<not> eDeleted (cEntry c) then cEntry c else stored | None \<Rightarrow> stored);
            e = e\<lparr>eDeleted := True, eUpdated := now, eMetaHash := MetaHash (eMeta e)\<rparr>
        in fs_bind (appendChange st \<lparr>cSeq = 0, cEntry = e, cPrev = hashOf held, cReplaced = hashOf held, cSession = session, cSource = [], cAt = now\<rparr>) (\<lambda>(c, st).
           fs_bind (saveState st) (\<lambda>_. fs_return c)))))))"

definition FileForget :: "string \<Rightarrow> time \<Rightarrow> scope \<Rightarrow> string \<Rightarrow> Change fs_op" where
  "FileForget session now sc n s =
     (case checkNames sc n of
        Some err \<Rightarrow> (Inl err, s)
      | None \<Rightarrow> (case fsLocked s of
        Some err \<Rightarrow> (Inl err, s)
      | None \<Rightarrow> (case readEntry sc n s of
        Inl err \<Rightarrow> (Inl err, s)
      | Inr None \<Rightarrow> (Inl (ErrNotFound sc n), s)
      | Inr (Some stored) \<Rightarrow> commitForget session now stored sc n s)))"

definition FileReadJournal :: "uint64 \<Rightarrow> FileStore \<Rightarrow> (error + Change) list" where
  "FileReadJournal after s =
     (case openJournal s of Inl err \<Rightarrow> [Inl err] | Inr journal \<Rightarrow> readJournal after journal)"

definition FileLastSeq :: "FileStore \<Rightarrow> error + uint64" where
  "FileLastSeq s = (case openJournal s of Inl err \<Rightarrow> Inl err | Inr journal \<Rightarrow> Inr (lastSeq journal))"

section \<open>Reconciling\<close>

fun scopes_of :: "(string \<times> node) list \<Rightarrow> error + scope list" where
  "scopes_of [] = Inr []"
| "scopes_of ((file, nd) # des) =
     (if \<not> ValidName file then scopes_of des
      else if nd = Link then Inl (linkedScope file)
      else case scopes_of des of Inl err \<Rightarrow> Inl err | Inr scs \<Rightarrow> Inr (if nd = Directory then file # scs else scs))"

definition fileScopes :: "FileStore \<Rightarrow> error + scope list" where
  "fileScopes s = scopes_of (ReadDir ''.'' s)"

fun live_entries :: "scope list \<Rightarrow> FileStore \<Rightarrow> error + (string \<times> Entry) list" where
  "live_entries [] s = Inr []"
| "live_entries (scope # scopes) s =
     (case listScope scope s of
        Inl err \<Rightarrow> Inl err
      | Inr es \<Rightarrow> (case live_entries scopes s of Inl err \<Rightarrow> Inl err | Inr live \<Rightarrow> Inr (map (\<lambda>e. (key (eScope e) (eName e), e)) es @ live)))"

text \<open>The loop over the keys: the changes recorded, the error that stopped it if one did, the cursor and the scopes touched.\<close>

fun reconcile_loop :: "(string \<times> Entry) list \<Rightarrow> time \<Rightarrow> string list \<Rightarrow> journalState \<Rightarrow> Change list \<Rightarrow> FileStore \<Rightarrow>
    (Change list \<times> error option \<times> journalState) \<times> FileStore" where
  "reconcile_loop live now [] st changes s = ((changes, None, st), s)"
| "reconcile_loop live now (k # ks) st changes s =
     (case (case CutByte (CHR ''/'') k of None \<Rightarrow> (k, []) | Some p \<Rightarrow> p) of
        (scope, name) \<Rightarrow>
          (case outside st scope name (map_of live k) now s of
             Inl err \<Rightarrow> ((changes, Some err, st), s)
           | Inr None \<Rightarrow> reconcile_loop live now ks st changes s
           | Inr (Some c) \<Rightarrow>
               (case appendChange st c s of
                  (Inl err, s) \<Rightarrow> ((changes, Some err, st), s)
                | (Inr (c, st), s) \<Rightarrow> reconcile_loop live now ks st (changes @ [c]) s)))"

fun reindex_all :: "scope list \<Rightarrow> unit fs_op" where
  "reindex_all [] s = (Inr (), s)"
| "reindex_all (scope # scopes) s = fs_bind (reindex scope) (\<lambda>_. reindex_all scopes) s"

text \<open>After the loop: the cursor \<open>st'\<close> is saved unless it was whole and is where it was, \<open>st\<close>, and the indexes of the scopes touched are rewritten.\<close>

definition finishReconcile :: "journalState \<Rightarrow> journalState \<Rightarrow> Change list \<Rightarrow> FileStore \<Rightarrow> error option \<times> FileStore" where
  "finishReconcile st st' changes s =
     (case (if \<not> jsRead st' \<or> jsSeq st' \<noteq> jsSeq st \<or> jsOff st' \<noteq> jsOff st then saveState st' s else (Inr (), s)) of
        (Inl err, s) \<Rightarrow> (Some err, s)
      | (Inr _, s) \<Rightarrow>
          (case reindex_all (remdups (map (eScope \<circ> cEntry) changes)) s of
             (Inl err, s) \<Rightarrow> (Some err, s) | (Inr _, s) \<Rightarrow> (None, s)))"

definition Reconcile :: "time \<Rightarrow> FileStore \<Rightarrow> (Change list \<times> error option) \<times> FileStore" where
  "Reconcile now s =
     (case fsLocked s of
        Some err \<Rightarrow> (([], Some err), s)
      | None \<Rightarrow> (case loadState s of
        Inl err \<Rightarrow> (([], Some err), s)
      | Inr st \<Rightarrow> (case fileScopes s of
        Inl err \<Rightarrow> (([], Some err), s)
      | Inr scopes \<Rightarrow> (case live_entries scopes s of
        Inl err \<Rightarrow> (([], Some err), s)
      | Inr live \<Rightarrow>
          let keys = sort (remdups (map fst live @ map fst (jsEntries st))) in
          (case reconcile_loop live now keys st [] s of
             ((changes, Some err, st'), s) \<Rightarrow> ((changes, Some err), s)
           | ((changes, None, st'), s) \<Rightarrow> (case finishReconcile st st' changes s of (err, s) \<Rightarrow> ((changes, err), s)))))))"

text \<open>\<^verbatim>\<open>Open\<close> on a directory with the given files, a new one with none.  Of its options the clock is the time argument of the operations and the
  lock timeout belongs to \<^verbatim>\<open>acquire\<close>.\<close>

datatype FileOption = FileMaxEntryBytes int

definition Open :: "FileOption list \<Rightarrow> (string \<times> node) list \<Rightarrow> time \<Rightarrow> FileStore" where
  "Open opts nodes t =
     fold (\<lambda>opt s. case opt of FileMaxEntryBytes n \<Rightarrow> s\<lparr>fsMax := n\<rparr>) opts
       \<lparr>fsMax = DefaultMaxEntryBytes, fsNodes = nodes, fsTime = t, fsLocked = None, fsDeny = (\<lambda>_. False)\<rparr>"

definition fileStore :: "(int \<Rightarrow> int) \<Rightarrow> FileStore Store" where
  "fileStore ulower = \<lparr>sGet = FileGet, sList = FileList, sPut = FilePut, sForget = FileForget, sSearch = FileSearch ulower, sJournal = FileReadJournal,
     sMaxEntryBytes = fsMax, sSearcher = Some \<lparr>ssOptions = AllSearchOptions, ssSearchWith = FileSearchWith ulower\<rparr>, sLastSeqer = Some FileLastSeq\<rparr>"

end
