(* ===== verification/FileCursor.thy ===== *)
theory FileCursor
  imports FileStore LostUpdate
begin

text \<open>
  The cursor of \<^verbatim>\<open>state.go\<close> is derived from the journal.  \<open>tracks\<close> says that a cursor is what reading the whole journal gives, \<open>honest\<close> that it is
  what reading some part of it up to the end of a line gave.  The facts of this theory are that catching up an honest cursor gives one that tracks the
  journal, that appending a record keeps it so, that a saved cursor reads back, and that the records a journal holds stay numbered and chained.
\<close>

section \<open>What a journal says of every entry\<close>

abbreviation recs :: "string \<Rightarrow> Change list" where
  "recs data \<equiv> records_of (fst (scanJournal 0 (Some data)))"

definition state_of :: "Entry \<Rightarrow> stateEntry" where
  "state_of e = \<lparr>seHash = eHash e, seMeta = MetaHash (eMeta e)\<rparr>"

definition last_step :: "(string \<rightharpoonup> stateEntry) \<Rightarrow> Change \<Rightarrow> (string \<rightharpoonup> stateEntry)" where
  "last_step m c = m(key (eScope (cEntry c)) (eName (cEntry c)) := (if eDeleted (cEntry c) then None else Some (state_of (cEntry c))))"

definition last_states :: "Change list \<Rightarrow> string \<rightharpoonup> stateEntry" where
  "last_states rs = foldl last_step Map.empty rs"

definition last_seq :: "Change list \<Rightarrow> uint64" where
  "last_seq rs = (if rs = [] then 0 else cSeq (last rs))"

lemma last_states_snoc: "last_states (rs @ [c]) = last_step (last_states rs) c"
  by (simp add: last_states_def)

lemma last_states_Nil [simp]: "last_states [] = Map.empty"
  by (simp add: last_states_def)

lemma last_seq_snoc [simp]: "last_seq (rs @ [c]) = cSeq c" "last_seq [] = 0"
  by (simp_all add: last_seq_def)

lemma key_inj: "ValidName sc \<Longrightarrow> ValidName sc' \<Longrightarrow> key sc n = key sc' n' \<longleftrightarrow> sc = sc' \<and> n = n'"
  using ValidName_excludes(1) cut_unique [of "CHR ''/''" sc sc' n n'] by (auto simp: key_def)

lemma last_states_replay:
  assumes "\<forall>c \<in> set rs. named c" "ValidName sc"
  shows "last_states rs (key sc n) = map_option state_of (replay rs (sc, n))"
  using assms(1)
proof (induction rs rule: rev_induct)
  case Nil
  show ?case by (simp add: replay_def)
next
  case (snoc c rs)
  then have "ValidName (eScope (cEntry c))" by (simp add: named_def)
  then have "key sc n = key (eScope (cEntry c)) (eName (cEntry c)) \<longleftrightarrow> ckey c = (sc, n)"
    using key_inj [OF assms(2)] by (auto simp: ckey_def)
  with snoc show ?case by (auto simp: last_states_snoc last_step_def replay_snoc)
qed

lemma lines_records: "recs data = concat (map (\<lambda>ln. records_of (line_yield (0, ln))) (complete_lines data))"
proof -
  have "records_of (concat (map line_yield (enumerate n ls))) = concat (map (\<lambda>ln. records_of (line_yield (0, ln))) ls)" for n ls
    by (induction ls arbitrary: n) (auto simp: records_of_line)
  then show ?thesis by (simp add: scan_all)
qed

lemma recs_append: "p = [] \<or> last p = LF \<Longrightarrow> recs (p @ q) = recs p @ recs q"
proof (cases p rule: rev_cases)
  case (snoc p' c)
  assume "p = [] \<or> last p = LF"
  with snoc show ?thesis using complete_lines_append [of p' q] complete_lines_LF [of p'] by (simp add: lines_records)
qed (simp add: scan_all)

lemma recs_Nil [simp]: "recs [] = []"
  by (simp add: lines_records)

section \<open>Catching up\<close>

lemma note_entry_frame [simp]:
  "jsSeq (note_entry e st) = jsSeq st" "jsOff (note_entry e st) = jsOff st" "jsHead (note_entry e st) = jsHead st" "jsRead (note_entry e st) = jsRead st"
  by (simp_all add: note_entry_def Let_def)

lemma note_entry_entries:
  "map_of (jsEntries (note_entry (cEntry c) st)) = last_step (map_of (jsEntries st)) c"
  "distinct (map fst (jsEntries st)) \<Longrightarrow> distinct (map fst (jsEntries (note_entry e st)))"
  by (simp_all add: note_entry_def Let_def last_step_def state_of_def delete_conv' update_conv' distinct_update distinct_delete)

lemma catch_up_fold:
  "jsOff (fold catch_up ys st) = jsOff st" "jsHead (fold catch_up ys st) = jsHead st" "jsRead (fold catch_up ys st) = jsRead st"
  "distinct (map fst (jsEntries st)) \<Longrightarrow> distinct (map fst (jsEntries (fold catch_up ys st)))"
  "map_of (jsEntries (fold catch_up ys st)) = foldl last_step (map_of (jsEntries st)) (records_of ys)"
  "jsSeq (fold catch_up ys st) = (if records_of ys = [] then jsSeq st else cSeq (last (records_of ys)))"
  by (induction ys arbitrary: st)
     (auto simp: catch_up_def note_entry_entries split: sum.splits)

definition tracks :: "journalState \<Rightarrow> string \<Rightarrow> bool" where
  "tracks st data \<longleftrightarrow> jsOff st = int (length data - length (cut_off data)) \<and> jsHead st = Hash (headLine (Some data)) \<and>
     jsSeq st = last_seq (recs data) \<and> map_of (jsEntries st) = last_states (recs data) \<and> distinct (map fst (jsEntries st))"

definition honest :: "journalState \<Rightarrow> string \<Rightarrow> bool" where
  "honest st data \<longleftrightarrow> (\<exists>p q. data = p @ q \<and> (p = [] \<or> last p = LF) \<and> jsOff st = int (length p) \<and> jsSeq st = last_seq (recs p) \<and>
     map_of (jsEntries st) = last_states (recs p) \<and> distinct (map fst (jsEntries st)))"

lemma honest_zero: "honest zeroState data"
  unfolding honest_def by (intro exI [of _ "[]"] exI [of _ data]) (simp add: zeroState_def)

lemma honest_append: "honest st data \<Longrightarrow> honest st (data @ q)"
  unfolding honest_def by (metis append.assoc)

lemma cut_off_length: "length (cut_off data) \<le> length data"
  unfolding cut_off_def by (induction data) (auto split: list.splits if_splits)

lemma cut_off_append: "p = [] \<or> last p = LF \<Longrightarrow> cut_off (p @ q) = cut_off q"
proof -
  assume "p = [] \<or> last p = LF"
  then have "cut_off p = []" by (simp add: cut_off_Nil)
  then have "last (SplitByte LF p) = []" by (simp add: cut_off_def)
  then show ?thesis by (cases "SplitByte LF q") (auto simp: cut_off_def SplitByte_append)
qed

lemma last_seq_append: "last_seq (rs @ rs') = (if rs' = [] then last_seq rs else cSeq (last rs'))"
  by (simp add: last_seq_def)

lemma scan_some: "fst (scanJournal 0 j) = fst (scanJournal 0 (Some (journal_data j)))"
  "snd (scanJournal 0 j) = int (length (journal_data j) - length (cut_off (journal_data j)))"
  "headLine j = headLine (Some (journal_data j))"
  by (cases j; simp add: scan_all scanJournal_def cut_off_def scan_loop_lines headLine_def)+

lemma rebuild_tracks:
  assumes "openJournal s = Inr j"
  shows "\<exists>st. rebuildState s = Inr st \<and> tracks st (journal_data j) \<and> \<not> jsRead st"
proof -
  obtain ys off where y: "scanJournal 0 j = (ys, off)" by fastforce
  let ?st = "(fold catch_up ys zeroState)\<lparr>jsOff := off, jsHead := Hash (headLine j)\<rparr>"
  have "rebuildState s = Inr ?st" by (simp add: rebuildState_def assms y)
  moreover have "records_of ys = recs (journal_data j)" "off = int (length (journal_data j) - length (cut_off (journal_data j)))"
    using scan_some(1,2) [of j] y by simp_all
  then have "tracks ?st (journal_data j)"
    unfolding tracks_def using catch_up_fold [where ys = ys and st = zeroState] scan_some(3) [of j]
    by (simp add: zeroState_def last_states_def last_seq_def)
  ultimately show ?thesis using catch_up_fold(3) [where ys = ys and st = zeroState] by (simp add: zeroState_def)
qed

lemma load_tracks:
  assumes "openJournal s = Inr j" "honest (readState s) (journal_data j)"
  shows "\<exists>st. loadState s = Inr st \<and> tracks st (journal_data j) \<and>
    (jsHead (readState s) = Hash (headLine j) \<longrightarrow> jsRead st = jsRead (readState s))"
proof (cases "jsHead (readState s) = Hash (headLine j)")
  case False
  then show ?thesis using rebuild_tracks [OF assms(1)] by (auto simp: loadState_def Let_def assms(1))
next
  case True
  let ?st = "readState s" and ?data = "journal_data j"
  obtain p q where pq: "?data = p @ q" "p = [] \<or> last p = LF" "jsOff ?st = int (length p)" "jsSeq ?st = last_seq (recs p)"
    "map_of (jsEntries ?st) = last_states (recs p)" "distinct (map fst (jsEntries ?st))"
    using assms(2) by (auto simp: honest_def)
  define ys off where "ys = fst (scanJournal (jsOff ?st) j)" and "off = snd (scanJournal (jsOff ?st) j)"
  have scan: "records_of ys = recs q \<and> off = int (length ?data - length (cut_off ?data))"
  proof (cases j)
    case None
    then have "p = []" "q = []" using pq(1) by simp_all
    then show ?thesis using recs_Nil by (simp add: ys_def off_def None scanJournal_def cut_off_def)
  next
    case (Some d)
    have l: "records_of (concat (map line_yield (enumerate 1 (complete_lines q)))) = recs q" by (simp add: scan_all)
    have "scanJournal (jsOff ?st) j = scan_loop 1 (int (length p)) q" using pq(1,3) Some by (simp add: scanJournal_def)
    then show ?thesis
      using l pq(1) cut_off_append [OF pq(2), of q] cut_off_length [of q]
      by (simp add: ys_def off_def scan_loop_lines Some cut_off_def [symmetric])
  qed
  have "jsOff ?st \<le> off" using scan pq(1,3) cut_off_append [OF pq(2), of q] cut_off_length [of q] by simp
  then have load: "loadState s = Inr ((fold catch_up ys ?st)\<lparr>jsOff := off\<rparr>)"
    using True by (cases "scanJournal (jsOff ?st) j") (simp add: loadState_def Let_def assms(1) ys_def off_def)
  have r: "recs ?data = recs p @ recs q" unfolding pq(1) using pq(2) by (rule recs_append)
  have "tracks ((fold catch_up ys ?st)\<lparr>jsOff := off\<rparr>) ?data"
    unfolding tracks_def using catch_up_fold [where ys = ys and st = "?st"] scan pq(4-6) True scan_some(3) [of j]
    by (simp add: r last_seq_append last_states_def)
  with load show ?thesis using catch_up_fold(3) [where ys = ys and st = "?st"] by auto
qed

section \<open>Records as they read back\<close>

text \<open>A record reads back with its metadata in the order of the keys, which is how JSON writes a map.\<close>

definition canon_meta :: "gomap option \<Rightarrow> gomap option" where
  "canon_meta m = (if mlen m = 0 then None else Some (sorted_items (mitems m)))"

definition canon_change :: "Change \<Rightarrow> Change" where
  "canon_change c = c\<lparr>cEntry := (cEntry c)\<lparr>eMeta := canon_meta (eMeta (cEntry c))\<rparr>\<rparr>"

definition text_change :: "Change \<Rightarrow> bool" where
  "text_change c \<longleftrightarrow> ValidName (eScope (cEntry c)) \<and> ValidName (eName (cEntry c)) \<and> eHash (cEntry c) \<noteq> [] \<and>
     list_all ValidString [eContent (cEntry c), eHash (cEntry c), eMetaHash (cEntry c), cPrev c, cReplaced c, cSession c, cSource c] \<and>
     list_all (\<lambda>(k, v). ValidString k \<and> ValidString v) (mitems (eMeta (cEntry c))) \<and> wf_gomap (eMeta (cEntry c))"

lemma sorted_items_fst: "map fst (sorted_items m) = sort (map fst m)"
  by (simp add: sorted_items_def comp_def)

lemma sorted_items_idem: "sorted_items (sorted_items m) = sorted_items m"
  unfolding sorted_items_def [of "sorted_items m"] by (simp add: sorted_items_fst map_of_sorted_items sorted_sort_id) (simp add: sorted_items_def)

lemma length_sorted_items [simp]: "length (sorted_items m) = length m"
  by (simp add: sorted_items_def)

lemma sorted_items_Nil [simp]: "sorted_items m = [] \<longleftrightarrow> m = []"
  using length_sorted_items [of m] by (metis length_0_conv)

lemma mlen_mitems: "mlen m = length (mitems m)"
  by (simp add: mlen_def mitems_def split: option.splits)

lemma mitems_canon [simp]: "mitems (canon_meta m) = sorted_items (mitems m)"
  by (simp add: canon_meta_def mlen_mitems) (simp add: sorted_items_def)

lemma MetaHash_canon [simp]: "MetaHash (canon_meta m) = MetaHash m"
  by (simp add: canon_meta_def MetaHash_sorted) (simp add: MetaHash_def mlen_def)

lemma canonical_canon: "wf_gomap m \<Longrightarrow> canonical (canon_meta m)"
  by (auto simp: canonical_def sorted_items_idem sorted_items_fst wf_gomap_items) (simp add: canon_meta_def mlen_mitems split: if_splits)

lemma canon_change_simps [simp]:
  "cSeq (canon_change c) = cSeq c" "cPrev (canon_change c) = cPrev c" "cReplaced (canon_change c) = cReplaced c" "cSession (canon_change c) = cSession c"
  "cSource (canon_change c) = cSource c" "cAt (canon_change c) = cAt c" "eScope (cEntry (canon_change c)) = eScope (cEntry c)"
  "eName (cEntry (canon_change c)) = eName (cEntry c)" "eContent (cEntry (canon_change c)) = eContent (cEntry c)"
  "eHash (cEntry (canon_change c)) = eHash (cEntry c)" "eMetaHash (cEntry (canon_change c)) = eMetaHash (cEntry c)"
  "eUpdated (cEntry (canon_change c)) = eUpdated (cEntry c)" "eDeleted (cEntry (canon_change c)) = eDeleted (cEntry c)"
  "eMeta (cEntry (canon_change c)) = canon_meta (eMeta (cEntry c))" "ckey (canon_change c) = ckey c" "after_hash (canon_change c) = after_hash c"
  "last_step m (canon_change c) = last_step m c"
  by (simp_all add: canon_change_def ckey_def after_hash_def last_step_def state_of_def)

lemma canon_json: "change_json (canon_change c) = change_json c"
  by (simp add: change_json_def entry_json_def mlen_mitems sorted_items_idem)

lemma canon_append: "appendJournal (canon_change c) journal = appendJournal c journal"
  by (simp add: appendJournal_def marshal_change_def canon_json)

lemma text_record:
  assumes "text_change c" "cSeq c \<noteq> 0" "year_fits (eUpdated (cEntry c))" "year_fits (cAt c)"
  shows "record_ok (canon_change c)"
proof -
  have d: "distinct (map fst (mitems (eMeta (cEntry c))))" using assms(1) by (simp add: text_change_def wf_gomap_items)
  have "list_all (\<lambda>(k, v). ValidString k \<and> ValidString v) (sorted_items (mitems (eMeta (cEntry c))))"
    using assms(1) sorted_items_in [OF _ d] unfolding text_change_def list_all_iff by blast
  then show ?thesis using assms canonical_canon [of "eMeta (cEntry c)"] by (simp add: record_ok_def text_change_def)
qed

lemma append_Inr_years: "appendJournal c journal = Inr r \<Longrightarrow> year_fits (eUpdated (cEntry c)) \<and> year_fits (cAt c)"
  by (simp add: appendJournal_def marshal_change_def split: if_splits)

section \<open>Appending to a journal in order\<close>

text \<open>A journal in order: numbered from one, each record replacing what its entry last held, every record one the store writes, and what a cut-off
  write left no record.\<close>

definition jok :: "string \<Rightarrow> bool" where
  "jok data \<longleftrightarrow> numbered (recs data) \<and> chained (recs data) \<and> (\<forall>c \<in> set (recs data). record_ok c) \<and> records_of (line_yield (0, cut_off data)) = []"

lemma jok_named: "jok data \<Longrightarrow> \<forall>c \<in> set (recs data). named c"
  by (auto simp: jok_def record_ok_def named_def)

lemma numbered_last_seq: "numbered rs \<Longrightarrow> last_seq rs = of_nat (length rs)"
  by (cases rs rule: rev_cases) (auto simp: numbered_snoc)

lemma lastSeq_last: "lastSeq j = last_seq (recs (journal_data j))"
  unfolding last_record scan_some(1) [of j] by (cases "recs (journal_data j)" rule: rev_cases) auto

lemma append_recs:
  assumes "record_ok c" "appendJournal c j = Inr (data', off)" "records_of (line_yield (0, cut_off (journal_data j))) = []"
  shows "recs data' = recs (journal_data j) @ [c]" "cut_off data' = []" "off = int (length data')" "\<exists>q. data' = journal_data j @ q"
proof -
  have "records_of (line_yield (n, cut_off (journal_data j))) = []" for n using assms(3) by (simp add: records_of_line)
  then show "recs data' = recs (journal_data j) @ [c]" using append_scan(1) [OF assms(1,2)] scan_some(1) [of j] by simp
  show "off = int (length data')" using append_scan(3) [OF assms(1,2)] .
  show "cut_off data' = []" "\<exists>q. data' = journal_data j @ q"
    using assms(2) by (auto simp: appendJournal_def marshal_record [OF assms(1)] Let_def cut_off_Nil)
qed

text \<open>A journal without damage: its last line is whole and every line reads as a record.\<close>

definition clean_journal :: "string \<Rightarrow> bool" where
  "clean_journal data \<longleftrightarrow> cut_off data = [] \<and> fst (scanJournal 0 (Some data)) = map Inr (recs data)"

lemma append_clean:
  assumes "record_ok c" "appendJournal c j = Inr (data', off)" "clean_journal (journal_data j)"
  shows "clean_journal data'"
proof -
  have cut: "cut_off (journal_data j) = []" using assms(3) by (simp add: clean_journal_def)
  have none: "line_yield (k, []) = []" for k by (simp add: line_yield_def)
  have r: "recs data' = recs (journal_data j) @ [c]" "cut_off data' = []" using append_recs [OF assms(1,2)] cut none by simp_all
  then show ?thesis
    using append_scan(1) [OF assms(1,2)] scan_some(1) [of j] assms(3) cut none by (simp add: clean_journal_def)
qed

lemma headLine_prefix: "LF \<in> set p \<Longrightarrow> headLine (Some (p @ q)) = headLine (Some p)"
proof (cases "LF \<in> set (take headLimit p)")
  case True
  then show ?thesis by (auto simp: headLine_def Let_def)
next
  case False
  assume "LF \<in> set p"
  with False have "headLimit < length p" by (metis leI take_all)
  then show ?thesis by (simp add: headLine_def Let_def)
qed

lemma headLine_lines: "length (cut_off data) < length data \<Longrightarrow> headLine (Some (data @ q)) = headLine (Some data)"
proof (rule headLine_prefix)
  assume "length (cut_off data) < length data"
  then show "LF \<in> set data" by (metis SplitByte_plain cut_off_def last.simps less_irrefl)
qed

section \<open>A saved cursor\<close>

lemma parse_enc_line:
  assumes "good_json j" "depth j \<le> maxNestingDepth"
  shows "parse_json (enc_json j @ [LF]) = Some j"
proof -
  have "lex [LF] = Some []" "number_end [LF]" by code_simp+
  then have "lex (enc_json j @ [LF]) = Some (toks j)" using lexedD [OF lexed_json [OF assms(1)]] by simp
  moreover have "prun (MValue, []) (toks j) = Some (MDone j, [])" using prun_value [of MValue j "[]"] assms(2) by simp
  ultimately show ?thesis by (simp add: parse_json_def)
qed

definition state_entry_json :: "stateEntry \<Rightarrow> json" where
  "state_entry_json se = JObj ([(''hash'', JStr (seHash se))] @ (if seMeta se \<noteq> [] then [(''meta'', JStr (seMeta se))] else []))"

definition sorted_states :: "(string \<times> stateEntry) list \<Rightarrow> (string \<times> stateEntry) list" where
  "sorted_states es = map (\<lambda>k. (k, the (map_of es k))) (sort (map fst es))"

lemma sorted_states_of:
  assumes "distinct (map fst es)"
  shows "map_of (sorted_states es) = map_of es" "distinct (map fst (sorted_states es))" "fst ` set (sorted_states es) = fst ` set es"
    "sorted_states es = [] \<longleftrightarrow> es = []" "(k, se) \<in> set (sorted_states es) \<Longrightarrow> map_of es k = Some se"
proof -
  show f: "distinct (map fst (sorted_states es))" "fst ` set (sorted_states es) = fst ` set es"
    using assms by (simp_all add: sorted_states_def comp_def image_image)
  have "length (sorted_states es) = length es" by (simp add: sorted_states_def)
  then show "sorted_states es = [] \<longleftrightarrow> es = []" by (metis length_0_conv)
  show m: "map_of es k = Some se" if "(k, se) \<in> set (sorted_states es)" for k se
    using that assms by (auto simp: sorted_states_def)
  show "map_of (sorted_states es) = map_of es"
  proof
    fix k
    show "map_of (sorted_states es) k = map_of es k"
    proof (cases "map_of (sorted_states es) k")
      case None
      then show ?thesis by (metis f(2) map_of_eq_None_iff)
    next
      case (Some se)
      then show ?thesis using m [of k se] by (simp add: map_of_SomeD)
    qed
  qed
qed

lemma state_json_sorted:
  "state_json st = JObj (
     [(''seq'', JNum (Itoa (uint (jsSeq st)))), (''off'', JNum (Itoa (jsOff st)))] @
     (if jsHead st \<noteq> [] then [(''head'', JStr (jsHead st))] else []) @
     (if jsEntries st \<noteq> [] then [(''entries'', JObj (map (\<lambda>(k, se). (k, state_entry_json se)) (sorted_states (jsEntries st))))] else []))"
proof -
  have "map (\<lambda>k. (k, case map_of es k of None \<Rightarrow> JNull | Some se \<Rightarrow> state_entry_json se)) (sort (map fst es)) =
      map (\<lambda>(k, se). (k, state_entry_json se)) (sorted_states es)" for es :: "(string \<times> stateEntry) list"
    by (auto simp: sorted_states_def dest!: weak_map_of_SomeI)
  then show ?thesis unfolding state_json_def state_entry_json_def [symmetric] by simp
qed

lemma dec_state_entry: "dec_struct state_entry_fields (state_entry_json se) \<lparr>seHash = [], seMeta = []\<rparr> = Some se"
  by (simp add: dec_struct_def state_entry_json_def state_entry_fields_def find_field_def at_field_def dec_string_def)

lemma dec_state_pairs_items:
  "distinct (map fst (m @ es)) \<Longrightarrow> dec_state_pairs (map (\<lambda>(k, se). (k, state_entry_json se)) es) m = Some (m @ es)"
  by (induction es arbitrary: m) (auto simp: dec_state_entry update_new)

definition text_state :: "journalState \<Rightarrow> bool" where
  "text_state st \<longleftrightarrow> ValidString (jsHead st) \<and> distinct (map fst (jsEntries st)) \<and>
     (\<forall>(k, se) \<in> set (jsEntries st). ValidString k \<and> ValidString (seHash se) \<and> ValidString (seMeta se))"

lemma dec_state:
  assumes "distinct (map fst (jsEntries st))"
  shows "dec_struct state_fields (state_json st) zeroState =
    (if int64 (jsOff st) then Some (st\<lparr>jsEntries := sorted_states (jsEntries st), jsRead := False\<rparr>) else None)"
proof -
  have off: "dec_int64 (JNum (Itoa i)) old = (if int64 i then Some i else None)" for i old
    by (simp add: dec_int_def parse_integer_Itoa int64_def)
  note s = sorted_states_of [OF assms]
  have "dec_state_map (JObj (map (\<lambda>(k, se). (k, state_entry_json se)) (sorted_states (jsEntries st)))) [] = Some (sorted_states (jsEntries st))"
    using dec_state_pairs_items [of "[]" "sorted_states (jsEntries st)"] s(2) by (simp add: dec_state_map_def)
  then show ?thesis using s(4)
    by (cases "jsEntries st = []"; cases "jsHead st = []")
       (simp_all add: state_json_sorted dec_struct_JObj state_fields_def find_field_def at_field_def off [simplified] dec_uint64_Itoa dec_string_def zeroState_def)
qed

lemma good_state:
  assumes "text_state st"
  shows "good_json (state_json st)" "depth (state_json st) \<le> maxNestingDepth"
proof -
  have d: "distinct (map fst (jsEntries st))" using assms by (simp add: text_state_def)
  have names: "ValidString ''off''" "ValidString ''head''" "ValidString ''entries''" by code_simp+
  have e: "ValidString k \<and> good_json (state_entry_json se)" if "(k, se) \<in> set (sorted_states (jsEntries st))" for k se
  proof -
    have "(k, se) \<in> set (jsEntries st)" using sorted_states_of(5) [OF d that] by (rule map_of_SomeD)
    then have "ValidString k \<and> ValidString (seHash se) \<and> ValidString (seMeta se)" using assms by (auto simp: text_state_def)
    then show ?thesis by (simp add: state_entry_json_def valid_names_json change_names)
  qed
  then have "list_all (\<lambda>(k, j). ValidString k \<and> good_json j) (map (\<lambda>(k, se). (k, state_entry_json se)) (sorted_states (jsEntries st)))"
    by (auto simp: list_all_iff)
  then show "good_json (state_json st)"
    using assms unfolding state_json_sorted by (simp add: text_state_def names valid_names_json change_names good_num_Itoa)
  have "depth (state_entry_json se) \<le> Suc 0" for se unfolding state_entry_json_def by (rule depth_JObj_le) (auto split: if_splits)
  then have "depth (JObj (map (\<lambda>(k, se). (k, state_entry_json se)) es)) \<le> Suc (Suc 0)" for es by (intro depth_JObj_le) auto
  then have "depth (state_json st) \<le> Suc (Suc (Suc 0))"
    unfolding state_json_sorted by (intro depth_JObj_le) (auto split: if_splits)
  then show "depth (state_json st) \<le> maxNestingDepth" by (simp add: maxNestingDepth_def)
qed

lemma saved_state:
  assumes "text_state st"
  shows "Unmarshal (dec_struct state_fields) (enc_json (state_json st) @ [LF]) zeroState =
    (if int64 (jsOff st) then Some (st\<lparr>jsEntries := sorted_states (jsEntries st), jsRead := False\<rparr>) else None)"
  using dec_state [of st] assms by (simp add: Unmarshal_def parse_enc_line [OF good_state [OF assms]] text_state_def)

lemma last_states_record: "last_states rs k = Some se \<Longrightarrow> \<exists>c \<in> set rs. k = key (eScope (cEntry c)) (eName (cEntry c)) \<and> se = state_of (cEntry c)"
  by (induction rs rule: rev_induct) (auto simp: last_states_snoc last_step_def split: if_splits)

lemma valid_key: "ValidName sc \<Longrightarrow> ValidName n \<Longrightarrow> ValidString (key sc n)"
proof (rule valid_ascii)
  fix c assume v: "ValidName sc" "ValidName n" and "c \<in> set (key sc n)"
  then consider "c \<in> set sc" | "c \<in> set n" | "c = CHR ''/''" by (auto simp: key_def)
  moreover have "byte (CHR ''/'') < 0x80" by code_simp
  ultimately show "byte c < 0x80" using v ValidName_chars name_char_tight by cases (auto simp: tight_def)
qed

lemma valid_MetaHash: "ValidString (MetaHash m)"
  using valid_Hash by (simp add: MetaHash_def ValidString_def)

lemma tracks_text:
  assumes "tracks st data" "jok data"
  shows "text_state st"
proof -
  have "ValidString k \<and> ValidString (seHash se) \<and> ValidString (seMeta se)" if "(k, se) \<in> set (jsEntries st)" for k se
  proof -
    have "last_states (recs data) k = Some se" using that assms(1) by (auto simp: tracks_def dest!: map_of_is_SomeI [rotated])
    then obtain c where c: "c \<in> set (recs data)" "k = key (eScope (cEntry c)) (eName (cEntry c))" "se = state_of (cEntry c)"
      using last_states_record by blast
    moreover have "record_ok c" using c(1) assms(2) by (simp add: jok_def)
    ultimately show ?thesis by (simp add: record_ok_def state_of_def valid_key valid_MetaHash)
  qed
  then show ?thesis using assms(1) valid_Hash by (auto simp: text_state_def tracks_def)
qed

lemma tracks_honest: "tracks st data \<Longrightarrow> honest (st\<lparr>jsEntries := sorted_states (jsEntries st), jsRead := b\<rparr>) data"
proof -
  assume t: "tracks st data"
  obtain p q where pq: "data = p @ q" "p = [] \<or> last p = LF" "cut_off data = q" "LF \<notin> set q"
  proof (cases "LF \<in> set data")
    case True
    obtain a b where ab: "data = a @ LF # b" "LF \<notin> set b" using split_list_last [OF True] by blast
    have "cut_off data = b" using cut_off_append [of "a @ [LF]" b] ab by (simp add: cut_off_def SplitByte_plain)
    then show ?thesis using that [of "a @ [LF]" b] ab by simp
  next
    case False
    then show ?thesis using that [of "[]" data] by (simp add: cut_off_def SplitByte_plain)
  qed
  have "recs q = []" using pq(4) by (simp add: lines_records complete_lines_def SplitByte_plain)
  then have "recs data = recs p" unfolding pq(1) using recs_append [OF pq(2)] by simp
  moreover have "length data - length (cut_off data) = length p" using pq(1,3) by simp
  ultimately show ?thesis
    using t pq(1,2) sorted_states_of [of "jsEntries st"] unfolding honest_def by (intro exI [of _ p] exI [of _ q]) (simp add: tracks_def)
qed

end
