(* ===== verification/FileInv.thy ===== *)
theory FileInv
  imports FileCursor
begin

text \<open>
  The file store's operations keep the journal in order and the cursor honest, whatever the entry files hold: a person may edit, add and remove them
  between any two operations, a write may fail or be cut off, and a writer may die before it saves the cursor.
\<close>

section \<open>What an operation touches\<close>

text \<open>Names at the top of the directory other than the journal and the cursor: an operation creates directories and changes nothing else, and no name
  comes to stand twice.\<close>

definition wf_nodes :: "FileStore \<Rightarrow> bool" where
  "wf_nodes s \<longleftrightarrow> distinct (map fst (fsNodes s))"

definition own_name :: "string \<Rightarrow> bool" where
  "own_name p \<longleftrightarrow> CHR ''/'' \<in> set p \<or> p \<in> {journalName, stateName}"

definition dirs_kept :: "FileStore \<Rightarrow> FileStore \<Rightarrow> bool" where
  "dirs_kept s s' \<longleftrightarrow> (wf_nodes s \<longrightarrow> wf_nodes s') \<and>
     (\<forall>p. own_name p \<or> Lstat s' p = Lstat s p \<or> Lstat s p = None \<and> Lstat s' p = Some Directory)"

lemma dirs_kept_refl: "dirs_kept s s"
  by (simp add: dirs_kept_def)

lemma dirs_kept_trans: "dirs_kept s s' \<Longrightarrow> dirs_kept s' s'' \<Longrightarrow> dirs_kept s s''"
  unfolding dirs_kept_def by metis

definition changed_only :: "string set \<Rightarrow> FileStore \<Rightarrow> FileStore \<Rightarrow> bool" where
  "changed_only P s s' \<longleftrightarrow> fsMax s' = fsMax s \<and> fsTime s' = fsTime s \<and> fsLocked s' = fsLocked s \<and> fsDeny s' = fsDeny s \<and>
     (\<forall>p. p \<notin> P \<longrightarrow> Lstat s' p = Lstat s p) \<and> dirs_kept s s'"

definition scope_paths :: "scope \<Rightarrow> string set" where
  "scope_paths sc = {p. p = sc \<or> HasPrefix p (sc @ ''/'')}"

lemma changed_only_refl [simp]: "changed_only P s s"
  by (simp add: changed_only_def dirs_kept_refl)

lemma changed_only_trans: "changed_only P s s' \<Longrightarrow> changed_only Q s' s'' \<Longrightarrow> changed_only (P \<union> Q) s s''"
  using dirs_kept_trans by (auto simp: changed_only_def)

lemma changed_only_mono: "changed_only P s s' \<Longrightarrow> P \<subseteq> Q \<Longrightarrow> changed_only Q s s'"
  by (auto simp: changed_only_def)

lemma Lstat_setNode: "Lstat (setNode n nd s) p = (if p = n then Some nd else Lstat s p)"
  by (simp add: Lstat_def setNode_def update_conv')

lemma setNode_simps [simp]:
  "fsMax (setNode n nd s) = fsMax s" "fsTime (setNode n nd s) = fsTime s" "fsLocked (setNode n nd s) = fsLocked s" "fsDeny (setNode n nd s) = fsDeny s"
  by (simp_all add: setNode_def)

lemma wf_setNode: "wf_nodes s \<Longrightarrow> wf_nodes (setNode n nd s)"
  by (simp add: wf_nodes_def setNode_def distinct_update)

lemma setNode_changes: "n \<in> P \<Longrightarrow> own_name n \<or> nd = Directory \<and> Lstat s n = None \<Longrightarrow> changed_only P s (setNode n nd s)"
  by (auto simp: changed_only_def Lstat_setNode dirs_kept_def wf_setNode)

lemma writeAtomic_changes:
  assumes "writeAtomic name data s = (r, s')" "own_name name"
  shows "changed_only (insert name ({dirOf name} - {''.''})) s s'"
    "r = Inr () \<and> Lstat s' name = Some (Regular data (fsTime s)) \<or> (\<exists>err. r = Inl err) \<and> (dirOf name = ''.'' \<longrightarrow> s' = s)"
proof -
  let ?P = "insert name ({dirOf name} - {''.''})"
  define d where "d = (if dirOf name \<noteq> ''.'' \<and> Lstat s (dirOf name) = None then setNode (dirOf name) Directory s else s)"
  have d: "changed_only ?P s d" "fsTime d = fsTime s" by (simp_all add: d_def setNode_changes)
  have "s' = s \<or> s' = d \<or> r = Inr () \<and> s' = setNode name (Regular data (fsTime d)) d"
    using assms(1) unfolding writeAtomic_def Let_def d_def [symmetric] by (auto split: if_splits)
  then show "changed_only ?P s s'"
    using d changed_only_trans [OF d(1) setNode_changes [of name ?P]] assms(2) by auto
  show "r = Inr () \<and> Lstat s' name = Some (Regular data (fsTime s)) \<or> (\<exists>err. r = Inl err) \<and> (dirOf name = ''.'' \<longrightarrow> s' = s)"
    using assms(1) d(2) unfolding writeAtomic_def Let_def d_def [symmetric]
    by (auto simp: Lstat_setNode d_def split: if_splits)
qed

lemma own_names: "own_name (sc @ ''/'' @ n)" "own_name (entryName sc n)" "own_name journalName" "own_name stateName"
  by (simp_all add: own_name_def entryName_def)

lemma changed_openJournal: "changed_only P s s' \<Longrightarrow> journalName \<notin> P \<Longrightarrow> openJournal s' = openJournal s"
  by (simp add: changed_only_def openJournal_def readRegular_def)

lemma changed_readState: "changed_only P s s' \<Longrightarrow> stateName \<notin> P \<Longrightarrow> readState s' = readState s"
  by (simp add: changed_only_def readState_def readRegular_def)

lemma dot_not_name: "CHR ''.'' \<in> set sc \<Longrightarrow> \<not> ValidName sc"
proof
  assume "CHR ''.'' \<in> set sc" "ValidName sc"
  then have "name_char (CHR ''.'') \<or> CHR ''.'' = CHR ''-''" using ValidName_chars by blast
  moreover have "\<not> name_char (CHR ''.'')" by code_simp
  ultimately show False by simp
qed

lemma scope_paths_apart:
  assumes "ValidName sc"
  shows "journalName \<notin> scope_paths sc" "stateName \<notin> scope_paths sc"
proof -
  have s: "CHR ''/'' \<notin> set journalName" "CHR ''/'' \<notin> set stateName" by code_simp+
  have "CHR ''.'' \<in> set journalName" "CHR ''.'' \<in> set stateName" by code_simp+
  then have "sc \<noteq> journalName" "sc \<noteq> stateName" using dot_not_name assms by blast+
  moreover have "\<not> HasPrefix p (sc @ ''/'')" if "CHR ''/'' \<notin> set p" for p using that by (auto simp: gostr)
  ultimately show "journalName \<notin> scope_paths sc" "stateName \<notin> scope_paths sc" using s by (auto simp: scope_paths_def)
qed

lemma dirOf_scope: "ValidName sc \<Longrightarrow> dirOf (sc @ ''/'' @ n) = sc"
proof -
  assume "ValidName sc"
  then have "CHR ''/'' \<notin> set sc" by (rule ValidName_excludes(1))
  then have "takeWhile (\<lambda>c. c \<noteq> CHR ''/'') (sc @ ''/'' @ n) = sc @ takeWhile (\<lambda>c. c \<noteq> CHR ''/'') (''/'' @ n)"
    by (intro takeWhile_append2) auto
  then show ?thesis by (simp add: dirOf_def)
qed

lemma scope_write_changes:
  assumes "ValidName sc" "writeAtomic (sc @ ''/'' @ n) data s = (r, s')"
  shows "changed_only (scope_paths sc) s s'"
  using writeAtomic_changes(1) [OF assms(2) own_names(1)] unfolding dirOf_scope [OF assms(1)]
  by (rule changed_only_mono) (auto simp: scope_paths_def gostr)

lemma reindex_changes:
  assumes "ValidName sc" "reindex sc s = (r, s')"
  shows "changed_only (scope_paths sc) s s'"
proof -
  obtain data where "s' = s \<or> writeAtomic (sc @ ''/'' @ indexName) data s = (r, s')"
    using assms(2) by (auto simp: reindex_def fs_bind_def fs_read_def split: sum.splits)
  then show ?thesis using scope_write_changes [OF assms(1)] by auto
qed

lemma removeFile_changes: "removeFile n s = (r, s') \<Longrightarrow> own_name n \<Longrightarrow> changed_only {n} s s'"
  by (auto simp: removeFile_def changed_only_def Lstat_def delete_conv' dirs_kept_def wf_nodes_def distinct_delete split: if_splits)

section \<open>The journal in order\<close>

definition jinv :: "FileStore \<Rightarrow> bool" where
  "jinv s \<longleftrightarrow> (\<exists>j. openJournal s = Inr j \<and> jok (journal_data j) \<and> honest (readState s) (journal_data j))"

definition file_journal :: "FileStore \<Rightarrow> Change list" where
  "file_journal s = records_of (FileReadJournal 0 s)"

lemma openJournal_set: "openJournal (setNode journalName (Regular data t) s) = Inr (Some data)"
  by (simp add: openJournal_def readRegular_def Lstat_setNode)

lemma appendChange_cases:
  assumes j: "openJournal s = Inr j" and t: "tracks st (journal_data j)" and ok: "jok (journal_data j)" and c: "text_change c"
    and rep: "cReplaced c = held (recs (journal_data j)) (ckey c)" and room: "length (recs (journal_data j)) + 1 < 2 ^ 64"
    and run: "appendChange st c s = (r, s')"
  obtains (failed) err where "r = Inl err" "s' = s"
    | (appended) c' st' data q where "c' = c\<lparr>cSeq := of_nat (Suc (length (recs (journal_data j))))\<rparr>" "r = Inr (c', st')"
        "s' = setNode journalName (Regular data (fsTime s)) s" "data = journal_data j @ q" "recs data = recs (journal_data j) @ [canon_change c']"
        "jok data" "tracks st' data" "jsRead st' = jsRead st" "data \<noteq> journal_data j" "clean_journal (journal_data j) \<longrightarrow> clean_journal data"
proof -
  let ?d = "journal_data j" and ?rs = "recs (journal_data j)"
  define N :: uint64 where "N = of_nat (Suc (length ?rs))"
  define c' where "c' = c\<lparr>cSeq := N\<rparr>"
  have c': "c' = c\<lparr>cSeq := of_nat (Suc (length ?rs))\<rparr>" by (simp only: c'_def N_def)
  have seq: "jsSeq st = of_nat (length ?rs)" "lastSeq j = jsSeq st"
    using t ok numbered_last_seq [of ?rs] by (simp_all add: tracks_def jok_def lastSeq_last)
  have n: "nextSeq st s = Inr (N, st)"
    using seq by (simp add: nextSeq_def j Let_def N_def)
  have step: "appendChange st c s = (case storeAppend c' s of (Inl err, s1) \<Rightarrow> (Inl err, s1)
    | (Inr off, s1) \<Rightarrow> (let st1 = note_entry (cEntry c') (st\<lparr>jsSeq := cSeq c', jsOff := off\<rparr>) in
        if jsOff st = 0 then (case openJournal s1 of Inl err \<Rightarrow> (Inl err, s1) | Inr j1 \<Rightarrow> (Inr (c', st1\<lparr>jsHead := Hash (headLine j1)\<rparr>), s1))
        else (Inr (c', st1), s1)))"
    by (simp add: appendChange_def fs_bind_def fs_read_def fs_return_def n c'_def [symmetric] Let_def split: prod.splits sum.splits)
  have "cSeq c' \<noteq> 0"
  proof -
    have "unat (of_nat (Suc (length ?rs)) :: uint64) = Suc (length ?rs)" using room by (simp only: unat_of_nat) simp
    then have "(of_nat (Suc (length ?rs)) :: uint64) \<noteq> 0" by (metis nat.distinct(1) unat_0)
    then show ?thesis by (simp add: c'_def N_def del: of_nat_Suc)
  qed
  show thesis
  proof (cases "storeAppend c' s")
    case (Pair ra sa)
    show thesis
    proof (cases ra)
      case (Inl err)
      then have "sa = s" using Pair by (auto simp: storeAppend_def split: sum.splits if_splits prod.splits)
      then show thesis using failed [of err] run Inl Pair by (simp add: step)
    next
      case (Inr off)
      obtain data where a: "appendJournal c' j = Inr (data, off)" "sa = setNode journalName (Regular data (fsTime s)) s"
        using Pair Inr by (auto simp: storeAppend_def j split: sum.splits if_splits prod.splits)
      have y: "year_fits (eUpdated (cEntry c'))" "year_fits (cAt c')" using append_Inr_years [OF a(1)] by simp_all
      have "text_change c'" using c by (simp add: c'_def text_change_def)
      from text_record [OF this \<open>cSeq c' \<noteq> 0\<close> y] have rok: "record_ok (canon_change c')" .
      note app = append_recs [OF rok a(1) [folded canon_append [of c']]]
      have cut: "records_of (line_yield (0, cut_off ?d)) = []" using ok by (simp add: jok_def)
      note app = app [OF cut]
      define fresh where "fresh = (jsOff st = 0)"
      define st' where "st' = (let st1 = note_entry (cEntry c') (st\<lparr>jsSeq := cSeq c', jsOff := off\<rparr>) in
        if fresh then st1\<lparr>jsHead := Hash (headLine (Some data))\<rparr> else st1)"
      have r: "r = Inr (c', st')" "s' = sa"
        using run Pair Inr openJournal_set [of data "fsTime s" s] a(2)
        by (auto simp: step Let_def st'_def fresh_def split: if_splits)
      obtain q where q: "data = ?d @ q" using app(4) by blast
      have head: "jsHead st' = Hash (headLine (Some data))"
      proof (cases fresh)
        case False
        then have "length (cut_off ?d) < length ?d" using t by (simp add: tracks_def fresh_def)
        then show ?thesis using False t headLine_lines [of ?d q] by (simp add: st'_def Let_def tracks_def q)
      qed (simp add: st'_def Let_def)
      have "tracks st' data"
        using head t note_entry_entries(1) [of c' "st\<lparr>jsSeq := cSeq c', jsOff := off\<rparr>"]
          note_entry_entries(2) [of "st\<lparr>jsSeq := cSeq c', jsOff := off\<rparr>" "cEntry c'"]
        by (simp add: tracks_def app(1,2,3) last_states_snoc st'_def Let_def)
      moreover have "jok data"
        using ok rok rep by (auto simp: jok_def app(1,2) numbered_snoc chained_snoc c'_def N_def ckey_def records_of_line)
      moreover have "jsRead st' = jsRead st" by (simp add: st'_def Let_def)
      moreover have "data \<noteq> ?d" using app(1) by auto
      moreover have "clean_journal ?d \<longrightarrow> clean_journal data" using append_clean [OF rok a(1) [folded canon_append [of c']]] by blast
      ultimately show thesis using appended [OF c' r(1) _ q app(1)] r(2) a(2) by blast
    qed
  qed
qed


section \<open>Edits made outside the store\<close>

text \<open>An entry as a file holds it.\<close>

definition file_entry :: "scope \<Rightarrow> string \<Rightarrow> Entry \<Rightarrow> bool" where
  "file_entry sc n e \<longleftrightarrow> eScope e = sc \<and> eName e = n \<and> eHash e = Hash (eContent e) \<and> eMetaHash e = MetaHash (eMeta e) \<and> wf_gomap (eMeta e) \<and> \<not> eDeleted e"

lemma decode_line_wf: "wf_gomap (dcMeta d) \<Longrightarrow> wf_gomap (dcMeta (decode_line ln d))"
  by (auto simp: decode_line_def Let_def wf_gomap_items distinct_update split: option.splits)

lemma decode_entry_wf: "wf_gomap (dcMeta (decode_entry s))"
proof -
  have "wf_gomap (dcMeta d) \<Longrightarrow> wf_gomap (dcMeta (fold decode_line ls d))" for ls d
    by (induction ls arbitrary: d) (auto intro: decode_line_wf)
  moreover have "wf_gomap None" by (simp add: wf_gomap_def)
  ultimately show ?thesis unfolding decode_entry_def decode_block_def Let_def by (simp add: decode_line_wf split: option.split)
qed

lemma readEntry_file: "readEntry sc n s = Inr (Some e) \<Longrightarrow> file_entry sc n e"
  using decode_entry_wf by (auto simp: readEntry_def file_entry_def Let_def split: sum.splits option.splits bool.splits)

lemma held_valid:
  assumes "jok data"
  shows "ValidString (held (recs data) k)"
proof (cases "replay (recs data) k")
  case (Some e)
  then obtain c where "c \<in> set (recs data)" "cEntry c = e" using replay_in by blast
  then show ?thesis using assms Some by (auto simp: held_replay hash_of_def jok_def record_ok_def)
qed (simp add: held_replay hash_of_def ValidString_def)

lemma tracks_held:
  assumes "tracks st data" "jok data" "ValidName sc"
  shows "map_of (jsEntries st) (key sc n) = map_option state_of (replay (recs data) (sc, n))"
    "hashOf (heldEntry st sc n) = held (recs data) (sc, n)"
    "(case map_of (jsEntries st) (key sc n) of None \<Rightarrow> [] | Some se \<Rightarrow> seHash se) = held (recs data) (sc, n)"
proof -
  show m: "map_of (jsEntries st) (key sc n) = map_option state_of (replay (recs data) (sc, n))"
    using last_states_replay [OF jok_named [OF assms(2)] assms(3)] assms(1) by (simp add: tracks_def)
  show "hashOf (heldEntry st sc n) = held (recs data) (sc, n)"
    "(case map_of (jsEntries st) (key sc n) of None \<Rightarrow> [] | Some se \<Rightarrow> seHash se) = held (recs data) (sc, n)"
    by (cases "replay (recs data) (sc, n)"; simp add: heldEntry_def m hashOf_def held_replay hash_of_def state_of_def)+
qed

lemma lastRecordFor_in:
  assumes "openJournal s = Inr j" "lastRecordFor sc n s = Inr (Some c)"
  shows "c \<in> set (recs (journal_data j))" "ckey c = (sc, n)"
proof -
  let ?cs = "filter (\<lambda>c. eScope (cEntry c) = sc \<and> eName (cEntry c) = n) (recs (journal_data j))"
  have "c \<in> set (rev ?cs)"
    using assms scan_some(1) [of j] by (cases "rev ?cs") (auto simp: lastRecordFor_def)
  then show "c \<in> set (recs (journal_data j))" "ckey c = (sc, n)" by (auto simp: ckey_def)
qed

lemma valid_reconciled: "ValidString SourceReconciled" "ValidString []"
  by code_simp+

lemma canonical_wf: "canonical m \<Longrightarrow> wf_gomap m"
  by (simp add: canonical_def wf_gomap_items)

lemma outside_text:
  assumes j: "openJournal s = Inr j" and t: "tracks st (journal_data j)" and ok: "jok (journal_data j)" and v: "ValidName sc" "ValidName n"
    and f: "\<And>e. cur = Some e \<Longrightarrow> file_entry sc n e" and out: "outside st sc n cur now s = Inr (Some c)"
  shows "text_change c" "ckey c = (sc, n)" "cReplaced c = held (recs (journal_data j)) (sc, n)" "cPrev c = cReplaced c"
    "cSource c = SourceReconciled" "eDeleted (cEntry c) \<longleftrightarrow> cur = None"
proof -
  note h = tracks_held [OF t ok v(1), of n]
  obtain e where c: "c = outsideChange e (held (recs (journal_data j)) (sc, n)) now"
    and e: "ckey c = (sc, n)" "eHash e \<noteq> []" "ValidString (eHash e)" "ValidString (eMetaHash e)" "ValidString (eContent e)"
      "list_all (\<lambda>(k, v). ValidString k \<and> ValidString v) (mitems (eMeta e))" "wf_gomap (eMeta e)" "eDeleted e \<longleftrightarrow> cur = None"
  proof (cases cur)
    case None
    then obtain l se where l: "lastRecordFor sc n s = Inr (Some l)" "map_of (jsEntries st) (key sc n) = Some se"
        "c = outsideChange ((cEntry l)\<lparr>eDeleted := True, eUpdated := now, eMetaHash := MetaHash (eMeta (cEntry l))\<rparr>) (seHash se) now"
      using out by (auto simp: outside_def Let_def split: option.splits sum.splits)
    have "record_ok l" using lastRecordFor_in(1) [OF j l(1)] ok by (simp add: jok_def)
    moreover have "seHash se = held (recs (journal_data j)) (sc, n)" using h(3) l(2) by simp
    ultimately show thesis using that [OF l(3) [unfolded \<open>seHash se = _\<close>]] l(3) lastRecordFor_in(2) [OF j l(1)] None
      by (simp add: record_ok_def ckey_def outsideChange_def valid_MetaHash canonical_wf)
  next
    case (Some x)
    note x = f [OF Some]
    obtain u where u: "CheckEntry x (fsMax s) None = None"
        "c = outsideChange (x\<lparr>eUpdated := u\<rparr>) (case map_of (jsEntries st) (key sc n) of None \<Rightarrow> [] | Some se \<Rightarrow> seHash se) now"
    proof -
      have "c = outsideChange (case modTime (entryName sc n) s of Some t \<Rightarrow> x\<lparr>eUpdated := t\<rparr> | None \<Rightarrow> x)
          (case map_of (jsEntries st) (key sc n) of None \<Rightarrow> [] | Some se \<Rightarrow> seHash se) now" "CheckEntry x (fsMax s) None = None"
        using out Some by (auto simp: outside_def Let_def split: if_splits)
      then show thesis using that [of "case modTime (entryName sc n) s of Some t \<Rightarrow> t | None \<Rightarrow> eUpdated x"] by (simp split: option.splits)
    qed
    have "entry_ok x (fsMax s)" using u(1) by (simp add: CheckEntry_None)
    from entry_ok_text [OF this] show thesis
      using that [of "x\<lparr>eUpdated := u\<rparr>"] u(2) h(3) x Some by (simp add: file_entry_def ckey_def outsideChange_def valid_Hash valid_MetaHash Hash_not_Nil)
  qed
  show "text_change c" using e v held_valid [OF ok] valid_reconciled by (simp add: c text_change_def outsideChange_def ckey_def)
  show "ckey c = (sc, n)" by (fact e(1))
  show "cReplaced c = held (recs (journal_data j)) (sc, n)" "cPrev c = cReplaced c" "cSource c = SourceReconciled" "eDeleted (cEntry c) \<longleftrightarrow> cur = None"
    using e(8) by (simp_all add: c outsideChange_def)
qed

section \<open>Composing the steps of an operation\<close>

lemma fs_bind_cases:
  assumes "fs_bind m k s = (r, s')"
  obtains (err) err where "m s = (Inl err, s')" "r = Inl err" | (ok) x s1 where "m s = (Inr x, s1)" "k x s1 = (r, s')"
  using assms by (cases "m s"; cases "fst (m s)") (auto simp: fs_bind_def)

lemma fs_read_cases:
  assumes "fs_bind (fs_read f) k s = (r, s')"
  obtains (err) err where "f s = Inl err" "r = Inl err" "s' = s" | (ok) x where "f s = Inr x" "k x s = (r, s')"
  using assms by (cases "f s") (auto simp: fs_bind_def fs_read_def)

text \<open>What the journal holds in the course of an operation that began with \<open>data\<close>: the records \<open>rs\<close> added, in order, with a cursor that tracks them.\<close>

definition logged :: "string \<Rightarrow> Change list \<Rightarrow> journalState \<Rightarrow> FileStore \<Rightarrow> bool" where
  "logged data rs st s \<longleftrightarrow> (\<exists>j q. openJournal s = Inr j \<and> journal_data j = data @ q \<and> recs (journal_data j) = recs data @ rs \<and>
     jok (journal_data j) \<and> tracks st (journal_data j) \<and> (clean_journal data \<longrightarrow> clean_journal (journal_data j)))"

lemma logged_start: "openJournal s = Inr j \<Longrightarrow> jok (journal_data j) \<Longrightarrow> tracks st (journal_data j) \<Longrightarrow> logged (journal_data j) [] st s"
  by (auto simp: logged_def)

lemma logged_frame: "logged data rs st s \<Longrightarrow> changed_only P s s' \<Longrightarrow> journalName \<notin> P \<Longrightarrow> logged data rs st s'"
  by (simp add: logged_def changed_openJournal)

lemma logged_journal: "logged data rs st s \<Longrightarrow> file_journal s = recs data @ rs"
proof -
  assume "logged data rs st s"
  then obtain j where j: "openJournal s = Inr j" "recs (journal_data j) = recs data @ rs" "\<forall>c \<in> set (recs (journal_data j)). record_ok c"
    by (auto simp: logged_def jok_def)
  have z: "\<not> 0 < w \<longleftrightarrow> w = 0" for w :: uint64 by (simp add: word_gt_0)
  have "records_of (filter (\<lambda>y. case y of Inl err \<Rightarrow> True | Inr c \<Rightarrow> cSeq c > 0) ys) = records_of ys" if "\<forall>c \<in> set (records_of ys). cSeq c \<noteq> 0" for ys
    using that z by (induction ys) (auto simp: records_of_def split: sum.splits)
  then have "records_of (filter (\<lambda>y. case y of Inl err \<Rightarrow> True | Inr c \<Rightarrow> cSeq c > 0) (fst (scanJournal 0 j))) = recs (journal_data j)"
    using j(3) scan_some(1) [of j] by (simp add: record_ok_def)
  then show ?thesis using j by (simp add: file_journal_def FileReadJournal_def readJournal_def)
qed

lemma appendChange_logged:
  assumes "logged data rs st s" "text_change c" "cReplaced c = held (recs data @ rs) (ckey c)" "length (recs data @ rs) + 1 < 2 ^ 64"
    "appendChange st c s = (r, s')"
  shows "changed_only {journalName} s s'" "r = Inl err \<Longrightarrow> s' = s"
    "r = Inr (c', st') \<Longrightarrow> c' = c\<lparr>cSeq := of_nat (Suc (length (recs data @ rs)))\<rparr> \<and> logged data (rs @ [canon_change c']) st' s' \<and> jsRead st' = jsRead st"
proof -
  obtain j q where j: "openJournal s = Inr j" "journal_data j = data @ q" "recs (journal_data j) = recs data @ rs" "jok (journal_data j)"
    "tracks st (journal_data j)" "clean_journal data \<longrightarrow> clean_journal (journal_data j)" using assms(1) by (auto simp: logged_def)
  have h: "cReplaced c = held (recs (journal_data j)) (ckey c)" "length (recs (journal_data j)) + 1 < 2 ^ 64" using assms(3,4) j(3) by simp_all
  have "changed_only {journalName} s s' \<and> (\<forall>err. r = Inl err \<longrightarrow> s' = s) \<and> (\<forall>c' st'. r = Inr (c', st') \<longrightarrow>
      c' = c\<lparr>cSeq := of_nat (Suc (length (recs data @ rs)))\<rparr> \<and> logged data (rs @ [canon_change c']) st' s' \<and> jsRead st' = jsRead st)"
  proof (cases rule: appendChange_cases [OF j(1,5,4) assms(2) h assms(5)])
    case (2 c1 st1 data1 q1)
    have "logged data (rs @ [canon_change c1]) st1 s'"
      unfolding logged_def using 2(5-7,10) j(2,3,6)
      by (intro exI [of _ "Some data1"] exI [of _ "q @ q1"]) (simp add: 2(3,4) openJournal_set)
    then show ?thesis using 2 j(3) by (auto simp: setNode_changes own_names)
  qed auto
  then show "changed_only {journalName} s s'" "r = Inl err \<Longrightarrow> s' = s"
    "r = Inr (c', st') \<Longrightarrow> c' = c\<lparr>cSeq := of_nat (Suc (length (recs data @ rs)))\<rparr> \<and> logged data (rs @ [canon_change c']) st' s' \<and> jsRead st' = jsRead st"
    by blast+
qed

text \<open>The records a write adds for an edit made outside the store: none or one.\<close>

definition outside_records :: "journalState \<Rightarrow> scope \<Rightarrow> string \<Rightarrow> Entry option \<Rightarrow> time \<Rightarrow> nat \<Rightarrow> FileStore \<Rightarrow> Change list" where
  "outside_records st sc n cur now k s = (case outside st sc n cur now s of
     Inr (Some c) \<Rightarrow> [canon_change (c\<lparr>cSeq := of_nat (Suc k)\<rparr>)] | _ \<Rightarrow> [])"

lemma length_outside_records: "length (outside_records st sc n cur now k s) \<le> 1"
  by (simp add: outside_records_def split: sum.split option.split)

lemma noteOutside_logged:
  assumes "logged data rs st s" "ValidName sc" "ValidName n" "\<And>e. cur = Some e \<Longrightarrow> file_entry sc n e"
    "length (recs data @ rs) + 1 < 2 ^ 64" "noteOutside st sc n cur now s = (r, s')"
  shows "changed_only {journalName} s s'" "r = Inl err \<Longrightarrow> s' = s"
    "r = Inr st' \<Longrightarrow> logged data (rs @ outside_records st sc n cur now (length (recs data @ rs)) s) st' s'"
proof -
  obtain j q where j: "openJournal s = Inr j" "recs (journal_data j) = recs data @ rs" "jok (journal_data j)" "tracks st (journal_data j)"
    using assms(1) by (auto simp: logged_def)
  have "changed_only {journalName} s s' \<and> (\<forall>err. r = Inl err \<longrightarrow> s' = s) \<and>
      (\<forall>st'. r = Inr st' \<longrightarrow> logged data (rs @ outside_records st sc n cur now (length (recs data @ rs)) s) st' s')"
    using assms(6) unfolding noteOutside_def
  proof (cases rule: fs_read_cases)
    case err
    then show ?thesis by simp
  next
    case (ok x)
    show ?thesis
    proof (cases x)
      case None
      then show ?thesis using ok assms(1) by (auto simp: fs_return_def outside_records_def)
    next
      case (Some c)
      note o = outside_text [OF j(1,4,3) assms(2-4) ok(1) [unfolded Some]]
      have rep: "cReplaced c = held (recs data @ rs) (ckey c)" using o(2,3) j(2) by simp
      from ok(2) Some have "fs_bind (appendChange st c) (\<lambda>(c, st). fs_return st) s = (r, s')" by simp
      then show ?thesis
      proof (cases rule: fs_bind_cases)
        case (err e)
        then show ?thesis using appendChange_logged(1,2) [OF assms(1) o(1) rep assms(5) err(1)] by simp
      next
        case (ok y s1)
        obtain c' st1 where y: "y = (c', st1)" by (cases y)
        note a = appendChange_logged(1) [OF assms(1) o(1) rep assms(5) ok(1)] appendChange_logged(3) [OF assms(1) o(1) rep assms(5) ok(1) [unfolded y] refl]
        then show ?thesis using ok(2) y \<open>outside st sc n cur now s = Inr x\<close> Some by (auto simp: fs_return_def outside_records_def)
      qed
    qed
  qed
  then show "changed_only {journalName} s s'" "r = Inl err \<Longrightarrow> s' = s"
    "r = Inr st' \<Longrightarrow> logged data (rs @ outside_records st sc n cur now (length (recs data @ rs)) s) st' s'" by blast+
qed

lemma stateName_dir: "dirOf stateName = ''.''" "stateName \<noteq> journalName"
  by code_simp+

lemma saveState_changes:
  assumes "saveState st s = (r, s')"
  shows "changed_only {stateName} s s'"
  using writeAtomic_changes(1) [OF assms [unfolded saveState_def] own_names(4)] by (simp add: stateName_dir)

lemma saved_readState:
  assumes "text_state st" "saveState st s = (Inr x, s')"
  shows "readState s' = (if int64 (jsOff st) then st\<lparr>jsEntries := sorted_states (jsEntries st), jsRead := True\<rparr> else zeroState)"
proof -
  have "Lstat s' stateName = Some (Regular (enc_json (state_json st) @ [LF]) (fsTime s))"
    using writeAtomic_changes(2) [OF assms(2) [unfolded saveState_def] own_names(4)] by simp
  then show ?thesis by (simp add: readState_def readRegular_def saved_state [OF assms(1)])
qed

lemma logged_jinv: "logged data rs st s \<Longrightarrow> honest (readState s) data \<Longrightarrow> jinv s"
  unfolding logged_def jinv_def by (metis honest_append)

lemma saveState_logged:
  assumes "logged data rs st s" "honest (readState s) data" "saveState st s = (r, s')"
  shows "logged data rs st s'" "jinv s'"
proof -
  note f = saveState_changes [OF assms(3)]
  show l: "logged data rs st s'" using logged_frame [OF assms(1) f] stateName_dir(2) by simp
  obtain j q where j: "openJournal s' = Inr j" "journal_data j = data @ q" "jok (journal_data j)" "tracks st (journal_data j)"
    using l by (auto simp: logged_def)
  show "jinv s'"
  proof (cases r)
    case (Inl err)
    then have "s' = s" using writeAtomic_changes(2) [OF assms(3) [unfolded saveState_def] own_names(4)] stateName_dir(1) by auto
    then show ?thesis using logged_jinv [OF assms(1,2)] by simp
  next
    case (Inr x)
    have "honest (readState s') (journal_data j)"
      using saved_readState [OF tracks_text [OF j(4,3)] assms(3) [unfolded Inr]] tracks_honest [OF j(4)] honest_zero by simp
    then show ?thesis using j by (auto simp: jinv_def)
  qed
qed

lemma append_save:
  assumes "logged data rs st s" "honest (readState s) data" "text_change c" "cReplaced c = held (recs data @ rs) (ckey c)"
    "length (recs data @ rs) + 1 < 2 ^ 64"
    and run: "fs_bind (appendChange st c) (\<lambda>(c, st). fs_bind (saveState st) (\<lambda>_. fs_return c)) s = (r, s')"
  shows "changed_only {journalName, stateName} s s' \<and> jinv s' \<and> (\<exists>rs' st'. logged data (rs @ rs') st' s' \<and>
    (\<forall>c'. r = Inr c' \<longrightarrow> rs' = [canon_change c'] \<and> c' = c\<lparr>cSeq := of_nat (Suc (length (recs data @ rs)))\<rparr> \<and>
       readState s' = (if int64 (jsOff st') then st'\<lparr>jsEntries := sorted_states (jsEntries st'), jsRead := True\<rparr> else zeroState)))"
  using run
proof (cases rule: fs_bind_cases)
  case (err e)
  then have "s' = s" using appendChange_logged(2) [OF assms(1,3-5) err(1) refl] by simp
  then show ?thesis using assms(1) logged_jinv [OF assms(1,2)] err(2) by (auto intro!: exI [of _ "[]"])
next
  case (ok y s1)
  obtain c' st1 where y: "y = (c', st1)" by (cases y)
  note a = appendChange_logged(1) [OF assms(1,3-5) ok(1)] appendChange_logged(3) [OF assms(1,3-5) ok(1) [unfolded y] refl]
  have h: "honest (readState s1) data" using changed_readState [OF a(1)] assms(2) stateName_dir(2) by simp
  obtain rv where sv: "saveState st1 s1 = (rv, s')" "r = (case rv of Inl err \<Rightarrow> Inl err | Inr _ \<Rightarrow> Inr c')"
    using ok(2) y by (auto simp: fs_bind_def fs_return_def split: prod.splits sum.splits)
  have l: "logged data (rs @ [canon_change c']) st1 s1" using a(2) by blast
  note s = saveState_logged [OF l h sv(1)]
  have "changed_only {journalName, stateName} s s'"
    using changed_only_trans [OF a(1) saveState_changes [OF sv(1)]] by (rule changed_only_mono) simp
  moreover have "readState s' = (if int64 (jsOff st1) then st1\<lparr>jsEntries := sorted_states (jsEntries st1), jsRead := True\<rparr> else zeroState)"
    if "rv = Inr x" for x using saved_readState [of st1 s1 x s'] tracks_text l sv(1) that by (auto simp: logged_def)
  ultimately show ?thesis using s a(2) sv(2) by (intro conjI exI [of _ "[canon_change c']"] exI [of _ st1]) (auto split: sum.splits)
qed

section \<open>Put\<close>

definition text_entry :: "Entry \<Rightarrow> bool" where
  "text_entry e \<longleftrightarrow> ValidString (eContent e) \<and> list_all (\<lambda>(k, v). ValidString k \<and> ValidString v) (mitems (eMeta e)) \<and> wf_gomap (eMeta e)"

definition text_opts :: "PutOption list \<Rightarrow> bool" where
  "text_opts opts \<longleftrightarrow> ValidString (pIfHash (ResolvePutOptions opts)) \<and> ValidString (pBase (ResolvePutOptions opts))"

lemma writeAtomic_dir:
  assumes "writeAtomic name data s = (Inr x, s')" "dirOf name \<noteq> ''.''" "dirOf name \<noteq> name"
  shows "Lstat s' (dirOf name) = Some Directory"
  using assms by (auto simp: writeAtomic_def Let_def Lstat_setNode isDir_def split: if_splits)

lemma writeAtomic_dir_before:
  assumes "writeAtomic name data s = (Inr x, s')" "dirOf name \<noteq> ''.''"
  shows "Lstat s (dirOf name) \<in> {None, Some Directory}"
  using assms by (auto simp: writeAtomic_def Let_def Lstat_setNode isDir_def split: if_splits)

lemma reindex_writes:
  assumes "reindex sc s = (r, s')" "ValidName sc"
  shows "changed_only {sc @ ''/'' @ indexName, sc} s s'" "r = Inr x \<Longrightarrow> Lstat s' sc = Some Directory"
proof -
  have d: "dirOf (sc @ ''/'' @ indexName) = sc" "sc \<noteq> ''.''" "sc \<noteq> sc @ ''/'' @ indexName"
    using dirOf_scope [OF assms(2)] dot_not_name [of sc] assms(2) by auto
  obtain data where w: "s' = s \<and> isl r \<or> writeAtomic (sc @ ''/'' @ indexName) data s = (r, s')"
    using assms(1) by (auto simp: reindex_def fs_bind_def fs_read_def split: sum.splits)
  then show "changed_only {sc @ ''/'' @ indexName, sc} s s'"
    using writeAtomic_changes(1) [OF _ own_names(1), of sc indexName data s r s'] unfolding d by (auto elim: changed_only_mono)
  show "Lstat s' sc = Some Directory" if "r = Inr x"
    using w that writeAtomic_dir [of "sc @ ''/'' @ indexName" data s x s'] unfolding d(1) using d(2,3) by auto
qed

lemma entry_not_index:
  assumes "ValidName n"
  shows "entryName sc n \<noteq> sc @ ''/'' @ indexName" "entryName sc n \<noteq> sc"
proof -
  have "\<not> name_char (CHR ''I'')" by code_simp
  then have i: "CHR ''I'' \<notin> set n" using ValidName_chars [OF assms] by blast
  show "entryName sc n \<noteq> sc @ ''/'' @ indexName"
  proof
    assume "entryName sc n = sc @ ''/'' @ indexName"
    then have "n @ ''.md'' = ''INDEX'' @ ''.md''" by (simp add: entryName_def indexName_def)
    then have "n = ''INDEX''" by (simp only: append_same_eq)
    with i show False by simp
  qed
qed (simp add: entryName_def)

text \<open>The file writes of a put.\<close>

definition put_paths :: "scope \<Rightarrow> string \<Rightarrow> string set" where
  "put_paths sc n = {entryName sc n, sc @ ''/'' @ indexName, sc}"

lemma put_paths_scope: "put_paths sc n \<subseteq> scope_paths sc"
  by (auto simp: put_paths_def scope_paths_def entryName_def gostr)

lemma put_files:
  assumes "ValidName sc" "ValidName n" "writeAtomic (entryName sc n) data s = (Inr x, s1)" "reindex sc s1 = (Inr y, s2)"
  shows "changed_only (put_paths sc n) s s2" "Lstat s2 sc = Some Directory" "Lstat s2 (entryName sc n) = Some (Regular data (fsTime s))"
    "Lstat s sc \<in> {None, Some Directory}"
proof -
  have d: "dirOf (entryName sc n) = sc" using dirOf_scope [OF assms(1), of "n @ ''.md''"] by (simp add: entryName_def)
  have "sc \<noteq> ''.''" using dot_not_name [of sc] assms(1) by auto
  then show "Lstat s sc \<in> {None, Some Directory}" using writeAtomic_dir_before [OF assms(3)] d by simp
  have a: "changed_only (put_paths sc n) s s1" using writeAtomic_changes(1) [OF assms(3) own_names(2), unfolded d] by (rule changed_only_mono) (auto simp: put_paths_def)
  have b: "changed_only (put_paths sc n) s1 s2" using reindex_writes(1) [OF assms(4,1)] by (rule changed_only_mono) (auto simp: put_paths_def)
  show "changed_only (put_paths sc n) s s2" using changed_only_trans [OF a b] by simp
  show "Lstat s2 sc = Some Directory" using reindex_writes(2) [OF assms(4,1) refl] .
  have "Lstat s1 (entryName sc n) = Some (Regular data (fsTime s))" using writeAtomic_changes(2) [OF assms(3) own_names(2)] by simp
  then show "Lstat s2 (entryName sc n) = Some (Regular data (fsTime s))"
    using reindex_writes(1) [OF assms(4,1)] entry_not_index [OF assms(2), of sc] by (simp add: changed_only_def)
qed

text \<open>What an operation has done so far: it touched only \<open>P\<close>, and the journal it found as \<open>data\<close> holds the records \<open>rs\<close> more.\<close>

definition progress :: "string \<Rightarrow> string set \<Rightarrow> Change list \<Rightarrow> FileStore \<Rightarrow> FileStore \<Rightarrow> bool" where
  "progress data P rs s s' \<longleftrightarrow> changed_only P s s' \<and> jinv s' \<and> (\<exists>st. logged data rs st s')"

lemma frame_progress:
  assumes "logged data rs st s" "honest (readState s) data" "changed_only P s s'" "journalName \<notin> P" "stateName \<notin> P"
  shows "logged data rs st s'" "honest (readState s') data" "progress data P rs s s'"
proof -
  show l: "logged data rs st s'" using logged_frame [OF assms(1,3,4)] .
  show h: "honest (readState s') data" using changed_readState [OF assms(3,5)] assms(2) by simp
  show "progress data P rs s s'" using l assms(3) logged_jinv [OF l h] by (auto simp: progress_def)
qed

lemma progress_trans: "changed_only P s s1 \<Longrightarrow> progress data Q rs s1 s' \<Longrightarrow> P \<union> Q \<subseteq> R \<Longrightarrow> progress data R rs s s'"
  unfolding progress_def by (blast intro: changed_only_mono changed_only_trans)

text \<open>The part of a write after its files: the record of an outside edit, the record of the write, which \<open>mk\<close> builds, and the cursor.\<close>

definition log_rest :: "(journalState \<Rightarrow> FileStore \<Rightarrow> error + Change) \<Rightarrow> scope \<Rightarrow> string \<Rightarrow> Entry option \<Rightarrow> time \<Rightarrow> journalState \<Rightarrow> Change fs_op" where
  "log_rest mk sc n stored now st = fs_bind (noteOutside st sc n stored now) (\<lambda>st. fs_bind (fs_read (mk st)) (\<lambda>c.
     fs_bind (appendChange st c) (\<lambda>(c, st). fs_bind (saveState st) (\<lambda>_. fs_return c))))"

definition builds :: "string \<Rightarrow> scope \<Rightarrow> string \<Rightarrow> (journalState \<Rightarrow> FileStore \<Rightarrow> error + Change) \<Rightarrow> bool" where
  "builds data sc n mk \<longleftrightarrow> (\<forall>st s outs c. logged data outs st s \<longrightarrow> mk st s = Inr c \<longrightarrow>
     text_change c \<and> ckey c = (sc, n) \<and> cReplaced c = held (recs data @ outs) (sc, n))"

text \<open>The records \<open>rs\<close> a successful write has added, the last of them its own, \<open>c\<close>.\<close>

definition write_log :: "string \<Rightarrow> (journalState \<Rightarrow> FileStore \<Rightarrow> error + Change) \<Rightarrow> scope \<Rightarrow> string \<Rightarrow> Entry option \<Rightarrow> time \<Rightarrow> journalState \<Rightarrow>
    FileStore \<Rightarrow> Change list \<Rightarrow> Change \<Rightarrow> bool" where
  "write_log data mk sc n stored now st s rs c \<longleftrightarrow> (\<exists>outs st1 s1 c1. outs = outside_records st sc n stored now (length (recs data)) s \<and>
     rs = outs @ [canon_change c] \<and> changed_only {journalName} s s1 \<and> logged data outs st1 s1 \<and> mk st1 s1 = Inr c1 \<and>
     c = c1\<lparr>cSeq := of_nat (Suc (length (recs data @ outs)))\<rparr>)"

lemma log_write:
  assumes l: "logged data [] st s" and h: "honest (readState s) data" and v: "ValidName sc" "ValidName n"
    and f: "pred_option (file_entry sc n) stored" and room: "length (recs data) + 2 < 2 ^ 64" and mk: "builds data sc n mk"
    and run: "log_rest mk sc n stored now st s = (r, s')"
  shows "\<exists>rs. progress data {journalName, stateName} rs s s' \<and> (\<forall>c. r = Inr c \<longrightarrow> write_log data mk sc n stored now st s rs c)"
  using run unfolding log_rest_def
proof (cases rule: fs_bind_cases)
  case (err e)
  have f': "\<And>e. stored = Some e \<Longrightarrow> file_entry sc n e" using f by simp
  have "length (recs data @ []) + 1 < 2 ^ 64" using room by simp
  then have "s' = s" using noteOutside_logged(2) [OF l v f' _ err(1)] by simp
  then show ?thesis using frame_progress(3) [OF l h changed_only_refl [of "{}"]] err(2)
    by (intro exI [of _ "[]"]) (auto simp: progress_def intro: changed_only_mono)
next
  case (ok st1 s1)
  let ?outs = "outside_records st sc n stored now (length (recs data)) s"
  have f': "\<And>e. stored = Some e \<Longrightarrow> file_entry sc n e" using f by simp
  have room1: "length (recs data @ []) + 1 < 2 ^ 64" using room by simp
  have c1: "changed_only {journalName} s s1" using noteOutside_logged(1) [OF l v f' room1 ok(1)] by blast
  have l1: "logged data ?outs st1 s1" using noteOutside_logged(3) [OF l v f' room1 ok(1) refl] by simp
  have h1: "honest (readState s1) data" using changed_readState [OF c1] h stateName_dir(2) by simp
  from ok(2) show ?thesis
  proof (cases rule: fs_read_cases)
    case (err e)
    then show ?thesis using c1 l1 logged_jinv [OF l1 h1]
      by (intro exI [of _ ?outs]) (auto simp: progress_def intro: changed_only_mono)
  next
    case (ok c)
    have m: "text_change c \<and> ckey c = (sc, n) \<and> cReplaced c = held (recs data @ ?outs) (sc, n)" using mk l1 ok(1) unfolding builds_def by blast
    have "length (recs data @ ?outs) + 1 < 2 ^ 64" using room length_outside_records [of st sc n stored now "length (recs data)" s] by simp
    from append_save [OF l1 h1 _ _ this ok(2)] m obtain rs' where a: "changed_only {journalName, stateName} s1 s'" "jinv s'"
      "\<exists>st'. logged data (?outs @ rs') st' s'" "\<forall>c'. r = Inr c' \<longrightarrow> rs' = [canon_change c'] \<and> c' = c\<lparr>cSeq := of_nat (Suc (length (recs data @ ?outs)))\<rparr>"
      by auto
    have "progress data {journalName, stateName} (?outs @ rs') s s'"
      using progress_trans [OF c1, of data "{journalName, stateName}" "?outs @ rs'" s'] a(1-3) by (auto simp: progress_def)
    then show ?thesis using a(4) c1 l1 ok(1) unfolding write_log_def by (intro exI [of _ "?outs @ rs'"]) auto
  qed
qed

text \<open>A whole write: its file operation \<open>m\<close>, the index, and the records.\<close>

definition write_op :: "unit fs_op \<Rightarrow> (journalState \<Rightarrow> FileStore \<Rightarrow> error + Change) \<Rightarrow> scope \<Rightarrow> string \<Rightarrow> Entry option \<Rightarrow> time \<Rightarrow> Change fs_op" where
  "write_op m mk sc n stored now =
     fs_bind (fs_read loadState) (\<lambda>st. fs_bind m (\<lambda>_. fs_bind (reindex sc) (\<lambda>_. log_rest mk sc n stored now st)))"

lemma write_run:
  assumes j: "openJournal s = Inr j" "jok (journal_data j)" "honest (readState s) (journal_data j)" and v: "ValidName sc" "ValidName n"
    and f: "pred_option (file_entry sc n) stored" and room: "length (recs (journal_data j)) + 2 < 2 ^ 64" and mk: "builds (journal_data j) sc n mk"
    and m: "changed_only (scope_paths sc) s (snd (m s))" and run: "write_op m mk sc n stored now s = (r, s')"
  shows "\<exists>rs. progress (journal_data j) (scope_paths sc \<union> {journalName, stateName}) rs s s' \<and> (\<forall>c. r = Inr c \<longrightarrow>
    (\<exists>st s1 s2. loadState s = Inr st \<and> m s = (Inr (), s1) \<and> reindex sc s1 = (Inr (), s2) \<and> changed_only {journalName, stateName} s2 s' \<and>
       write_log (journal_data j) mk sc n stored now st s2 rs c))"
proof -
  let ?d = "journal_data j" and ?P = "scope_paths sc" and ?Q = "{journalName, stateName}"
  obtain st where st: "loadState s = Inr st" "tracks st ?d" using load_tracks [OF j(1,3)] by blast
  have l: "logged ?d [] st s" using logged_start [OF j(1,2) st(2)] .
  note apart = scope_paths_apart [OF v(1)]
  have step: "\<exists>rs. progress ?d (?P \<union> ?Q) rs s s1" if "changed_only ?P s s1" for s1
    using progress_trans [OF changed_only_refl frame_progress(3) [OF l j(3) that apart], of "{}" "?P \<union> ?Q"] by auto
  from run st(1) have "fs_bind m (\<lambda>_. fs_bind (reindex sc) (\<lambda>_. log_rest mk sc n stored now st)) s = (r, s')"
    unfolding write_op_def by (elim fs_read_cases) simp_all
  then show ?thesis
  proof (cases rule: fs_bind_cases)
    case (err e)
    then show ?thesis using step [of s'] m by auto
  next
    case (ok x s1)
    then have f1: "changed_only ?P s s1" using m by simp
    from ok(2) show ?thesis
    proof (cases rule: fs_bind_cases)
      case (err e)
      then show ?thesis using step [OF changed_only_trans [OF f1 reindex_changes [OF v(1) err(1)], simplified]] by auto
    next
      case (ok y s2)
      have f2: "changed_only ?P s s2" using changed_only_trans [OF f1 reindex_changes [OF v(1) ok(1)]] by simp
      obtain rs where rs: "progress ?d ?Q rs s2 s'" "\<forall>c. r = Inr c \<longrightarrow> write_log ?d mk sc n stored now st s2 rs c"
        using log_write [OF frame_progress(1,2) [OF l j(3) f2 apart] v f room mk ok(2)] by blast
      have "progress ?d (?P \<union> ?Q) rs s s'" by (rule progress_trans [OF f2 rs(1)]) simp
      moreover have "changed_only ?Q s2 s'" using rs(1) by (simp add: progress_def)
      ultimately show ?thesis using rs(2) st(1) \<open>m s = (Inr x, s1)\<close> ok(1) by (intro exI [of _ rs]) auto
    qed
  qed
qed

lemma logged_held:
  assumes "logged data rs st s" "ValidName sc"
  shows "hashOf (heldEntry st sc n) = held (recs data @ rs) (sc, n)" "ValidString (held (recs data @ rs) (sc, n))"
    "map_of (jsEntries st) (key sc n) = map_option state_of (replay (recs data @ rs) (sc, n))"
proof -
  obtain j where j: "recs (journal_data j) = recs data @ rs" "jok (journal_data j)" "tracks st (journal_data j)"
    using assms(1) by (auto simp: logged_def)
  show "hashOf (heldEntry st sc n) = held (recs data @ rs) (sc, n)" "ValidString (held (recs data @ rs) (sc, n))"
    "map_of (jsEntries st) (key sc n) = map_option state_of (replay (recs data @ rs) (sc, n))"
    using tracks_held [OF j(3,2) assms(2), of n] held_valid [OF j(2), of "(sc, n)"] j(1) by simp_all
qed

definition put_prev :: "PutOptions \<Rightarrow> Entry option \<Rightarrow> string \<Rightarrow> string" where
  "put_prev po stored h =
     (let base = (if pConditional po then pIfHash po else if pHasBase po then pBase po else h)
      in if stored \<noteq> None \<and> base = hash_of stored \<and> h \<noteq> hash_of stored then h else base)"

definition put_change :: "string \<Rightarrow> time \<Rightarrow> PutOptions \<Rightarrow> Entry option \<Rightarrow> Entry \<Rightarrow> string \<Rightarrow> Change" where
  "put_change session now po stored e h =
     \<lparr>cSeq = 0, cEntry = e, cPrev = put_prev po stored h, cReplaced = h, cSession = session, cSource = [], cAt = now\<rparr>"

definition put_record :: "string \<Rightarrow> time \<Rightarrow> PutOptions \<Rightarrow> Entry option \<Rightarrow> Entry \<Rightarrow> journalState \<Rightarrow> FileStore \<Rightarrow> error + Change" where
  "put_record session now po stored e st s = Inr (put_change session now po stored e (hashOf (heldEntry st (eScope e) (eName e))))"

lemma commitPut_write:
  "commitPut session now po stored e =
     write_op (writeAtomic (entryName (eScope e) (eName e)) (encode_entry e)) (put_record session now po stored e) (eScope e) (eName e) stored now"
proof -
  have b: "(case stored of None \<Rightarrow> BaseFor po m | Some se \<Rightarrow> if BaseFor po m = eHash se \<and> hashOf m \<noteq> eHash se then hashOf m else BaseFor po m) =
      put_prev po stored (hashOf m)" for m
    by (cases stored; cases m) (auto simp: put_prev_def BaseFor_def hashOf_def hash_of_def Let_def)
  have r: "fs_bind (fs_read (put_record session now po stored e st)) k = k (put_change session now po stored e (hashOf (heldEntry st (eScope e) (eName e))))"
    for st and k :: "Change \<Rightarrow> Change fs_op" by (simp add: fun_eq_iff fs_bind_def fs_read_def put_record_def)
  show ?thesis unfolding commitPut_def write_op_def log_rest_def Let_def r put_change_def b ..
qed

lemma put_builds:
  assumes "ValidName (eScope e)" "ValidName (eName e)" "text_entry e" "eHash e = Hash (eContent e)" "eMetaHash e = MetaHash (eMeta e)"
    "ValidString session" "ValidString (pIfHash po)" "ValidString (pBase po)"
  shows "builds data (eScope e) (eName e) (put_record session now po stored e)"
  unfolding builds_def
proof (intro allI impI)
  fix st s outs c assume lg: "logged data outs st s" and c: "put_record session now po stored e st s = Inr c"
  note h = logged_held [OF lg assms(1), of "eName e"]
  from h(2) have "ValidString (put_prev po stored (held (recs data @ outs) (eScope e, eName e)))" using assms by (simp add: put_prev_def Let_def)
  then show "text_change c \<and> ckey c = (eScope e, eName e) \<and> cReplaced c = held (recs data @ outs) (eScope e, eName e)"
    using c assms valid_reconciled(2) h(2)
    by (auto simp: h(1) put_record_def put_change_def text_change_def text_entry_def ckey_def valid_Hash valid_MetaHash Hash_not_Nil)
qed

lemma commitPut_run:
  assumes "openJournal s = Inr j" "jok (journal_data j)" "honest (readState s) (journal_data j)" "length (recs (journal_data j)) + 2 < 2 ^ 64"
    and v: "ValidName (eScope e)" "ValidName (eName e)" and te: "text_entry e" "eHash e = Hash (eContent e)" "eMetaHash e = MetaHash (eMeta e)"
    and f: "pred_option (file_entry (eScope e) (eName e)) stored" and utf: "ValidString session" "ValidString (pIfHash po)" "ValidString (pBase po)"
    and run: "commitPut session now po stored e s = (r, s')"
  shows "\<exists>rs. progress (journal_data j) (scope_paths (eScope e) \<union> {journalName, stateName}) rs s s' \<and> (\<forall>c. r = Inr c \<longrightarrow>
    (\<exists>st s2 outs. loadState s = Inr st \<and> changed_only (put_paths (eScope e) (eName e)) s s2 \<and> changed_only {journalName, stateName} s2 s' \<and>
       Lstat s (eScope e) \<in> {None, Some Directory} \<and> Lstat s2 (eScope e) = Some Directory \<and> Lstat s2 (entryName (eScope e) (eName e)) = Some (Regular (encode_entry e) (fsTime s)) \<and>
       outs = outside_records st (eScope e) (eName e) stored now (length (recs (journal_data j))) s2 \<and> rs = outs @ [canon_change c] \<and>
       c = (put_change session now po stored e (held (recs (journal_data j) @ outs) (eScope e, eName e)))
         \<lparr>cSeq := of_nat (Suc (length (recs (journal_data j) @ outs)))\<rparr>))"
proof -
  let ?m = "writeAtomic (entryName (eScope e) (eName e)) (encode_entry e)"
  have "changed_only (scope_paths (eScope e)) s (snd (?m s))"
    using scope_write_changes [OF v(1), of "eName e @ ''.md''" "encode_entry e" s "fst (?m s)" "snd (?m s)"] by (simp add: entryName_def)
  from write_run [OF assms(1-3) v f assms(4) put_builds [OF v te utf] this run [unfolded commitPut_write]]
  obtain rs where p: "progress (journal_data j) (scope_paths (eScope e) \<union> {journalName, stateName}) rs s s'"
    and w: "\<And>c. r = Inr c \<Longrightarrow> \<exists>st s1 s2. loadState s = Inr st \<and> ?m s = (Inr (), s1) \<and> reindex (eScope e) s1 = (Inr (), s2) \<and>
      changed_only {journalName, stateName} s2 s' \<and> write_log (journal_data j) (put_record session now po stored e) (eScope e) (eName e) stored now st s2 rs c"
    by blast
  have "\<exists>st s2 outs. loadState s = Inr st \<and> changed_only (put_paths (eScope e) (eName e)) s s2 \<and> changed_only {journalName, stateName} s2 s' \<and>
       Lstat s (eScope e) \<in> {None, Some Directory} \<and> Lstat s2 (eScope e) = Some Directory \<and> Lstat s2 (entryName (eScope e) (eName e)) = Some (Regular (encode_entry e) (fsTime s)) \<and>
       outs = outside_records st (eScope e) (eName e) stored now (length (recs (journal_data j))) s2 \<and> rs = outs @ [canon_change c] \<and>
       c = (put_change session now po stored e (held (recs (journal_data j) @ outs) (eScope e, eName e)))
         \<lparr>cSeq := of_nat (Suc (length (recs (journal_data j) @ outs)))\<rparr>" if "r = Inr c" for c
  proof -
    from w [OF that] obtain st s1 s2 where st: "loadState s = Inr st" "?m s = (Inr (), s1)" "reindex (eScope e) s1 = (Inr (), s2)"
      "changed_only {journalName, stateName} s2 s'" "write_log (journal_data j) (put_record session now po stored e) (eScope e) (eName e) stored now st s2 rs c"
      by blast
    let ?outs = "outside_records st (eScope e) (eName e) stored now (length (recs (journal_data j))) s2"
    from st(5) obtain st1 s3 where lg: "logged (journal_data j) ?outs st1 s3" and rs: "rs = ?outs @ [canon_change c]"
      and c: "c = (put_change session now po stored e (hashOf (heldEntry st1 (eScope e) (eName e))))\<lparr>cSeq := of_nat (Suc (length (recs (journal_data j) @ ?outs)))\<rparr>"
      unfolding write_log_def put_record_def by auto
    show ?thesis
      using st(1,4) put_files [OF v st(2,3)] rs c [unfolded logged_held(1) [OF lg v(1)]] by blast
  qed
  with p show ?thesis by blast
qed

end
