(* ===== verification/FileWrites.thy ===== *)
theory FileWrites
  imports FileInv
begin

text \<open>
  The whole operations of the file store on a journal in order: \<open>FilePut\<close>, \<open>FileForget\<close> and \<open>Reconcile\<close> with every branch, and what each adds to the
  journal.
\<close>

section \<open>Put\<close>

lemma put_form:
  "e\<lparr>eHash := Hash (eContent e), eMetaHash := MetaHash (eMeta e), eUpdated := now, eDeleted := False,
     eMeta := (if mlen (eMeta e) = 0 then None else eMeta e)\<rparr> = stored_form now e"
  by (simp add: stored_form_def cloneEntry_def)

lemma text_stored_form: "entry_ok e limit \<Longrightarrow> wf_gomap (eMeta e) \<Longrightarrow> text_entry (stored_form now e)"
  using entry_ok_text by (simp add: text_entry_def wf_gomap_items)

lemma FilePut_cases:
  assumes "FilePut session now e opts s = (r, s')"
  obtains (refused) err where "r = Inl err" "s' = s"
    | (commit) stored where "entry_ok e (fsMax s)" "fsLocked s = None" "readEntry (eScope e) (eName e) s = Inr stored"
        "Check (ResolvePutOptions opts) (eScope e) (eName e) stored = None"
        "commitPut session now (ResolvePutOptions opts) stored (stored_form now e) s = (r, s')"
  using assms unfolding FilePut_def Let_def put_form by (auto simp: CheckEntry_None split: option.splits sum.splits)

lemma progress_journal: "progress data P rs s s' \<Longrightarrow> file_journal s' = recs data @ rs"
  by (auto simp: progress_def logged_journal)

lemma jinv_journal: "openJournal s = Inr j \<Longrightarrow> jok (journal_data j) \<Longrightarrow> file_journal s = recs (journal_data j)"
proof -
  assume j: "openJournal s = Inr j" "jok (journal_data j)"
  obtain st where "tracks st (journal_data j)" using rebuild_tracks [OF j(1)] by blast
  then show ?thesis using logged_journal [OF logged_start [OF j]] by simp
qed

text \<open>The journal's file only grows, and so do its records.\<close>

definition extends :: "FileStore \<Rightarrow> FileStore \<Rightarrow> bool" where
  "extends s s' \<longleftrightarrow> (\<exists>j j' q. openJournal s = Inr j \<and> openJournal s' = Inr j' \<and> journal_data j' = journal_data j @ q) \<and>
     (\<exists>rs. file_journal s' = file_journal s @ rs)"

definition clean_store :: "FileStore \<Rightarrow> bool" where
  "clean_store s \<longleftrightarrow> (\<forall>j. openJournal s = Inr j \<longrightarrow> clean_journal (journal_data j))"

lemma logged_clean: "openJournal s = Inr j \<Longrightarrow> logged (journal_data j) rs st s' \<Longrightarrow> clean_store s \<Longrightarrow> clean_store s'"
  by (auto simp: clean_store_def logged_def)

lemma progress_clean: "openJournal s = Inr j \<Longrightarrow> progress (journal_data j) P rs s s' \<Longrightarrow> clean_store s \<Longrightarrow> clean_store s'"
  using logged_clean by (auto simp: progress_def)

lemma extends_refl: "jinv s \<Longrightarrow> extends s s"
  by (auto simp: extends_def jinv_def)

lemma logged_extends: "openJournal s = Inr j \<Longrightarrow> jok (journal_data j) \<Longrightarrow> logged (journal_data j) rs st s' \<Longrightarrow> extends s s'"
  using jinv_journal [of s j] logged_journal [of "journal_data j" rs st s'] by (auto simp: extends_def logged_def)

lemma progress_extends: "openJournal s = Inr j \<Longrightarrow> jok (journal_data j) \<Longrightarrow> progress (journal_data j) P rs s s' \<Longrightarrow> extends s s'"
  using logged_extends by (auto simp: progress_def)

lemma FilePut_run:
  assumes "jinv s" "length (file_journal s) + 2 < 2 ^ 64" "ValidString session" "text_opts opts" "wf_gomap (eMeta e)"
    and run: "FilePut session now e opts s = (r, s')"
  shows "changed_only (scope_paths (eScope e) \<union> {journalName, stateName}) s s' \<and> jinv s' \<and> extends s s' \<and> (clean_store s \<longrightarrow> clean_store s')"
  using run
proof (cases rule: FilePut_cases)
  case (refused err)
  then show ?thesis using assms(1) extends_refl by simp
next
  case (commit stored)
  obtain j where j: "openJournal s = Inr j" "jok (journal_data j)" "honest (readState s) (journal_data j)" using assms(1) by (auto simp: jinv_def)
  have v: "ValidName (eScope (stored_form now e))" "ValidName (eName (stored_form now e))" using commit(1) by (simp_all add: entry_ok_def)
  have room: "length (recs (journal_data j)) + 2 < 2 ^ 64" using assms(2) jinv_journal [OF j(1,2)] by simp
  have te: "text_entry (stored_form now e)" using text_stored_form [OF commit(1) assms(5)] .
  have h: "eHash (stored_form now e) = Hash (eContent (stored_form now e))" "eMetaHash (stored_form now e) = MetaHash (eMeta (stored_form now e))"
    using MetaHash_items [of "eMeta (stored_form now e)" "eMeta e"] by simp_all
  have f: "pred_option (file_entry (eScope (stored_form now e)) (eName (stored_form now e))) stored"
    using commit(3) readEntry_file by (cases stored) simp_all
  have utf: "ValidString (pIfHash (ResolvePutOptions opts))" "ValidString (pBase (ResolvePutOptions opts))" using assms(4) by (simp_all add: text_opts_def)
  from commitPut_run [OF j room v te h f assms(3) utf commit(5)] obtain rs where
    p: "progress (journal_data j) (scope_paths (eScope e) \<union> {journalName, stateName}) rs s s'" by auto
  then show ?thesis using progress_extends [OF j(1,2) p] progress_clean [OF j(1) p] unfolding progress_def by auto
qed

section \<open>Forget\<close>

definition forget_record :: "string \<Rightarrow> time \<Rightarrow> Entry \<Rightarrow> scope \<Rightarrow> string \<Rightarrow> journalState \<Rightarrow> FileStore \<Rightarrow> error + Change" where
  "forget_record session now stored sc n st s =
     (case (if (case map_of (jsEntries st) (key sc n) of None \<Rightarrow> True | Some se \<Rightarrow> \<not> agrees se stored) then lastRecordFor sc n s else Inr None) of
        Inl err \<Rightarrow> Inl err
      | Inr lst \<Rightarrow>
          (let e = (case lst of Some c \<Rightarrow> if \<not> eDeleted (cEntry c) then cEntry c else stored | None \<Rightarrow> stored);
               h = hashOf (heldEntry st sc n)
           in Inr \<lparr>cSeq = 0, cEntry = e\<lparr>eDeleted := True, eUpdated := now, eMetaHash := MetaHash (eMeta e)\<rparr>, cPrev = h, cReplaced = h,
                cSession = session, cSource = [], cAt = now\<rparr>))"

lemma commitForget_write:
  "commitForget session now stored sc n = write_op (removeFile (entryName sc n)) (forget_record session now stored sc n) sc n (Some stored) now"
proof -
  have r: "fs_bind (if b then fs_read (lastRecordFor sc n) else fs_return None) k =
      (\<lambda>s. case (if b then lastRecordFor sc n s else Inr None) of Inl err \<Rightarrow> (Inl err, s) | Inr l \<Rightarrow> k l s)" for b and k :: "Change option \<Rightarrow> Change fs_op"
    by (auto simp: fun_eq_iff fs_bind_def fs_read_def fs_return_def split: sum.split)
  have f: "fs_bind (fs_read (forget_record session now stored sc n st)) k = (\<lambda>s. case forget_record session now stored sc n st s of Inl err \<Rightarrow> (Inl err, s)
      | Inr c \<Rightarrow> k c s)" for st and k :: "Change \<Rightarrow> Change fs_op"
    by (auto simp: fun_eq_iff fs_bind_def fs_read_def split: sum.split)
  show ?thesis unfolding commitForget_def write_op_def log_rest_def Let_def r f
    by (intro arg_cong [where f = "fs_bind (fs_read loadState)"] ext arg_cong2 [where f = fs_bind] refl)
       (auto simp: fs_bind_def forget_record_def Let_def split: sum.splits prod.splits intro!: ext)
qed

lemma forget_builds:
  assumes "ValidName sc" "ValidName n" "file_entry sc n stored" "text_entry stored" "ValidString session"
  shows "builds data sc n (forget_record session now stored sc n)"
  unfolding builds_def
proof (intro allI impI)
  fix st s outs c assume lg: "logged data outs st s" and c: "forget_record session now stored sc n st s = Inr c"
  obtain j where j: "openJournal s = Inr j" "jok (journal_data j)" using lg by (auto simp: logged_def)
  note h = logged_held [OF lg assms(1), of n]
  obtain e where e: "c = \<lparr>cSeq = 0, cEntry = e\<lparr>eDeleted := True, eUpdated := now, eMetaHash := MetaHash (eMeta e)\<rparr>, cPrev = held (recs data @ outs) (sc, n),
      cReplaced = held (recs data @ outs) (sc, n), cSession = session, cSource = [], cAt = now\<rparr>"
    "e = stored \<or> (\<exists>l. lastRecordFor sc n s = Inr (Some l) \<and> e = cEntry l)"
    using c unfolding forget_record_def Let_def h(1) by (auto split: sum.splits option.splits if_splits)
  have "eScope e = sc \<and> eName e = n \<and> eHash e \<noteq> [] \<and> ValidString (eHash e) \<and> text_entry e"
    using e(2)
  proof
    assume "e = stored"
    then show ?thesis using assms(3,4) by (simp add: file_entry_def valid_Hash Hash_not_Nil)
  next
    assume "\<exists>l. lastRecordFor sc n s = Inr (Some l) \<and> e = cEntry l"
    then obtain l where l: "lastRecordFor sc n s = Inr (Some l)" "e = cEntry l" by blast
    have "record_ok l" "ckey l = (sc, n)" using lastRecordFor_in [OF j(1) l(1)] j(2) by (auto simp: jok_def)
    then show ?thesis using l(2) by (simp add: record_ok_def ckey_def text_entry_def canonical_wf)
  qed
  then show "text_change c \<and> ckey c = (sc, n) \<and> cReplaced c = held (recs data @ outs) (sc, n)"
    using assms(1,2,5) h(2) valid_reconciled(2) by (simp add: e(1) text_change_def text_entry_def ckey_def valid_MetaHash)
qed

lemma FileForget_cases:
  assumes "FileForget session now sc n s = (r, s')"
  obtains (refused) err where "r = Inl err" "s' = s"
    | (commit) stored where "ValidName sc" "ValidName n" "fsLocked s = None" "readEntry sc n s = Inr (Some stored)" "commitForget session now stored sc n s = (r, s')"
  using assms unfolding FileForget_def by (auto simp: checkNames_def ValidScope_def split: option.splits sum.splits if_splits)

lemma remove_changes: "changed_only (scope_paths sc) s (snd (removeFile (entryName sc n) s))"
proof (rule changed_only_mono)
  show "changed_only {entryName sc n} s (snd (removeFile (entryName sc n) s))"
    using removeFile_changes [of "entryName sc n" s "fst (removeFile (entryName sc n) s)"] own_names(2) by simp
qed (auto simp: scope_paths_def entryName_def gostr)

lemma FileForget_run:
  assumes "jinv s" "length (file_journal s) + 2 < 2 ^ 64" "ValidString session" "\<And>x. readEntry sc n s = Inr (Some x) \<Longrightarrow> text_entry x"
    and run: "FileForget session now sc n s = (r, s')"
  shows "changed_only (scope_paths sc \<union> {journalName, stateName}) s s' \<and> jinv s' \<and> extends s s' \<and> (clean_store s \<longrightarrow> clean_store s')"
  using run
proof (cases rule: FileForget_cases)
  case (refused err)
  then show ?thesis using assms(1) extends_refl by simp
next
  case (commit stored)
  obtain j where j: "openJournal s = Inr j" "jok (journal_data j)" "honest (readState s) (journal_data j)" using assms(1) by (auto simp: jinv_def)
  have room: "length (recs (journal_data j)) + 2 < 2 ^ 64" using assms(2) jinv_journal [OF j(1,2)] by simp
  note f = readEntry_file [OF commit(4)]
  then have f': "pred_option (file_entry sc n) (Some stored)" by simp
  from write_run [OF j commit(1,2) f' room forget_builds [OF commit(1,2) f assms(4) [OF commit(4)] assms(3)] remove_changes commit(5) [unfolded commitForget_write]]
  obtain rs where p: "progress (journal_data j) (scope_paths sc \<union> {journalName, stateName}) rs s s'" by blast
  then show ?thesis using progress_extends [OF j(1,2) p] progress_clean [OF j(1) p] unfolding progress_def by auto
qed

section \<open>Reconcile\<close>

lemma cut_key: "ValidName sc \<Longrightarrow> CutByte (CHR ''/'') (key sc n) = Some (sc, n)"
proof -
  assume "ValidName sc"
  then have s: "\<And>x. x \<in> set sc \<Longrightarrow> x \<noteq> CHR ''/''" using ValidName_excludes(1) by blast
  show ?thesis using takeWhile_append2 [of sc "\<lambda>x. x \<noteq> CHR ''/''" "CHR ''/'' # n"] dropWhile_append2 [of sc "\<lambda>x. x \<noteq> CHR ''/''" "CHR ''/'' # n"] s
    by (simp add: CutByte_def key_def)
qed

definition entry_keys :: "(string \<times> Entry) list \<Rightarrow> string list \<Rightarrow> bool" where
  "entry_keys live keys \<longleftrightarrow> (\<forall>k \<in> set keys. \<exists>sc n. k = key sc n \<and> ValidName sc \<and> ValidName n \<and> pred_option (file_entry sc n) (map_of live k))"

lemma reconcile_loop_length: "reconcile_loop live now keys st changes s = ((changes', err, st'), s') \<Longrightarrow> length changes \<le> length changes'"
proof (induction live now keys st changes s rule: reconcile_loop.induct)
  case (2 live now k ks st changes s)
  show ?case
    using 2 by (auto split: prod.splits sum.splits option.splits) fastforce+
qed simp

text \<open>An entry the journal and its file agree on, or a file the store cannot journal.\<close>

definition settled :: "int \<Rightarrow> (string \<times> Entry) list \<Rightarrow> (string \<rightharpoonup> stateEntry) \<Rightarrow> string \<Rightarrow> bool" where
  "settled limit live m k \<longleftrightarrow> (case map_of live k of
     None \<Rightarrow> m k = None
   | Some e \<Rightarrow> \<not> entry_ok e limit \<or> (\<exists>se. m k = Some se \<and> agrees se e))"

lemma settled_cong: "m k = m' k \<Longrightarrow> settled limit live m k \<longleftrightarrow> settled limit live m' k"
  by (simp add: settled_def cong: option.case_cong)

lemma lastRecordFor_known:
  assumes "openJournal s = Inr j" "jok (journal_data j)" "replay (recs (journal_data j)) (sc, n) = Some e"
  shows "lastRecordFor sc n s \<noteq> Inr None"
proof -
  obtain c where "c \<in> set (recs (journal_data j))" "cEntry c = e" using replay_in [OF assms(3)] by blast
  moreover have "eScope e = sc" "eName e = n" using replay_key [OF assms(3)] by simp_all
  ultimately have "c \<in> set (filter (\<lambda>c. eScope (cEntry c) = sc \<and> eName (cEntry c) = n) (recs (journal_data j)))" by simp
  then have "filter (\<lambda>c. eScope (cEntry c) = sc \<and> eName (cEntry c) = n) (recs (journal_data j)) \<noteq> []" by (metis empty_iff empty_set)
  then show ?thesis using assms(1) scan_some(1) [of j] by (auto simp: lastRecordFor_def split: list.split)
qed

lemma outside_None:
  assumes "logged data rs st s" "ValidName sc" "outside st sc n (map_of live (key sc n)) now s = Inr None"
  shows "settled (fsMax s) live (map_of (jsEntries st)) (key sc n)"
proof -
  obtain j where j: "openJournal s = Inr j" "jok (journal_data j)" "recs (journal_data j) = recs data @ rs" using assms(1) by (auto simp: logged_def)
  have m: "map_of (jsEntries st) (key sc n) = map_option state_of (replay (recs (journal_data j)) (sc, n))"
    using logged_held(3) [OF assms(1,2)] j(3) by simp
  show ?thesis
    using assms(3) lastRecordFor_known [OF j(1,2), of sc n] m unfolding outside_def Let_def settled_def
    by (auto simp: CheckEntry_None split: option.splits sum.splits if_splits)
qed

lemma logged_states: "logged data rs st s \<Longrightarrow> map_of (jsEntries st) = last_states (recs data @ rs)"
  by (auto simp: logged_def tracks_def)

lemma outside_noted:
  assumes "outside st sc n (map_of live (key sc n)) now s = Inr (Some c)" "ckey c = (sc, n)" "cEntry c' = cEntry c"
    "pred_option (file_entry sc n) (map_of live (key sc n))" "m' = last_step m c'"
  shows "settled limit live m' (key sc n)"
proof (cases "map_of live (key sc n)")
  case None
  then have "eDeleted (cEntry c)" using assms(1) by (auto simp: outside_def Let_def outsideChange_def split: option.splits sum.splits)
  then show ?thesis using None assms(2,3,5) by (simp add: settled_def last_step_def ckey_def)
next
  case (Some e)
  then have "eHash (cEntry c) = eHash e \<and> eMeta (cEntry c) = eMeta e \<and> \<not> eDeleted (cEntry c)"
    using assms(1,4) by (auto simp: outside_def Let_def outsideChange_def file_entry_def split: option.splits if_splits)
  then show ?thesis using Some assms(2,3,5) by (auto simp: settled_def last_step_def ckey_def state_of_def agrees_def)
qed

lemma outside_appended:
  assumes lg: "logged data rs st s" and k: "ValidName sc" "ValidName n" "pred_option (file_entry sc n) (map_of live (key sc n))"
    and out: "outside st sc n (map_of live (key sc n)) now s = Inr (Some c)" and room: "length (recs data @ rs) + 1 < 2 ^ 64"
    and app: "appendChange st c s = (r, s1)"
  shows "changed_only {journalName} s s1" "r = Inl err \<Longrightarrow> s1 = s"
    "r = Inr (c', st1) \<Longrightarrow> logged data (rs @ [canon_change c']) st1 s1 \<and> jsRead st1 = jsRead st \<and> ckey c' = (sc, n) \<and>
       settled (fsMax s) live (map_of (jsEntries st1)) (key sc n) \<and> (\<forall>k. k \<noteq> key sc n \<longrightarrow> map_of (jsEntries st1) k = map_of (jsEntries st) k)"
proof -
  obtain j where j: "openJournal s = Inr j" "tracks st (journal_data j)" "jok (journal_data j)" "recs (journal_data j) = recs data @ rs"
    using lg by (auto simp: logged_def)
  have f: "\<And>e. map_of live (key sc n) = Some e \<Longrightarrow> file_entry sc n e" using k(3) by simp
  note o = outside_text [OF j(1-3) k(1,2) f out]
  have rep: "cReplaced c = held (recs data @ rs) (ckey c)" using o(2,3) j(4) by simp
  show "changed_only {journalName} s s1" "r = Inl err \<Longrightarrow> s1 = s"
    using appendChange_logged(1,2) [OF lg o(1) rep room app] by simp_all
  assume r: "r = Inr (c', st1)"
  note a = appendChange_logged(3) [OF lg o(1) rep room app r]
  then have l1: "logged data (rs @ [canon_change c']) st1 s1" and e: "cEntry c' = cEntry c" by auto
  have m1: "map_of (jsEntries st1) = last_step (map_of (jsEntries st)) c'"
    using logged_states [OF l1] logged_states [OF lg] by (simp add: last_states_def)
  have "ckey c' = (sc, n)" using o(2) e by (simp add: ckey_def)
  with l1 a m1 outside_noted [OF out o(2) e k(3) m1]
  show "logged data (rs @ [canon_change c']) st1 s1 \<and> jsRead st1 = jsRead st \<and> ckey c' = (sc, n) \<and>
       settled (fsMax s) live (map_of (jsEntries st1)) (key sc n) \<and> (\<forall>k. k \<noteq> key sc n \<longrightarrow> map_of (jsEntries st1) k = map_of (jsEntries st) k)"
    by (auto simp: last_step_def ckey_def)
qed

text \<open>The loop adds the changes it returns, settles every key it reaches and leaves the others.\<close>

definition reconciled :: "string \<Rightarrow> (string \<times> Entry) list \<Rightarrow> string list \<Rightarrow> Change list \<Rightarrow> journalState \<Rightarrow> FileStore \<Rightarrow> Change list \<Rightarrow> Change list \<Rightarrow>
    error option \<Rightarrow> journalState \<Rightarrow> FileStore \<Rightarrow> bool" where
  "reconciled data live keys rs st s changes changes' err st' s' \<longleftrightarrow> changed_only {journalName} s s' \<and> (\<exists>added. changes' = changes @ added \<and>
     logged data (rs @ map canon_change added) st' s' \<and> jsRead st' = jsRead st \<and> (added = [] \<longrightarrow> st' = st \<and> s' = s) \<and>
     (\<forall>k. k \<notin> set keys \<longrightarrow> map_of (jsEntries st') k = map_of (jsEntries st) k) \<and>
     (err = None \<longrightarrow> (\<forall>k \<in> set keys. settled (fsMax s) live (map_of (jsEntries st')) k)) \<and> (\<forall>c \<in> set added. ValidName (eScope (cEntry c))))"

lemma reconcile_loop_run:
  assumes "logged data rs st s" "entry_keys live keys" "distinct keys" "length (recs data @ rs) + (length changes' - length changes) + 1 < 2 ^ 64"
    "reconcile_loop live now keys st changes s = ((changes', err, st'), s')"
  shows "reconciled data live keys rs st s changes changes' err st' s'"
  using assms
proof (induction keys arbitrary: rs st changes s)
  case Nil
  then show ?case by (auto simp: reconciled_def)
next
  case (Cons k keys)
  obtain sc n where k: "k = key sc n" "ValidName sc" "ValidName n" "pred_option (file_entry sc n) (map_of live (key sc n))"
    using Cons.prems(2) by (auto simp: entry_keys_def)
  have keys: "entry_keys live keys" "distinct keys" "k \<notin> set keys" using Cons.prems(2,3) by (simp_all add: entry_keys_def)
  note cut = cut_key [OF k(2), of n, folded k(1)]
  show ?case
  proof (cases "outside st sc n (map_of live k) now s")
    case (Inl e)
    then show ?thesis using Cons.prems(1,5) cut by (auto simp: reconciled_def)
  next
    case (Inr x)
    show ?thesis
    proof (cases x)
      case None
      have st: "settled (fsMax s) live (map_of (jsEntries st)) k" using outside_None [OF Cons.prems(1) k(2)] Inr None k(1) by simp
      have "reconcile_loop live now keys st changes s = ((changes', err, st'), s')" using Cons.prems(5) cut Inr None by simp
      note ih = Cons.IH [OF Cons.prems(1) keys(1,2) Cons.prems(4) this]
      then have "settled (fsMax s) live (map_of (jsEntries st')) k" using st settled_cong [of "map_of (jsEntries st')" k "map_of (jsEntries st)"] keys(3) by (auto simp: reconciled_def)
      then show ?thesis using ih unfolding reconciled_def by auto
    next
      case (Some c)
      have room: "length (recs data @ rs) + 1 < 2 ^ 64" using Cons.prems(4) by simp
      obtain r s1 where app: "appendChange st c s = (r, s1)" by fastforce
      note a = outside_appended [OF Cons.prems(1) k(2-4) Inr [unfolded Some k(1)] room app]
      show ?thesis
      proof (cases r)
        case (Inl e)
        then show ?thesis using Cons.prems(1,5) cut Inr Some app a(2) by (auto simp: reconciled_def)
      next
        case ok: (Inr y)
        obtain c' st1 where y: "y = (c', st1)" by (cases y)
        note b = a(3) [OF ok [unfolded y]]
        have rest: "reconcile_loop live now keys st1 (changes @ [c']) s1 = ((changes', err, st'), s')" using Cons.prems(5) cut Inr Some app ok y by simp
        have "length (recs data @ (rs @ [canon_change c'])) + (length changes' - length (changes @ [c'])) + 1 < 2 ^ 64"
          using Cons.prems(4) reconcile_loop_length [OF rest] by simp
        note ih = Cons.IH [OF conjunct1 [OF b] keys(1,2) this rest]
        have "map_of (jsEntries st') k = map_of (jsEntries st1) k" using ih keys(3) by (auto simp: reconciled_def)
        from settled_cong [where m = "map_of (jsEntries st')" and m' = "map_of (jsEntries st1)", OF this] b k(1) have "settled (fsMax s) live (map_of (jsEntries st')) k" by simp
        moreover have "ValidName (eScope (cEntry c'))" using b k(2) by (simp add: ckey_def)
        moreover have "changed_only {journalName} s s'" "fsMax s1 = fsMax s"
          using changed_only_trans [OF a(1)] ih a(1) by (auto simp: reconciled_def changed_only_def)
        moreover obtain added where "changes' = changes @ c' # added" "logged data (rs @ map canon_change (c' # added)) st' s'" "jsRead st' = jsRead st1"
            "\<forall>k. k \<notin> set keys \<longrightarrow> map_of (jsEntries st') k = map_of (jsEntries st1) k"
            "err = None \<longrightarrow> (\<forall>k \<in> set keys. settled (fsMax s1) live (map_of (jsEntries st')) k)" "\<forall>c \<in> set added. ValidName (eScope (cEntry c))"
          using ih by (auto simp: reconciled_def)
        ultimately show ?thesis using b k(1) unfolding reconciled_def by (intro conjI exI [of _ "c' # added"]) auto
      qed
    qed
  qed
qed

section \<open>The entries a reconciliation looks at\<close>

lemma read_names_in:
  "read_names sc des s = Inr es \<Longrightarrow> e \<in> set es \<Longrightarrow> \<exists>n. ValidName n \<and> readEntry sc n s = Inr (Some e)"
  by (induction sc des s arbitrary: es rule: read_names.induct) (auto split: if_splits sum.splits option.splits)

lemma listScope_in: "listScope sc s = Inr es \<Longrightarrow> e \<in> set es \<Longrightarrow> \<exists>n. ValidName n \<and> readEntry sc n s = Inr (Some e)"
  using read_names_in [of sc "ReadDir sc s" s] by (auto simp: listScope_def split: sum.splits bool.splits)

lemma live_entries_in:
  "live_entries scopes s = Inr live \<Longrightarrow> (k, e) \<in> set live \<Longrightarrow> \<exists>sc n. sc \<in> set scopes \<and> ValidName n \<and> k = key sc n \<and> readEntry sc n s = Inr (Some e)"
proof (induction scopes s arbitrary: live rule: live_entries.induct)
  case (2 sc scopes s)
  obtain es ls where l: "listScope sc s = Inr es" "live_entries scopes s = Inr ls" "live = map (\<lambda>e. (key (eScope e) (eName e), e)) es @ ls"
    using "2.prems"(1) by (auto split: sum.splits)
  show ?case
  proof (cases "(k, e) \<in> set ls")
    case True
    then show ?thesis using "2.IH" [OF l(1,2)] by auto
  next
    case False
    then have e: "e \<in> set es" "k = key (eScope e) (eName e)" using "2.prems"(2) l(3) by auto
    obtain n where n: "ValidName n" "readEntry sc n s = Inr (Some e)" using listScope_in [OF l(1) e(1)] by blast
    with readEntry_file [OF n(2)] e(2) show ?thesis by (auto simp: file_entry_def)
  qed
qed simp

lemma scopes_of_valid: "scopes_of des = Inr scs \<Longrightarrow> sc \<in> set scs \<Longrightarrow> ValidName sc"
  by (induction des arbitrary: scs rule: scopes_of.induct) (auto split: if_splits sum.splits)

lemma reconcile_keys:
  assumes "fileScopes s = Inr scopes" "live_entries scopes s = Inr live" "logged data [] st s"
  shows "entry_keys live (sort (remdups (map fst live @ map fst (jsEntries st))))"
  unfolding entry_keys_def
proof
  have lv: "\<exists>sc n. k = key sc n \<and> ValidName sc \<and> ValidName n \<and> file_entry sc n e" if "map_of live k = Some e" for k e
    using live_entries_in [OF assms(2) map_of_SomeD [OF that]] scopes_of_valid assms(1) readEntry_file unfolding fileScopes_def by blast
  fix k assume "k \<in> set (sort (remdups (map fst live @ map fst (jsEntries st))))"
  then consider e where "map_of live k = Some e" | "map_of live k = None" "k \<in> fst ` set (jsEntries st)"
    by (cases "map_of live k") (auto simp: map_of_eq_None_iff)
  then show "\<exists>sc n. k = key sc n \<and> ValidName sc \<and> ValidName n \<and> pred_option (file_entry sc n) (map_of live k)"
  proof cases
    case (1 e)
    then show ?thesis using lv [OF 1] by simp
  next
    case 2
    then obtain se where "last_states (recs data) k = Some se" using logged_states [OF assms(3)] by (metis append_Nil2 map_of_eq_None_iff not_None_eq)
    then obtain c where c: "c \<in> set (recs data)" "k = key (eScope (cEntry c)) (eName (cEntry c))" using last_states_record by blast
    have "recs data = file_journal s" using logged_journal [OF assms(3)] by simp
    moreover obtain j where "jok (journal_data j)" "recs (journal_data j) = recs data" using assms(3) by (auto simp: logged_def)
    ultimately have "named c" using jok_named c(1) by metis
    then show ?thesis using c(2) 2(1) by (auto simp: named_def)
  qed
qed

section \<open>Reconcile\<close>

definition index_paths :: "string set" where
  "index_paths = {p. \<exists>sc. ValidName sc \<and> (p = sc \<or> p = sc @ ''/'' @ indexName)}"

lemma index_paths_apart: "journalName \<notin> index_paths" "stateName \<notin> index_paths"
proof -
  have "index_paths \<subseteq> \<Union> {scope_paths sc |sc. ValidName sc}" by (auto simp: index_paths_def scope_paths_def gostr)
  then show "journalName \<notin> index_paths" "stateName \<notin> index_paths" using scope_paths_apart by blast+
qed

lemma reindex_all_changes: "\<forall>sc \<in> set scs. ValidName sc \<Longrightarrow> reindex_all scs s = (r, s') \<Longrightarrow> changed_only index_paths s s'"
proof (induction scs arbitrary: s)
  case (Cons sc scs)
  have one: "changed_only index_paths s s1" if "reindex sc s = (r1, s1)" for r1 s1
    using reindex_writes(1) [OF that] Cons.prems(1) by (auto elim!: changed_only_mono simp: index_paths_def)
  from Cons.prems(2) have "fs_bind (reindex sc) (\<lambda>_. reindex_all scs) s = (r, s')" by simp
  then show ?case
  proof (cases rule: fs_bind_cases)
    case (err e)
    then show ?thesis using one by blast
  next
    case (ok x s1)
    then show ?thesis using changed_only_trans [OF one [OF ok(1)] Cons.IH [OF _ ok(2)]] Cons.prems(1) by simp
  qed
qed simp

text \<open>The whole operation: the records added are the changes returned, an error in the middle included; without an error the journal's last word on
  every entry agrees with the files, and the cursor has been saved unless it was whole and nothing was recorded.\<close>

definition reconcile_done :: "FileStore \<Rightarrow> Change list \<Rightarrow> FileStore \<Rightarrow> bool" where
  "reconcile_done s changes s' \<longleftrightarrow> (\<exists>st scopes live st'. loadState s = Inr st \<and> fileScopes s = Inr scopes \<and> live_entries scopes s = Inr live \<and>
     (\<forall>k. settled (fsMax s) live (last_states (file_journal s')) k) \<and>
     (if changes = [] \<and> jsRead st then s' = s
      else (\<exists>data rs. logged data rs st' s' \<and>
        readState s' = (if int64 (jsOff st') then st'\<lparr>jsEntries := sorted_states (jsEntries st'), jsRead := True\<rparr> else zeroState))))"

lemma Reconcile_cases:
  assumes "Reconcile now s = ((changes, err), s')"
  obtains (refused) e where "err = Some e" "changes = []" "s' = s"
    | (ran) st scopes live err1 st1 s1 where "fsLocked s = None" "loadState s = Inr st" "fileScopes s = Inr scopes" "live_entries scopes s = Inr live"
        "reconcile_loop live now (sort (remdups (map fst live @ map fst (jsEntries st)))) st [] s = ((changes, err1, st1), s1)"
        "(case err1 of Some e \<Rightarrow> err = Some e \<and> s' = s1 | None \<Rightarrow> finishReconcile st st1 changes s1 = (err, s'))"
proof -
  note run = assms [unfolded Reconcile_def Let_def]
  show thesis
  proof (cases "fsLocked s")
    case None
    show thesis
    proof (cases "loadState s")
      case st: (Inr st)
      show thesis
      proof (cases "fileScopes s")
        case sc: (Inr scopes)
        show thesis
        proof (cases "live_entries scopes s")
          case lv: (Inr live)
          obtain cs err1 st1 s1 where loop: "reconcile_loop live now (sort (remdups (map fst live @ map fst (jsEntries st)))) st [] s = ((cs, err1, st1), s1)"
            by (metis surj_pair)
          have "cs = changes \<and> (case err1 of Some e \<Rightarrow> err = Some e \<and> s' = s1 | None \<Rightarrow> finishReconcile st st1 changes s1 = (err, s'))"
            using run None st sc lv loop by (auto split: option.splits prod.splits)
          then show thesis using ran [OF None st sc lv] loop by blast
        qed (use run None st sc refused in fastforce)
      qed (use run None st refused in fastforce)
    qed (use run None refused in fastforce)
  qed (use run refused in fastforce)
qed

lemma finishReconcile_run:
  assumes lg: "logged data rs st' s" and h: "honest (readState s) data" and v: "\<forall>c \<in> set changes. ValidName (eScope (cEntry c))"
    and run: "finishReconcile st st' changes s = (err, s')"
  shows "changed_only (index_paths \<union> {stateName}) s s' \<and> jinv s' \<and> logged data rs st' s' \<and> (err = None \<longrightarrow>
     (if jsRead st' \<and> jsSeq st' = jsSeq st \<and> jsOff st' = jsOff st then changed_only index_paths s s' \<and> (changes = [] \<longrightarrow> s' = s)
      else readState s' = (if int64 (jsOff st') then st'\<lparr>jsEntries := sorted_states (jsEntries st'), jsRead := True\<rparr> else zeroState)))"
proof -
  let ?moved = "\<not> jsRead st' \<or> jsSeq st' \<noteq> jsSeq st \<or> jsOff st' \<noteq> jsOff st" and ?scs = "remdups (map (eScope \<circ> cEntry) changes)"
  obtain r1 s1 where sv: "(if ?moved then saveState st' s else (Inr (), s)) = (r1, s1)" by fastforce
  have ts: "text_state st'" using lg tracks_text by (auto simp: logged_def)
  have 1: "changed_only {stateName} s s1 \<and> logged data rs st' s1 \<and> jinv s1"
    using sv saveState_changes [of st' s r1 s1] saveState_logged [OF lg h, of r1 s1] lg logged_jinv [OF lg h] by (auto split: if_splits)
  have rd: "readState s1 = (if int64 (jsOff st') then st'\<lparr>jsEntries := sorted_states (jsEntries st'), jsRead := True\<rparr> else zeroState)" if "?moved" "r1 = Inr x" for x
    using saved_readState [OF ts, of s x s1] sv that by auto
  show ?thesis
  proof (cases r1)
    case (Inl e)
    then show ?thesis using run sv 1 by (auto simp: finishReconcile_def elim: changed_only_mono)
  next
    case (Inr x)
    obtain r2 where r2: "reindex_all ?scs s1 = (r2, s')" "err = (case r2 of Inl e \<Rightarrow> Some e | Inr _ \<Rightarrow> None)"
      using run sv Inr by (auto simp: finishReconcile_def split: prod.splits sum.splits)
    have f: "changed_only index_paths s1 s'" using reindex_all_changes [OF _ r2(1)] v by auto
    have "openJournal s' = openJournal s1" "readState s' = readState s1"
      using changed_openJournal [OF f] changed_readState [OF f] index_paths_apart by simp_all
    moreover have "changed_only (index_paths \<union> {stateName}) s s'"
      using changed_only_trans [of "{stateName}" s s1 index_paths s'] 1 f by (simp add: Un_commute)
    moreover have "changes = [] \<Longrightarrow> s' = s1" using r2(1) by simp
    moreover have "\<not> ?moved \<Longrightarrow> s1 = s" using sv by simp
    ultimately show ?thesis using 1 f rd Inr r2(2) unfolding jinv_def logged_def by auto
  qed
qed

lemma logged_seq: "logged data rs st s \<Longrightarrow> jsSeq st = of_nat (length (recs data @ rs))"
  by (auto simp: logged_def tracks_def jok_def numbered_last_seq)

lemma of_nat_word_eq:
  assumes "a < 2 ^ 64" "b < 2 ^ 64"
  shows "(of_nat a :: uint64) = of_nat b \<longleftrightarrow> a = b"
proof -
  have "unat (of_nat n :: uint64) = n" if "n < 2 ^ 64" for n using that by (simp only: unat_of_nat) simp
  then show ?thesis using assms by metis
qed

lemma settled_beyond: "map_of live k = None \<Longrightarrow> m k = None \<Longrightarrow> settled limit live m k"
  by (simp add: settled_def)

lemma Reconcile_run:
  assumes "jinv s" "Reconcile now s = ((changes, err), s')" "length (file_journal s) + length changes + 1 < 2 ^ 64"
  shows "changed_only (index_paths \<union> {journalName, stateName}) s s' \<and> jinv s' \<and> extends s s' \<and> file_journal s' = file_journal s @ map canon_change changes \<and>
    (err = None \<longrightarrow> reconcile_done s changes s')"
  using assms(2)
proof (cases rule: Reconcile_cases)
  case (refused e)
  then show ?thesis using assms(1) extends_refl by simp
next
  case (ran st scopes live err1 st1 s1)
  obtain j where j: "openJournal s = Inr j" "jok (journal_data j)" "honest (readState s) (journal_data j)" using assms(1) by (auto simp: jinv_def)
  let ?d = "journal_data j" and ?keys = "sort (remdups (map fst live @ map fst (jsEntries st)))"
  have fj: "file_journal s = recs ?d" by (rule jinv_journal [OF j(1,2)])
  have "tracks st ?d" using load_tracks [OF j(1,3)] ran(2) by auto
  from logged_start [OF j(1,2) this] have l: "logged ?d [] st s" .
  have "length (recs ?d @ []) + (length changes - length []) + 1 < 2 ^ 64" using assms(3) fj by simp
  from reconcile_loop_run [OF l reconcile_keys [OF ran(3,4) l] _ this ran(5)]
  have rc: "reconciled ?d live ?keys [] st s [] changes err1 st1 s1" by simp
  then have l1: "logged ?d (map canon_change changes) st1 s1" and f1: "changed_only {journalName} s s1" and v: "\<forall>c \<in> set changes. ValidName (eScope (cEntry c))"
    and rd: "jsRead st1 = jsRead st" and same: "changes = [] \<longrightarrow> st1 = st \<and> s1 = s"
    and keys: "\<forall>k. k \<notin> set ?keys \<longrightarrow> map_of (jsEntries st1) k = map_of (jsEntries st) k"
      "err1 = None \<longrightarrow> (\<forall>k \<in> set ?keys. settled (fsMax s) live (map_of (jsEntries st1)) k)"
    by (auto simp: reconciled_def)
  have h1: "honest (readState s1) ?d" using changed_readState [OF f1] j(3) stateName_dir(2) by simp
  show ?thesis
  proof (cases err1)
    case (Some e)
    then show ?thesis using ran(6) f1 l1 logged_jinv [OF l1 h1] logged_journal [OF l1] logged_extends [OF j(1,2) l1] fj by (auto elim: changed_only_mono)
  next
    case None
    note fin = finishReconcile_run [OF l1 h1 v, of st err s']
    have fr: "finishReconcile st st1 changes s1 = (err, s')" using ran(6) None by simp
    note fin = fin [OF fr]
    have j': "file_journal s' = recs ?d @ map canon_change changes" using logged_journal fin by blast
    have st: "settled (fsMax s) live (last_states (file_journal s')) k" for k
    proof (cases "k \<in> set ?keys")
      case True
      then show ?thesis using keys(2) None logged_states [OF l1] j' by simp
    next
      case False
      then have "map_of live k = None" "map_of (jsEntries st) k = None" by (auto simp: map_of_eq_None_iff image_iff)
      then show ?thesis using keys(1) False logged_states [OF l1] j' by (intro settled_beyond) simp_all
    qed
    have seq: "jsSeq st1 = jsSeq st \<longleftrightarrow> changes = []"
      using logged_seq [OF l1] logged_seq [OF l] assms(3) fj of_nat_word_eq [of "length (recs ?d) + length changes" "length (recs ?d)"] by simp
    have "reconcile_done s changes s'" if "err = None"
      unfolding reconcile_done_def
    proof (intro exI conjI allI)
      show "loadState s = Inr st" "fileScopes s = Inr scopes" "live_entries scopes s = Inr live" by (fact ran)+
      show "settled (fsMax s) live (last_states (file_journal s')) k" for k by (fact st)
      show "if changes = [] \<and> jsRead st then s' = s else (\<exists>data rs. logged data rs st1 s' \<and>
        readState s' = (if int64 (jsOff st1) then st1\<lparr>jsEntries := sorted_states (jsEntries st1), jsRead := True\<rparr> else zeroState))"
        using fin that seq rd same by auto
    qed
    moreover have "changed_only (index_paths \<union> {journalName, stateName}) s s'"
      using changed_only_trans [of "{journalName}" s s1 "index_paths \<union> {stateName}" s'] f1 fin by (simp add: insert_commute)
    ultimately show ?thesis using fin j' fj logged_extends [OF j(1,2)] by auto
  qed
qed

end
