(* ===== verification/FileProps.thy ===== *)
theory FileProps
  imports FileWrites
begin

text \<open>
  The file store in use: writers, people editing the entry files, writers that die.  The theory ends with the properties of the store that hold of every
  state it reaches.
\<close>

section \<open>Steps\<close>

text \<open>One step of a store directory.  A put, a forget or a reconciliation runs whole, its writes failing wherever \<open>fsDeny\<close> says; \<open>edit\<close> is anything done to
  the directory that leaves the journal alone and at most removes the cursor, the lock and the clock included; \<open>cut\<close> is an append cut off before its record
  was whole, which leaves a line that is no record; \<open>unsaved\<close> is an operation whose writer died before it saved the cursor.  Two things are no step: a change a person makes to the journal, and an append
  cut off just before its newline, after which the next append gives its own record the same number and, by ending that line, makes a record of it; the theory \<open>FileRecord\<close> shows that one.\<close>

inductive file_step :: "FileStore \<Rightarrow> FileStore \<Rightarrow> bool" where
  put: "FilePut session now e opts s = (r, s') \<Longrightarrow> ValidString session \<Longrightarrow> text_opts opts \<Longrightarrow> wf_gomap (eMeta e) \<Longrightarrow>
    length (file_journal s) + 2 < 2 ^ 64 \<Longrightarrow> file_step s s'"
| forget: "FileForget session now sc n s = (r, s') \<Longrightarrow> ValidString session \<Longrightarrow> (\<And>x. readEntry sc n s = Inr (Some x) \<Longrightarrow> text_entry x) \<Longrightarrow>
    length (file_journal s) + 2 < 2 ^ 64 \<Longrightarrow> file_step s s'"
| reconcile: "Reconcile now s = ((changes, err), s') \<Longrightarrow> length (file_journal s) + length changes + 1 < 2 ^ 64 \<Longrightarrow> file_step s s'"
| edit: "Lstat s' journalName = Lstat s journalName \<Longrightarrow> Lstat s' stateName \<in> {Lstat s stateName, None} \<Longrightarrow> file_step s s'"
| cut: "openJournal s = Inr j \<Longrightarrow> LF \<notin> set part \<Longrightarrow> records_of (line_yield (0, cut_off (journal_data j @ part))) = [] \<Longrightarrow>
    file_step s (setNode journalName (Regular (journal_data j @ part) t) s)"
| unsaved: "file_step s s1 \<Longrightarrow> Lstat s' journalName = Lstat s1 journalName \<Longrightarrow> Lstat s' stateName = Lstat s stateName \<Longrightarrow> file_step s s'"

lemma same_journal: "Lstat s' journalName = Lstat s journalName \<Longrightarrow> openJournal s' = openJournal s"
  by (simp add: openJournal_def readRegular_def)

lemma same_cursor: "Lstat s' stateName = Lstat s stateName \<Longrightarrow> readState s' = readState s"
  by (simp add: readState_def readRegular_def)

lemma jinv_other: "openJournal s' = openJournal s \<Longrightarrow> file_journal s' = file_journal s"
  by (simp add: file_journal_def FileReadJournal_def)

lemma jok_part:
  assumes "jok data" "LF \<notin> set part" "records_of (line_yield (0, cut_off (data @ part))) = []"
  shows "jok (data @ part)" "recs (data @ part) = recs data"
proof -
  show "recs (data @ part) = recs data" using assms(2) by (simp add: lines_records complete_lines_partial)
  then show "jok (data @ part)" using assms(1,3) by (simp add: jok_def)
qed

lemma file_step_inv: "file_step s s' \<Longrightarrow> jinv s \<Longrightarrow> jinv s' \<and> extends s s'"
proof (induction rule: file_step.induct)
  case (put session now e opts s r s')
  then show ?case using FilePut_run by blast
next
  case (forget session now sc n s r s')
  then show ?case using FileForget_run by blast
next
  case (reconcile now s changes err s')
  then show ?case using Reconcile_run by blast
next
  case (edit s' s)
  obtain j where j: "openJournal s = Inr j" "jok (journal_data j)" "honest (readState s) (journal_data j)" using edit(3) by (auto simp: jinv_def)
  have o: "openJournal s' = Inr j" using same_journal [OF edit(1)] j(1) by simp
  have "honest (readState s') (journal_data j)"
    using edit(2) same_cursor [of s' s] j(3) honest_zero by (auto simp: readState_def readRegular_def)
  then show ?case using o j jinv_other [of s' s] by (auto simp: jinv_def extends_def)
next
  case (cut s j part t)
  let ?s = "setNode journalName (Regular (journal_data j @ part) t) s"
  have j: "jok (journal_data j)" "honest (readState s) (journal_data j)" using cut(1,4) by (auto simp: jinv_def)
  note p = jok_part [OF j(1) cut(2,3)]
  have "readState ?s = readState s" using stateName_dir(2) by (intro same_cursor) (simp add: Lstat_setNode)
  then have "jinv ?s" unfolding jinv_def using p(1) honest_append [OF j(2)] openJournal_set by (intro exI [of _ "Some (journal_data j @ part)"]) simp
  moreover have "file_journal ?s = file_journal s"
    using jinv_journal [OF openJournal_set, of "journal_data j @ part" t s] p jinv_journal [OF cut(1) j(1)] by simp
  ultimately show ?case using cut(1) openJournal_set by (auto simp: extends_def)
next
  case (unsaved s s1 s')
  then have 1: "jinv s1" "extends s s1" by simp_all
  obtain j j1 q where j: "openJournal s = Inr j" "openJournal s1 = Inr j1" "journal_data j1 = journal_data j @ q" using 1(2) by (auto simp: extends_def)
  have "honest (readState s') (journal_data j1)" using unsaved(5) j same_cursor [OF unsaved(3)] honest_append by (auto simp: jinv_def)
  moreover have "openJournal s' = openJournal s1" using same_journal [OF unsaved(2)] .
  ultimately show ?case using 1 j(2) jinv_other [of s' s1] by (auto simp: jinv_def extends_def)
qed

lemma file_steps_inv: "file_step\<^sup>*\<^sup>* s s' \<Longrightarrow> jinv s \<Longrightarrow> jinv s'"
  by (induction rule: rtranclp_induct) (auto dest: file_step_inv)

text \<open>A new store: a directory with no journal, whatever else it holds.\<close>

lemma jinv_new: "Lstat s journalName = None \<Longrightarrow> Lstat s stateName = None \<Longrightarrow> jinv s"
proof -
  assume n: "Lstat s journalName = None" "Lstat s stateName = None"
  have "jok []" by (simp add: jok_def numbered_def cut_off_def records_of_line)
  then show ?thesis using n honest_zero by (simp add: jinv_def openJournal_def readRegular_def readState_def)
qed

lemma Lstat_Open: "Lstat (Open opts nodes t) p = map_of nodes p"
proof -
  have "fsNodes (fold (\<lambda>opt s. case opt of FileMaxEntryBytes n \<Rightarrow> s\<lparr>fsMax := n\<rparr>) opts s) = fsNodes s" for s :: FileStore
    by (induction opts arbitrary: s) (auto split: FileOption.splits)
  then show ?thesis by (simp add: Lstat_def Open_def)
qed

lemma jinv_Open: "map_of nodes journalName = None \<Longrightarrow> map_of nodes stateName = None \<Longrightarrow> jinv (Open opts nodes t)"
  by (simp add: jinv_new Lstat_Open)

section \<open>Writes that succeed\<close>

text \<open>A directory in which nothing keeps a write to the entry from its paths.\<close>

definition writable :: "FileStore \<Rightarrow> scope \<Rightarrow> string \<Rightarrow> bool" where
  "writable s sc n \<longleftrightarrow> fsLocked s = None \<and> (\<forall>p. \<not> fsDeny s p) \<and> Lstat s sc \<in> {None, Some Directory} \<and>
     (\<forall>p \<in> {entryName sc n, sc @ ''/'' @ indexName, stateName}. Lstat s p \<noteq> Some Directory)"

lemma writeAtomic_ok:
  assumes "\<forall>p. \<not> fsDeny s p" "dirOf name = ''.'' \<or> Lstat s (dirOf name) \<in> {None, Some Directory}" "Lstat s name \<noteq> Some Directory" "dirOf name \<noteq> name"
  shows "\<exists>s'. writeAtomic name data s = (Inr (), s')"
  using assms by (auto simp: writeAtomic_def Let_def isDir_def Lstat_setNode)

lemma read_names_ok: "Lstat s sc = Some Directory \<Longrightarrow> \<exists>es. read_names sc des s = Inr es"
proof (induction sc des s rule: read_names.induct)
  case (2 sc f nd des s)
  have r: "\<exists>x. readEntry sc n s = Inr x" for n
    using "2.prems" by (auto simp: readEntry_def scopeIsDir_def Let_def split: sum.split option.split)
  show ?case
  proof (cases "\<not> HasSuffix f ''.md'' \<or> nd \<in> {Directory, Link} \<or> \<not> ValidName (TrimSuffix f ''.md'')")
    case True
    then show ?thesis using "2.IH"(1) "2.prems" by auto
  next
    case False
    obtain x where x: "readEntry sc (TrimSuffix f ''.md'') s = Inr x" using r by blast
    then show ?thesis using "2.IH"(2,3) [OF False x] "2.prems" False by (cases x) fastforce+
  qed
qed simp

lemma reindex_ok:
  assumes "ValidName sc" "\<forall>p. \<not> fsDeny s p" "Lstat s sc = Some Directory" "Lstat s (sc @ ''/'' @ indexName) \<noteq> Some Directory"
  shows "\<exists>s'. reindex sc s = (Inr (), s')"
proof -
  obtain es where "read_names sc (ReadDir sc s) s = Inr es" using read_names_ok [OF assms(3)] by blast
  then have "listScope sc s = Inr (sort_key eName es)" using assms(3) by (simp add: listScope_def scopeIsDir_def)
  moreover have "\<exists>s'. writeAtomic (sc @ ''/'' @ indexName) d s = (Inr (), s')" for d
    using assms dirOf_scope [OF assms(1)] by (intro writeAtomic_ok) (auto simp: indexName_def)
  ultimately show ?thesis by (simp add: reindex_def fs_bind_def fs_read_def)
qed

lemma appendChange_ok:
  assumes "logged data rs st s" "\<not> fsDeny s journalName" "year_fits (eUpdated (cEntry c))" "year_fits (cAt c)"
  shows "\<exists>c' st' s'. appendChange st c s = (Inr (c', st'), s')"
proof -
  obtain j where j: "openJournal s = Inr j" using assms(1) by (auto simp: logged_def)
  obtain seq st1 where n: "nextSeq st s = Inr (seq, st1)" by (simp add: nextSeq_def j Let_def)
  have "marshal_change (c\<lparr>cSeq := seq\<rparr>) \<noteq> None" using assms(3,4) by (simp add: marshal_change_def)
  then obtain d off where "appendJournal (c\<lparr>cSeq := seq\<rparr>) j = Inr (d, off)" by (auto simp: appendJournal_def Let_def)
  then have "storeAppend (c\<lparr>cSeq := seq\<rparr>) s = (Inr off, setNode journalName (Regular d (fsTime s)) s)" using assms(2) by (simp add: storeAppend_def j)
  then show ?thesis by (simp add: appendChange_def fs_bind_def fs_read_def fs_return_def n Let_def openJournal_set)
qed

lemma outside_ok:
  assumes "logged data rs st s"
  shows "\<exists>x. outside st sc n cur now s = Inr x"
proof -
  obtain j where "openJournal s = Inr j" using assms by (auto simp: logged_def)
  then have "\<exists>x. lastRecordFor sc n s = Inr x" by (simp add: lastRecordFor_def)
  then show ?thesis by (auto simp: outside_def Let_def split: option.split sum.split)
qed

lemma outside_time:
  assumes "outside st sc n cur now s = Inr (Some c)"
  shows "cAt c = now" "eUpdated (cEntry c) = (case cur of None \<Rightarrow> now | Some e \<Rightarrow> (case modTime (entryName sc n) s of None \<Rightarrow> eUpdated e | Some t \<Rightarrow> t))"
  using assms by (auto simp: outside_def outsideChange_def Let_def split: option.splits sum.splits if_splits)

lemma noteOutside_ok:
  assumes "logged data rs st s" "\<not> fsDeny s journalName" "year_fits now"
    "\<And>e. cur = Some e \<Longrightarrow> year_fits (case modTime (entryName sc n) s of None \<Rightarrow> eUpdated e | Some t \<Rightarrow> t)"
  shows "\<exists>st' s'. noteOutside st sc n cur now s = (Inr st', s')"
proof -
  obtain x where x: "outside st sc n cur now s = Inr x" using outside_ok [OF assms(1)] by blast
  show ?thesis
  proof (cases x)
    case None
    then show ?thesis by (simp add: noteOutside_def fs_bind_def fs_read_def fs_return_def x)
  next
    case (Some c)
    have "year_fits (eUpdated (cEntry c))" "year_fits (cAt c)"
      using outside_time [OF x [unfolded Some]] assms(3,4) by (cases cur; simp)+
    from appendChange_ok [OF assms(1,2) this] show ?thesis by (auto simp: noteOutside_def fs_bind_def fs_read_def fs_return_def x Some)
  qed
qed

lemma saveState_ok: "\<forall>p. \<not> fsDeny s p \<Longrightarrow> Lstat s stateName \<noteq> Some Directory \<Longrightarrow> \<exists>s'. saveState st s = (Inr (), s')"
proof -
  have "''.'' \<noteq> stateName" by code_simp
  then show "\<forall>p. \<not> fsDeny s p \<Longrightarrow> Lstat s stateName \<noteq> Some Directory \<Longrightarrow> ?thesis"
    unfolding saveState_def by (intro writeAtomic_ok) (simp_all add: stateName_dir)
qed

text \<open>The record part of a write succeeds when nothing is denied and the times have four-digit years.\<close>

lemma log_rest_ok:
  assumes l: "logged data [] st s" and v: "ValidName sc" "ValidName n" "pred_option (file_entry sc n) stored" and room: "length (recs data) + 2 < 2 ^ 64"
    and mk: "builds data sc n mk" "\<And>st s. \<exists>j. openJournal s = Inr j \<Longrightarrow> \<exists>c. mk st s = Inr c \<and> eUpdated (cEntry c) = now \<and> cAt c = now"
    and free: "\<forall>p. \<not> fsDeny s p" "Lstat s stateName \<noteq> Some Directory" "year_fits now"
      "\<And>e. stored = Some e \<Longrightarrow> year_fits (case modTime (entryName sc n) s of None \<Rightarrow> eUpdated e | Some t \<Rightarrow> t)"
  shows "\<exists>c s'. log_rest mk sc n stored now st s = (Inr c, s')"
proof -
  have f: "\<And>e. stored = Some e \<Longrightarrow> file_entry sc n e" using v(3) by simp
  obtain st1 s1 where 1: "noteOutside st sc n stored now s = (Inr st1, s1)"
    using noteOutside_ok [OF l _ free(3,4)] free(1) by blast
  have "length (recs data @ []) + 1 < 2 ^ 64" using room by simp
  note n = noteOutside_logged(1) [OF l v(1,2) f this 1] noteOutside_logged(3) [OF l v(1,2) f this 1 refl]
  let ?outs = "outside_records st sc n stored now (length (recs data @ [])) s"
  have free1: "\<forall>p. \<not> fsDeny s1 p" "Lstat s1 stateName \<noteq> Some Directory" using n(1) free(1,2) stateName_dir(2) by (simp_all add: changed_only_def)
  obtain c where c: "mk st1 s1 = Inr c" "eUpdated (cEntry c) = now" "cAt c = now" using mk(2) [of s1 st1] n(2) by (auto simp: logged_def)
  have b: "text_change c" "cReplaced c = held (recs data @ ([] @ ?outs)) (ckey c)" using mk(1) n(2) c(1) by (auto simp: builds_def)
  have room2: "length (recs data @ ([] @ ?outs)) + 1 < 2 ^ 64" using room length_outside_records [of st sc n stored now "length (recs data @ [])" s] by simp
  obtain c' st2 s2 where 2: "appendChange st1 c s1 = (Inr (c', st2), s2)" using appendChange_ok [OF n(2)] free1(1) c(2,3) free(3) by metis
  have "changed_only {journalName} s1 s2" using appendChange_logged(1) [OF n(2) b room2 2] .
  then obtain s3 where 3: "saveState st2 s2 = (Inr (), s3)" using saveState_ok [of s2 st2] free1 stateName_dir(2) by (auto simp: changed_only_def)
  show ?thesis by (simp add: log_rest_def fs_bind_def fs_read_def fs_return_def 1 2 3 c(1))
qed

lemma FilePut_ok:
  assumes "jinv s" and w: "writable s (eScope e) (eName e)" and ok: "entry_ok e (fsMax s)" "wf_gomap (eMeta e)" "ValidString session" "text_opts opts"
    and room: "length (file_journal s) + 2 < 2 ^ 64" and y: "year_fits now" "year_fits (fsTime s)"
    and stored: "readEntry (eScope e) (eName e) s = Inr stored" "Check (ResolvePutOptions opts) (eScope e) (eName e) stored = None"
  shows "\<exists>c s'. FilePut session now e opts s = (Inr c, s')"
proof -
  let ?sc = "eScope e" and ?n = "eName e" and ?e = "stored_form now e"
  obtain j where j: "openJournal s = Inr j" "jok (journal_data j)" "honest (readState s) (journal_data j)" using assms(1) by (auto simp: jinv_def)
  obtain st where st: "loadState s = Inr st" "tracks st (journal_data j)" using load_tracks [OF j(1,3)] by blast
  have v: "ValidName ?sc" "ValidName ?n" using ok(1) by (simp_all add: entry_ok_def)
  have d: "dirOf (entryName ?sc ?n) = ?sc" "?sc \<noteq> entryName ?sc ?n" using dirOf_scope [OF v(1), of "?n @ ''.md''"] by (simp_all add: entryName_def)
  obtain s1 where 1: "writeAtomic (entryName ?sc ?n) (encode_entry ?e) s = (Inr (), s1)"
    using writeAtomic_ok [of s "entryName ?sc ?n" "encode_entry ?e"] w d by (auto simp: writable_def)
  note c1 = writeAtomic_changes(1) [OF 1 own_names(2), unfolded d(1)]
  have "?sc \<noteq> ''.''" using dot_not_name [of ?sc] v(1) by auto
  then have dir: "Lstat s1 ?sc = Some Directory" using writeAtomic_dir [OF 1] d by simp
  have free1: "\<forall>p. \<not> fsDeny s1 p" "Lstat s1 (?sc @ ''/'' @ indexName) \<noteq> Some Directory"
    using c1 w entry_not_index(1) [OF v(2), of ?sc] by (auto simp: changed_only_def writable_def)
  obtain s2 where 2: "reindex ?sc s1 = (Inr (), s2)" using reindex_ok [OF v(1) free1(1) dir free1(2)] by blast
  note pf = put_files [OF v 1 2]
  note apart = scope_paths_apart [OF v(1)] and f2 = changed_only_mono [OF pf(1) put_paths_scope]
  have l2: "logged (journal_data j) [] st s2" using frame_progress(1) [OF logged_start [OF j(1,2) st(2)] j(3) f2 apart] .
  have free2: "\<forall>p. \<not> fsDeny s2 p" "Lstat s2 stateName \<noteq> Some Directory" using f2 w apart by (auto simp: changed_only_def writable_def)
  have h: "eHash ?e = Hash (eContent ?e)" "eMetaHash ?e = MetaHash (eMeta ?e)" using MetaHash_items [of "eMeta ?e" "eMeta e"] by simp_all
  have v': "ValidName (eScope ?e)" "ValidName (eName ?e)" using v by simp_all
  have utf: "ValidString (pIfHash (ResolvePutOptions opts))" "ValidString (pBase (ResolvePutOptions opts))" using ok(4) by (simp_all add: text_opts_def)
  note b = put_builds [OF v' text_stored_form [OF ok(1,2)] h ok(3) utf, simplified]
  have f: "pred_option (file_entry ?sc ?n) stored" using stored(1) readEntry_file by (cases stored) simp_all
  have room': "length (recs (journal_data j)) + 2 < 2 ^ 64" using room jinv_journal [OF j(1,2)] by simp
  have "\<exists>c s'. log_rest (put_record session now (ResolvePutOptions opts) stored ?e) ?sc ?n stored now st s2 = (Inr c, s')"
    using y free2 pf(3) by (intro log_rest_ok [OF l2 v f room' b]) (auto simp: put_record_def put_change_def modTime_def)
  then have "\<exists>c s'. commitPut session now (ResolvePutOptions opts) stored ?e s = (Inr c, s')"
    by (simp add: commitPut_write write_op_def fs_bind_def [of "fs_read loadState"] fs_read_def st(1)) (simp add: fs_bind_def 1 2)
  moreover have "entry_ok e 0" using ok(1) by (simp add: entry_ok_def)
  ultimately show ?thesis using w stored ok(1) unfolding FilePut_def Let_def put_form by (simp add: CheckEntry_None [THEN iffD2] writable_def)
qed

section \<open>What a put leaves\<close>

lemma FilePut_effect:
  assumes "jinv s" "length (file_journal s) + 2 < 2 ^ 64" "ValidString session" "text_opts opts" "wf_gomap (eMeta e)"
    and run: "FilePut session now e opts s = (Inr c, s')"
  obtains stored st s2 outs where "readEntry (eScope e) (eName e) s = Inr stored" "entry_ok e (fsMax s)"
    "Check (ResolvePutOptions opts) (eScope e) (eName e) stored = None" "jinv s'"
    "changed_only (put_paths (eScope e) (eName e) \<union> {journalName, stateName}) s s'" "Lstat s (eScope e) \<in> {None, Some Directory}"
    "Lstat s' (eScope e) = Some Directory" "Lstat s' (entryName (eScope e) (eName e)) = Some (Regular (encode_entry (stored_form now e)) (fsTime s))"
    "loadState s = Inr st" "fsMax s2 = fsMax s" "modTime (entryName (eScope e) (eName e)) s2 = Some (fsTime s)" "openJournal s2 = openJournal s"
    "outs = outside_records st (eScope e) (eName e) stored now (length (file_journal s)) s2" "file_journal s' = file_journal s @ outs @ [canon_change c]"
    "c = (put_change session now (ResolvePutOptions opts) stored (stored_form now e) (held (file_journal s @ outs) (eScope e, eName e)))
       \<lparr>cSeq := of_nat (Suc (length (file_journal s @ outs)))\<rparr>"
  using run
proof (cases rule: FilePut_cases)
  case (commit stored)
  let ?sc = "eScope e" and ?n = "eName e" and ?e = "stored_form now e"
  obtain j where j: "openJournal s = Inr j" "jok (journal_data j)" "honest (readState s) (journal_data j)" using assms(1) by (auto simp: jinv_def)
  have fj: "file_journal s = recs (journal_data j)" using jinv_journal [OF j(1,2)] .
  have v: "ValidName (eScope ?e)" "ValidName (eName ?e)" using commit(1) by (simp_all add: entry_ok_def)
  have room: "length (recs (journal_data j)) + 2 < 2 ^ 64" using assms(2) fj by simp
  have h: "eHash ?e = Hash (eContent ?e)" "eMetaHash ?e = MetaHash (eMeta ?e)" using MetaHash_items [of "eMeta ?e" "eMeta e"] by simp_all
  have f: "pred_option (file_entry (eScope ?e) (eName ?e)) stored" using commit(3) readEntry_file by (cases stored) simp_all
  have utf: "ValidString (pIfHash (ResolvePutOptions opts))" "ValidString (pBase (ResolvePutOptions opts))" using assms(4) by (simp_all add: text_opts_def)
  from commitPut_run [OF j room v text_stored_form [OF commit(1) assms(5)] h f assms(3) utf commit(5)]
  obtain rs st s2 outs where p: "progress (journal_data j) (scope_paths ?sc \<union> {journalName, stateName}) rs s s'" and
    w: "loadState s = Inr st" "changed_only (put_paths ?sc ?n) s s2" "changed_only {journalName, stateName} s2 s'"
      "Lstat s ?sc \<in> {None, Some Directory}" "Lstat s2 ?sc = Some Directory" "Lstat s2 (entryName ?sc ?n) = Some (Regular (encode_entry ?e) (fsTime s))"
      "outs = outside_records st ?sc ?n stored now (length (recs (journal_data j))) s2" "rs = outs @ [canon_change c]"
      "c = (put_change session now (ResolvePutOptions opts) stored ?e (held (recs (journal_data j) @ outs) (?sc, ?n)))
         \<lparr>cSeq := of_nat (Suc (length (recs (journal_data j) @ outs)))\<rparr>"
    by auto
  have v': "ValidName ?sc" using v(1) by simp
  have ne: "?sc \<notin> {journalName, stateName}" "entryName ?sc ?n \<notin> {journalName, stateName}"
    using scope_paths_apart [OF v'] put_paths_scope [of ?sc ?n] by (auto simp: put_paths_def scope_paths_def)
  have "journalName \<notin> put_paths ?sc ?n" using scope_paths_apart(1) [OF v'] put_paths_scope by blast
  note oj = changed_openJournal [OF w(2) this]
  have m: "fsMax s2 = fsMax s" "modTime (entryName ?sc ?n) s2 = Some (fsTime s)" using w(2,6) by (simp_all add: changed_only_def modTime_def)
  have l: "Lstat s' ?sc = Some Directory" "Lstat s' (entryName ?sc ?n) = Some (Regular (encode_entry ?e) (fsTime s))"
    using w(3,5,6) ne by (auto simp: changed_only_def)
  show thesis
    using that [OF commit(3,1,4) _ changed_only_trans [OF w(2,3)] w(4) l w(1) m oj w(7) [folded fj] _ w(9) [folded fj]] p progress_journal [OF p] w(8) fj
    by (simp add: progress_def)
qed simp

text \<open>An edit the journal has not seen.\<close>

lemma outside_records_edit:
  assumes st: "loadState s = Inr st" and inv: "jinv s" and v: "ValidName sc" and x: "entry_ok x (fsMax s2)"
    "\<nexists>l. replay (file_journal s) (sc, n) = Some l \<and> eHash l = eHash x \<and> MetaHash (eMeta l) = MetaHash (eMeta x)"
  shows "outside_records st sc n (Some x) now k s2 = [canon_change ((outsideChange (case modTime (entryName sc n) s2 of Some t \<Rightarrow> x\<lparr>eUpdated := t\<rparr> | None \<Rightarrow> x)
    (held (file_journal s) (sc, n)) now)\<lparr>cSeq := of_nat (Suc k)\<rparr>)]"
proof -
  obtain j where j: "openJournal s = Inr j" "jok (journal_data j)" "honest (readState s) (journal_data j)" using inv by (auto simp: jinv_def)
  have "tracks st (journal_data j)" using load_tracks [OF j(1,3)] st by auto
  note h = tracks_held [OF this j(2) v, of n, folded jinv_journal [OF j(1,2)]]
  have "\<not> (case map_of (jsEntries st) (key sc n) of None \<Rightarrow> False | Some se \<Rightarrow> agrees se x)"
    using x(2) unfolding h(1) by (auto simp: agrees_def state_of_def split: option.splits)
  then have "outside st sc n (Some x) now s2 = Inr (Some (outsideChange (case modTime (entryName sc n) s2 of Some t \<Rightarrow> x\<lparr>eUpdated := t\<rparr> | None \<Rightarrow> x)
      (held (file_journal s) (sc, n)) now))"
    using h(3) x(1) by (simp add: outside_def Let_def CheckEntry_None)
  then show ?thesis by (simp add: outside_records_def)
qed

lemma outside_records_none:
  assumes st: "loadState s = Inr st" and inv: "jinv s" and v: "ValidName sc"
    and x: "(\<exists>l. replay (file_journal s) (sc, n) = Some l \<and> eHash l = eHash x \<and> MetaHash (eMeta l) = MetaHash (eMeta x)) \<or> CheckEntry x (fsMax s2) None \<noteq> None"
  shows "outside_records st sc n (Some x) now k s2 = []"
proof -
  obtain j where j: "openJournal s = Inr j" "jok (journal_data j)" "honest (readState s) (journal_data j)" using inv by (auto simp: jinv_def)
  have "tracks st (journal_data j)" using load_tracks [OF j(1,3)] st by auto
  note h = tracks_held(1) [OF this j(2) v, of n, folded jinv_journal [OF j(1,2)]]
  have "outside st sc n (Some x) now s2 = Inr None" using x by (auto simp: outside_def Let_def h agrees_def state_of_def)
  then show ?thesis by (simp add: outside_records_def)
qed

end
