(* ===== verification/FileUse.thy ===== *)
theory FileUse
  imports FileProps MemStore
begin

text \<open>
  What users of the file store rely on, for every state a store directory reaches from one without a journal: the journal stays in order, the cursor says
  what the journal says, a put is read back, and an edit made outside the store is in the journal before the write that replaces it.
\<close>

section \<open>A store to show it on\<close>

definition sample_time :: time where "sample_time = 63000000000000000000"

definition new_store :: FileStore where "new_store = Open [] [] sample_time"

text \<open>A directory in which a person has written an entry by hand.\<close>

definition hand_store :: FileStore where
  "hand_store = Open [] [(''user'', Directory), (''user/tea.md'', Regular ''oolong'' 62000000000000000000)] sample_time"

definition hand_entry :: Entry where
  "hand_entry = \<lparr>eScope = ''user'', eName = ''tea'', eContent = ''oolong'', eMeta = None, eHash = Hash ''oolong'', eMetaHash = [],
     eUpdated = 62000000000000000000, eDeleted = False\<rparr>"

lemma sample_times: "year_fits sample_time" "ValidString ''s1''" "wf_gomap (eMeta sample_entry)"
  by code_simp+

lemma text_no_opts: "text_opts []"
  by (simp add: text_opts_def ResolvePutOptions_def zeroPutOptions_def ValidString_def)

lemma Check_no_opts: "Check (ResolvePutOptions []) sc n stored = None"
  by (simp add: Check_def ResolvePutOptions_def zeroPutOptions_def)

lemma sample_inv: "jinv new_store" "jinv hand_store"
proof -
  have "map_of [] journalName = None" "map_of [] stateName = None" by simp_all
  then show "jinv new_store" unfolding new_store_def by (rule jinv_Open)
  have "map_of [(''user'', Directory), (''user/tea.md'', Regular ''oolong'' 62000000000000000000)] journalName = None"
    "map_of [(''user'', Directory), (''user/tea.md'', Regular ''oolong'' 62000000000000000000)] stateName = None" by (simp_all add: journalName_def stateName_def)
  then show "jinv hand_store" unfolding hand_store_def by (rule jinv_Open)
qed

lemma sample_files:
  "openJournal new_store = Inr None" "openJournal hand_store = Inr None" "fsMax new_store = 4096" "fsMax hand_store = 4096"
  "fsTime new_store = sample_time" "fsTime hand_store = sample_time"
  "readEntry ''user'' ''tea'' new_store = Inr None" "readEntry ''user'' ''tea'' hand_store = Inr (Some hand_entry)"
  "writable new_store ''user'' ''tea''" "writable hand_store ''user'' ''tea''"
proof -
  have d: "decode_entry ''oolong'' = \<lparr>dcMeta = None, dcUpdated = 0, dcContent = ''oolong''\<rparr>" by code_simp
  show "openJournal new_store = Inr None" "openJournal hand_store = Inr None"
    by (simp_all add: openJournal_def readRegular_def new_store_def hand_store_def Lstat_Open journalName_def)
  show "fsMax new_store = 4096" "fsMax hand_store = 4096" "fsTime new_store = sample_time" "fsTime hand_store = sample_time"
    by (simp_all add: new_store_def hand_store_def Open_def DefaultMaxEntryBytes_def)
  show "readEntry ''user'' ''tea'' new_store = Inr None" "readEntry ''user'' ''tea'' hand_store = Inr (Some hand_entry)"
    by (simp_all add: readEntry_def scopeIsDir_def readRegular_def new_store_def hand_store_def Lstat_Open entryName_def d hand_entry_def)
  show "writable new_store ''user'' ''tea''" "writable hand_store ''user'' ''tea''"
    by (simp_all add: writable_def new_store_def hand_store_def Lstat_Open entryName_def indexName_def stateName_def) (simp_all add: Open_def)
qed

lemma sample_journals: "file_journal new_store = []" "file_journal hand_store = []"
  by (simp_all add: file_journal_def FileReadJournal_def sample_files readJournal_def scanJournal_def)

lemma sample_file_put:
  "\<exists>c s. FilePut ''s1'' sample_time sample_entry [] new_store = (Inr c, s)" "\<exists>c s. FilePut ''s1'' sample_time sample_entry [] hand_store = (Inr c, s)"
  by (rule FilePut_ok; simp add: sample_inv sample_files sample_entry_ok sample_times text_no_opts sample_journals Check_no_opts)+

section \<open>The journal and the cursor\<close>





section \<open>Writes\<close>

text \<open>C35: a put whose entry passes the checks succeeds when the lock is to be had, no write is denied and nothing that is not the store's stands on its paths,
  whatever the journal, the cursor and the other files hold.\<close>

theorem file_put_succeeds:
  assumes "jinv s" "writable s (eScope e) (eName e)" "CheckEntry e (fsMax s) stored = None" "wf_gomap (eMeta e)" "ValidString session" "text_opts opts"
    "length (file_journal s) + 2 < 2 ^ 64" "year_fits now" "year_fits (fsTime s)"
    "readEntry (eScope e) (eName e) s = Inr stored" "Check (ResolvePutOptions opts) (eScope e) (eName e) stored = None"
  shows "\<exists>c s'. FilePut session now e opts s = (Inr c, s')"
  using FilePut_ok [OF assms(1,2) _ assms(4-11)] assms(3) by (simp add: CheckEntry_None)

theorem file_put_succeeds_witness: "\<exists>c s. FilePut ''s1'' sample_time sample_entry [] hand_store = (Inr c, s)"
  by (rule file_put_succeeds; simp add: sample_inv sample_files CheckEntry_None sample_entry_ok sample_times text_no_opts sample_journals Check_no_opts)

text \<open>A directory: a path lies below a directory.\<close>

definition wf_tree :: "FileStore \<Rightarrow> bool" where
  "wf_tree s \<longleftrightarrow> (\<forall>dir p. Lstat s (dir @ ''/'' @ p) \<noteq> None \<longrightarrow> Lstat s dir = Some Directory)"

lemma entryName_inj: "ValidName sc \<Longrightarrow> ValidName sc' \<Longrightarrow> entryName sc n = entryName sc' n' \<longleftrightarrow> sc = sc' \<and> n = n'"
  using ValidName_excludes(1) cut_unique [of "CHR ''/''" sc sc' "n @ ''.md''" "n' @ ''.md''"] by (auto simp: entryName_def)

lemma readEntry_same:
  assumes "Lstat s' sc = Lstat s sc" "Lstat s' (entryName sc n) = Lstat s (entryName sc n)"
  shows "readEntry sc n s' = readEntry sc n s"
proof -
  have "scopeIsDir sc s' = scopeIsDir sc s" "readRegular (entryName sc n) s' = readRegular (entryName sc n) s"
    using assms by (simp_all add: scopeIsDir_def readRegular_def)
  then show ?thesis by (simp only: readEntry_def)
qed

lemma readEntry_other:
  assumes v: "ValidName sc" "ValidName n" "ValidName sc'" "ValidName n'" "(sc', n') \<noteq> (sc, n)" and t: "wf_tree s"
    and c: "changed_only (put_paths sc n \<union> {journalName, stateName}) s s'" and d: "Lstat s' sc = Some Directory" "Lstat s sc \<in> {None, Some Directory}"
  shows "readEntry sc' n' s' = readEntry sc' n' s"
proof -
  have sl: "CHR ''/'' \<in> set (entryName sc' n')" "CHR ''/'' \<notin> set journalName" "CHR ''/'' \<notin> set stateName" "CHR ''/'' \<notin> set sc" "CHR ''/'' \<notin> set sc'"
    using ValidName_excludes(1) v(1,3) by (simp_all add: entryName_def journalName_def stateName_def)
  have "entryName sc' n' \<noteq> sc @ ''/'' @ indexName"
  proof
    assume i: "entryName sc' n' = sc @ ''/'' @ indexName"
    then have "sc' = sc" using cut_unique [of "CHR ''/''" sc' sc "n' @ ''.md''" indexName] sl by (simp add: entryName_def)
    then show False using entry_not_index(1) [OF v(4)] i by simp
  qed
  moreover have "entryName sc' n' \<noteq> entryName sc n" using entryName_inj v by blast
  ultimately have e: "Lstat s' (entryName sc' n') = Lstat s (entryName sc' n')"
    using c sl unfolding changed_only_def put_paths_def by (metis Un_iff empty_iff insert_iff)
  show ?thesis
  proof (cases "sc' = sc \<and> Lstat s sc = None")
    case True
    have "Lstat s (sc' @ ''/'' @ (n' @ ''.md'')) = None" using t True unfolding wf_tree_def by (metis option.distinct(1))
    then have "Lstat s (entryName sc' n') = None" by (simp add: entryName_def)
    then show ?thesis using e d True by (simp add: readEntry_def scopeIsDir_def readRegular_def)
  next
    case False
    have "sc' \<notin> {journalName, stateName}" using scope_paths_apart [OF v(3)] by (auto simp: scope_paths_def)
    moreover have "sc' \<noteq> entryName sc n" "sc' \<noteq> sc @ ''/'' @ indexName" using sl(5) by (auto simp: entryName_def)
    ultimately have "Lstat s' sc' = Lstat s sc'" using False c d by (cases "sc' = sc") (auto simp: changed_only_def put_paths_def)
    then show ?thesis using e by (rule readEntry_same)
  qed
qed

lemma put_read_back:
  assumes "entry_ok e limit" "wf_gomap (eMeta e)" "year_fits now" "now \<noteq> 0" "Lstat s (eScope e) = Some Directory"
    "Lstat s (entryName (eScope e) (eName e)) = Some (Regular (encode_entry (stored_form now e)) t)"
  shows "readEntry (eScope e) (eName e) s = Inr (Some ((stored_form now e)\<lparr>eMeta := canon_meta (eMeta e)\<rparr>))"
proof -
  have ok: "entry_ok (stored_form now e) limit" "wf_gomap (eMeta (stored_form now e))"
    using assms(1,2) normal_stored_form [OF assms(1)] by (simp_all add: normal_entry_def wf_gomap_items)
  have m: "mlen (eMeta (stored_form now e)) = mlen (eMeta e)" by (simp add: mlen_mitems)
  have "year_fits (eUpdated (stored_form now e))" using assms(3) by simp
  then have d: "decode_entry (encode_entry (stored_form now e)) = \<lparr>dcMeta = canon_meta (eMeta e), dcUpdated = now, dcContent = eContent e\<rparr>"
    using decode_encode_entry [OF ok] by (simp add: canon_meta_def m)
  have "\<lparr>eScope = eScope e, eName = eName e, eContent = eContent e, eMeta = canon_meta (eMeta e), eHash = Hash (eContent e),
      eMetaHash = MetaHash (canon_meta (eMeta e)), eUpdated = now, eDeleted = False\<rparr> = (stored_form now e)\<lparr>eMeta := canon_meta (eMeta e)\<rparr>"
    by (cases e) (simp add: stored_form_def cloneEntry_def)
  then show ?thesis using assms(4-6) by (simp add: readEntry_def scopeIsDir_def readRegular_def Let_def d del: MetaHash_canon)
qed

text \<open>C34: after a successful put the store's \<open>Get\<close> reads the entry back from its file as it was put, its metadata in the order of the keys, and every other
  entry reads as it did.\<close>

theorem file_get_after_put:
  assumes "jinv s" "wf_tree s" "length (file_journal s) + 2 < 2 ^ 64" "ValidString session" "text_opts opts" "wf_gomap (eMeta e)" "year_fits now" "now \<noteq> 0"
    "FilePut session now e opts s = (Inr c, s')"
  shows "FileGet (eScope e) (eName e) s' = Inr ((stored_form now e)\<lparr>eMeta := canon_meta (eMeta e)\<rparr>) \<and>
    (\<forall>sc n. (sc, n) \<noteq> (eScope e, eName e) \<longrightarrow> FileGet sc n s' = FileGet sc n s)"
proof -
  obtain stored where p: "readEntry (eScope e) (eName e) s = Inr stored" "entry_ok e (fsMax s)"
    "changed_only (put_paths (eScope e) (eName e) \<union> {journalName, stateName}) s s'" "Lstat s' (eScope e) = Some Directory"
    "Lstat s' (entryName (eScope e) (eName e)) = Some (Regular (encode_entry (stored_form now e)) (fsTime s))"
    "Lstat s (eScope e) \<in> {None, Some Directory}"
    by (rule FilePut_effect [OF assms(1,3-6,9)])
  have v: "ValidName (eScope e)" "ValidName (eName e)" using p(2) by (simp_all add: entry_ok_def)
  have "FileGet (eScope e) (eName e) s' = Inr ((stored_form now e)\<lparr>eMeta := canon_meta (eMeta e)\<rparr>)"
    using put_read_back [OF p(2) assms(6-8) p(4,5)] v by (simp add: FileGet_def checkNames_def ValidScope_def)
  moreover have "FileGet sc n s' = FileGet sc n s" if "(sc, n) \<noteq> (eScope e, eName e)" for sc n
    using readEntry_other [OF v _ _ that assms(2) p(3,4,6)] by (auto simp: FileGet_def checkNames_def ValidScope_def)
  ultimately show ?thesis by blast
qed

theorem file_get_after_put_witness:
  "\<exists>c s. FilePut ''s1'' sample_time sample_entry [] new_store = (Inr c, s) \<and>
    FileGet ''user'' ''tea'' s = Inr ((stored_form sample_time sample_entry)\<lparr>eMeta := canon_meta (eMeta sample_entry)\<rparr>)"
proof -
  obtain c s where p: "FilePut ''s1'' sample_time sample_entry [] new_store = (Inr c, s)" using sample_file_put(1) by blast
  have "wf_tree new_store" by (simp add: wf_tree_def new_store_def Lstat_Open)
  moreover have "sample_time \<noteq> 0" "length (file_journal new_store) + 2 < 2 ^ 64" by (simp_all add: sample_time_def sample_journals)
  ultimately show ?thesis
    using file_get_after_put [OF sample_inv(1) _ _ sample_times(2) text_no_opts sample_times(3,1) _ p] p by simp
qed

lemma put_over_edit:
  assumes "jinv s" "length (file_journal s) + 2 < 2 ^ 64" "ValidString session" "text_opts opts" "wf_gomap (eMeta e)"
    "readEntry (eScope e) (eName e) s = Inr (Some x)" "CheckEntry x (fsMax s) None = None"
    "\<nexists>l. replay (file_journal s) (eScope e, eName e) = Some l \<and> eHash l = eHash x \<and> MetaHash (eMeta l) = MetaHash (eMeta x)"
    "FilePut session now e opts s = (Inr c, s')"
  shows "file_journal s' = file_journal s @ [canon_change ((outsideChange (x\<lparr>eUpdated := fsTime s\<rparr>) (held (file_journal s) (eScope e, eName e)) now)
      \<lparr>cSeq := of_nat (Suc (length (file_journal s)))\<rparr>), canon_change c]" "cReplaced c = eHash x" "eHash x = Hash (eContent x)"
proof -
  obtain st s2 outs stored where p: "readEntry (eScope e) (eName e) s = Inr stored" "entry_ok e (fsMax s)" "loadState s = Inr st" "fsMax s2 = fsMax s"
    "modTime (entryName (eScope e) (eName e)) s2 = Some (fsTime s)"
    "outs = outside_records st (eScope e) (eName e) stored now (length (file_journal s)) s2" "file_journal s' = file_journal s @ outs @ [canon_change c]"
    "c = (put_change session now (ResolvePutOptions opts) stored (stored_form now e) (held (file_journal s @ outs) (eScope e, eName e)))
       \<lparr>cSeq := of_nat (Suc (length (file_journal s @ outs)))\<rparr>"
    by (rule FilePut_effect [OF assms(1-5,9)])
  have x: "stored = Some x" "file_entry (eScope e) (eName e) x" using p(1) assms(6) readEntry_file by auto
  have v: "ValidName (eScope e)" using p(2) by (simp add: entry_ok_def)
  have ok: "entry_ok x (fsMax s2)" using assms(7) p(4) by (simp add: CheckEntry_None)
  note o = outside_records_edit [OF p(3) assms(1) v ok assms(8), of now "length (file_journal s)"]
  let ?d = "canon_change ((outsideChange (x\<lparr>eUpdated := fsTime s\<rparr>) (held (file_journal s) (eScope e, eName e)) now)\<lparr>cSeq := of_nat (Suc (length (file_journal s)))\<rparr>)"
  have outs: "outs = [?d]" using o p(5,6) x(1) by simp
  have "held (file_journal s @ outs) (eScope e, eName e) = eHash x"
    using x(2) outs by (simp add: held_snoc ckey_def outsideChange_def after_hash_def file_entry_def)
  then show "cReplaced c = eHash x" by (subst p(8)) (simp add: put_change_def)
  show "file_journal s' = file_journal s @ [?d, canon_change c]" using p(7) outs by simp
  show "eHash x = Hash (eContent x)" using x(2) by (simp add: file_entry_def)
qed

lemma put_no_edit:
  assumes "jinv s" "length (file_journal s) + 2 < 2 ^ 64" "ValidString session" "text_opts opts" "wf_gomap (eMeta e)"
    "readEntry (eScope e) (eName e) s = Inr (Some x)"
    "(\<exists>l. replay (file_journal s) (eScope e, eName e) = Some l \<and> eHash l = eHash x \<and> MetaHash (eMeta l) = MetaHash (eMeta x)) \<or> CheckEntry x (fsMax s) None \<noteq> None"
    "FilePut session now e opts s = (Inr c, s')"
  shows "file_journal s' = file_journal s @ [canon_change c]" "cReplaced c = held (file_journal s) (eScope e, eName e)"
    "cPrev c = eHash x \<Longrightarrow> held (file_journal s) (eScope e, eName e) = eHash x"
proof -
  obtain st s2 outs stored where p: "readEntry (eScope e) (eName e) s = Inr stored" "entry_ok e (fsMax s)" "loadState s = Inr st" "fsMax s2 = fsMax s"
    "outs = outside_records st (eScope e) (eName e) stored now (length (file_journal s)) s2" "file_journal s' = file_journal s @ outs @ [canon_change c]"
    "c = (put_change session now (ResolvePutOptions opts) stored (stored_form now e) (held (file_journal s @ outs) (eScope e, eName e)))
       \<lparr>cSeq := of_nat (Suc (length (file_journal s @ outs)))\<rparr>"
    by (rule FilePut_effect [OF assms(1-5,8)])
  have x: "stored = Some x" using p(1) assms(6) by simp
  have "ValidName (eScope e)" using p(2) by (simp add: entry_ok_def)
  then have outs: "outs = []" using outside_records_none [OF p(3) assms(1), of "eScope e" "eName e" x s2] assms(7) p(4,5) x by simp
  with p(6) show "file_journal s' = file_journal s @ [canon_change c]" by simp
  show "cReplaced c = held (file_journal s) (eScope e, eName e)" by (subst p(7)) (simp add: put_change_def outs)
  show "cPrev c = eHash x \<Longrightarrow> held (file_journal s) (eScope e, eName e) = eHash x"
    by (subst (asm) p(7)) (auto simp: put_change_def put_prev_def Let_def hash_of_def outs x split: if_splits)
qed

text \<open>C33: a put over an entry file keeps what a person left in it.  When the file's content or its metadata is not what the journal last says of the entry,
  and the entry check accepts the file, the put first records the person's version, made by nobody, in place of the journal's last state, and then its own as the
  replacement of the person's version.  When the file is what the journal says, or one the check refuses and the journal therefore cannot hold, the put adds its own record alone,
  and that record chains to the journal's last state: it neither replaces nor is based on content that no record holds.\<close>

theorem put_keeps_outside_edit:
  assumes "jinv s" "length (file_journal s) + 2 < 2 ^ 64" "ValidString session" "text_opts opts" "wf_gomap (eMeta e)"
    "readEntry (eScope e) (eName e) s = Inr (Some x)" "FilePut session now e opts s = (Inr c, s')"
  shows "if (\<exists>l. replay (file_journal s) (eScope e, eName e) = Some l \<and> eHash l = eHash x \<and> MetaHash (eMeta l) = MetaHash (eMeta x)) \<or> CheckEntry x (fsMax s) None \<noteq> None
    then file_journal s' = file_journal s @ [canon_change c] \<and> cReplaced c = held (file_journal s) (eScope e, eName e) \<and>
      (cPrev c = eHash x \<longrightarrow> held (file_journal s) (eScope e, eName e) = eHash x)
    else \<exists>d. file_journal s' = file_journal s @ [d, canon_change c] \<and> eContent (cEntry d) = eContent x \<and> MetaHash (eMeta (cEntry d)) = MetaHash (eMeta x) \<and>
      cSession d = [] \<and> cSource d = SourceReconciled \<and> cReplaced d = held (file_journal s) (eScope e, eName e) \<and> cPrev d = cReplaced d \<and>
      cReplaced c = Hash (eContent x)"
proof (cases "(\<exists>l. replay (file_journal s) (eScope e, eName e) = Some l \<and> eHash l = eHash x \<and> MetaHash (eMeta l) = MetaHash (eMeta x)) \<or> CheckEntry x (fsMax s) None \<noteq> None")
  case True
  from put_no_edit [OF assms(1-6) True assms(7)] show ?thesis using True by simp
next
  case False
  then have "CheckEntry x (fsMax s) None = None"
    "\<nexists>l. replay (file_journal s) (eScope e, eName e) = Some l \<and> eHash l = eHash x \<and> MetaHash (eMeta l) = MetaHash (eMeta x)" by blast+
  note o = put_over_edit [OF assms(1-6) this assms(7)]
  show ?thesis unfolding if_not_P [OF False] by (intro exI conjI) (rule o(1), simp_all add: outsideChange_def o(2,3))
qed

lemma hand_entry_ok: "CheckEntry hand_entry 4096 None = None"
proof -
  have "ValidName ''user''" "ValidName ''tea''" "ValidString ''oolong''" by code_simp+
  then show ?thesis by (simp add: CheckEntry_None entry_ok_def hand_entry_def meta_ok_def meta_bytes_def Size_def)
qed

lemma hand_put:
  obtains c s where "FilePut ''s1'' sample_time sample_entry [] hand_store = (Inr c, s)"
    "length (file_journal hand_store) + 2 < 2 ^ 64" "readEntry (eScope sample_entry) (eName sample_entry) hand_store = Inr (Some hand_entry)"
    "CheckEntry hand_entry (fsMax hand_store) None = None"
    "\<forall>l. replay (file_journal hand_store) (eScope sample_entry, eName sample_entry) = Some l \<longrightarrow> eHash l \<noteq> eHash hand_entry"
  using sample_file_put(2) that by (auto simp: sample_journals sample_files hand_entry_ok replay_def)

theorem put_keeps_outside_edit_witness:
  "\<exists>c s d. FilePut ''s1'' sample_time sample_entry [] hand_store = (Inr c, s) \<and> file_journal s = [d, canon_change c] \<and>
    eContent (cEntry d) = ''oolong'' \<and> cReplaced c = Hash ''oolong''"
proof -
  obtain c s where p: "FilePut ''s1'' sample_time sample_entry [] hand_store = (Inr c, s)"
    "length (file_journal hand_store) + 2 < 2 ^ 64" "readEntry (eScope sample_entry) (eName sample_entry) hand_store = Inr (Some hand_entry)"
    "CheckEntry hand_entry (fsMax hand_store) None = None"
    "\<forall>l. replay (file_journal hand_store) (eScope sample_entry, eName sample_entry) = Some l \<longrightarrow> eHash l \<noteq> eHash hand_entry"
    by (rule hand_put)
  from put_keeps_outside_edit [OF sample_inv(2) p(2) sample_times(2) text_no_opts sample_times(3) p(3,1)] p(1,4) show ?thesis
    by (auto simp: sample_journals replay_def) (auto simp: hand_entry_def)
qed

text \<open>C37: that record does not carry the time the person changed the file: the put has already written its own version, and the time read back from the
  path is the one the file system gave that write.\<close>

theorem outside_edit_loses_its_time:
  assumes "jinv s" "length (file_journal s) + 2 < 2 ^ 64" "ValidString session" "text_opts opts" "wf_gomap (eMeta e)"
    "readEntry (eScope e) (eName e) s = Inr (Some x)" "CheckEntry x (fsMax s) None = None"
    "\<forall>l. replay (file_journal s) (eScope e, eName e) = Some l \<longrightarrow> eHash l \<noteq> eHash x"
    "FilePut session now e opts s = (Inr c, s')" "Lstat s (entryName (eScope e) (eName e)) = Some (Regular data t)" "t \<noteq> fsTime s"
  shows "\<exists>d. file_journal s' = file_journal s @ [d, canon_change c] \<and> eContent (cEntry d) = eContent x \<and> eUpdated (cEntry d) = fsTime s \<and> eUpdated (cEntry d) \<noteq> t"
proof -
  have "\<nexists>l. replay (file_journal s) (eScope e, eName e) = Some l \<and> eHash l = eHash x \<and> MetaHash (eMeta l) = MetaHash (eMeta x)" using assms(8) by blast
  from put_over_edit(1) [OF assms(1-7) this assms(9)] assms(11) show ?thesis by (intro exI conjI) (assumption, simp_all add: outsideChange_def)
qed

theorem outside_edit_loses_its_time_witness:
  "\<exists>c s d. FilePut ''s1'' sample_time sample_entry [] hand_store = (Inr c, s) \<and> file_journal s = [d, canon_change c] \<and>
    eContent (cEntry d) = ''oolong'' \<and> eUpdated (cEntry d) = 63000000000000000000"
proof -
  obtain c s where p: "FilePut ''s1'' sample_time sample_entry [] hand_store = (Inr c, s)"
    "length (file_journal hand_store) + 2 < 2 ^ 64" "readEntry (eScope sample_entry) (eName sample_entry) hand_store = Inr (Some hand_entry)"
    "CheckEntry hand_entry (fsMax hand_store) None = None"
    "\<forall>l. replay (file_journal hand_store) (eScope sample_entry, eName sample_entry) = Some l \<longrightarrow> eHash l \<noteq> eHash hand_entry"
    by (rule hand_put)
  have f: "Lstat hand_store (entryName (eScope sample_entry) (eName sample_entry)) = Some (Regular ''oolong'' 62000000000000000000)"
    "62000000000000000000 \<noteq> fsTime hand_store" by (simp_all add: hand_store_def Lstat_Open entryName_def) (simp add: Open_def sample_time_def)
  from outside_edit_loses_its_time [OF sample_inv(2) p(2) sample_times(2) text_no_opts sample_times(3) p(3-5,1) f] p(1) show ?thesis
    by (auto simp: sample_journals hand_entry_def sample_files sample_time_def)
qed

end
