(* ===== verification/FileReconcile.thy ===== *)
theory FileReconcile
  imports FileUse
begin

text \<open>
  Reconciling: after a run without an error the journal's last word on every entry is what the entry files hold, and a second run finds nothing and writes
  nothing.
\<close>

section \<open>The entries found are the entries there are\<close>

lemma read_names_all:
  "read_names sc des s = Inr es \<Longrightarrow> (f, nd) \<in> set des \<Longrightarrow> HasSuffix f ''.md'' \<Longrightarrow> nd \<notin> {Directory, Link} \<Longrightarrow> ValidName (TrimSuffix f ''.md'') \<Longrightarrow>
     readEntry sc (TrimSuffix f ''.md'') s = Inr (Some e) \<Longrightarrow> e \<in> set es"
  by (induction sc des s arbitrary: es rule: read_names.induct) (auto split: if_splits sum.splits option.splits)

lemma readEntry_paths:
  "readEntry sc n s = Inr (Some e) \<Longrightarrow> Lstat s sc = Some Directory \<and> (\<exists>data t. Lstat s (entryName sc n) = Some (Regular data t))"
  by (auto simp: readEntry_def scopeIsDir_def readRegular_def split: sum.splits option.splits bool.splits node.splits)

lemma listScope_all:
  assumes "listScope sc s = Inr es" "ValidName sc" "ValidName n" "readEntry sc n s = Inr (Some e)"
  shows "e \<in> set es"
proof -
  obtain data t where p: "Lstat s sc = Some Directory" "Lstat s (entryName sc n) = Some (Regular data t)" using readEntry_paths [OF assms(4)] by blast
  have "(entryName sc n, Regular data t) \<in> set (fsNodes s)" using p(2) by (simp add: Lstat_def map_of_SomeD)
  moreover have "drop (length sc + 1) (entryName sc n) = n @ ''.md''" "HasPrefix (entryName sc n) (sc @ ''/'')" by (simp_all add: entryName_def gostr)
  moreover have "sc \<noteq> ''.''" using dot_not_name [of sc] assms(2) by auto
  ultimately have m: "(n @ ''.md'', Regular data t) \<in> set (ReadDir sc s)"
    using ValidName_excludes(1) [OF assms(3)] unfolding ReadDir_def Let_def by (force simp: image_iff)
  obtain ns where ns: "read_names sc (ReadDir sc s) s = Inr ns" "set es = set ns"
    using assms(1) p(1) by (auto simp: listScope_def scopeIsDir_def split: sum.splits)
  have t: "TrimSuffix (n @ ''.md'') ''.md'' = n" "HasSuffix (n @ ''.md'') ''.md''" by (simp_all add: TrimSuffix_def gostr)
  show ?thesis using read_names_all [OF ns(1) m t(2)] t(1) assms(3,4) ns(2) by simp
qed

lemma scopes_of_all: "scopes_of des = Inr scs \<Longrightarrow> (sc, Directory) \<in> set des \<Longrightarrow> ValidName sc \<Longrightarrow> sc \<in> set scs"
  by (induction des arbitrary: scs rule: scopes_of.induct) (auto split: if_splits sum.splits)

lemma live_entries_all:
  "live_entries scopes s = Inr live \<Longrightarrow> sc \<in> set scopes \<Longrightarrow> ValidName sc \<Longrightarrow> ValidName n \<Longrightarrow> readEntry sc n s = Inr (Some e) \<Longrightarrow> (key sc n, e) \<in> set live"
proof (induction scopes s arbitrary: live rule: live_entries.induct)
  case (2 sc0 scopes s)
  obtain es ls where l: "listScope sc0 s = Inr es" "live_entries scopes s = Inr ls" "live = map (\<lambda>e. (key (eScope e) (eName e), e)) es @ ls"
    using "2.prems"(1) by (auto split: sum.splits)
  show ?case
  proof (cases "sc = sc0")
    case True
    then have "e \<in> set es" using listScope_all [OF l(1)] "2.prems"(3-5) by blast
    moreover have "key (eScope e) (eName e) = key sc n" using readEntry_file [OF "2.prems"(5)] by (simp add: file_entry_def)
    ultimately show ?thesis using l(3) by force
  next
    case False
    then show ?thesis using "2.IH" [OF l(1,2)] "2.prems" l(3) by auto
  qed
qed simp

lemma live_spec:
  assumes "fileScopes s = Inr scopes" "live_entries scopes s = Inr live" "ValidName sc" "ValidName n"
  shows "map_of live (key sc n) = Some e \<longleftrightarrow> readEntry sc n s = Inr (Some e)"
proof -
  have found: "readEntry sc n s = Inr (Some x)" if k: "(key sc n, x) \<in> set live" for x
  proof -
    obtain sc' n' where x: "sc' \<in> set scopes" "ValidName n'" "key sc n = key sc' n'" "readEntry sc' n' s = Inr (Some x)"
      using live_entries_in [OF assms(2) k] by blast
    have "ValidName sc'" using scopes_of_valid assms(1) x(1) unfolding fileScopes_def by blast
    with x key_inj [OF assms(3)] show ?thesis by auto
  qed
  show ?thesis
  proof
    assume "map_of live (key sc n) = Some e"
    then show "readEntry sc n s = Inr (Some e)" using found map_of_SomeD by fast
  next
    assume r: "readEntry sc n s = Inr (Some e)"
    have "(sc, Directory) \<in> set (fsNodes s)" using readEntry_paths [OF r] by (auto simp: Lstat_def dest: map_of_SomeD)
    then have "(sc, Directory) \<in> set (ReadDir ''.'' s)" using ValidName_excludes(1) [OF assms(3)] by (simp add: ReadDir_def)
    then have "sc \<in> set scopes" using scopes_of_all assms(1,3) unfolding fileScopes_def by blast
    from live_entries_all [OF assms(2) this assms(3,4) r] obtain x where x: "map_of live (key sc n) = Some x" using weak_map_of_SomeI by fast
    then have "readEntry sc n s = Inr (Some x)" using found map_of_SomeD by fast
    with r x show "map_of live (key sc n) = Some e" by simp
  qed
qed

lemma live_keys:
  assumes "fileScopes s = Inr scopes" "live_entries scopes s = Inr live" "map_of live k = Some e"
  obtains sc n where "k = key sc n" "ValidName sc" "ValidName n"
  using live_entries_in [OF assms(2) map_of_SomeD [OF assms(3)]] scopes_of_valid assms(1) that unfolding fileScopes_def by blast

section \<open>A run settles every entry\<close>

definition agreed :: "FileStore \<Rightarrow> scope \<Rightarrow> string \<Rightarrow> Change list \<Rightarrow> bool" where
  "agreed s sc n rs \<longleftrightarrow> (case readEntry sc n s of
     Inr (Some e) \<Rightarrow> CheckEntry e (fsMax s) None = None \<longrightarrow> (\<exists>l. replay rs (sc, n) = Some l \<and> eHash l = eHash e \<and> MetaHash (eMeta l) = MetaHash (eMeta e))
   | _ \<Rightarrow> replay rs (sc, n) = None)"

lemma settled_agreed:
  assumes "fileScopes s = Inr scopes" "live_entries scopes s = Inr live" "ValidName sc" "ValidName n" "\<forall>c \<in> set rs. named c"
    "settled (fsMax s) live (last_states rs) (key sc n)"
  shows "agreed s sc n rs"
proof -
  note ls = last_states_replay [OF assms(5,3), of n]
  show ?thesis
  proof (cases "map_of live (key sc n)")
    case None
    then have "readEntry sc n s \<noteq> Inr (Some e)" for e using live_spec [OF assms(1-4)] by simp
    then show ?thesis using assms(6) None ls by (auto simp: agreed_def settled_def split: sum.split option.split)
  next
    case (Some e)
    then have "readEntry sc n s = Inr (Some e)" using live_spec [OF assms(1-4)] by simp
    then show ?thesis using assms(6) Some ls by (auto simp: agreed_def settled_def CheckEntry_None agrees_def state_of_def)
  qed
qed

text \<open>C36: after a reconciliation without an error the journal's last word on every entry is what its file holds: for a file the store can journal, its
  content and metadata by their hashes, and no live entry where there is no file; and what it returned is what it added to the journal.\<close>

theorem reconcile_agrees:
  assumes "jinv s" "Reconcile now s = ((changes, None), s')" "length (file_journal s) + length changes + 1 < 2 ^ 64" "ValidName sc" "ValidName n"
  shows "agreed s sc n (file_journal s') \<and> file_journal s' = file_journal s @ map canon_change changes"
proof -
  note r = Reconcile_run [OF assms(1-3)]
  then obtain scopes live where "fileScopes s = Inr scopes" "live_entries scopes s = Inr live" "settled (fsMax s) live (last_states (file_journal s')) (key sc n)"
    by (auto simp: reconcile_done_def)
  moreover have "\<forall>c \<in> set (file_journal s'). named c" using r jinv_journal jok_named by (fastforce simp: jinv_def)
  ultimately show ?thesis using settled_agreed assms(4,5) r by blast
qed

section \<open>The sample store reconciled\<close>

lemma hand_live:
  "fileScopes hand_store = Inr [''user'']" "live_entries [''user''] hand_store = Inr [(''user/tea'', hand_entry)]"
proof -
  have v: "ValidName ''user''" "ValidName ''tea''" "\<not> ValidName ''user/tea.md''" by code_simp+
  have n: "fsNodes hand_store = [(''user'', Directory), (''user/tea.md'', Regular ''oolong'' 62000000000000000000)]"
    by (simp add: hand_store_def Open_def)
  have d: "ReadDir ''.'' hand_store = [(''user'', Directory)]" "ReadDir ''user'' hand_store = [(''tea.md'', Regular ''oolong'' 62000000000000000000)]"
    by (simp_all add: ReadDir_def n HasPrefix_def)
  show "fileScopes hand_store = Inr [''user'']" by (simp add: fileScopes_def d v)
  have t: "HasSuffix ''tea.md'' ''.md''" "TrimSuffix ''tea.md'' ''.md'' = ''tea''" by code_simp+
  have "listScope ''user'' hand_store = Inr [hand_entry]"
    using sample_files(8) by (simp add: listScope_def scopeIsDir_def Lstat_def n d t v)
  then show "live_entries [''user''] hand_store = Inr [(''user/tea'', hand_entry)]" by (simp add: hand_entry_def key_def)
qed

lemma hand_reconciled: "\<exists>c s. Reconcile sample_time hand_store = (([c], None), s)"
proof -
  let ?k = "''user/tea''"
  have k: "?k = key ''user'' ''tea''" and v: "ValidName ''user''" "ValidName ''tea''" by (simp add: key_def) code_simp+
  obtain j where j: "openJournal hand_store = Inr j" "jok (journal_data j)" "honest (readState hand_store) (journal_data j)"
    using sample_inv(2) by (auto simp: jinv_def)
  obtain st where st: "loadState hand_store = Inr st" "tracks st (journal_data j)" using load_tracks [OF j(1,3)] by blast
  have l: "logged (journal_data j) [] st hand_store" using logged_start [OF j(1,2) st(2)] .
  have rn: "recs (journal_data j) = []" using jinv_journal [OF j(1,2)] sample_journals(2) by simp
  then have "map_of (jsEntries st) = Map.empty" using st(2) by (simp add: tracks_def)
  then have e: "jsEntries st = []" by (cases "jsEntries st") (auto split: if_splits dest: fun_cong)
  have f: "modTime (entryName ''user'' ''tea'') hand_store = Some 62000000000000000000"
    by (simp add: modTime_def hand_store_def Lstat_Open entryName_def)
  have y: "year_fits 62000000000000000000" by code_simp
  let ?c = "outsideChange (hand_entry\<lparr>eUpdated := 62000000000000000000\<rparr>) [] sample_time"
  have o: "outside st ''user'' ''tea'' (Some hand_entry) sample_time hand_store = Inr (Some ?c)"
    using hand_entry_ok by (simp add: outside_def e f sample_files)
  have free: "\<forall>p. \<not> fsDeny hand_store p" "fsLocked hand_store = None" by (simp_all add: hand_store_def Open_def)
  have "year_fits (eUpdated (cEntry ?c))" "year_fits (cAt ?c)" by (simp_all add: outsideChange_def y sample_times)
  then obtain c' st1 s1 where a: "appendChange st ?c hand_store = (Inr (c', st1), s1)" using appendChange_ok [OF l] free(1) by blast
  have fe: "pred_option (file_entry ''user'' ''tea'') (map_of [(?k, hand_entry)] (key ''user'' ''tea''))"
    using readEntry_file [OF sample_files(8)] by (simp add: key_def)
  have "outside st ''user'' ''tea'' (map_of [(?k, hand_entry)] (key ''user'' ''tea'')) sample_time hand_store = Inr (Some ?c)" using o by (simp add: key_def)
  from outside_appended(1,3) [OF l v fe this _ a] rn have b: "changed_only {journalName} hand_store s1" "logged (journal_data j) [canon_change c'] st1 s1" "ckey c' = (''user'', ''tea'')"
    by simp_all
  have loop: "reconcile_loop [(?k, hand_entry)] sample_time [?k] st [] hand_store = (([c'], None, st1), s1)"
    using cut_key [OF v(1), of "''tea''"] o a by (simp add: key_def)
  have free1: "\<forall>p. \<not> fsDeny s1 p" "Lstat s1 stateName \<noteq> Some Directory" "Lstat s1 ''user'' = Some Directory" "Lstat s1 ''user/INDEX.md'' = None"
    using b(1) free(1) by (simp_all add: changed_only_def hand_store_def Lstat_Open stateName_def journalName_def)
  have fin: "\<exists>s'. finishReconcile st st1 [c'] s1 = (None, s')"
  proof -
    obtain sv where sv: "saveState st1 s1 = (Inr (), sv)" using saveState_ok [OF free1(1,2)] by blast
    obtain s2 where s2: "(if \<not> jsRead st1 \<or> jsSeq st1 \<noteq> jsSeq st \<or> jsOff st1 \<noteq> jsOff st then saveState st1 s1 else (Inr (), s1)) = (Inr (), s2)"
      "changed_only {stateName} s1 s2" using sv saveState_changes [OF sv] that [of sv] that [of s1]
      by (cases "\<not> jsRead st1 \<or> jsSeq st1 \<noteq> jsSeq st \<or> jsOff st1 \<noteq> jsOff st") simp_all
    have "\<forall>p. \<not> fsDeny s2 p" "Lstat s2 ''user'' = Some Directory" "Lstat s2 (''user'' @ ''/'' @ indexName) \<noteq> Some Directory"
      using s2(2) free1 by (auto simp: changed_only_def stateName_def indexName_def)
    then obtain s3 where "reindex ''user'' s2 = (Inr (), s3)" using reindex_ok [OF v(1)] by blast
    then show ?thesis using s2(1) b(3) by (simp add: finishReconcile_def ckey_def fs_bind_def)
  qed
  then show ?thesis using st(1) hand_live free(2) loop by (auto simp: Reconcile_def e)
qed

theorem reconcile_agrees_witness:
  "\<exists>c s. Reconcile sample_time hand_store = (([c], None), s) \<and> agreed hand_store ''user'' ''tea'' (file_journal s) \<and> file_journal s = [canon_change c]"
proof -
  obtain c s where r: "Reconcile sample_time hand_store = (([c], None), s)" using hand_reconciled by blast
  have "ValidName ''user''" "ValidName ''tea''" by code_simp+
  with reconcile_agrees [OF sample_inv(2) r, of "''user''" "''tea''"] r show ?thesis by (auto simp: sample_journals)
qed

section \<open>A second run\<close>

lemma settled_outside:
  "settled (fsMax s) live (map_of (jsEntries st)) (key sc n) \<Longrightarrow> outside st sc n (map_of live (key sc n)) now s = Inr None"
  by (auto simp: settled_def outside_def Let_def CheckEntry_None split: option.splits)

lemma quiet_loop:
  "entry_keys live keys \<Longrightarrow> \<forall>k \<in> set keys. settled (fsMax s) live (map_of (jsEntries st)) k \<Longrightarrow> reconcile_loop live now keys st changes s = ((changes, None, st), s)"
proof (induction keys)
  case (Cons k keys)
  obtain sc n where k: "k = key sc n" "ValidName sc" using Cons.prems(1) by (auto simp: entry_keys_def)
  have "outside st sc n (map_of live k) now s = Inr None" using settled_outside Cons.prems(2) k(1) by simp
  moreover have "entry_keys live keys" using Cons.prems(1) by (simp add: entry_keys_def)
  ultimately show ?case using Cons cut_key [OF k(2), of n, folded k(1)] by simp
qed simp

lemma quiet_reconcile:
  assumes "fsLocked s = None" "loadState s = Inr st" "jsRead st" "fileScopes s = Inr scopes" "live_entries scopes s = Inr live" "logged data [] st s"
    "\<And>k. settled (fsMax s) live (last_states (file_journal s)) k"
  shows "Reconcile now s = (([], None), s)"
proof -
  have "settled (fsMax s) live (map_of (jsEntries st)) k" for k using assms(7) logged_states [OF assms(6)] logged_journal [OF assms(6)] by simp
  then have "reconcile_loop live now (sort (remdups (map fst live @ map fst (jsEntries st)))) st [] s = (([], None, st), s)"
    by (intro quiet_loop [OF reconcile_keys [OF assms(4-6)]]) blast
  then show ?thesis using assms(1-5) by (simp add: Reconcile_def finishReconcile_def)
qed

lemma fileScopes_iff:
  assumes "wf_nodes s"
  shows "(\<exists>scs. fileScopes s = Inr scs) \<longleftrightarrow> (\<forall>sc. ValidName sc \<longrightarrow> Lstat s sc \<noteq> Some Link)"
proof -
  have s: "(\<exists>scs. scopes_of des = Inr scs) \<longleftrightarrow> (\<forall>(f, nd) \<in> set des. ValidName f \<longrightarrow> nd \<noteq> Link)" for des
    by (induction des rule: scopes_of.induct) (auto split: sum.splits)
  have "(sc, nd) \<in> set (ReadDir ''.'' s) \<longleftrightarrow> Lstat s sc = Some nd" if "ValidName sc" for sc nd
    using that ValidName_excludes(1) assms by (auto simp: ReadDir_def Lstat_def wf_nodes_def)
  then show ?thesis unfolding fileScopes_def s by blast
qed

lemma live_entries_ok: "\<forall>sc \<in> set scopes. Lstat s sc \<noteq> Some Link \<Longrightarrow> \<exists>live. live_entries scopes s = Inr live"
proof (induction scopes)
  case (Cons sc scopes)
  have "\<exists>es. listScope sc s = Inr es"
  proof (cases "Lstat s sc = Some Directory")
    case True
    then show ?thesis using read_names_ok [OF True, of "ReadDir sc s"] by (auto simp: listScope_def scopeIsDir_def)
  next
    case False
    then have "scopeIsDir sc s = Inr False" using Cons.prems by (auto simp: scopeIsDir_def split: option.split node.split)
    then show ?thesis by (simp add: listScope_def)
  qed
  then show ?case using Cons by (auto split: sum.split)
qed simp

lemma kept_readEntry:
  assumes c: "changed_only (index_paths \<union> {journalName, stateName}) s s'" and t: "wf_tree s" and v: "ValidName sc" "ValidName n"
  shows "readEntry sc n s' = readEntry sc n s"
proof -
  have sl: "CHR ''/'' \<in> set (entryName sc n)" "CHR ''/'' \<notin> set journalName" "CHR ''/'' \<notin> set stateName" by (simp_all add: entryName_def journalName_def stateName_def)
  have "entryName sc n \<noteq> sc' @ ''/'' @ indexName" if "ValidName sc'" for sc'
  proof
    assume i: "entryName sc n = sc' @ ''/'' @ indexName"
    then have "sc = sc'" using cut_unique [of "CHR ''/''" sc sc' "n @ ''.md''" indexName] ValidName_excludes(1) v(1) that by (simp add: entryName_def)
    then show False using entry_not_index(1) [OF v(2)] i by simp
  qed
  moreover have "entryName sc n \<noteq> sc'" if "ValidName sc'" for sc' using ValidName_excludes(1) [OF that] sl(1) by auto
  ultimately have "entryName sc n \<notin> index_paths \<union> {journalName, stateName}" using sl by (auto simp: index_paths_def)
  then have e: "Lstat s' (entryName sc n) = Lstat s (entryName sc n)" using c by (simp add: changed_only_def)
  have "\<not> own_name sc" using ValidName_excludes(1) [OF v(1)] scope_paths_apart [OF v(1)] by (auto simp: own_name_def scope_paths_def)
  then consider "Lstat s' sc = Lstat s sc" | "Lstat s sc = None" "Lstat s' sc = Some Directory" using c by (auto simp: changed_only_def dirs_kept_def)
  then show ?thesis
  proof cases
    case 1
    then show ?thesis using e by (rule readEntry_same)
  next
    case 2
    have "Lstat s (sc @ ''/'' @ (n @ ''.md'')) = None" using t 2 unfolding wf_tree_def by (metis option.distinct(1))
    then have "Lstat s (entryName sc n) = None" by (simp add: entryName_def)
    then show ?thesis using e 2 by (simp add: readEntry_def scopeIsDir_def readRegular_def)
  qed
qed

lemma live_same:
  assumes "fileScopes s = Inr scopes" "live_entries scopes s = Inr live" "fileScopes s' = Inr scopes'" "live_entries scopes' s' = Inr live'"
    "\<And>sc n. ValidName sc \<Longrightarrow> ValidName n \<Longrightarrow> readEntry sc n s' = readEntry sc n s"
  shows "map_of live' k = map_of live k"
proof -
  have "map_of live' k = Some e \<longleftrightarrow> map_of live k = Some e" for e
  proof
    assume a: "map_of live' k = Some e"
    then obtain sc n where k: "k = key sc n" "ValidName sc" "ValidName n" using live_keys [OF assms(3,4) a] by blast
    show "map_of live k = Some e" using a live_spec [OF assms(3,4) k(2,3)] live_spec [OF assms(1,2) k(2,3)] assms(5) [OF k(2,3)] k(1) by simp
  next
    assume a: "map_of live k = Some e"
    then obtain sc n where k: "k = key sc n" "ValidName sc" "ValidName n" using live_keys [OF assms(1,2) a] by blast
    show "map_of live' k = Some e" using a live_spec [OF assms(3,4) k(2,3)] live_spec [OF assms(1,2) k(2,3)] assms(5) [OF k(2,3)] k(1) by simp
  qed
  then show ?thesis by (metis not_None_eq)
qed

lemma saved_loads:
  assumes "logged data rs st s" "readState s = st\<lparr>jsEntries := sorted_states (jsEntries st), jsRead := True\<rparr>"
  obtains j st' where "loadState s = Inr st'" "jsRead st'" "logged (journal_data j) [] st' s"
proof -
  obtain j where j: "openJournal s = Inr j" "jok (journal_data j)" "tracks st (journal_data j)" using assms(1) by (auto simp: logged_def)
  have h: "honest (readState s) (journal_data j)" unfolding assms(2) by (rule tracks_honest [OF j(3)])
  have "jsHead (readState s) = Hash (headLine j)" using j(3) scan_some(3) [of j] by (simp add: assms(2) tracks_def)
  then obtain st' where st': "loadState s = Inr st'" "tracks st' (journal_data j)" "jsRead st'" using load_tracks [OF j(1) h] by (auto simp: assms(2))
  show thesis using that [OF st'(1,3) logged_start [OF j(1,2) st'(2)]] .
qed

lemma logged_off: "logged data rs st s \<Longrightarrow> openJournal s = Inr j \<Longrightarrow> length (journal_data j) < 2 ^ 63 \<Longrightarrow> int64 (jsOff st)"
  by (auto simp: logged_def tracks_def int64_def)

text \<open>A second reconciliation, at any time, with nothing done to the directory in between, finds nothing and leaves every file of the store as it is,
  the cursor included.\<close>

theorem reconcile_idempotent:
  assumes "jinv s" "wf_nodes s" "wf_tree s" "Reconcile now s = ((changes, None), s')" "length (file_journal s) + length changes + 1 < 2 ^ 64"
    "openJournal s' = Inr j'" "length (journal_data j') < 2 ^ 63"
  shows "Reconcile later s' = (([], None), s')"
proof -
  have lk: "fsLocked s = None" using assms(4) by (cases rule: Reconcile_cases) auto
  note r = Reconcile_run [OF assms(1,4,5)]
  then have c: "changed_only (index_paths \<union> {journalName, stateName}) s s'" and "reconcile_done s changes s'" by simp_all
  then obtain st scopes live st1 where d: "loadState s = Inr st" "fileScopes s = Inr scopes" "live_entries scopes s = Inr live"
    "\<And>k. settled (fsMax s) live (last_states (file_journal s')) k"
    "if changes = [] \<and> jsRead st then s' = s else (\<exists>data rs. logged data rs st1 s' \<and>
        readState s' = (if int64 (jsOff st1) then st1\<lparr>jsEntries := sorted_states (jsEntries st1), jsRead := True\<rparr> else zeroState))"
    unfolding reconcile_done_def by blast
  show ?thesis
  proof (cases "changes = [] \<and> jsRead st")
    case True
    obtain j where j: "openJournal s = Inr j" "jok (journal_data j)" "honest (readState s) (journal_data j)" using assms(1) by (auto simp: jinv_def)
    have "tracks st (journal_data j)" using load_tracks [OF j(1,3)] d(1) by auto
    from quiet_reconcile [OF lk d(1) _ d(2,3) logged_start [OF j(1,2) this]] True d(4,5) show ?thesis by simp
  next
    case False
    with d(5) obtain data rs where l: "logged data rs st1 s'" "readState s' = (if int64 (jsOff st1) then st1\<lparr>jsEntries := sorted_states (jsEntries st1), jsRead := True\<rparr> else zeroState)"
      by auto
    have "readState s' = st1\<lparr>jsEntries := sorted_states (jsEntries st1), jsRead := True\<rparr>" using l(2) logged_off [OF l(1) assms(6,7)] by simp
    then obtain j st2 where st2: "loadState s' = Inr st2" "jsRead st2" "logged (journal_data j) [] st2 s'" by (rule saved_loads [OF l(1)])
    have k: "wf_nodes s'" "\<And>sc. ValidName sc \<Longrightarrow> Lstat s' sc \<noteq> Some Link"
    proof -
      show "wf_nodes s'" using c assms(2) by (simp add: changed_only_def dirs_kept_def)
      fix sc assume v: "ValidName sc"
      then have "\<not> own_name sc" using ValidName_excludes(1) scope_paths_apart [OF v] by (auto simp: own_name_def scope_paths_def)
      moreover have "Lstat s sc \<noteq> Some Link" using fileScopes_iff [OF assms(2)] d(2) v by blast
      ultimately show "Lstat s' sc \<noteq> Some Link" using c unfolding changed_only_def dirs_kept_def by (metis node.distinct(7) option.inject)
    qed
    then obtain scopes' where s': "fileScopes s' = Inr scopes'" using fileScopes_iff by blast
    then obtain live' where l': "live_entries scopes' s' = Inr live'" using live_entries_ok [of scopes' s'] k(2) scopes_of_valid unfolding fileScopes_def by blast
    have "settled (fsMax s') live' (last_states (file_journal s')) k" for k
      using d(4) [of k] live_same [OF d(2,3) s' l' kept_readEntry [OF c assms(3)]] c by (simp add: settled_def changed_only_def)
    then show ?thesis using quiet_reconcile [OF _ st2(1,2) s' l' st2(3)] lk c by (simp add: changed_only_def)
  qed
qed

lemma new_reconciled: "\<exists>s. Reconcile sample_time new_store = (([], None), s) \<and> openJournal s = Inr None"
proof -
  have n: "fsNodes new_store = []" "fsLocked new_store = None" "\<forall>p. \<not> fsDeny new_store p" by (simp_all add: new_store_def Open_def)
  obtain st where st: "rebuildState new_store = Inr st" "\<not> jsRead st" "tracks st []" using rebuild_tracks [OF sample_files(1)] by auto
  have "Lstat new_store stateName = None" by (simp add: Lstat_def n)
  then have "readState new_store = zeroState" "Lstat new_store stateName \<noteq> Some Directory" by (simp_all add: readState_def readRegular_def)
  then have ld: "loadState new_store = Inr st" using st(1) by (simp add: loadState_def sample_files zeroState_def Nil_not_Hash)
  obtain s where s: "saveState st new_store = (Inr (), s)" using saveState_ok [OF n(3) \<open>Lstat new_store stateName \<noteq> _\<close>] by blast
  have "openJournal s = Inr None" using changed_openJournal [OF saveState_changes [OF s]] stateName_dir(2) sample_files(1) by simp
  moreover have "jsEntries st = []" using st(3) by (cases "jsEntries st") (auto simp: tracks_def split: if_splits dest: fun_cong)
  then have "Reconcile sample_time new_store = (([], None), s)"
    using s st(2) by (simp add: Reconcile_def ld n fileScopes_def ReadDir_def finishReconcile_def)
  ultimately show ?thesis by blast
qed

theorem reconcile_idempotent_witness:
  "\<exists>s. Reconcile sample_time new_store = (([], None), s) \<and> Reconcile (sample_time + 1) s = (([], None), s)"
proof -
  obtain s where r: "Reconcile sample_time new_store = (([], None), s)" "openJournal s = Inr None" using new_reconciled by blast
  have "wf_nodes new_store" "wf_tree new_store" by (simp_all add: wf_nodes_def wf_tree_def new_store_def Lstat_Open) (simp add: Open_def)
  from reconcile_idempotent [OF sample_inv(1) this r(1) _ r(2)] r(1) show ?thesis by (simp add: sample_journals)
qed

end
