(* ===== verification/StoreContract.thy ===== *)
theory StoreContract
  imports Store
begin

text \<open>
  The contract of a store that keeps its entries outside the process.  Such a store writes text, so it refines the abstract store
  for the calls whose arguments survive being written: \<open>fits\<close> says which puts those are and \<open>stamp_fits\<close> which sessions and
  clock readings, and the journal must have room, \<open>cap\<close> records.  Two stores that keep the contract cannot be told apart by
  such calls, but for the text with which they refuse a scope or a name that is not kebab-case: the locale \<open>store_pair\<close> runs one sequence of calls on both.
\<close>

section \<open>The contract\<close>

locale conforming_store =
  fixes S :: "'s Store" and good :: "'s \<Rightarrow> bool" and view :: "'s \<Rightarrow> AbsStore"
    and fits :: "string \<Rightarrow> time \<Rightarrow> Entry \<Rightarrow> PutOption list \<Rightarrow> bool" and stamp_fits :: "string \<Rightarrow> time \<Rightarrow> bool" and cap :: nat
  assumes good_view: "good s \<Longrightarrow> abs_inv (view s)"
    and good_get_plain: "good s \<Longrightarrow> plain (sGet S sc n s) = plain (abs_get sc n (view s))"
    and good_list_bad: "good s \<Longrightarrow> \<not> ValidScope sc \<Longrightarrow> plain (sList S sc s) = Inl (ErrInvalid (ScopeNotKebab sc))"
    and good_list: "good s \<Longrightarrow> ValidScope sc \<Longrightarrow>
      \<exists>es. sList S sc s = Inr es \<and> sorted_wrt (<) (map eName es) \<and>
        (\<forall>e. e \<in> set es \<longleftrightarrow> aLive (view s) sc (eName e) = Some e)"
    and good_put: "good s \<Longrightarrow> fits session now e opts \<Longrightarrow> length (aJournal (view s)) < cap \<Longrightarrow>
      sPut S session now e opts s = (r, s') \<Longrightarrow> good s' \<and> abs_put session now e opts (view s) = (r, view s')"
    and good_forget: "good s \<Longrightarrow> stamp_fits session now \<Longrightarrow> length (aJournal (view s)) < cap \<Longrightarrow>
      sForget S session now sc n s = (r, s') \<Longrightarrow> good s' \<and> (\<exists>q. abs_forget session now sc n (view s) = (q, view s') \<and> plain r = plain q)"
    and good_journal_from: "good s \<Longrightarrow> length (aJournal (view s)) \<le> cap \<Longrightarrow> unat after < 2 ^ 63 \<Longrightarrow>
      sJournal S after s = map Inr (drop (unat after) (aJournal (view s)))"
begin

lemma good_journal: "good s \<Longrightarrow> length (aJournal (view s)) \<le> cap \<Longrightarrow> sJournal S 0 s = map Inr (aJournal (view s))"
  by (simp add: good_journal_from)

lemma good_get: "good s \<Longrightarrow> CheckRef sc n = None \<Longrightarrow> sGet S sc n s = abs_get sc n (view s)"
  using good_get_plain [of s sc n] by (auto simp: abs_get_def split: option.splits)

lemma read_own_put:
  assumes "good s" "fits session now e opts" "length (aJournal (view s)) < cap" "sPut S session now e opts s = (Inr c, s')"
  shows "sGet S (eScope e) (eName e) s' = Inr (stored_form now e)"
proof -
  from good_put [OF assms] have g: "good s'" and p: "abs_put session now e opts (view s) = (Inr c, view s')" by simp_all
  from p show ?thesis
    by (cases rule: abs_put_cases) (simp_all add: good_get [OF g] abs_get_def CheckRef_def CheckScope_def ValidScope_def entry_ok_def)
qed

end

section \<open>Calls\<close>

datatype call =
    CallPut string time Entry "PutOption list"
  | CallForget string time scope string
  | CallGet scope string
  | CallList scope
  | CallJournal uint64

datatype reply =
    Written "error + Change"
  | Forgotten "error + Change"
  | Found "error + Entry"
  | Listed "error + Entry list"
  | Records "(error + Change) list"

fun run_call :: "'s Store \<Rightarrow> call \<Rightarrow> 's \<Rightarrow> reply \<times> 's" where
  "run_call S (CallPut session now e opts) s = (let (r, s') = sPut S session now e opts s in (Written r, s'))"
| "run_call S (CallForget session now sc n) s = (let (r, s') = sForget S session now sc n s in (Forgotten r, s'))"
| "run_call S (CallGet sc n) s = (Found (sGet S sc n s), s)"
| "run_call S (CallList sc) s = (Listed (sList S sc s), s)"
| "run_call S (CallJournal after) s = (Records (sJournal S after s), s)"

fun run_calls :: "'s Store \<Rightarrow> call list \<Rightarrow> 's \<Rightarrow> reply list \<times> 's" where
  "run_calls S [] s = ([], s)"
| "run_calls S (c # cs) s = (let (r, s') = run_call S c s; (rs, s'') = run_calls S cs s' in (r # rs, s''))"

fun call_fits :: "(string \<Rightarrow> time \<Rightarrow> Entry \<Rightarrow> PutOption list \<Rightarrow> bool) \<Rightarrow> (string \<Rightarrow> time \<Rightarrow> bool) \<Rightarrow> call \<Rightarrow> bool" where
  "call_fits fits stamp_fits (CallPut session now e opts) = fits session now e opts"
| "call_fits fits stamp_fits (CallForget session now sc n) = stamp_fits session now"
| "call_fits fits stamp_fits (CallJournal after) \<longleftrightarrow> unat after < 2 ^ 63"
| "call_fits fits stamp_fits _ = True"

text \<open>A reply with the short text for a scope or name that is not kebab-case.  A put refuses one with the same text in every store.\<close>

fun plain_reply :: "reply \<Rightarrow> reply" where
  "plain_reply (Written r) = Written r"
| "plain_reply (Forgotten r) = Forgotten (plain r)"
| "plain_reply (Found r) = Found (plain r)"
| "plain_reply (Listed r) = Listed (plain r)"
| "plain_reply (Records cs) = Records cs"

lemma sorted_names_unique:
  fixes es es' :: "Entry list"
  assumes "sorted_wrt (<) (map eName es)" "sorted_wrt (<) (map eName es')" "set es = set es'"
  shows "es = es'"
proof -
  have d: "distinct (map eName es)" "sorted (map eName es)" "sorted (map eName es')" "distinct (map eName es')"
    using assms(1,2) by (simp_all add: strict_sorted_iff)
  have "map eName es = map eName es'"
    using d assms(3) by (intro sorted_distinct_set_unique) (simp_all add: image_set [symmetric] del: image_set)
  moreover have "inj_on eName (set es \<union> set es')" using d(1) assms(3) by (simp add: distinct_map)
  ultimately show ?thesis by (rule map_inj_on)
qed

section \<open>Two stores\<close>

locale store_pair =
  A: conforming_store A goodA viewA fits stamp_fits cap + B: conforming_store B goodB viewB fits stamp_fits cap
  for A :: "'a Store" and goodA viewA and B :: "'b Store" and goodB viewB and fits stamp_fits cap
begin

definition alike :: "'a \<Rightarrow> 'b \<Rightarrow> bool" where
  "alike s t \<longleftrightarrow> goodA s \<and> goodB t \<and> viewA s = viewB t"

lemma alike_list:
  assumes "alike s t"
  shows "plain (sList A sc s) = plain (sList B sc t)"
proof (cases "ValidScope sc")
  case True
  from assms have g: "goodA s" "goodB t" "viewA s = viewB t" by (simp_all add: alike_def)
  obtain es where es: "sList A sc s = Inr es" "sorted_wrt (<) (map eName es)" "\<forall>e. e \<in> set es \<longleftrightarrow> aLive (viewA s) sc (eName e) = Some e"
    using A.good_list [OF g(1) True] by blast
  obtain es' where es': "sList B sc t = Inr es'" "sorted_wrt (<) (map eName es')" "\<forall>e. e \<in> set es' \<longleftrightarrow> aLive (viewB t) sc (eName e) = Some e"
    using B.good_list [OF g(2) True] by blast
  have "es = es'" using es es' g(3) by (intro sorted_names_unique) auto
  with es es' show ?thesis by simp
next
  case False
  with assms show ?thesis by (simp add: alike_def A.good_list_bad B.good_list_bad)
qed

lemma alike_call:
  assumes "alike s t" "call_fits fits stamp_fits c" "length (aJournal (viewA s)) < cap"
    and "run_call A c s = (r, s')" "run_call B c t = (r', t')"
  shows "plain_reply r = plain_reply r' \<and> alike s' t' \<and> length (aJournal (viewA s')) \<le> Suc (length (aJournal (viewA s)))"
proof (cases c)
  case (CallPut session now e opts)
  obtain q where q: "sPut A session now e opts s = (q, s')" "r = Written q" using assms(4) by (auto simp: CallPut split: prod.splits)
  obtain q' where q': "sPut B session now e opts t = (q', t')" "r' = Written q'" using assms(5) by (auto simp: CallPut split: prod.splits)
  have "goodA s' \<and> abs_put session now e opts (viewA s) = (q, viewA s')" "goodB t' \<and> abs_put session now e opts (viewB t) = (q', viewB t')"
    using A.good_put [OF _ _ _ q(1)] B.good_put [OF _ _ _ q'(1)] assms(1-3) by (simp_all add: alike_def CallPut)
  with assms(1) q(2) q'(2) show ?thesis by (auto simp: alike_def elim: abs_put_cases)
next
  case (CallForget session now sc n)
  obtain q where q: "sForget A session now sc n s = (q, s')" "r = Forgotten q" using assms(4) by (auto simp: CallForget split: prod.splits)
  obtain q' where q': "sForget B session now sc n t = (q', t')" "r' = Forgotten q'" using assms(5) by (auto simp: CallForget split: prod.splits)
  have "goodA s' \<and> (\<exists>x. abs_forget session now sc n (viewA s) = (x, viewA s') \<and> plain q = plain x)"
      "goodB t' \<and> (\<exists>x. abs_forget session now sc n (viewB t) = (x, viewB t') \<and> plain q' = plain x)"
    using A.good_forget [OF _ _ _ q(1)] B.good_forget [OF _ _ _ q'(1)] assms(1-3) by (simp_all add: alike_def CallForget)
  with assms(1) q(2) q'(2) show ?thesis by (auto simp: alike_def elim: abs_forget_cases)
qed (use assms alike_list in \<open>auto simp: alike_def A.good_get_plain B.good_get_plain A.good_journal_from B.good_journal_from\<close>)

lemma alike_calls:
  assumes "alike s t" "list_all (call_fits fits stamp_fits) cs" "length (aJournal (viewA s)) + length cs \<le> cap"
  shows "map plain_reply (fst (run_calls A cs s)) = map plain_reply (fst (run_calls B cs t))"
  using assms
proof (induction cs arbitrary: s t)
  case (Cons c cs)
  obtain r s' r' t' where c: "run_call A c s = (r, s')" "run_call B c t = (r', t')" by fastforce
  have n: "plain_reply r = plain_reply r' \<and> alike s' t' \<and> length (aJournal (viewA s')) \<le> Suc (length (aJournal (viewA s)))"
    using alike_call [OF Cons.prems(1) _ _ c] Cons.prems(2,3) by simp
  with Cons.IH [of s' t'] Cons.prems(2,3) show ?case by (auto simp: c split: prod.splits)
qed simp

end

section \<open>A store in memory keeps the contract\<close>

text \<open>A store that refines the abstract one without a condition conforms whatever the conditions.\<close>

lemma memory_store_conforms:
  assumes "memory_store S good view" "cap < 2 ^ 64"
  shows "conforming_store S good view fits stamp_fits cap"
proof -
  from assms(1) show ?thesis
  proof (unfold_locales, goal_cases)
    case 1 then show ?case by (rule memory_store.inv_view)
  next
    case 2 then show ?case by (simp add: memory_store.get_refines [OF assms(1)])
  next
    case 3 then show ?case by (simp add: memory_store.list_bad [OF assms(1)])
  next
    case 4 then show ?case by (rule memory_store.list_ok)
  next
    case 5 then show ?case by (auto dest: memory_store.put_refines)
  next
    case 6 then show ?case by (auto dest: memory_store.forget_refines)
  next
    case 7 then show ?case using assms(2) by (auto intro!: memory_store.journal_from [of S good view])
  qed
qed

end
