(* ===== verification/SqlStore.thy ===== *)
theory SqlStore
  imports FileJournal "HOL-Library.Product_Lexorder"
begin

text \<open>
  The store of \<^verbatim>\<open>sqlite/sqlite.go\<close>: rows of \<^verbatim>\<open>memory_entries\<close>, the journal's lines in \<^verbatim>\<open>memory_journal\<close> and the search index
  \<^verbatim>\<open>memory_entries_fts\<close>.  A database is the committed rows of the three tables, and each SQL statement is the function on rows
  that its text says.  The database engine is outside the repository: what it reports when a statement fails is the parameter
  \<open>fault\<close>, the message of a statement that fails or \<^const>\<open>None\<close>, and the full-text index is the parameter \<open>fts\<close>, which gives the rank of
  each row that matches an expression or the message with which it refuses it.  Of the engine's own messages for a row
  it refuses, and of the texts of \<^verbatim>\<open>encoding/json\<close> and \<^verbatim>\<open>time\<close>, nothing is modelled.
\<close>

section \<open>Tables\<close>

record EntryRow =
  rScope :: string
  rName :: string
  rContent :: string
  rMeta :: string
  rHash :: string
  rUpdated :: string

record JournalRow =
  jSeq :: int
  jScope :: string
  jName :: string
  jLine :: string

record FtsRow =
  fScope :: string
  fName :: string
  fMeta :: string
  fContent :: string

record Db =
  dbEntries :: "EntryRow list"
  dbJournal :: "JournalRow list"
  dbFts :: "FtsRow list"

record SqlStore =
  qMax :: int
  qDb :: Db

type_synonym SqlOption = "SqlStore \<Rightarrow> SqlStore"

definition SqlWithMaxEntryBytes :: "int \<Rightarrow> SqlOption" where
  "SqlWithMaxEntryBytes n = (\<lambda>s. s\<lparr>qMax := n\<rparr>)"

definition SqlMaxEntryBytes :: "SqlStore \<Rightarrow> int" where
  "SqlMaxEntryBytes s = qMax s"

section \<open>Statements\<close>

datatype Stmt = TxBegin | TxCommit | SelectEntry | ListEntries | UpsertEntry | DeleteEntry
  | DeleteFts | InsertFts | SelectMaxSeq | InsertJournal | SelectMatch | SelectJournal

type_synonym faults = "Stmt \<Rightarrow> string option"

definition and_then :: "error + 'a \<Rightarrow> ('a \<Rightarrow> error + 'b) \<Rightarrow> error + 'b" where
  "and_then r f = (case r of Inl err \<Rightarrow> Inl err | Inr x \<Rightarrow> f x)"

text \<open>A statement that fails gives its message behind the prefix the code wraps it with.\<close>

definition exec :: "faults \<Rightarrow> Stmt \<Rightarrow> string \<Rightarrow> 'a \<Rightarrow> error + 'a" where
  "exec fault st pre x = (case fault st of Some msg \<Rightarrow> Inl (ErrText (pre @ msg)) | None \<Rightarrow> Inr x)"

text \<open>\<^verbatim>\<open>BeginTx\<close>, the body, and \<^verbatim>\<open>Commit\<close> behind a deferred \<^verbatim>\<open>Rollback\<close>: the body's rows are the database's only when the commit reports
  no error.\<close>

definition transaction :: "faults \<Rightarrow> (Db \<Rightarrow> error + 'a \<times> Db) \<Rightarrow> SqlStore \<Rightarrow> (error + 'a) \<times> SqlStore" where
  "transaction fault body s =
     (case and_then (exec fault TxBegin ''sqlite: begin: '' (qDb s)) (\<lambda>db.
           and_then (body db) (\<lambda>r.
           exec fault TxCommit ''sqlite: commit: '' r)) of
        Inl err \<Rightarrow> (Inl err, s)
      | Inr (c, db) \<Rightarrow> (Inr c, s\<lparr>qDb := db\<rparr>))"

definition row_is :: "scope \<Rightarrow> string \<Rightarrow> EntryRow \<Rightarrow> bool" where
  "row_is scope name r \<longleftrightarrow> rScope r = scope \<and> rName r = name"

definition upsert_row :: "EntryRow \<Rightarrow> EntryRow list \<Rightarrow> EntryRow list" where
  "upsert_row excluded rows =
     (if list_ex (row_is (rScope excluded) (rName excluded)) rows
      then map (\<lambda>r. if row_is (rScope excluded) (rName excluded) r
                    then r\<lparr>rContent := rContent excluded, rMeta := rMeta excluded, rHash := rHash excluded, rUpdated := rUpdated excluded\<rparr>
                    else r) rows
      else rows @ [excluded])"

text \<open>\<^verbatim>\<open>MAX(seq)\<close>, whose null scans as zero.\<close>

definition max_seq :: "JournalRow list \<Rightarrow> int" where
  "max_seq rows = (case map jSeq rows of [] \<Rightarrow> 0 | q # qs \<Rightarrow> foldl max q qs)"

section \<open>Reading an entry\<close>

definition buildEntry :: "scope \<Rightarrow> string \<Rightarrow> string \<Rightarrow> string \<Rightarrow> string \<Rightarrow> string \<Rightarrow> error + Entry" where
  "buildEntry scope name content meta hash updated =
     (let parsed = (if meta \<noteq> [] \<and> meta \<noteq> ''{}'' then Unmarshal dec_map meta None else Some None) in
      case parsed of
        None \<Rightarrow> Inl (ErrText (''sqlite: meta of '' @ scope @ ''/'' @ name @ '': ''))
      | Some m \<Rightarrow> (case ParseRFC3339Nano updated of
            None \<Rightarrow> Inl (ErrText (''sqlite: updated of '' @ scope @ ''/'' @ name @ '': ''))
          | Some t \<Rightarrow> Inr \<lparr>eScope = scope, eName = name, eContent = content, eMeta = m, eHash = hash,
              eMetaHash = MetaHash m, eUpdated = t, eDeleted = False\<rparr>))"

definition build_row :: "EntryRow \<Rightarrow> error + Entry" where
  "build_row r = buildEntry (rScope r) (rName r) (rContent r) (rMeta r) (rHash r) (rUpdated r)"

definition sql_get :: "faults \<Rightarrow> scope \<Rightarrow> string \<Rightarrow> Db \<Rightarrow> error + Entry option" where
  "sql_get fault scope name db =
     and_then (exec fault SelectEntry (''sqlite: read '' @ scope @ ''/'' @ name @ '': '') (List.find (row_is scope name) (dbEntries db))) (\<lambda>row.
     case row of
       None \<Rightarrow> Inr None
     | Some r \<Rightarrow> and_then (buildEntry scope name (rContent r) (rMeta r) (rHash r) (rUpdated r)) (\<lambda>e. Inr (Some e)))"

definition sql_check :: "scope \<Rightarrow> string \<Rightarrow> error option" where
  "sql_check scope name =
     (if \<not> ValidScope scope then Some (ErrInvalid (ScopeNotKebab scope))
      else if \<not> ValidName name then Some (ErrInvalid (NameNotKebab name))
      else None)"

definition SqlGet :: "faults \<Rightarrow> scope \<Rightarrow> string \<Rightarrow> SqlStore \<Rightarrow> error + Entry" where
  "SqlGet fault scope name s =
     (case sql_check scope name of
        Some err \<Rightarrow> Inl err
      | None \<Rightarrow> and_then (sql_get fault scope name (qDb s)) (\<lambda>found.
          case found of None \<Rightarrow> Inl (ErrNotFound scope name) | Some e \<Rightarrow> Inr e))"

fun build_all :: "EntryRow list \<Rightarrow> Entry list \<Rightarrow> error + Entry list" where
  "build_all [] out = Inr out"
| "build_all (r # rs) out = and_then (build_row r) (\<lambda>e. build_all rs (out @ [e]))"

definition SqlList :: "faults \<Rightarrow> scope \<Rightarrow> SqlStore \<Rightarrow> error + Entry list" where
  "SqlList fault scope s =
     (if \<not> ValidScope scope then Inl (ErrInvalid (ScopeNotKebab scope))
      else and_then (exec fault ListEntries (''sqlite: list '' @ scope @ '': '')
               (sort_key rName (filter (\<lambda>r. rScope r = scope) (dbEntries (qDb s))))) (\<lambda>rows.
           build_all rows []))"

section \<open>Writing\<close>

definition meta_column :: "gomap option \<Rightarrow> string" where
  "meta_column meta =
     (if meta \<noteq> None then enc_json (JObj (map (\<lambda>(k, v). (k, JStr v)) (sorted_items (mitems meta)))) else ''{}'')"

definition sql_reindex :: "faults \<Rightarrow> scope \<Rightarrow> string \<Rightarrow> Entry option \<Rightarrow> Db \<Rightarrow> error + Db" where
  "sql_reindex fault scope name e db =
     and_then (exec fault DeleteFts ''sqlite: index: ''
       (db\<lparr>dbFts := filter (\<lambda>f. \<not> (fScope f = scope \<and> fName f = name)) (dbFts db)\<rparr>)) (\<lambda>db.
     case e of
       None \<Rightarrow> Inr db
     | Some e \<Rightarrow>
         let values = sort (map snd (mitems (eMeta e))) in
         exec fault InsertFts ''sqlite: index: ''
           (db\<lparr>dbFts := dbFts db @ [\<lparr>fScope = eScope e, fName = eName e, fMeta = Join values [LF], fContent = eContent e\<rparr>]\<rparr>))"

text \<open>The sequence number is a \<^verbatim>\<open>uint64\<close> that the table keeps as an \<^verbatim>\<open>int64\<close>, the primary key of the journal.\<close>

definition sql_record :: "faults \<Rightarrow> Change \<Rightarrow> Db \<Rightarrow> error + Change \<times> Db" where
  "sql_record fault c db =
     and_then (exec fault SelectMaxSeq ''sqlite: journal sequence: '' (max_seq (dbJournal db))) (\<lambda>last_seq.
     let c = c\<lparr>cSeq := of_int last_seq + 1\<rparr> in
     case marshal_change c of
       None \<Rightarrow> Inl (ErrText ''sqlite: encode journal record: '')
     | Some ln \<Rightarrow>
         and_then (exec fault InsertJournal ''sqlite: append journal: '' (sint (cSeq c))) (\<lambda>seq.
         if list_ex (\<lambda>r. jSeq r = seq) (dbJournal db) then Inl (ErrText ''sqlite: append journal: '')
         else Inr (c, db\<lparr>dbJournal := dbJournal db @
           [\<lparr>jSeq = seq, jScope = eScope (cEntry c), jName = eName (cEntry c), jLine = ln\<rparr>]\<rparr>)))"

definition put_entry :: "time \<Rightarrow> Entry \<Rightarrow> Entry" where
  "put_entry now e =
     (let e = e\<lparr>eHash := Hash (eContent e), eMetaHash := MetaHash (eMeta e), eUpdated := now, eDeleted := False\<rparr>
      in if mlen (eMeta e) = 0 then e\<lparr>eMeta := None\<rparr> else e)"

definition put_tx :: "faults \<Rightarrow> int \<Rightarrow> string \<Rightarrow> time \<Rightarrow> Entry \<Rightarrow> PutOptions \<Rightarrow> Db \<Rightarrow> error + Change \<times> Db" where
  "put_tx fault limit session now e po db =
     and_then (sql_get fault (eScope e) (eName e) db) (\<lambda>stored.
     case CheckEntry e limit stored of
       Some err \<Rightarrow> Inl err
     | None \<Rightarrow> (case Check po (eScope e) (eName e) stored of
           Some err \<Rightarrow> Inl err
         | None \<Rightarrow>
             let e = put_entry now e;
                 row = \<lparr>rScope = eScope e, rName = eName e, rContent = eContent e, rMeta = meta_column (eMeta e),
                        rHash = eHash e, rUpdated = FormatRFC3339Nano now\<rparr>
             in and_then (exec fault UpsertEntry (''sqlite: write '' @ eScope e @ ''/'' @ eName e @ '': '')
                    (db\<lparr>dbEntries := upsert_row row (dbEntries db)\<rparr>)) (\<lambda>db.
                and_then (sql_reindex fault (eScope e) (eName e) (Some e) db) (\<lambda>db.
                let replaced = (case stored of None \<Rightarrow> [] | Some se \<Rightarrow> eHash se) in
                sql_record fault \<lparr>cSeq = 0, cEntry = e, cPrev = BaseFor po stored, cReplaced = replaced,
                  cSession = session, cSource = [], cAt = now\<rparr> db))))"

definition SqlPut :: "faults \<Rightarrow> string \<Rightarrow> time \<Rightarrow> Entry \<Rightarrow> PutOption list \<Rightarrow> SqlStore \<Rightarrow> (error + Change) \<times> SqlStore" where
  "SqlPut fault session now e opts s =
     (let po = ResolvePutOptions opts in
      case CheckEntry e 0 None of
        Some err \<Rightarrow> (Inl err, s)
      | None \<Rightarrow> transaction fault (put_tx fault (qMax s) session now e po) s)"

definition forget_tx :: "faults \<Rightarrow> string \<Rightarrow> time \<Rightarrow> scope \<Rightarrow> string \<Rightarrow> Db \<Rightarrow> error + Change \<times> Db" where
  "forget_tx fault session now scope name db =
     and_then (sql_get fault scope name db) (\<lambda>found.
     case found of
       None \<Rightarrow> Inl (ErrNotFound scope name)
     | Some stored \<Rightarrow>
         and_then (exec fault DeleteEntry (''sqlite: remove '' @ scope @ ''/'' @ name @ '': '')
           (db\<lparr>dbEntries := filter (\<lambda>r. \<not> row_is scope name r) (dbEntries db)\<rparr>)) (\<lambda>db.
         and_then (sql_reindex fault scope name None db) (\<lambda>db.
         sql_record fault \<lparr>cSeq = 0, cEntry = stored\<lparr>eDeleted := True, eUpdated := now\<rparr>, cPrev = eHash stored,
           cReplaced = eHash stored, cSession = session, cSource = [], cAt = now\<rparr> db)))"

definition SqlForget :: "faults \<Rightarrow> string \<Rightarrow> time \<Rightarrow> scope \<Rightarrow> string \<Rightarrow> SqlStore \<Rightarrow> (error + Change) \<times> SqlStore" where
  "SqlForget fault session now scope name s =
     (case sql_check scope name of
        Some err \<Rightarrow> (Inl err, s)
      | None \<Rightarrow> transaction fault (forget_tx fault session now scope name) s)"

section \<open>Searching\<close>

definition keep :: "SearchOptions \<Rightarrow> int \<Rightarrow> Entry list \<Rightarrow> Entry \<Rightarrow> Entry list \<times> bool" where
  "keep opts limit out e =
     (let out = (if Keep opts e then out @ [e] else out) in (out, limit > 0 \<and> int (length out) \<ge> limit))"

fun keep_listed :: "SearchOptions \<Rightarrow> int \<Rightarrow> Entry list \<Rightarrow> Entry list \<Rightarrow> Entry list \<times> bool" where
  "keep_listed opts limit [] out = (out, False)"
| "keep_listed opts limit (e # es) out =
     (let (out, full) = keep opts limit out e in if full then (out, True) else keep_listed opts limit es out)"

fun sql_list_scopes :: "faults \<Rightarrow> SearchOptions \<Rightarrow> int \<Rightarrow> SqlStore \<Rightarrow> scope list \<Rightarrow> Entry list \<Rightarrow> error + Entry list" where
  "sql_list_scopes fault opts limit s [] out = Inr out"
| "sql_list_scopes fault opts limit s (scope # scopes) out =
     and_then (SqlList fault scope s) (\<lambda>es.
     let (out, full) = keep_listed opts limit es out in
     if full then Inr out else sql_list_scopes fault opts limit s scopes out)"

fun keep_rows :: "SearchOptions \<Rightarrow> int \<Rightarrow> EntryRow list \<Rightarrow> Entry list \<Rightarrow> error + Entry list" where
  "keep_rows opts limit [] out = Inr out"
| "keep_rows opts limit (r # rs) out =
     and_then (build_row r) (\<lambda>e.
     let (out, full) = keep opts limit out e in if full then Inr out else keep_rows opts limit rs out)"

text \<open>A word as a phrase of the index's query language: in double quotes, those in it doubled, and matched as a prefix.\<close>

definition quote_word :: "string \<Rightarrow> string" where
  "quote_word w = ''\"'' @ concat (map (\<lambda>c. if c = CHR ''\"'' then ''\"\"'' else [c]) w) @ ''\" *''"

definition match_expr :: "bool \<Rightarrow> string list \<Rightarrow> string" where
  "match_expr any_word words = Join (map quote_word words) (if any_word then '' OR '' else '' AND '')"

type_synonym 'r fts = "FtsRow list \<Rightarrow> string \<Rightarrow> string + (FtsRow \<Rightarrow> 'r option)"

text \<open>The rows of the search's join, in order of rank, scope and name.\<close>

definition match_rows :: "(FtsRow \<Rightarrow> ('r :: linorder) option) \<Rightarrow> scope list \<Rightarrow> Db \<Rightarrow> EntryRow list" where
  "match_rows rank scopes db =
     map snd (sort_key (\<lambda>(k, r). (k, rScope r, rName r))
       (concat (map (\<lambda>f. case rank f of
            None \<Rightarrow> []
          | Some k \<Rightarrow> if fScope f \<in> set scopes then map (Pair k) (filter (row_is (fScope f) (fName f)) (dbEntries db)) else [])
        (dbFts db))))"

definition SqlSearchWith :: "('r :: linorder) fts \<Rightarrow> faults \<Rightarrow> scope list \<Rightarrow> string \<Rightarrow> int \<Rightarrow> SearchOptions \<Rightarrow> SqlStore \<Rightarrow> error + Entry list" where
  "SqlSearchWith fts fault scopes query limit opts s =
     (case List.find (\<lambda>sc. CheckScope sc \<noteq> None) scopes of
        Some sc \<Rightarrow> Inl (the (CheckScope sc))
      | None \<Rightarrow> (case CheckOptions opts AllSearchOptions of
            Some err \<Rightarrow> Inl err
          | None \<Rightarrow>
              if scopes = [] then Inr []
              else let filtered = (oMeta opts \<noteq> None \<or> \<not> IsZero (oUpdatedAfter opts) \<or> \<not> IsZero (oUpdatedBefore opts));
                       words = Fields query
                in if words = [] then sql_list_scopes fault opts limit s scopes []
                   else (case fts (dbFts (qDb s)) (match_expr (oAny opts) words) of
                       Inl msg \<Rightarrow> Inl (ErrText (''sqlite: search: '' @ msg))
                     | Inr rank \<Rightarrow>
                         and_then (exec fault SelectMatch ''sqlite: search: ''
                           (let rows = match_rows rank scopes (qDb s) in
                            if limit > 0 \<and> \<not> filtered then take (nat limit) rows else rows)) (\<lambda>rows.
                         keep_rows opts limit rows []))))"

definition SqlSearch :: "('r :: linorder) fts \<Rightarrow> faults \<Rightarrow> scope list \<Rightarrow> string \<Rightarrow> int \<Rightarrow> SqlStore \<Rightarrow> error + Entry list" where
  "SqlSearch fts fault scopes query limit s = SqlSearchWith fts fault scopes query limit zeroSearchOptions s"

section \<open>The journal\<close>

definition journal_row :: "JournalRow \<Rightarrow> error + Change" where
  "journal_row r =
     (case Unmarshal (dec_struct change_fields) (jLine r) zero_change of
        None \<Rightarrow> Inl (ErrText (''sqlite: journal record '' @ Itoa (jSeq r) @ '': ''))
      | Some c \<Rightarrow> Inr (c\<lparr>cSeq := of_int (jSeq r)\<rparr>))"

definition SqlJournal :: "faults \<Rightarrow> uint64 \<Rightarrow> SqlStore \<Rightarrow> (error + Change) list" where
  "SqlJournal fault after s =
     (case exec fault SelectJournal ''sqlite: journal: ''
         (sort_key jSeq (filter (\<lambda>r. jSeq r > sint after) (dbJournal (qDb s)))) of
        Inl err \<Rightarrow> [Inl err]
      | Inr rows \<Rightarrow> map journal_row rows)"

definition SqlLastSeq :: "faults \<Rightarrow> SqlStore \<Rightarrow> error + uint64" where
  "SqlLastSeq fault s =
     and_then (exec fault SelectMaxSeq ''sqlite: journal sequence: '' (max_seq (dbJournal (qDb s)))) (\<lambda>last_seq.
     Inr (of_int last_seq))"

definition sqlStore :: "('r :: linorder) fts \<Rightarrow> faults \<Rightarrow> SqlStore Store" where
  "sqlStore fts fault = \<lparr>sGet = SqlGet fault, sList = SqlList fault, sPut = SqlPut fault, sForget = SqlForget fault,
     sSearch = SqlSearch fts fault, sJournal = SqlJournal fault, sMaxEntryBytes = SqlMaxEntryBytes,
     sSearcher = Some \<lparr>ssOptions = AllSearchOptions, ssSearchWith = SqlSearchWith fts fault\<rparr>,
     sLastSeqer = Some (SqlLastSeq fault)\<rparr>"

end
