(* ===== verification/SqlProofs.thy ===== *)
theory SqlProofs
  imports SqlStore StoreContract FileCursor
begin

text \<open>
  The SQLite store keeps its tables in step: the journal's lines decode to numbered, chained records, and the entries table and
  the search index hold exactly the entries those records leave.  That is the invariant \<open>sql_inv\<close>, which every write keeps whether or not
  one of its statements fails; with it the store keeps the contract of \<open>StoreContract\<close> for puts with text that JSON can carry.
\<close>

section \<open>Tables keyed by scope and name\<close>

definition table_is :: "('r \<Rightarrow> 'k) \<Rightarrow> ('e \<Rightarrow> 'r) \<Rightarrow> 'r list \<Rightarrow> ('k \<Rightarrow> 'e option) \<Rightarrow> bool" where
  "table_is kf row rows f \<longleftrightarrow> distinct (map kf rows) \<and> (\<forall>k. map_of (map (\<lambda>r. (kf r, r)) rows) k = map_option row (f k))"

lemma map_of_keyed_filter:
  "map_of (map (\<lambda>r. (kf r, r)) (filter (\<lambda>r. kf r \<noteq> k) rows)) = (map_of (map (\<lambda>r. (kf r, r)) rows))(k := None)"
  by (induction rows) (auto simp: fun_eq_iff)

lemma table_is_delete: "table_is kf row rows f \<Longrightarrow> table_is kf row (filter (\<lambda>r. kf r \<noteq> k) rows) (f(k := None))"
  by (auto simp: table_is_def map_of_keyed_filter distinct_map_filter)

lemma map_of_keyed_None: "map_of (map (\<lambda>r. (kf r, r)) rows) k = None \<longleftrightarrow> k \<notin> kf ` set rows"
  by (induction rows) auto

lemma table_is_add:
  assumes "table_is kf row rows f" "f k = None" "kf (row e) = k"
  shows "table_is kf row (rows @ [row e]) (f(k \<mapsto> e))"
proof -
  have "k \<notin> kf ` set rows" using assms(1,2) by (simp add: table_is_def flip: map_of_keyed_None)
  with assms show ?thesis by (auto simp: table_is_def map_add_def image_iff split: option.splits)
qed

lemma table_is_replace:
  assumes "table_is kf row rows f" "f k \<noteq> None" "kf (row e) = k"
  shows "table_is kf row (map (\<lambda>r. if kf r = k then row e else r) rows) (f(k \<mapsto> e))"
proof -
  have "map_of (map (\<lambda>r. (kf r, r)) (map (\<lambda>r. if kf r = k then row e else r) rows)) k' =
      (if k' = k \<and> k \<in> kf ` set rows then Some (row e) else map_of (map (\<lambda>r. (kf r, r)) rows) k')" for k'
    using assms(3) by (induction rows) auto
  moreover have "k \<in> kf ` set rows"
    using assms(1,2) map_of_keyed_None [of kf rows k] by (auto simp: table_is_def)
  moreover have "map kf (map (\<lambda>r. if kf r = k then row e else r) rows) = map kf rows" using assms(3) by auto
  ultimately show ?thesis using assms(1) by (auto simp: table_is_def simp del: map_map)
qed

lemma table_is_member:
  assumes "table_is kf row rows f" "\<And>k e. f k = Some e \<Longrightarrow> kf (row e) = k"
  shows "r \<in> set rows \<longleftrightarrow> (\<exists>k e. f k = Some e \<and> r = row e)"
proof
  assume "r \<in> set rows"
  then have "map_of (map (\<lambda>r. (kf r, r)) rows) (kf r) = Some r"
    using assms(1) by (intro map_of_is_SomeI) (auto simp: table_is_def comp_def)
  then show "\<exists>k e. f k = Some e \<and> r = row e" using assms(1) by (auto simp: table_is_def)
next
  assume "\<exists>k e. f k = Some e \<and> r = row e"
  then obtain k e where "f k = Some e" "r = row e" by blast
  then have "map_of (map (\<lambda>r. (kf r, r)) rows) k = Some r" using assms(1) by (simp add: table_is_def)
  then show "r \<in> set rows" by (auto dest: map_of_SomeD)
qed

definition rkey :: "EntryRow \<Rightarrow> scope \<times> string" where
  "rkey r = (rScope r, rName r)"

definition fkey :: "FtsRow \<Rightarrow> scope \<times> string" where
  "fkey f = (fScope f, fName f)"

lemma row_is_key: "row_is sc n r \<longleftrightarrow> rkey r = (sc, n)"
  by (auto simp: row_is_def rkey_def)

lemma find_keyed: "List.find (\<lambda>r. kf r = k) rows = map_of (map (\<lambda>r. (kf r, r)) rows) k"
  by (induction rows) auto

section \<open>Rows\<close>

text \<open>The row and the index row of an entry, and the line of a record.\<close>

definition row_of :: "Entry \<Rightarrow> EntryRow" where
  "row_of e = \<lparr>rScope = eScope e, rName = eName e, rContent = eContent e, rMeta = meta_column (eMeta e), rHash = eHash e,
     rUpdated = FormatRFC3339Nano (eUpdated e)\<rparr>"

definition index_of_entry :: "Entry \<Rightarrow> FtsRow" where
  "index_of_entry e = \<lparr>fScope = eScope e, fName = eName e, fMeta = Join (sort (map snd (mitems (eMeta e)))) [LF], fContent = eContent e\<rparr>"

definition line_of :: "Change \<Rightarrow> JournalRow" where
  "line_of c = \<lparr>jSeq = uint (cSeq c), jScope = eScope (cEntry c), jName = eName (cEntry c), jLine = enc_json (change_json c)\<rparr>"

lemma rkey_row_of [simp]: "rkey (row_of e) = (eScope e, eName e)"
  by (simp add: rkey_def row_of_def)

lemma fkey_index_of [simp]: "fkey (index_of_entry e) = (eScope e, eName e)"
  by (simp add: fkey_def index_of_entry_def)

definition row_ok :: "Entry \<Rightarrow> bool" where
  "row_ok e \<longleftrightarrow> canonical (eMeta e) \<and> list_all (\<lambda>(k, v). ValidString k \<and> ValidString v) (mitems (eMeta e)) \<and>
     year_fits (eUpdated e) \<and> eMetaHash e = MetaHash (eMeta e) \<and> \<not> eDeleted e"

lemma meta_reads_back:
  assumes "canonical m" "list_all (\<lambda>(k, v). ValidString k \<and> ValidString v) (mitems m)" "m \<noteq> None"
  shows "Unmarshal dec_map (meta_column m) None = Some m" "meta_column m \<noteq> []" "meta_column m \<noteq> ''{}''"
proof -
  obtain kvs where m: "m = Some kvs" using assms(3) by blast
  have k: "sorted_items kvs = kvs" "distinct (map fst kvs)" "kvs \<noteq> []" using assms(1) by (auto simp: canonical_def m)
  let ?j = "JObj (map (\<lambda>(k, v). (k, JStr v)) kvs)"
  have g: "good_json ?j" using assms(2) by (auto simp: m list_all_iff)
  have "depth ?j \<le> Suc 0" by (rule depth_JObj_le) auto
  then have d: "depth ?j \<le> maxNestingDepth" by (simp add: maxNestingDepth_def del: depth.simps)
  show "Unmarshal dec_map (meta_column m) None = Some m"
    by (simp add: Unmarshal_def meta_column_def m k(1) parse_enc_json [OF g d] dec_map_items [OF k(2)] del: enc_json.simps)
  obtain k v kvs' where kvs: "kvs = (k, v) # kvs'" using k(3) by (cases kvs) auto
  have "Join (map (\<lambda>(k, j). enc_string k @ '':'' @ enc_json j) (map (\<lambda>(k, v). (k, JStr v)) kvs)) '','' \<noteq> []"
    by (cases kvs') (simp_all add: kvs)
  then have "length (enc_json ?j) > 2" by simp
  then show "meta_column m \<noteq> []" "meta_column m \<noteq> ''{}''" by (auto simp: meta_column_def m k(1) simp del: enc_json.simps)
qed

lemma build_row_of: "row_ok e \<Longrightarrow> build_row (row_of e) = Inr e"
proof -
  assume e: "row_ok e"
  have "(if meta_column (eMeta e) \<noteq> [] \<and> meta_column (eMeta e) \<noteq> ''{}'' then Unmarshal dec_map (meta_column (eMeta e)) None else Some None) = Some (eMeta e)"
  proof (cases "eMeta e")
    case None
    then show ?thesis by (simp add: meta_column_def)
  next
    case (Some kvs)
    with e meta_reads_back [of "eMeta e"] show ?thesis by (simp add: row_ok_def)
  qed
  then show ?thesis using e by (simp add: build_row_def buildEntry_def row_of_def Let_def row_ok_def parse_format)
qed

lemma journal_row_line: "record_ok c \<Longrightarrow> journal_row (line_of c) = Inr c"
proof -
  assume c: "record_ok c"
  have "Unmarshal (dec_struct change_fields) (enc_json (change_json c)) zero_change = Some c"
    by (simp add: Unmarshal_def parse_enc_json [OF good_change(1,3) [OF c]] dec_change [OF c])
  then show ?thesis by (simp add: journal_row_def line_of_def)
qed

section \<open>The sequence\<close>

lemma max_seq_snoc: "max_seq (rows @ [r]) = (if rows = [] then jSeq r else max (max_seq rows) (jSeq r))"
  by (cases rows) (simp_all add: max_seq_def)

lemma numbered_seq: "numbered js \<Longrightarrow> length js < 2 ^ 63 \<Longrightarrow> i < length js \<Longrightarrow> uint (cSeq (js ! i)) = int (Suc i)"
proof -
  assume "numbered js" and l: "length js < 2 ^ 63" "i < length js"
  then have c: "cSeq (js ! i) = of_nat (Suc i)" by (simp add: numbered_def)
  have "Suc i mod 2 ^ 64 = Suc i" using l by simp
  then show ?thesis unfolding c by (simp only: uint_nat unat_of_nat) simp
qed

lemma max_seq_lines: "numbered js \<Longrightarrow> length js < 2 ^ 63 \<Longrightarrow> max_seq (map line_of js) = int (length js)"
proof (induction js rule: rev_induct)
  case Nil
  show ?case by (simp add: max_seq_def)
next
  case (snoc c js)
  have "uint (cSeq c) = int (Suc (length js))" using numbered_seq [OF snoc.prems, of "length js"] by simp
  with snoc show ?case by (simp add: max_seq_snoc numbered_snoc line_of_def)
qed

section \<open>The invariant\<close>

definition sql_records :: "Db \<Rightarrow> Change list" where
  "sql_records db = records_of (map journal_row (dbJournal db))"

definition sql_view :: "SqlStore \<Rightarrow> AbsStore" where
  "sql_view s = \<lparr>aMax = qMax s, aLive = (\<lambda>sc n. replay (sql_records (qDb s)) (sc, n)), aJournal = sql_records (qDb s)\<rparr>"

text \<open>The rows of a database are those that the records \<open>js\<close> leave.\<close>

definition db_of :: "Db \<Rightarrow> Change list \<Rightarrow> bool" where
  "db_of db js \<longleftrightarrow> dbJournal db = map line_of js \<and> table_is rkey row_of (dbEntries db) (replay js) \<and> table_is fkey index_of_entry (dbFts db) (replay js)"

definition sql_inv :: "SqlStore \<Rightarrow> bool" where
  "sql_inv s \<longleftrightarrow> (let js = sql_records (qDb s) in db_of (qDb s) js \<and> length js < 2 ^ 63 \<and> abs_inv (sql_view s) \<and> (\<forall>c \<in> set js. record_ok c))"

lemma records_of_lines: "\<forall>c \<in> set js. record_ok c \<Longrightarrow> records_of (map journal_row (map line_of js)) = js"
  by (induction js) (auto simp: journal_row_line)

lemma db_of_records: "db_of db js \<Longrightarrow> \<forall>c \<in> set js. record_ok c \<Longrightarrow> sql_records db = js"
  using records_of_lines by (simp add: db_of_def sql_records_def)

lemma sql_view_simps [simp]:
  "aMax (sql_view s) = qMax s" "aJournal (sql_view s) = sql_records (qDb s)" "aLive (sql_view s) sc n = replay (sql_records (qDb s)) (sc, n)"
  by (simp_all add: sql_view_def)

lemma replay_row_ok:
  assumes "sql_inv s" "replay (sql_records (qDb s)) (sc, n) = Some e"
  shows "row_ok e" "eScope e = sc" "eName e = n" "normal_entry (qMax s) e"
    "eHash e \<noteq> []" "ValidString (eHash e)" "ValidString (eContent e)"
proof -
  have a: "abs_inv (sql_view s)" "\<forall>c \<in> set (sql_records (qDb s)). record_ok c" using assms(1) by (simp_all add: sql_inv_def Let_def)
  obtain c where c: "c \<in> set (sql_records (qDb s))" "cEntry c = e" "\<not> eDeleted e" using replay_in [OF assms(2)] by blast
  have l: "eScope e = sc" "eName e = n" "normal_entry (qMax s) e"
    using abs_inv_live [OF a(1), of sc n e] assms(2) by simp_all
  then show "eScope e = sc" "eName e = n" "normal_entry (qMax s) e" by simp_all
  have r: "record_ok c" using a(2) c(1) by blast
  with c l(3) show "row_ok e" "eHash e \<noteq> []" "ValidString (eHash e)" "ValidString (eContent e)"
    by (auto simp: row_ok_def record_ok_def normal_entry_def)
qed

section \<open>Reading\<close>

definition no_fault :: faults where
  "no_fault = (\<lambda>st. None)"

lemma exec_simps [simp]: "exec no_fault st pre x = Inr x" "exec fault st pre x = Inr y \<longleftrightarrow> fault st = None \<and> y = x"
  by (auto simp: exec_def no_fault_def split: option.splits)

lemma and_then_simps [simp]: "and_then (Inr x) f = f x" "and_then (Inl err) f = Inl err" "and_then r f = Inr y \<longleftrightarrow> (\<exists>x. r = Inr x \<and> f x = Inr y)"
  by (auto simp: and_then_def split: sum.splits)

lemma sql_inv_tables:
  assumes "sql_inv s"
  shows "table_is rkey row_of (dbEntries (qDb s)) (replay (sql_records (qDb s)))" "table_is fkey index_of_entry (dbFts (qDb s)) (replay (sql_records (qDb s)))"
    "dbJournal (qDb s) = map line_of (sql_records (qDb s))" "length (sql_records (qDb s)) < 2 ^ 63" "numbered (sql_records (qDb s))"
    "chained (sql_records (qDb s))" "\<forall>c \<in> set (sql_records (qDb s)). record_ok c" "abs_inv (sql_view s)"
  using assms by (simp_all add: sql_inv_def Let_def db_of_def abs_inv_def)

lemma find_row:
  assumes "sql_inv s"
  shows "List.find (row_is sc n) (dbEntries (qDb s)) = map_option row_of (replay (sql_records (qDb s)) (sc, n))"
  unfolding row_is_key [abs_def] find_keyed using sql_inv_tables(1) [OF assms] by (simp add: table_is_def)

lemma sql_get_replay: "sql_inv s \<Longrightarrow> sql_get no_fault sc n (qDb s) = Inr (replay (sql_records (qDb s)) (sc, n))"
proof (cases "replay (sql_records (qDb s)) (sc, n)")
  case (Some e)
  moreover assume i: "sql_inv s"
  ultimately have "build_row (row_of e) = Inr e" "eScope e = sc" "eName e = n" using replay_row_ok [OF i Some] by (simp_all add: build_row_of)
  with Some i show ?thesis by (simp add: sql_get_def find_row build_row_def) (simp add: row_of_def)
qed (simp add: sql_get_def find_row)

lemma sql_check_ref: "sql_check sc n = map_option plain_error (CheckRef sc n)"
  by (simp add: sql_check_def CheckRef_def CheckScope_def)

lemma SqlGet_plain: "sql_inv s \<Longrightarrow> SqlGet no_fault sc n s = plain (abs_get sc n (sql_view s))"
  by (simp add: SqlGet_def abs_get_def sql_get_replay sql_check_ref split: option.splits)

lemma SqlGet_refines: "sql_inv s \<Longrightarrow> ValidScope sc \<Longrightarrow> ValidName n \<Longrightarrow> SqlGet no_fault sc n s = abs_get sc n (sql_view s)"
  by (simp add: SqlGet_plain abs_get_def CheckRef_def CheckScope_def split: option.splits)

lemma build_all_rows: "list_all (\<lambda>r. \<exists>e. build_row r = Inr e) rows \<Longrightarrow> build_all rows out = Inr (out @ map (\<lambda>r. projr (build_row r)) rows)"
  by (induction rows arbitrary: out) auto

lemma entry_row:
  assumes "sql_inv s"
  shows "r \<in> set (dbEntries (qDb s)) \<longleftrightarrow> (\<exists>e. replay (sql_records (qDb s)) (eScope e, eName e) = Some e \<and> r = row_of e)"
proof -
  have "rkey (row_of e) = k" if "replay (sql_records (qDb s)) k = Some e" for k e using replay_row_ok(2,3) [OF assms, of "fst k" "snd k" e] that by simp
  from table_is_member [OF sql_inv_tables(1) [OF assms] this] show ?thesis
    using replay_row_ok(2,3) [OF assms] by fastforce
qed

lemma entry_row_builds: "sql_inv s \<Longrightarrow> r \<in> set (dbEntries (qDb s)) \<Longrightarrow>
    \<exists>e. build_row r = Inr e \<and> r = row_of e \<and> replay (sql_records (qDb s)) (eScope e, eName e) = Some e"
  using entry_row [of s r] replay_row_ok(1) [of s] build_row_of by blast

lemma scope_rows:
  assumes "sql_inv s"
  shows "distinct (map rName (filter (\<lambda>r. rScope r = sc) (dbEntries (qDb s))))"
proof -
  have "distinct (map rkey (filter (\<lambda>r. rScope r = sc) (dbEntries (qDb s))))"
    using sql_inv_tables(1) [OF assms] by (simp add: table_is_def distinct_map_filter)
  then show ?thesis by (auto simp: distinct_map inj_on_def rkey_def)
qed

lemma SqlList_ok:
  assumes "sql_inv s" "ValidScope sc"
  shows "\<exists>es. SqlList no_fault sc s = Inr es \<and> sorted_wrt (<) (map eName es) \<and> (\<forall>e. e \<in> set es \<longleftrightarrow> aLive (sql_view s) sc (eName e) = Some e)"
proof -
  let ?rows = "sort_key rName (filter (\<lambda>r. rScope r = sc) (dbEntries (qDb s)))"
  let ?es = "map (\<lambda>r. projr (build_row r)) ?rows"
  have b: "\<exists>e. build_row r = Inr e \<and> r = row_of e \<and> replay (sql_records (qDb s)) (eScope e, eName e) = Some e" if "r \<in> set ?rows" for r
    using that entry_row_builds [OF assms(1)] by simp
  have l: "SqlList no_fault sc s = Inr ?es"
    using b build_all_rows [of ?rows "[]"] assms(2) by (fastforce simp: SqlList_def list_all_iff)
  have "eName (projr (build_row r)) = rName r" if "r \<in> set ?rows" for r using b [OF that] by (auto simp: row_of_def)
  then have n: "map eName ?es = map rName ?rows" by (simp add: comp_def)
  have "distinct (map rName ?rows)" using scope_rows [OF assms(1)] by (simp add: distinct_map)
  then have s: "sorted_wrt (<) (map eName ?es)" unfolding n by (simp add: strict_sorted_iff)
  have "e \<in> set ?es \<longleftrightarrow> replay (sql_records (qDb s)) (sc, eName e) = Some e" for e
  proof
    assume "e \<in> set ?es"
    then obtain r where r: "r \<in> set ?rows" "e = projr (build_row r)" by auto
    from b [OF r(1)] r show "replay (sql_records (qDb s)) (sc, eName e) = Some e" by (auto simp: row_of_def)
  next
    assume e: "replay (sql_records (qDb s)) (sc, eName e) = Some e"
    note k = replay_row_ok(1,2) [OF assms(1) e]
    then have "row_of e \<in> set (dbEntries (qDb s))" using e entry_row [OF assms(1)] by blast
    then have "row_of e \<in> set ?rows" using k by (simp add: row_of_def)
    then show "e \<in> set ?es" using build_row_of [OF k(1)] by force
  qed
  with l s show ?thesis by auto
qed

end
