(* ===== verification/SqlWrites.thy ===== *)
theory SqlWrites
  imports SqlProofs "HOL-Library.Multiset"
begin

text \<open>
  The writes of the SQLite store.  Without a failing statement a put and a forget are given by an equation over the records of the journal;
  a statement that fails can only turn the result into an error, and then the database is as it was.  So every write keeps the
  invariant, and a put whose text survives being written refines the abstract put.
\<close>

section \<open>A failing statement\<close>

text \<open>\<open>r\<close> fails where \<open>r'\<close> fails, and perhaps elsewhere.\<close>

definition fails_more :: "error + 'a \<Rightarrow> error + 'a \<Rightarrow> bool" where
  "fails_more r r' \<longleftrightarrow> (\<forall>x. r = Inr x \<longrightarrow> r' = Inr x)"

lemma fails_more_refl: "fails_more r r"
  by (simp add: fails_more_def)

lemma fails_more_exec: "fails_more (exec fault st pre x) (exec no_fault st pre x)"
  by (simp add: fails_more_def)

lemma fails_more_then: "fails_more r r' \<Longrightarrow> (\<And>x. fails_more (f x) (g x)) \<Longrightarrow> fails_more (and_then r f) (and_then r' g)"
  by (auto simp: fails_more_def)

lemma fails_more_option: "fails_more a b \<Longrightarrow> (\<And>x. fails_more (f x) (g x)) \<Longrightarrow> fails_more (case_option a f v) (case_option b g v)"
  by (cases v) auto

lemmas fails_more_rules = fails_more_then fails_more_option fails_more_exec fails_more_refl

lemma fails_more_get: "fails_more (sql_get fault sc n db) (sql_get no_fault sc n db)"
  unfolding sql_get_def by (intro fails_more_rules)

lemma fails_more_reindex: "fails_more (sql_reindex fault sc n e db) (sql_reindex no_fault sc n e db)"
  unfolding sql_reindex_def Let_def by (intro fails_more_rules)

lemma fails_more_record: "fails_more (sql_record fault c db) (sql_record no_fault c db)"
  unfolding sql_record_def Let_def by (intro fails_more_rules)

lemma fails_more_put: "fails_more (put_tx fault limit session now e po db) (put_tx no_fault limit session now e po db)"
  unfolding put_tx_def Let_def by (intro fails_more_then fails_more_option fails_more_get fails_more_exec fails_more_reindex fails_more_record fails_more_refl)

lemma fails_more_forget: "fails_more (forget_tx fault session now sc n db) (forget_tx no_fault session now sc n db)"
  unfolding forget_tx_def by (intro fails_more_then fails_more_option fails_more_get fails_more_exec fails_more_reindex fails_more_record fails_more_refl)

lemma transaction_cases:
  assumes "transaction fault body s = (r, s')"
  obtains (err) err where "r = Inl err" "s' = s"
  | (ok) c db where "r = Inr c" "s' = s\<lparr>qDb := db\<rparr>" "body (qDb s) = Inr (c, db)"
proof (cases "and_then (exec fault TxBegin ''sqlite: begin: '' (qDb s)) (\<lambda>db. and_then (body db) (\<lambda>r. exec fault TxCommit ''sqlite: commit: '' r))")
  case (Inl err)
  with assms show ?thesis by (intro that(1) [of err]) (simp_all add: transaction_def)
next
  case (Inr x)
  with assms show ?thesis by (cases x) (auto simp: transaction_def intro: that(2))
qed

lemma transaction_no_fault:
  "transaction no_fault body s = (case body (qDb s) of Inl err \<Rightarrow> (Inl err, s) | Inr (c, db) \<Rightarrow> (Inr c, s\<lparr>qDb := db\<rparr>))"
  by (auto simp: transaction_def split: sum.splits)

lemma transaction_le:
  assumes "fails_more (body (qDb s)) (body' (qDb s))" "transaction fault body s = (Inr c, s')"
  shows "transaction no_fault body' s = (Inr c, s')"
  using assms(2) by (cases rule: transaction_cases) (use assms(1) in \<open>auto simp: transaction_no_fault fails_more_def\<close>)

lemma SqlPut_le: "SqlPut fault session now e opts s = (Inr c, s') \<Longrightarrow> SqlPut no_fault session now e opts s = (Inr c, s')"
  by (auto simp: SqlPut_def Let_def intro: transaction_le fails_more_put split: option.splits)

lemma SqlForget_le: "SqlForget fault session now sc n s = (Inr c, s') \<Longrightarrow> SqlForget no_fault session now sc n s = (Inr c, s')"
  by (auto simp: SqlForget_def intro: transaction_le fails_more_forget split: option.splits)

lemma SqlPut_error: "SqlPut fault session now e opts s = (Inl err, s') \<Longrightarrow> s' = s"
  by (auto simp: SqlPut_def Let_def elim: transaction_cases split: option.splits)

lemma SqlForget_error: "SqlForget fault session now sc n s = (Inl err, s') \<Longrightarrow> s' = s"
  by (auto simp: SqlForget_def elim: transaction_cases split: option.splits)

section \<open>A record\<close>

definition room :: "SqlStore \<Rightarrow> bool" where
  "room s \<longleftrightarrow> Suc (length (sql_records (qDb s))) < 2 ^ 63"

lemma small_seq: "k < 2 ^ 63 \<Longrightarrow> uint (of_nat k :: uint64) = int k" "k < 2 ^ 63 \<Longrightarrow> sint (of_nat k :: uint64) = int k"
proof -
  assume k: "k < 2 ^ 63"
  then have "k mod 2 ^ 64 = k" by simp
  then show u: "uint (of_nat k :: uint64) = int k" by (simp only: uint_nat unat_of_nat) simp
  show "sint (of_nat k :: uint64) = int k" using k by (simp add: signed_of_nat signed_take_bit_int_eq_self)
qed

lemma sql_record_run:
  assumes "sql_inv s" "room s" "dbJournal db = dbJournal (qDb s)"
  shows "sql_record no_fault c db =
     (let c = c\<lparr>cSeq := of_nat (Suc (length (sql_records (qDb s))))\<rparr> in
      if year_fits (eUpdated (cEntry c)) \<and> year_fits (cAt c) then Inr (c, db\<lparr>dbJournal := dbJournal (qDb s) @ [line_of c]\<rparr>)
      else Inl (ErrText ''sqlite: encode journal record: ''))"
proof -
  let ?js = "sql_records (qDb s)"
  note i = sql_inv_tables [OF assms(1)]
  have "max_seq (dbJournal (qDb s)) = int (length ?js)" using max_seq_lines [OF i(5,4)] by (simp add: i(3))
  then have w: "of_int (max_seq (dbJournal (qDb s))) + 1 = (of_nat (Suc (length ?js)) :: uint64)" by simp
  have k: "Suc (length ?js) < 2 ^ 63" using assms(2) by (simp add: room_def)
  have "jSeq r \<noteq> int (Suc (length ?js))" if r: "r \<in> set (dbJournal db)" for r
  proof -
    obtain j where "j < length ?js" "r = line_of (?js ! j)" using r unfolding assms(3) i(3) set_map by (auto simp: in_set_conv_nth)
    then show ?thesis using numbered_seq [OF i(5,4)] by (simp add: line_of_def)
  qed
  then have "\<not> list_ex (\<lambda>r. jSeq r = sint (of_nat (Suc (length ?js)) :: uint64)) (dbJournal db)"
    unfolding small_seq(2) [OF k] by (auto simp: list_ex_iff)
  then show ?thesis
    by (simp add: sql_record_def w marshal_change_def Let_def assms(3) line_of_def small_seq [OF k] del: of_nat_Suc)
qed

section \<open>A put\<close>

definition put_rec :: "Change list \<Rightarrow> string \<Rightarrow> time \<Rightarrow> Entry \<Rightarrow> PutOptions \<Rightarrow> Change" where
  "put_rec js session now e po =
     (let stored = replay js (eScope e, eName e) in
      \<lparr>cSeq = of_nat (Suc (length js)), cEntry = stored_form now e, cPrev = BaseFor po stored, cReplaced = hash_of stored,
       cSession = session, cSource = [], cAt = now\<rparr>)"

definition put_db :: "Db \<Rightarrow> Change \<Rightarrow> Db" where
  "put_db db c =
     \<lparr>dbEntries = upsert_row (row_of (cEntry c)) (dbEntries db), dbJournal = dbJournal db @ [line_of c],
      dbFts = filter (\<lambda>f. fkey f \<noteq> ckey c) (dbFts db) @ [index_of_entry (cEntry c)]\<rparr>"

lemma put_entry_stored: "put_entry now e = stored_form now e"
  by (auto simp: put_entry_def stored_form_def cloneEntry_def Let_def)

lemma put_tx_run:
  fixes e :: Entry and session :: string and now :: time and po :: PutOptions
  assumes "sql_inv s" "room s"
  defines "stored \<equiv> replay (sql_records (qDb s)) (eScope e, eName e)" and "c \<equiv> put_rec (sql_records (qDb s)) session now e po"
  shows "put_tx no_fault (qMax s) session now e po (qDb s) =
     (case CheckEntry e (qMax s) stored of
        Some err \<Rightarrow> Inl err
      | None \<Rightarrow> (case Check po (eScope e) (eName e) stored of
            Some err \<Rightarrow> Inl err
          | None \<Rightarrow> if year_fits now then Inr (c, put_db (qDb s) c) else Inl (ErrText ''sqlite: encode journal record: '')))"
proof -
  let ?e = "stored_form now e"
  let ?db = "(qDb s)\<lparr>dbEntries := upsert_row (row_of ?e) (dbEntries (qDb s)), dbFts := filter (\<lambda>f. fkey f \<noteq> (eScope e, eName e)) (dbFts (qDb s)) @ [index_of_entry ?e]\<rparr>"
  have x: "sql_reindex no_fault (eScope e) (eName e) (Some ?e) ((qDb s)\<lparr>dbEntries := upsert_row (row_of ?e) (dbEntries (qDb s))\<rparr>) = Inr ?db"
    by (simp add: sql_reindex_def Let_def index_of_entry_def fkey_def)
  have r: "(\<lparr>rScope = eScope ?e, rName = eName ?e, rContent = eContent ?e, rMeta = meta_column (eMeta ?e), rHash = eHash ?e, rUpdated = FormatRFC3339Nano now\<rparr>) = row_of ?e"
    by (simp add: row_of_def)
  have "put_db (qDb s) c = ?db\<lparr>dbJournal := dbJournal (qDb s) @ [line_of c]\<rparr>"
    by (simp add: put_db_def c_def put_rec_def Let_def ckey_def)
  then show ?thesis
    unfolding put_tx_def put_entry_stored
    by (simp add: sql_get_replay [OF assms(1)] stored_def [symmetric] x sql_record_run [OF assms(1,2)] c_def put_rec_def hash_of_def
        Let_def r [simplified] split: option.splits)
qed

section \<open>The invariant is kept\<close>

lemma append_inv:
  assumes "sql_inv s" "room s" "record_ok c" "normal_entry (qMax s) (cEntry c)"
    and "cSeq c = of_nat (Suc (length (sql_records (qDb s))))" "cReplaced c = hash_of (replay (sql_records (qDb s)) (ckey c))"
    and "db_of db (sql_records (qDb s) @ [c])"
  shows "sql_inv (s\<lparr>qDb := db\<rparr>) \<and> sql_records db = sql_records (qDb s) @ [c]"
proof -
  note i = sql_inv_tables [OF assms(1)]
  have r: "sql_records db = sql_records (qDb s) @ [c]" using assms(3,7) i(7) by (intro db_of_records) auto
  have "abs_inv (sql_view (s\<lparr>qDb := db\<rparr>))"
    using i(5,6,8) assms(4-6) by (auto simp: abs_inv_def r chained_snoc numbered_snoc held_replay simp del: of_nat_Suc)
  then show ?thesis using assms(2,3,7) i(7) r by (simp add: sql_inv_def room_def)
qed

lemma mset_sorted_items:
  assumes "distinct (map fst m)"
  shows "mset (sorted_items m) = mset m"
proof -
  have d: "distinct (map fst (sorted_items m))" using assms by (simp add: sorted_items_fst)
  have "set (sorted_items m) = set m"
    using map_of_eq_Some_iff [OF assms] map_of_eq_Some_iff [OF d] by (auto simp: map_of_sorted_items)
  then show ?thesis using assms d by (simp add: set_eq_iff_mset_eq_distinct [symmetric] distinct_map)
qed

definition canon_entry :: "Entry \<Rightarrow> Entry" where
  "canon_entry e = e\<lparr>eMeta := canon_meta (eMeta e)\<rparr>"

lemma canon_entry_simps [simp]: "eScope (canon_entry e) = eScope e" "eName (canon_entry e) = eName e" "eContent (canon_entry e) = eContent e"
  "eHash (canon_entry e) = eHash e" "eMetaHash (canon_entry e) = eMetaHash e" "eUpdated (canon_entry e) = eUpdated e"
  "eDeleted (canon_entry e) = eDeleted e" "eMeta (canon_entry e) = canon_meta (eMeta e)" "cEntry (canon_change c) = canon_entry (cEntry c)"
  by (simp_all add: canon_entry_def canon_change_def)

lemma canon_rows:
  assumes "wf_gomap (eMeta e)" "eMeta e \<noteq> Some []"
  shows "row_of (canon_entry e) = row_of e" "index_of_entry (canon_entry e) = index_of_entry e"
proof -
  show "row_of (canon_entry e) = row_of e"
    using assms(2) by (cases "eMeta e") (auto simp: row_of_def meta_column_def canon_meta_def mlen_mitems sorted_items_idem)
  have "mset (map snd (sorted_items (mitems (eMeta e)))) = mset (map snd (mitems (eMeta e)))"
    using assms(1) by (simp add: mset_sorted_items wf_gomap_items)
  then have "sort (map snd (sorted_items (mitems (eMeta e)))) = sort (map snd (mitems (eMeta e)))"
    by (intro properties_for_sort) simp_all
  then show "index_of_entry (canon_entry e) = index_of_entry e" by (simp add: index_of_entry_def)
qed

lemma canon_line: "line_of (canon_change c) = line_of c"
  by (simp add: line_of_def canon_json)

lemma canon_normal:
  assumes "normal_entry limit e" "wf_gomap (eMeta e)"
  shows "normal_entry limit (canon_entry e)"
proof -
  let ?m = "mitems (eMeta e)"
  have d: "distinct (map fst ?m)" using assms(2) by (simp add: wf_gomap_items)
  have "meta_ok (sorted_items ?m)" using assms(1) sorted_items_in [OF _ d] by (fastforce simp: normal_entry_def entry_ok_def meta_ok_def)
  moreover have "meta_bytes (sorted_items ?m) = meta_bytes ?m"
    unfolding meta_bytes_def by (metis (no_types) mset_sorted_items [OF d] mset_map sum_mset_sum_list)
  moreover have "canon_meta (eMeta e) \<noteq> Some []" by (auto simp: canon_meta_def mlen_mitems)
  ultimately show ?thesis using assms(1) by (simp add: normal_entry_def entry_ok_def Size_def)
qed

lemma canon_id: "canonical m \<Longrightarrow> canon_meta m = m"
  by (cases m) (auto simp: canonical_def canon_meta_def mlen_mitems)

lemma upsert_table:
  assumes "table_is rkey row_of rows f"
  shows "table_is rkey row_of (upsert_row (row_of e) rows) (f((eScope e, eName e) \<mapsto> e))"
proof -
  let ?k = "(eScope e, eName e)"
  have u: "upsert_row (row_of e) rows = (if \<exists>r \<in> set rows. rkey r = ?k then map (\<lambda>r. if rkey r = ?k then row_of e else r) rows else rows @ [row_of e])"
    by (auto simp: upsert_row_def row_is_key list_ex_iff row_of_def rkey_def)
  have "map_of (map (\<lambda>r. (rkey r, r)) rows) ?k = map_option row_of (f ?k)" using assms by (simp add: table_is_def)
  then have "(\<exists>r \<in> set rows. rkey r = ?k) \<longleftrightarrow> f ?k \<noteq> None" using map_of_keyed_None [of rkey rows ?k] by (auto simp: image_iff)
  with u assms show ?thesis by (simp add: table_is_replace table_is_add)
qed

lemma Check_base: "Check po sc n stored = None \<Longrightarrow> BaseFor po stored \<in> {hash_of stored, pBase po}"
  by (auto simp: Check_def BaseFor_def hash_of_def Let_def split: if_splits option.splits)

lemma hash_of_valid: "sql_inv s \<Longrightarrow> ValidString (hash_of (replay (sql_records (qDb s)) (sc, n)))"
  using replay_row_ok(6) [of s sc n] by (cases "replay (sql_records (qDb s)) (sc, n)") (auto simp: hash_of_def intro: valid_ascii)

lemma put_rec_ok:
  assumes "sql_inv s" "room s" "entry_ok e limit" "wf_gomap (eMeta e)" "ValidString session" "ValidString (pBase po)" "year_fits now"
    and "Check po (eScope e) (eName e) (replay (sql_records (qDb s)) (eScope e, eName e)) = None"
  shows "record_ok (canon_change (put_rec (sql_records (qDb s)) session now e po))"
proof (rule text_record)
  let ?st = "replay (sql_records (qDb s)) (eScope e, eName e)"
  have h: "ValidString (hash_of ?st)" using hash_of_valid [OF assms(1)] .
  then have b: "ValidString (BaseFor po ?st)" using Check_base [OF assms(8)] assms(6) by auto
  have v: "ValidString []" by code_simp
  have w: "wf_gomap (eMeta (stored_form now e))" using assms(4) by (simp add: wf_gomap_items)
  show "text_change (put_rec (sql_records (qDb s)) session now e po)"
    using assms(3,5) entry_ok_text [OF assms(3)] h b v w
    by (simp add: text_change_def put_rec_def Let_def valid_Hash valid_MetaHash entry_ok_def)
  have "unat (of_nat (Suc (length (sql_records (qDb s)))) :: uint64) \<noteq> 0"
    using assms(2) small_seq(1) [of "Suc (length (sql_records (qDb s)))"] unfolding room_def unat_eq_nat_uint by simp
  then show "cSeq (put_rec (sql_records (qDb s)) session now e po) \<noteq> 0" by (auto simp: put_rec_def Let_def)
qed (use assms(7) in \<open>simp_all add: put_rec_def Let_def\<close>)

lemma put_tx_step:
  assumes "sql_inv s" "room s" "wf_gomap (eMeta e)" "ValidString session" "ValidString (pBase po)"
    and "put_tx fault (qMax s) session now e po (qDb s) = Inr (c, db)"
  shows "c = put_rec (sql_records (qDb s)) session now e po \<and> sql_inv (s\<lparr>qDb := db\<rparr>) \<and> sql_records db = sql_records (qDb s) @ [canon_change c]"
proof -
  let ?js = "sql_records (qDb s)" and ?st = "replay (sql_records (qDb s)) (eScope e, eName e)"
  have "put_tx no_fault (qMax s) session now e po (qDb s) = Inr (c, db)"
    using assms(6) fails_more_put by (auto simp: fails_more_def)
  then have p: "CheckEntry e (qMax s) ?st = None" "Check po (eScope e) (eName e) ?st = None" "year_fits now"
      "c = put_rec ?js session now e po" "db = put_db (qDb s) c"
    unfolding put_tx_run [OF assms(1,2)] by (auto split: option.splits if_splits)
  have ok: "entry_ok e (qMax s)" using p(1) by (simp add: CheckEntry_None)
  have e: "cEntry c = stored_form now e" "ckey c = (eScope e, eName e)" by (simp_all add: p(4) put_rec_def Let_def ckey_def)
  have w: "wf_gomap (eMeta (cEntry c))" "eMeta (cEntry c) \<noteq> Some []" using assms(3) by (simp_all add: e wf_gomap_items)
  note i = sql_inv_tables [OF assms(1)]
  have rp: "replay (?js @ [canon_change c]) = (replay ?js)((eScope e, eName e) \<mapsto> canon_entry (cEntry c))"
    by (simp add: replay_snoc e)
  have "table_is rkey row_of (dbEntries db) (replay (?js @ [canon_change c]))"
    using upsert_table [OF i(1), of "canon_entry (cEntry c)"] unfolding rp by (simp add: p(5) put_db_def canon_rows(1) [OF w, unfolded e(1)] e)
  moreover have "table_is fkey index_of_entry (dbFts db) (replay (?js @ [canon_change c]))"
    using table_is_add [OF table_is_delete [OF i(2)], where k1 = "(eScope e, eName e)" and k = "(eScope e, eName e)" and e = "canon_entry (cEntry c)"] unfolding rp
    by (simp add: p(5) put_db_def canon_rows [OF w] e(2)) (simp add: e)
  ultimately have "db_of db (?js @ [canon_change c])"
    using i(3) by (simp add: db_of_def p(5) put_db_def canon_line)
  moreover have "normal_entry (qMax s) (cEntry (canon_change c))" using canon_normal [OF _ w(1)] normal_stored_form [OF ok] by (simp add: e)
  moreover have "record_ok (canon_change c)" unfolding p(4) by (rule put_rec_ok [OF assms(1,2) ok assms(3-5) p(3,2)])
  ultimately have "sql_inv (s\<lparr>qDb := db\<rparr>) \<and> sql_records db = ?js @ [canon_change c]"
    by (intro append_inv [OF assms(1,2)]) (simp_all add: e(2), simp_all add: p(4) put_rec_def Let_def)
  with p(4) show ?thesis by simp
qed

section \<open>A forget\<close>

definition forget_rec :: "Change list \<Rightarrow> string \<Rightarrow> time \<Rightarrow> Entry \<Rightarrow> Change" where
  "forget_rec js session now e =
     \<lparr>cSeq = of_nat (Suc (length js)), cEntry = e\<lparr>eDeleted := True, eUpdated := now\<rparr>, cPrev = eHash e, cReplaced = eHash e,
      cSession = session, cSource = [], cAt = now\<rparr>"

definition forget_db :: "Db \<Rightarrow> Change \<Rightarrow> Db" where
  "forget_db db c =
     \<lparr>dbEntries = filter (\<lambda>r. rkey r \<noteq> ckey c) (dbEntries db), dbJournal = dbJournal db @ [line_of c], dbFts = filter (\<lambda>f. fkey f \<noteq> ckey c) (dbFts db)\<rparr>"

lemma forget_tx_run:
  fixes session :: string and now :: time
  assumes "sql_inv s" "room s"
  shows "forget_tx no_fault session now sc n (qDb s) =
     (case replay (sql_records (qDb s)) (sc, n) of
        None \<Rightarrow> Inl (ErrNotFound sc n)
      | Some e \<Rightarrow> let c = forget_rec (sql_records (qDb s)) session now e in
          if year_fits now then Inr (c, forget_db (qDb s) c) else Inl (ErrText ''sqlite: encode journal record: ''))"
proof (cases "replay (sql_records (qDb s)) (sc, n)")
  case (Some e)
  then have k: "ckey (forget_rec (sql_records (qDb s)) session now e) = (sc, n)"
    using replay_row_ok(2,3) [OF assms(1) Some] by (simp add: ckey_def forget_rec_def)
  show ?thesis using k
    by (simp add: forget_tx_def sql_get_replay [OF assms(1)] Some sql_reindex_def sql_record_run [OF assms] Let_def forget_db_def
        forget_rec_def row_is_key) (simp add: fkey_def)
qed (simp add: forget_tx_def sql_get_replay [OF assms(1)])

lemma forget_tx_step:
  assumes "sql_inv s" "room s" "ValidString session"
    and "forget_tx fault session now sc n (qDb s) = Inr (c, db)"
  shows "\<exists>e. replay (sql_records (qDb s)) (sc, n) = Some e \<and> c = forget_rec (sql_records (qDb s)) session now e \<and>
    sql_inv (s\<lparr>qDb := db\<rparr>) \<and> sql_records db = sql_records (qDb s) @ [c]"
proof -
  let ?js = "sql_records (qDb s)"
  have "forget_tx no_fault session now sc n (qDb s) = Inr (c, db)" using assms(4) fails_more_forget by (auto simp: fails_more_def)
  then obtain e where p: "replay ?js (sc, n) = Some e" "c = forget_rec ?js session now e" "year_fits now" "db = forget_db (qDb s) c"
    unfolding forget_tx_run [OF assms(1,2)] by (auto simp: Let_def split: option.splits if_splits)
  note l = replay_row_ok [OF assms(1) p(1)] and i = sql_inv_tables [OF assms(1)]
  have k: "ckey c = (sc, n)" using l(2,3) by (simp add: ckey_def p(2) forget_rec_def)
  have rp: "replay (?js @ [c]) = (replay ?js)((sc, n) := None)" by (simp add: replay_snoc k) (simp add: p(2) forget_rec_def)
  have "db_of db (?js @ [c])"
    unfolding db_of_def rp using table_is_delete [OF i(1)] table_is_delete [OF i(2)] i(3) by (simp add: p(4) forget_db_def k)
  moreover have "unat (of_nat (Suc (length ?js)) :: uint64) \<noteq> 0"
    using assms(2) small_seq(1) [of "Suc (length ?js)"] unfolding room_def unat_eq_nat_uint by simp
  then have "cSeq c \<noteq> 0" by (auto simp: p(2) forget_rec_def)
  then have "record_ok c"
    using l p(3) assms(3) valid_ascii [of "[]"] unfolding record_ok_def normal_entry_def entry_ok_def row_ok_def
    by (simp add: p(2) forget_rec_def valid_MetaHash)
  ultimately have "sql_inv (s\<lparr>qDb := db\<rparr>) \<and> sql_records db = ?js @ [c]"
    using normal_entry_deleted [OF l(4)] p(1)
    by (intro append_inv [OF assms(1,2)]) (simp_all add: k hash_of_def, simp_all add: p(2) forget_rec_def)
  with p show ?thesis by blast
qed

end
