(* ===== verification/SqlUse.thy ===== *)
theory SqlUse
  imports SqlWrites
begin

text \<open>
  The SQLite store keeps the store contract, and what follows for its users: its invariant in every reachable state whichever
  statements fail, what a search returns, and what a journal cursor gives.
\<close>

section \<open>The contract\<close>

definition sql_stamp_fits :: "string \<Rightarrow> time \<Rightarrow> bool" where
  "sql_stamp_fits session now \<longleftrightarrow> ValidString session \<and> year_fits now"

text \<open>A Go map has no order; the store reads metadata back with its keys in order, which is then the list that stands for the map.\<close>

definition sql_fits :: "string \<Rightarrow> time \<Rightarrow> Entry \<Rightarrow> PutOption list \<Rightarrow> bool" where
  "sql_fits session now e opts \<longleftrightarrow> sql_stamp_fits session now \<and> wf_gomap (eMeta e) \<and> sorted_items (mitems (eMeta e)) = mitems (eMeta e) \<and>
     ValidString (pBase (ResolvePutOptions opts))"

lemma CheckEntry_early: "CheckEntry e 0 None = Some err \<Longrightarrow> CheckEntry e limit stored = Some err"
  by (auto simp: CheckEntry_def split: if_splits sum.splits)

lemma canon_put_rec:
  assumes "sorted_items (mitems (eMeta e)) = mitems (eMeta e)" "wf_gomap (eMeta e)"
  shows "canon_change (put_rec js session now e po) = put_rec js session now e po"
proof -
  have "canonical (eMeta (stored_form now e))" using assms by (simp add: canonical_def wf_gomap_items)
  then show ?thesis by (simp add: canon_change_def put_rec_def Let_def canon_id)
qed

lemma SqlPut_refines:
  assumes "sql_inv s" "sql_fits session now e opts" "room s" "SqlPut no_fault session now e opts s = (r, s')"
  shows "sql_inv s' \<and> abs_put session now e opts (sql_view s) = (r, sql_view s')"
proof -
  let ?js = "sql_records (qDb s)" and ?po = "ResolvePutOptions opts"
  let ?st = "replay ?js (eScope e, eName e)" and ?c = "put_rec ?js session now e (ResolvePutOptions opts)"
  have f: "wf_gomap (eMeta e)" "sorted_items (mitems (eMeta e)) = mitems (eMeta e)" "ValidString session" "ValidString (pBase ?po)" "year_fits now"
    using assms(2) by (simp_all add: sql_fits_def sql_stamp_fits_def)
  note run = put_tx_run [OF assms(1,3), where e = e and session = session and now = now and po = ?po]
  show ?thesis
  proof (cases "CheckEntry e (qMax s) ?st")
    case (Some err)
    then have "SqlPut no_fault session now e opts s = (Inl err, s)"
      using run CheckEntry_early [of e _ "qMax s" ?st] by (auto simp: SqlPut_def Let_def transaction_no_fault split: option.splits)
    with Some assms(1,4) show ?thesis by (simp add: abs_put_def Let_def)
  next
    case ce: None
    then have early: "CheckEntry e 0 None = None" using CheckEntry_early by (metis option.exhaust option.simps(3))
    show ?thesis
    proof (cases "Check ?po (eScope e) (eName e) ?st")
      case (Some err)
      then have "SqlPut no_fault session now e opts s = (Inl err, s)" using run ce early by (simp add: SqlPut_def Let_def transaction_no_fault)
      with ce Some assms(1,4) show ?thesis by (simp add: abs_put_def Let_def)
    next
      case None
      have p: "put_tx no_fault (qMax s) session now e ?po (qDb s) = Inr (?c, put_db (qDb s) ?c)" using run ce None f(5) by simp
      then have s': "r = Inr ?c" "s' = s\<lparr>qDb := put_db (qDb s) ?c\<rparr>"
        using assms(4) early by (simp_all add: SqlPut_def Let_def transaction_no_fault)
      have q: "sql_inv s'" "sql_records (qDb s') = ?js @ [?c]"
        using put_tx_step [OF assms(1,3) f(1,3,4) p] canon_put_rec [OF f(2,1)] by (simp_all add: s')
      have seq: "next_seq ?js = of_nat (Suc (length ?js))" using numbered_next_seq sql_inv_tables(5) [OF assms(1)] by blast
      have "abs_put session now e opts (sql_view s) = (Inr ?c, sql_view s')"
        using ce None by (simp add: abs_put_def Let_def put_rec_def seq del: of_nat_Suc)
          (simp add: sql_view_def q(2), simp add: s'(2) put_rec_def Let_def replay_snoc ckey_def fun_eq_iff)
      with q(1) s'(1) show ?thesis by simp
    qed
  qed
qed

lemma SqlForget_refines:
  assumes "sql_inv s" "sql_stamp_fits session now" "room s" "SqlForget no_fault session now sc n s = (r, s')"
  shows "sql_inv s' \<and> (\<exists>q. abs_forget session now sc n (sql_view s) = (q, sql_view s') \<and> r = plain q)"
proof -
  let ?js = "sql_records (qDb s)"
  have f: "ValidString session" "year_fits now" using assms(2) by (simp_all add: sql_stamp_fits_def)
  note run = forget_tx_run [OF assms(1,3), where session = session and now = now and sc = sc and n = n]
  show ?thesis
  proof (cases "CheckRef sc n")
    case (Some err)
    with assms(1,4) show ?thesis by (auto simp: SqlForget_def sql_check_ref abs_forget_def)
  next
    case cr: None
    show ?thesis
    proof (cases "replay ?js (sc, n)")
      case None
      with run cr have "SqlForget no_fault session now sc n s = (Inl (ErrNotFound sc n), s)"
        by (simp add: SqlForget_def sql_check_ref transaction_no_fault)
      with cr None assms(1,4) show ?thesis by (auto simp: abs_forget_def)
    next
      case (Some e)
      let ?c = "forget_rec ?js session now e"
      have p: "forget_tx no_fault session now sc n (qDb s) = Inr (?c, forget_db (qDb s) ?c)" using run Some f(2) by (simp add: Let_def)
      then have s': "r = Inr ?c" "s' = s\<lparr>qDb := forget_db (qDb s) ?c\<rparr>"
        using assms(4) cr by (simp_all add: SqlForget_def sql_check_ref transaction_no_fault)
      have q: "sql_inv s'" "sql_records (qDb s') = ?js @ [?c]" using forget_tx_step [OF assms(1,3) f(1) p] by (auto simp: s')
      have seq: "next_seq ?js = of_nat (Suc (length ?js))" using numbered_next_seq sql_inv_tables(5) [OF assms(1)] by blast
      have k: "eScope e = sc" "eName e = n" using replay_row_ok(2,3) [OF assms(1) Some] by simp_all
      have "abs_forget session now sc n (sql_view s) = (Inr ?c, sql_view s')"
        using cr Some by (simp add: abs_forget_def Let_def forget_rec_def seq del: of_nat_Suc)
          (simp add: sql_view_def q(2), simp add: s'(2) forget_rec_def replay_snoc ckey_def k fun_eq_iff)
      with q(1) s'(1) show ?thesis by simp
    qed
  qed
qed

section \<open>The journal\<close>

lemma lines_sorted:
  assumes "sql_inv s"
  shows "sorted (map jSeq (dbJournal (qDb s)))"
proof -
  note i = sql_inv_tables [OF assms]
  have "map jSeq (dbJournal (qDb s)) ! j = int (Suc j)" if "j < length (dbJournal (qDb s))" for j
    using that numbered_seq [OF i(5,4), of j] unfolding i(3) by (simp add: line_of_def)
  then show ?thesis by (simp add: sorted_iff_nth_mono)
qed

lemma SqlJournal_lines:
  assumes "sql_inv s"
  shows "SqlJournal no_fault after s = map Inr (filter (\<lambda>c. sint after < uint (cSeq c)) (sql_records (qDb s)))"
proof -
  note i = sql_inv_tables [OF assms]
  have s: "sort_key jSeq (filter (\<lambda>r. jSeq r > sint after) (dbJournal (qDb s))) = filter (\<lambda>r. jSeq r > sint after) (dbJournal (qDb s))"
    using lines_sorted [OF assms] by (intro sort_key_id_if_sorted) (simp add: sorted_filter)
  have "map journal_row (filter (\<lambda>r. jSeq r > k) (map line_of js)) = map Inr (filter (\<lambda>c. k < uint (cSeq c)) js)"
    if "\<forall>c \<in> set js. record_ok c" for k js
    using that by (induction js) (auto simp: journal_row_line, simp_all add: line_of_def)
  then show ?thesis using i(7) by (simp add: SqlJournal_def s del: exec_simps) (simp add: i(3) exec_def no_fault_def)
qed

lemma numbered_filter:
  assumes "numbered js" "length js < 2 ^ 63"
  shows "filter (\<lambda>c. int n < uint (cSeq c)) js = drop n js"
  using assms
proof (induction js rule: rev_induct)
  case (snoc c js)
  then have "uint (cSeq c) = int (Suc (length js))" by (simp only: numbered_snoc uint_nat unat_of_nat) simp
  with snoc show ?case by (simp add: numbered_snoc)
qed simp

lemma sql_journal_from:
  assumes "sql_inv s" "length (sql_records (qDb s)) < 2 ^ 63" "unat after < 2 ^ 63"
  shows "SqlJournal no_fault after s = map Inr (drop (unat after) (sql_records (qDb s)))"
proof -
  let ?js = "sql_records (qDb s)"
  have "int (unat after) < int (2 ^ 63)" using assms(3) by (simp only: of_nat_less_iff)
  then have u: "uint after < 2 ^ 63" by simp
  have "- (2 ^ 63) \<le> uint after" by (rule order_trans [OF _ uint_ge_0]) simp
  from signed_take_bit_int_eq_self [OF this u] have "sint after = int (unat after)" by (simp add: sint_uint)
  moreover have "numbered ?js" using sql_inv_tables(5) [OF assms(1)] .
  ultimately show ?thesis using SqlJournal_lines [OF assms(1), of after] numbered_filter [of ?js "unat after"] assms(2) by simp
qed

interpretation sql: conforming_store "sqlStore fts no_fault" sql_inv sql_view sql_fits sql_stamp_fits "2 ^ 63 - 1" for fts :: "('r :: linorder) fts"
proof (unfold_locales, goal_cases)
  case (1 s)
  then show ?case by (simp add: sql_inv_def Let_def)
next
  case (2 s sc n)
  then show ?case by (simp add: sqlStore_def SqlGet_plain)
next
  case (3 s sc)
  then show ?case by (simp add: sqlStore_def SqlList_def)
next
  case (4 s sc)
  then show ?case using SqlList_ok [of s sc] by (simp add: sqlStore_def)
next
  case (5 s session now e opts r s')
  then show ?case using SqlPut_refines [of s session now e opts r s'] by (simp add: sqlStore_def room_def)
next
  case (6 s session now sc n r s')
  then show ?case using SqlForget_refines [of s session now sc n r s'] by (auto simp: sqlStore_def room_def)
next
  case (7 s after)
  then show ?case using sql_journal_from [of s after] by (simp add: sqlStore_def sql_view_def)
qed

end
