(* ===== verification/FileQuiet.thy ===== *)
theory FileQuiet
  imports FileReconcile StoreContract SqlUse
begin

text \<open>
  The file store, left to itself, keeps the store contract: on a directory nobody else touches, where no write is denied and the journal is
  undamaged, it answers every call as the abstract store does.  The directory is then in the state the store's own writes leave it in: what an
  entry's file holds is what the journal last said of the entry.
\<close>

section \<open>Operations create only scope directories\<close>

definition quiet :: "'a fs_op \<Rightarrow> bool" where
  "quiet m \<longleftrightarrow> (\<forall>s p. Lstat (snd (m s)) p = Some Directory \<longrightarrow> Lstat s p = Some Directory \<or> ValidName p)"

lemma quietD: "quiet m \<Longrightarrow> m s = (r, s') \<Longrightarrow> Lstat s' p = Some Directory \<Longrightarrow> \<not> ValidName p \<Longrightarrow> Lstat s p = Some Directory"
  unfolding quiet_def by (metis snd_conv)

lemma quiet_bind: "quiet m \<Longrightarrow> (\<And>x. quiet (k x)) \<Longrightarrow> quiet (fs_bind m k)"
  unfolding quiet_def fs_bind_def by (auto split: prod.splits sum.splits) (metis snd_conv)+

lemma quiet_read [simp]: "quiet (fs_read f)"
  by (simp add: quiet_def fs_read_def)

lemma quiet_return [simp]: "quiet (fs_return x)"
  by (simp add: quiet_def fs_return_def)

lemma quiet_writeAtomic:
  assumes "dirOf name = ''.'' \<or> ValidName (dirOf name)"
  shows "quiet (writeAtomic name data)"
  unfolding quiet_def using assms by (auto simp: writeAtomic_def Let_def Lstat_setNode split: if_splits)

lemma quiet_remove: "quiet (removeFile name)"
  by (auto simp: quiet_def removeFile_def Lstat_def delete_conv' split: if_splits)

lemma quiet_storeAppend: "quiet (storeAppend c)"
  unfolding quiet_def by (auto simp: storeAppend_def Lstat_setNode split: sum.splits if_splits prod.splits)

lemma quiet_appendChange: "quiet (appendChange st c)"
  unfolding appendChange_def Let_def by (intro quiet_bind) (auto split: prod.split intro!: quiet_bind quiet_storeAppend)

lemma quiet_saveState: "quiet (saveState st)"
  unfolding saveState_def by (rule quiet_writeAtomic) (simp add: stateName_dir)

lemma dirOf_name: "ValidName sc \<Longrightarrow> dirOf (sc @ CHR ''/'' # n) = sc"
  using dirOf_scope [of sc n] by simp

lemma quiet_reindex: "ValidName sc \<Longrightarrow> quiet (reindex sc)"
  unfolding reindex_def by (intro quiet_bind quiet_writeAtomic quiet_read) (simp add: dirOf_name)

lemma quiet_noteOutside: "quiet (noteOutside st sc n cur now)"
  unfolding noteOutside_def by (intro quiet_bind) (auto split: option.split prod.split intro!: quiet_bind quiet_appendChange)

lemma quiet_write_op: "ValidName sc \<Longrightarrow> quiet m \<Longrightarrow> quiet (write_op m mk sc n stored now)"
  unfolding write_op_def log_rest_def
  by (intro quiet_bind quiet_read quiet_reindex quiet_noteOutside quiet_appendChange) (auto split: prod.split intro!: quiet_bind quiet_saveState)

lemma quiet_commitPut: "ValidName (eScope e) \<Longrightarrow> quiet (commitPut session now po stored e)"
  unfolding commitPut_write
  by (intro quiet_write_op quiet_writeAtomic) (simp_all add: dirOf_name entryName_def)

lemma quiet_commitForget: "ValidName sc \<Longrightarrow> quiet (commitForget session now stored sc n)"
  unfolding commitForget_write by (intro quiet_write_op quiet_remove)

lemma FilePut_quiet:
  assumes "FilePut session now e opts s = (r, s')" "Lstat s' p = Some Directory" "\<not> ValidName p"
  shows "Lstat s p = Some Directory"
  using assms(1)
proof (cases rule: FilePut_cases)
  case (commit stored)
  have "quiet (commitPut session now (ResolvePutOptions opts) stored (stored_form now e))" using commit(1) by (intro quiet_commitPut) (simp add: entry_ok_def)
  from quietD [OF this commit(5) assms(2,3)] show ?thesis .
qed (use assms(2) in simp)

lemma FileForget_quiet:
  assumes "FileForget session now sc n s = (r, s')" "Lstat s' p = Some Directory" "\<not> ValidName p"
  shows "Lstat s p = Some Directory"
  using assms(1)
proof (cases rule: FileForget_cases)
  case (commit stored)
  from quietD [OF quiet_commitForget [OF commit(1)] commit(5) assms(2,3)] show ?thesis .
qed (use assms(2) in simp)

section \<open>A directory only the store writes\<close>

text \<open>Nothing in the way of a write: no lock held, no write denied, and nothing but what the store puts there on the paths of scopes, entries,
  indexes and the cursor.\<close>

definition free_tree :: "FileStore \<Rightarrow> bool" where
  "free_tree s \<longleftrightarrow> wf_nodes s \<and> wf_tree s \<and> fsLocked s = None \<and> (\<forall>p. \<not> fsDeny s p) \<and> year_fits (fsTime s) \<and> Lstat s stateName \<noteq> Some Directory \<and>
     (\<forall>sc. ValidName sc \<longrightarrow> Lstat s sc \<in> {None, Some Directory} \<and> Lstat s (sc @ ''/'' @ indexName) \<noteq> Some Directory \<and>
       (\<forall>n. ValidName n \<longrightarrow> Lstat s (entryName sc n) \<noteq> Some Directory))"

lemma free_writable: "free_tree s \<Longrightarrow> ValidName sc \<Longrightarrow> ValidName n \<Longrightarrow> writable s sc n"
  by (auto simp: free_tree_def writable_def)

lemma slash_not_name: "CHR ''/'' \<in> set p \<Longrightarrow> \<not> ValidName p"
  using ValidName_excludes(1) by blast

lemma journal_not_dir: "jinv s \<Longrightarrow> Lstat s journalName \<noteq> Some Directory"
  by (auto simp: jinv_def openJournal_def readRegular_def)

lemma not_own_scope: "ValidName sc \<Longrightarrow> \<not> own_name sc"
  using ValidName_excludes(1) scope_paths_apart by (auto simp: own_name_def scope_paths_def)

lemma wf_tree_step:
  assumes "free_tree s" "jinv s" "ValidName sc" "ValidName n" "changed_only (put_paths sc n \<union> {journalName, stateName}) s s'" "Lstat s' sc = Some Directory"
  shows "wf_tree s'"
  unfolding wf_tree_def
proof (intro allI impI)
  fix dir p assume q: "Lstat s' (dir @ ''/'' @ p) \<noteq> None"
  let ?q = "dir @ ''/'' @ p"
  have slash: "CHR ''/'' \<notin> set sc" "CHR ''/'' \<notin> set n" "CHR ''/'' \<notin> set indexName" "CHR ''/'' \<notin> set journalName" "CHR ''/'' \<notin> set stateName"
    using ValidName_excludes(1) assms(3,4) by (simp_all add: indexName_def journalName_def stateName_def)
  show "Lstat s' dir = Some Directory"
  proof (cases "?q \<in> put_paths sc n \<union> {journalName, stateName}")
    case True
    moreover have "CHR ''/'' \<in> set ?q" by simp
    then have "?q \<noteq> sc" "?q \<noteq> journalName" "?q \<noteq> stateName" using slash(1,4,5) by metis+
    ultimately obtain x where x: "?q = sc @ ''/'' @ x" "CHR ''/'' \<notin> set x" using slash by (auto simp: put_paths_def entryName_def)
    have "dir = sc"
    proof (rule ccontr)
      assume "dir \<noteq> sc"
      then obtain us where "dir = sc @ us \<and> us @ ''/'' @ p = ''/'' @ x \<or> dir @ us = sc \<and> ''/'' @ p = us @ ''/'' @ x" using x(1) by (auto simp: append_eq_append_conv2)
      then show False using \<open>dir \<noteq> sc\<close> slash(1) x(2) by (auto simp: Cons_eq_append_conv append_eq_Cons_conv)
    qed
    then show ?thesis using assms(6) by simp
  next
    case False
    then have "Lstat s ?q \<noteq> None" using assms(5) q by (simp add: changed_only_def)
    then have d: "Lstat s dir = Some Directory" using assms(1) by (auto simp: free_tree_def wf_tree_def)
    then have "dir \<notin> {entryName sc n, sc @ ''/'' @ indexName, journalName, stateName}"
      using assms(1-4) journal_not_dir by (auto simp: free_tree_def)
    then show ?thesis using d assms(5,6) by (cases "dir = sc") (auto simp: changed_only_def put_paths_def)
  qed
qed

lemma free_tree_step:
  assumes "free_tree s" "jinv s" "ValidName sc" "ValidName n" "changed_only (put_paths sc n \<union> {journalName, stateName}) s s'" "Lstat s' sc = Some Directory"
    and quiet: "\<And>p. Lstat s' p = Some Directory \<Longrightarrow> \<not> ValidName p \<Longrightarrow> Lstat s p = Some Directory"
  shows "free_tree s'"
proof -
  have "wf_tree s'" using wf_tree_step [OF assms(1-6)] .
  moreover have "wf_nodes s'" "fsLocked s' = None" "\<forall>p. \<not> fsDeny s' p" "year_fits (fsTime s')"
    using assms(1,5) by (simp_all add: free_tree_def changed_only_def dirs_kept_def)
  moreover have "Lstat s' stateName \<noteq> Some Directory" using quiet [of stateName] assms(1) dot_not_name [of stateName] by (auto simp: free_tree_def stateName_def)
  moreover have "Lstat s' sc' \<in> {None, Some Directory}" if "ValidName sc'" for sc'
    using assms(1,5) not_own_scope [OF that] that unfolding free_tree_def changed_only_def dirs_kept_def by (metis insert_iff)
  moreover have "Lstat s' (sc' @ ''/'' @ x) \<noteq> Some Directory" if "Lstat s (sc' @ ''/'' @ x) \<noteq> Some Directory" for sc' x
    using quiet [of "sc' @ ''/'' @ x"] slash_not_name [of "sc' @ ''/'' @ x"] that by auto
  ultimately show ?thesis using assms(1) unfolding free_tree_def entryName_def by blast
qed

end
