(* ===== verification/FileConform.thy ===== *)
theory FileConform
  imports FileQuiet
begin

text \<open>
  The file store, left to itself, keeps the store contract.
\<close>

section \<open>The state between calls\<close>

definition file_view :: "FileStore \<Rightarrow> AbsStore" where
  "file_view s = \<lparr>aMax = fsMax s, aLive = (\<lambda>sc n. replay (file_journal s) (sc, n)), aJournal = file_journal s\<rparr>"

definition in_step :: "FileStore \<Rightarrow> bool" where
  "in_step s \<longleftrightarrow> (\<forall>sc n. ValidName sc \<longrightarrow> ValidName n \<longrightarrow> readEntry sc n s = Inr (replay (file_journal s) (sc, n)))"

definition file_good :: "FileStore \<Rightarrow> bool" where
  "file_good s \<longleftrightarrow> jinv s \<and> clean_store s \<and> free_tree s \<and> in_step s \<and> abs_inv (file_view s)"

definition text_stamp_fits :: "string \<Rightarrow> time \<Rightarrow> bool" where
  "text_stamp_fits session now \<longleftrightarrow> sql_stamp_fits session now \<and> now \<noteq> 0"

definition text_fits :: "string \<Rightarrow> time \<Rightarrow> Entry \<Rightarrow> PutOption list \<Rightarrow> bool" where
  "text_fits session now e opts \<longleftrightarrow> sql_fits session now e opts \<and> text_stamp_fits session now \<and> ValidString (pIfHash (ResolvePutOptions opts))"

lemma file_view_simps [simp]:
  "aMax (file_view s) = fsMax s" "aLive (file_view s) sc n = replay (file_journal s) (sc, n)" "aJournal (file_view s) = file_journal s"
  by (simp_all add: file_view_def)

lemma good_record_ok: "jinv s \<Longrightarrow> c \<in> set (file_journal s) \<Longrightarrow> record_ok c"
  using jinv_journal by (fastforce simp: jinv_def jok_def)

lemma no_outside:
  assumes "jinv s" "loadState s = Inr st" "ValidName sc" "stored = replay (file_journal s) (sc, n)"
  shows "map_of (jsEntries st) (key sc n) = map_option state_of stored" "outside st sc n stored now s2 = Inr None" "outside_records st sc n stored now k s2 = []"
proof -
  obtain j where j: "openJournal s = Inr j" "jok (journal_data j)" "honest (readState s) (journal_data j)" using assms(1) by (auto simp: jinv_def)
  have "tracks st (journal_data j)" using load_tracks [OF j(1,3)] assms(2) by auto
  then show m: "map_of (jsEntries st) (key sc n) = map_option state_of stored"
    using tracks_held(1) [OF _ j(2) assms(3), of st n, folded jinv_journal [OF j(1,2)]] assms(4) by simp
  show "outside st sc n stored now s2 = Inr None" by (cases stored) (simp_all add: outside_def m agrees_def state_of_def)
  then show "outside_records st sc n stored now k s2 = []" by (simp add: outside_records_def)
qed

section \<open>Put\<close>

lemma put_prev_base: "put_prev po stored (hash_of stored) = BaseFor po stored"
  by (cases stored) (simp_all add: put_prev_def BaseFor_def hash_of_def Let_def)

lemma in_step_put:
  assumes g: "free_tree s" "in_step s" and e: "ValidName (eScope e)" "ValidName (eName e)"
    and new: "readEntry (eScope e) (eName e) s' = Inr (replay (file_journal s') (eScope e, eName e))"
    and frame: "changed_only (put_paths (eScope e) (eName e) \<union> {journalName, stateName}) s s'" "Lstat s' (eScope e) = Some Directory" "Lstat s (eScope e) \<in> {None, Some Directory}"
    and j: "file_journal s' = file_journal s @ [c]" "ckey c = (eScope e, eName e)"
  shows "in_step s'"
  unfolding in_step_def
proof (intro allI impI)
  fix sc n assume v: "ValidName sc" "ValidName n"
  show "readEntry sc n s' = Inr (replay (file_journal s') (sc, n))"
  proof (cases "(sc, n) = (eScope e, eName e)")
    case False
    have "readEntry sc n s' = readEntry sc n s" using g(1) by (intro readEntry_other [OF e v False _ frame]) (simp add: free_tree_def)
    then show ?thesis using g(2) v False j by (auto simp: in_step_def replay_snoc)
  qed (use new in simp)
qed

lemma FilePut_refines:
  assumes good: "file_good s" and fits: "text_fits session now e opts" and room: "length (file_journal s) < 2 ^ 63 - 1" and run: "FilePut session now e opts s = (r, s')"
  shows "file_good s' \<and> abs_put session now e opts (file_view s) = (r, file_view s')"
proof -
  let ?sc = "eScope e" and ?n = "eName e" and ?po = "ResolvePutOptions opts"
  let ?st = "replay (file_journal s) (?sc, ?n)"
  have inv: "jinv s" "free_tree s" "in_step s" "abs_inv (file_view s)" using good by (simp_all add: file_good_def)
  have f: "wf_gomap (eMeta e)" "sorted_items (mitems (eMeta e)) = mitems (eMeta e)" "ValidString session" "text_opts opts" "year_fits now" "now \<noteq> 0"
    using fits by (simp_all add: text_fits_def text_stamp_fits_def sql_fits_def sql_stamp_fits_def text_opts_def)
  have refused: "file_good s' \<and> abs_put session now e opts (file_view s) = (r, file_view s')"
    if "FilePut session now e opts s = (Inl err, s)" "abs_put session now e opts (file_view s) = (Inl err, file_view s)" for err
    using that good run by simp
  have readable: "readEntry ?sc ?n s = Inr ?st" if "CheckEntry e 0 None = None"
    using that inv(3) by (simp add: in_step_def CheckEntry_None entry_ok_def)
  show ?thesis
  proof (cases "CheckEntry e (fsMax s) ?st")
    case (Some err)
    then have "FilePut session now e opts s = (Inl err, s)"
      using readable CheckEntry_early [of e _ "fsMax s" ?st] inv(2) by (auto simp: FilePut_def Let_def free_tree_def split: option.split)
    with Some show ?thesis by (intro refused) (simp_all add: abs_put_def Let_def)
  next
    case None
    then have ok: "entry_ok e (fsMax s)" "CheckEntry e 0 None = None" by (simp_all add: CheckEntry_None entry_ok_def)
    note stored = readable [OF ok(2)]
    have v: "ValidName ?sc" "ValidName ?n" using ok(1) by (simp_all add: entry_ok_def)
    show ?thesis
    proof (cases "Check ?po ?sc ?n ?st")
      case (Some err)
      then have "FilePut session now e opts s = (Inl err, s)" using stored ok(2) None inv(2) by (simp add: FilePut_def Let_def free_tree_def)
      with Some None show ?thesis by (intro refused) (simp_all add: abs_put_def Let_def)
    next
      case ck: None
      have room': "length (file_journal s) + 2 < 2 ^ 64" using room by simp
      have "\<exists>c s'. FilePut session now e opts s = (Inr c, s')"
        using inv(2) by (intro FilePut_ok [OF inv(1) free_writable [OF inv(2) v] ok(1) f(1,3,4) room' f(5) _ stored ck]) (simp add: free_tree_def)
      then obtain c where c: "r = Inr c" "FilePut session now e opts s = (Inr c, s')" using run by auto
      show ?thesis
      proof (rule FilePut_effect [OF inv(1) room' f(3,4,1) c(2)], goal_cases)
        case (1 stored' st s2 outs)
        have st: "stored' = ?st" using 1(1) stored by simp
        have outs: "outs = []" using no_outside(3) [OF inv(1) 1(9) v(1), of ?st] 1(13) st by simp
        have held: "held (file_journal s) (?sc, ?n) = hash_of ?st" by (simp add: held_replay)
        have seq: "next_seq (file_journal s) = of_nat (Suc (length (file_journal s)))" using inv(4) by (intro numbered_next_seq) (simp add: abs_inv_def)
        have ceq: "c = \<lparr>cSeq = next_seq (file_journal s), cEntry = stored_form now e, cPrev = BaseFor ?po ?st, cReplaced = hash_of ?st, cSession = session, cSource = [], cAt = now\<rparr>"
          using 1(15) unfolding outs st append_Nil2 held put_change_def put_prev_base seq by simp
        have "canonical (eMeta (stored_form now e))" using f(1,2) by (simp add: canonical_def wf_gomap_items)
        moreover have "canon_meta (eMeta e) = eMeta (stored_form now e)"
          using f(2) by (cases "eMeta e") (simp_all add: stored_form_def cloneEntry_def canon_meta_def mlen_mitems)
        ultimately have can: "canon_change c = c" "canon_meta (eMeta e) = eMeta (stored_form now e)"
          by (simp_all add: canon_change_def ceq canon_id)
        have j: "file_journal s' = file_journal s @ [c]" using 1(14) outs can by simp
        have view: "abs_put session now e opts (file_view s) = (r, file_view s')"
          using None ck by (simp add: abs_put_def Let_def c(1) ceq [symmetric])
            (simp add: file_view_def j ceq replay_snoc ckey_def fun_eq_iff 1(5) [unfolded changed_only_def])
        have "readEntry ?sc ?n s' = Inr (Some (stored_form now e))"
          using put_read_back [OF ok(1) f(1,5,6) 1(7,8)] can(2) by simp
        then have "readEntry ?sc ?n s' = Inr (replay (file_journal s') (?sc, ?n))" by (simp add: j ceq replay_snoc ckey_def)
        then have "in_step s'" by (rule in_step_put [OF inv(2,3) v _ 1(5,7,6) j]) (simp add: ckey_def ceq)
        moreover have "free_tree s'" using free_tree_step [OF inv(2,1) v 1(5,7)] FilePut_quiet [OF c(2)] by blast
        moreover have "clean_store s'" using FilePut_run [OF inv(1) room' f(3,4,1) c(2)] good by (simp add: file_good_def)
        ultimately show ?case using view 1(4) abs_put_inv [OF inv(4) view] by (simp add: file_good_def)
      qed
    qed
  qed
qed

section \<open>Forget\<close>

lemma live_file:
  assumes "file_good s" "replay (file_journal s) (sc, n) = Some x"
  shows "text_entry x" "year_fits (eUpdated x)" "canonical (eMeta x)" "eMetaHash x = MetaHash (eMeta x)" "eScope x = sc" "eName x = n"
proof -
  have inv: "jinv s" "abs_inv (file_view s)" using assms(1) by (simp_all add: file_good_def)
  obtain c where c: "c \<in> set (file_journal s)" "cEntry c = x" using replay_in [OF assms(2)] by blast
  have "record_ok c" using good_record_ok [OF inv(1) c(1)] .
  then show "text_entry x" "year_fits (eUpdated x)" "canonical (eMeta x)" by (simp_all add: record_ok_def c(2) text_entry_def canonical_wf)
  show "eMetaHash x = MetaHash (eMeta x)" using abs_inv_live(4) [OF inv(2), of sc n x] assms(2) by (simp add: normal_entry_def)
  show "eScope x = sc" "eName x = n" using replay_key [OF assms(2)] by simp_all
qed

lemma remove_files:
  assumes "ValidName sc" "ValidName n" "removeFile (entryName sc n) s = (Inr x, s1)" "reindex sc s1 = (Inr y, s2)"
  shows "changed_only (put_paths sc n) s s2" "Lstat s2 sc = Some Directory" "Lstat s2 (entryName sc n) = None"
proof -
  have a: "changed_only (put_paths sc n) s s1" using removeFile_changes [OF assms(3) own_names(2)] by (rule changed_only_mono) (simp add: put_paths_def)
  have b: "changed_only (put_paths sc n) s1 s2" using reindex_writes(1) [OF assms(4,1)] by (rule changed_only_mono) (auto simp: put_paths_def)
  show "changed_only (put_paths sc n) s s2" using changed_only_trans [OF a b] by simp
  show "Lstat s2 sc = Some Directory" using reindex_writes(2) [OF assms(4,1) refl] .
  have "Lstat s1 (entryName sc n) = None" using assms(3) by (auto simp: removeFile_def Lstat_def delete_conv' split: if_splits)
  then show "Lstat s2 (entryName sc n) = None"
    using reindex_writes(1) [OF assms(4,1)] entry_not_index [OF assms(2), of sc] by (simp add: changed_only_def)
qed

lemma forget_record_ok: "\<exists>j. openJournal s = Inr j \<Longrightarrow> \<exists>c. forget_record session now x sc n st s = Inr c \<and> eUpdated (cEntry c) = now \<and> cAt c = now"
  by (auto simp: forget_record_def Let_def lastRecordFor_def)

lemma FileForget_ok:
  assumes good: "file_good s" and v: "ValidName sc" "ValidName n" and x: "replay (file_journal s) (sc, n) = Some x"
    and room: "length (file_journal s) + 2 < 2 ^ 64" and stamp: "ValidString session" "year_fits now"
  shows "\<exists>c s'. FileForget session now sc n s = (Inr c, s')"
proof -
  have inv: "jinv s" "free_tree s" "in_step s" using good by (simp_all add: file_good_def)
  note f = live_file [OF good x]
  have stored: "readEntry sc n s = Inr (Some x)" using inv(3) v x by (simp add: in_step_def)
  obtain j where j: "openJournal s = Inr j" "jok (journal_data j)" "honest (readState s) (journal_data j)" using inv(1) by (auto simp: jinv_def)
  obtain st where st: "loadState s = Inr st" "tracks st (journal_data j)" using load_tracks [OF j(1,3)] by blast
  obtain data t where p: "Lstat s sc = Some Directory" "Lstat s (entryName sc n) = Some (Regular data t)" using readEntry_paths [OF stored] by blast
  obtain s1 where 1: "removeFile (entryName sc n) s = (Inr (), s1)" using p(2) inv(2) by (simp add: removeFile_def free_tree_def)
  note c1 = removeFile_changes [OF 1 own_names(2)]
  have "sc \<noteq> entryName sc n" "sc @ ''/'' @ indexName \<noteq> entryName sc n" using entry_not_index(1) [OF v(2), of sc] by (auto simp: entryName_def)
  then have free1: "\<forall>p. \<not> fsDeny s1 p" "Lstat s1 sc = Some Directory" "Lstat s1 (sc @ ''/'' @ indexName) \<noteq> Some Directory"
    using c1 inv(2) p(1) v(1) by (auto simp: changed_only_def free_tree_def)
  obtain s2 where 2: "reindex sc s1 = (Inr (), s2)" using reindex_ok [OF v(1) free1] by blast
  note pf = remove_files [OF v 1 2]
  note apart = scope_paths_apart [OF v(1)] and f2 = changed_only_mono [OF pf(1) put_paths_scope]
  have l2: "logged (journal_data j) [] st s2" using frame_progress(1) [OF logged_start [OF j(1,2) st(2)] j(3) f2 apart] .
  have free2: "\<forall>p. \<not> fsDeny s2 p" "Lstat s2 stateName \<noteq> Some Directory" using f2 inv(2) apart by (auto simp: changed_only_def free_tree_def)
  note fe = readEntry_file [OF stored]
  have room': "length (recs (journal_data j)) + 2 < 2 ^ 64" using room jinv_journal [OF j(1,2)] by simp
  have "\<exists>c s'. log_rest (forget_record session now x sc n) sc n (Some x) now st s2 = (Inr c, s')"
    using f(2) fe free2 stamp(2) pf(3) by (intro log_rest_ok [OF l2 v _ room' forget_builds [OF v fe f(1) stamp(1)] forget_record_ok]) (auto simp: modTime_def)
  then have "\<exists>c s'. commitForget session now x sc n s = (Inr c, s')"
    by (simp add: commitForget_write write_op_def fs_bind_def [of "fs_read loadState"] fs_read_def st(1)) (simp add: fs_bind_def 1 2)
  then show ?thesis using stored inv(2) v by (simp add: FileForget_def checkNames_def ValidScope_def free_tree_def)
qed

lemma FileForget_effect:
  assumes good: "file_good s" and v: "ValidName sc" "ValidName n" and x: "replay (file_journal s) (sc, n) = Some x"
    and room: "length (file_journal s) + 2 < 2 ^ 64" and stamp: "ValidString session" and run: "FileForget session now sc n s = (Inr c, s')"
  shows "changed_only (put_paths sc n \<union> {journalName, stateName}) s s'" "Lstat s sc = Some Directory" "Lstat s' sc = Some Directory" "Lstat s' (entryName sc n) = None"
    "file_journal s' = file_journal s @ [canon_change c]" "c = \<lparr>cSeq = next_seq (file_journal s), cEntry = x\<lparr>eDeleted := True, eUpdated := now\<rparr>,
      cPrev = eHash x, cReplaced = eHash x, cSession = session, cSource = [], cAt = now\<rparr>"
proof -
  have inv: "jinv s" "free_tree s" "in_step s" "abs_inv (file_view s)" using good by (simp_all add: file_good_def)
  note f = live_file [OF good x]
  have stored: "readEntry sc n s = Inr (Some x)" using inv(3) v x by (simp add: in_step_def)
  show "Lstat s sc = Some Directory" using readEntry_paths [OF stored] by blast
  obtain j where j: "openJournal s = Inr j" "jok (journal_data j)" "honest (readState s) (journal_data j)" using inv(1) by (auto simp: jinv_def)
  have fj: "file_journal s = recs (journal_data j)" using jinv_journal [OF j(1,2)] .
  have fe: "file_entry sc n x" "pred_option (file_entry sc n) (Some x)" using readEntry_file [OF stored] by simp_all
  have commit: "commitForget session now x sc n s = (Inr c, s')"
    using run stored inv(2) v by (simp add: FileForget_def checkNames_def ValidScope_def free_tree_def)
  from write_run [OF j v fe(2) room [unfolded fj] forget_builds [OF v fe(1) f(1) stamp] remove_changes commit [unfolded commitForget_write]]
  obtain rs st s1 s2 where p: "progress (journal_data j) (scope_paths sc \<union> {journalName, stateName}) rs s s'"
    and w: "loadState s = Inr st" "removeFile (entryName sc n) s = (Inr (), s1)" "reindex sc s1 = (Inr (), s2)" "changed_only {journalName, stateName} s2 s'"
      "write_log (journal_data j) (forget_record session now x sc n) sc n (Some x) now st s2 rs c"
    by blast
  note pf = remove_files [OF v w(2,3)]
  show "changed_only (put_paths sc n \<union> {journalName, stateName}) s s'" using changed_only_trans [OF pf(1) w(4)] .
  have "sc \<notin> {journalName, stateName}" "entryName sc n \<notin> {journalName, stateName}"
    using scope_paths_apart [OF v(1)] put_paths_scope [of sc n] by (auto simp: put_paths_def scope_paths_def)
  then show "Lstat s' sc = Some Directory" "Lstat s' (entryName sc n) = None" using w(4) pf(2,3) by (auto simp: changed_only_def)
  have outs: "outside_records st sc n (Some x) now (length (recs (journal_data j))) s2 = []" using no_outside(3) [OF inv(1) w(1) v(1) x [symmetric]] .
  from w(5) obtain st1 s3 c1 where lg: "logged (journal_data j) [] st1 s3" and rs: "rs = [canon_change c]"
    and c1: "forget_record session now x sc n st1 s3 = Inr c1" "c = c1\<lparr>cSeq := of_nat (Suc (length (recs (journal_data j))))\<rparr>"
    unfolding write_log_def outs by auto
  show "file_journal s' = file_journal s @ [canon_change c]" using progress_journal [OF p] rs fj by simp
  have h: "map_of (jsEntries st1) (key sc n) = Some (state_of x)" "hashOf (heldEntry st1 sc n) = eHash x"
    using logged_held(1,3) [OF lg v(1), of n] x by (simp_all add: fj held_replay hash_of_def)
  have seq: "next_seq (file_journal s) = of_nat (Suc (length (file_journal s)))" using inv(4) by (intro numbered_next_seq) (simp add: abs_inv_def)
  have meta: "x\<lparr>eDeleted := True, eUpdated := now, eMetaHash := MetaHash (eMeta x)\<rparr> = x\<lparr>eDeleted := True, eUpdated := now\<rparr>" using f(4) by (cases x) simp
  show "c = \<lparr>cSeq = next_seq (file_journal s), cEntry = x\<lparr>eDeleted := True, eUpdated := now\<rparr>,
      cPrev = eHash x, cReplaced = eHash x, cSession = session, cSource = [], cAt = now\<rparr>"
    using c1 meta unfolding seq unfolding fj by (auto simp: forget_record_def h agrees_def state_of_def Let_def)
qed

lemma FileForget_refines:
  assumes good: "file_good s" and fits: "text_stamp_fits session now" and room: "length (file_journal s) < 2 ^ 63 - 1" and run: "FileForget session now sc n s = (r, s')"
  shows "file_good s' \<and> (\<exists>q. abs_forget session now sc n (file_view s) = (q, file_view s') \<and> r = plain q)"
proof -
  have inv: "jinv s" "free_tree s" "in_step s" "abs_inv (file_view s)" using good by (simp_all add: file_good_def)
  have f: "ValidString session" "year_fits now" using fits by (simp_all add: text_stamp_fits_def sql_stamp_fits_def)
  have same: "checkNames sc n = map_option plain_error (CheckRef sc n)" by (simp add: checkNames_def CheckRef_def CheckScope_def)
  have room': "length (file_journal s) + 2 < 2 ^ 64" using room by simp
  show ?thesis
  proof (cases "CheckRef sc n")
    case (Some err)
    then show ?thesis using run good by (auto simp: FileForget_def same abs_forget_def)
  next
    case None
    then have v: "ValidName sc" "ValidName n" by (simp_all add: CheckRef_def CheckScope_def ValidScope_def split: if_splits)
    have stored: "readEntry sc n s = Inr (replay (file_journal s) (sc, n))" using inv(3) v by (simp add: in_step_def)
    show ?thesis
    proof (cases "replay (file_journal s) (sc, n)")
      case n: None
      then show ?thesis using run good None stored inv(2) by (auto simp: FileForget_def same abs_forget_def free_tree_def)
    next
      case (Some x)
      note e = live_file [OF good Some]
      obtain c where c: "r = Inr c" "FileForget session now sc n s = (Inr c, s')" using FileForget_ok [OF good v Some room' f] run by auto
      note w = FileForget_effect [OF good v Some room' f(1) c(2)]
      have can: "canon_change c = c" using e(3) by (simp add: canon_change_def w(6) canon_id)
      have j: "file_journal s' = file_journal s @ [c]" "ckey c = (sc, n)" using w(5) can e(5,6) by (simp_all add: ckey_def w(6))
      have view: "abs_forget session now sc n (file_view s) = (r, file_view s')"
        using None Some by (simp add: abs_forget_def Let_def c(1) w(6) [symmetric])
          (simp add: file_view_def j replay_snoc fun_eq_iff w(1) [unfolded changed_only_def], simp add: w(6))
      have "readEntry sc n s' = Inr None" using w(3,4) by (simp add: readEntry_def scopeIsDir_def readRegular_def)
      then have new: "readEntry sc n s' = Inr (replay (file_journal s') (sc, n))" by (simp add: j replay_snoc) (simp add: w(6))
      have "in_step s'" by (rule in_step_put [OF inv(2,3), of x, unfolded e(5,6), OF v new w(1,3) _ j]) (simp add: w(2))
      moreover have "free_tree s'" using free_tree_step [OF inv(2,1) v w(1,3)] FileForget_quiet [OF c(2)] by blast
      moreover have "jinv s'" "clean_store s'" using FileForget_run [OF inv(1) room' f(1) _ c(2)] good stored Some e(1) by (simp_all add: file_good_def)
      ultimately show ?thesis using view abs_forget_inv [OF inv(4) view] c(1) by (simp add: file_good_def)
    qed
  qed
qed

section \<open>Reads\<close>

lemma FileGet_refines: "file_good s \<Longrightarrow> FileGet sc n s = plain (abs_get sc n (file_view s))"
  by (auto simp: FileGet_def abs_get_def checkNames_def CheckRef_def CheckScope_def ValidScope_def file_good_def in_step_def split: option.splits)

lemma suffix_cut: "HasSuffix f x \<Longrightarrow> TrimSuffix f x @ x = f"
  by (auto simp: TrimSuffix_def HasSuffix_def) (metis append_take_drop_id)

lemma ReadDir_distinct:
  assumes "wf_nodes s" "dir \<noteq> ''.''"
  shows "distinct (map fst (ReadDir dir s))"
proof -
  let ?xs = "filter (\<lambda>(p, nd). HasPrefix p (dir @ ''/'')) (fsNodes s)"
  have "inj_on (drop (length dir + 1)) (set (map fst ?xs))"
  proof (rule inj_onI)
    fix p q assume "p \<in> set (map fst ?xs)" "q \<in> set (map fst ?xs)" and d: "drop (length dir + 1) p = drop (length dir + 1) q"
    then have "take (length dir + 1) p = dir @ ''/''" "take (length dir + 1) q = dir @ ''/''" by (auto simp: HasPrefix_def)
    with d show "p = q" by (metis append_take_drop_id)
  qed
  moreover have "distinct (map fst ?xs)" using assms(1) by (simp add: wf_nodes_def distinct_map_filter)
  ultimately have "distinct (map (drop (length dir + 1)) (map fst ?xs))" by (simp only: distinct_map)
  moreover have "map (drop (length dir + 1)) (map fst ?xs) = map fst (map (\<lambda>(p, nd). (drop (length dir + 1) p, nd)) ?xs)" by (auto simp: comp_def)
  ultimately have "distinct (map fst (map (\<lambda>(p, nd). (drop (length dir + 1) p, nd)) ?xs))" by (simp only:)
  then show ?thesis unfolding ReadDir_def Let_def if_not_P [OF assms(2)] by (rule distinct_map_filter)
qed

lemma read_names_distinct:
  "read_names sc des s = Inr es \<Longrightarrow> distinct (map fst des) \<Longrightarrow> distinct (map eName es) \<and> (\<forall>e \<in> set es. eName e @ ''.md'' \<in> fst ` set des)"
proof (induction sc des s arbitrary: es rule: read_names.induct)
  case (2 sc f nd des s)
  let ?skip = "\<not> HasSuffix f ''.md'' \<or> nd \<in> {Directory, Link} \<or> \<not> ValidName (TrimSuffix f ''.md'')"
  show ?case
  proof (cases "?skip \<or> readEntry sc (TrimSuffix f ''.md'') s = Inr None")
    case True
    then have "read_names sc des s = Inr es" using "2.prems"(1) by (auto split: if_splits)
    then show ?thesis using "2.IH" "2.prems"(2) True by fastforce
  next
    case False
    then obtain e es' where e: "readEntry sc (TrimSuffix f ''.md'') s = Inr (Some e)" "read_names sc des s = Inr es'" "es = e # es'"
      using "2.prems"(1) by (auto split: sum.splits option.splits)
    have "eName e @ ''.md'' = f" using readEntry_file [OF e(1)] suffix_cut [of f "''.md''"] False by (simp add: file_entry_def)
    then show ?thesis using "2.IH"(3) [OF _ e(1) refl e(2)] "2.prems"(2) False e(3) by (auto 0 3)
  qed
qed simp

lemma FileList_refines:
  assumes "file_good s" "ValidScope sc"
  shows "\<exists>es. FileList sc s = Inr es \<and> sorted_wrt (<) (map eName es) \<and> (\<forall>e. e \<in> set es \<longleftrightarrow> replay (file_journal s) (sc, eName e) = Some e)"
proof -
  have inv: "free_tree s" "in_step s" "abs_inv (file_view s)" using assms(1) by (simp_all add: file_good_def)
  have v: "ValidName sc" using assms(2) by (simp add: ValidScope_def)
  have live: "readEntry sc n s = Inr (replay (file_journal s) (sc, n))" if "ValidName n" for n using inv(2) v that by (simp add: in_step_def)
  have "\<exists>es. listScope sc s = Inr es \<and> sorted_wrt (<) (map eName es)"
  proof (cases "Lstat s sc = Some Directory")
    case True
    then obtain es where es: "read_names sc (ReadDir sc s) s = Inr es" using read_names_ok by blast
    have "sc \<noteq> ''.''" using dot_not_name [of sc] v by auto
    then have "distinct (map eName es)" using read_names_distinct [OF es] ReadDir_distinct [of s sc] inv(1) by (simp add: free_tree_def)
    then have "sorted_wrt (<) (map eName (sort_key eName es))" by (simp add: strict_sorted_iff distinct_map)
    then show ?thesis using es True by (simp add: listScope_def scopeIsDir_def)
  next
    case False
    then have "Lstat s sc = None" using inv(1) v by (auto simp: free_tree_def)
    then show ?thesis by (simp add: listScope_def scopeIsDir_def)
  qed
  then obtain es where es: "listScope sc s = Inr es" "sorted_wrt (<) (map eName es)" by blast
  have "replay (file_journal s) (sc, eName e) = Some e" if "e \<in> set es" for e
    using listScope_in [OF es(1) that] live readEntry_file by (fastforce simp: file_entry_def)
  moreover have "e \<in> set es" if r: "replay (file_journal s) (sc, eName e) = Some e" for e
  proof -
    have "normal_entry (fsMax s) e" using abs_inv_live(4) [OF inv(3), of sc "eName e" e] r by simp
    then have "ValidName (eName e)" by (simp add: normal_entry_def entry_ok_def)
    with listScope_all [OF es(1) v this] live r show ?thesis by simp
  qed
  ultimately show ?thesis using es assms(2) by (auto simp: FileList_def)
qed

lemma clean_read:
  assumes "file_good s"
  shows "FileReadJournal after s = map Inr (filter (\<lambda>c. after < cSeq c) (file_journal s))"
proof -
  obtain j where j: "openJournal s = Inr j" "jok (journal_data j)" using assms by (auto simp: file_good_def jinv_def)
  have "fst (scanJournal 0 j) = map Inr (recs (journal_data j))" using assms j(1) scan_some(1) [of j] by (auto simp: file_good_def clean_store_def clean_journal_def)
  then show ?thesis using jinv_journal [OF j] by (simp add: FileReadJournal_def j(1) readJournal_def filter_map comp_def)
qed

lemma numbered_after:
  assumes "numbered js" "length js < 2 ^ 63" "n < 2 ^ 63"
  shows "filter (\<lambda>c. (of_nat n :: uint64) < cSeq c) js = drop n js"
  using assms(1,2)
proof (induction js rule: rev_induct)
  case (snoc c js)
  have "unat (of_nat n :: uint64) = n" "unat (of_nat (Suc (length js)) :: uint64) = Suc (length js)" using snoc.prems(2) assms(3) by (simp_all only: unat_of_nat) simp_all
  with snoc show ?case by (simp add: numbered_snoc word_less_nat_alt del: of_nat_Suc)
qed simp

lemma FileReadJournal_from:
  assumes "file_good s" "length (file_journal s) < 2 ^ 63" "n < 2 ^ 63"
  shows "FileReadJournal (of_nat n) s = map Inr (drop n (file_journal s))"
  using clean_read [OF assms(1)] numbered_after [of "file_journal s" n] assms by (simp add: file_good_def abs_inv_def)

lemma FileLastSeq_refines: "file_good s \<Longrightarrow> FileLastSeq s = Inr (of_nat (length (file_journal s)))"
proof -
  assume "file_good s"
  then obtain j where j: "openJournal s = Inr j" "jok (journal_data j)" by (auto simp: file_good_def jinv_def)
  then show ?thesis using jinv_journal [OF j] numbered_last_seq [of "recs (journal_data j)"] by (simp add: FileLastSeq_def lastSeq_last jok_def)
qed

section \<open>The contract\<close>

lemma new_file_good:
  assumes "year_fits t"
  shows "file_good (Open opts [] t)" "file_journal (Open opts [] t) = []"
proof -
  let ?s = "Open opts [] t"
  have l: "Lstat ?s p = None" for p by (simp add: Lstat_Open)
  have fold: "fsTime (fold (\<lambda>opt s. case opt of FileMaxEntryBytes n \<Rightarrow> s\<lparr>fsMax := n\<rparr>) opts s) = fsTime s"
    "fsLocked (fold (\<lambda>opt s. case opt of FileMaxEntryBytes n \<Rightarrow> s\<lparr>fsMax := n\<rparr>) opts s) = fsLocked s"
    "fsDeny (fold (\<lambda>opt s. case opt of FileMaxEntryBytes n \<Rightarrow> s\<lparr>fsMax := n\<rparr>) opts s) = fsDeny s"
    "fsNodes (fold (\<lambda>opt s. case opt of FileMaxEntryBytes n \<Rightarrow> s\<lparr>fsMax := n\<rparr>) opts s) = fsNodes s" for s :: FileStore
    by (induction opts arbitrary: s) (auto split: FileOption.splits)
  have o: "openJournal ?s = Inr None" by (simp add: openJournal_def readRegular_def l)
  have "FileReadJournal 0 ?s = []" by (simp add: FileReadJournal_def o readJournal_def scanJournal_def)
  then show j: "file_journal ?s = []" by (simp add: file_journal_def)
  have "free_tree ?s" using assms by (simp add: free_tree_def wf_nodes_def wf_tree_def l) (simp add: Open_def fold)
  moreover have "in_step ?s" by (simp add: in_step_def j replay_def readEntry_def scopeIsDir_def l)
  moreover have "clean_journal []" by code_simp
  then have "clean_store ?s" by (simp add: clean_store_def o)
  ultimately show "file_good ?s" by (simp add: file_good_def jinv_Open abs_inv_def j chained_def numbered_def)
qed

interpretation file_text: conforming_store "fileStore u" file_good file_view text_fits text_stamp_fits "2 ^ 63 - 1" for u
proof (unfold_locales, goal_cases)
  case (1 s)
  then show ?case by (simp add: file_good_def)
next
  case (2 s sc n)
  then show ?case by (simp add: fileStore_def FileGet_refines)
next
  case (3 s sc)
  then show ?case by (simp add: fileStore_def FileList_def)
next
  case (4 s sc)
  then show ?case using FileList_refines by (simp add: fileStore_def)
next
  case (5 s session now e opts r s')
  then show ?case using FilePut_refines by (simp add: fileStore_def)
next
  case (6 s session now sc n r s')
  then show ?case using FileForget_refines [of s session now sc n r s'] by (auto simp: fileStore_def)
next
  case (7 s after)
  then show ?case using FileReadJournal_from [of s "unat after"] by (simp add: fileStore_def)
qed

end
