(* ===== verification/SqlSchema.thy ===== *)
theory SqlSchema
  imports SqlUse
begin

text \<open>
  Opening a database, in \<^verbatim>\<open>sqlite/sqlite.go\<close>: the schema, the migration of the tables an earlier release wrote, and the retry while
  SQLite reports the database busy.  A file is its tables and its indexes, each index with the table it is on; names are as SQLite
  compares them, folded to lower case, and the shadow tables of the full-text index go with it.  A statement's failure is the parameter
  \<open>fault\<close>: the driver's result code, of which \<^verbatim>\<open>isBusy\<close> looks at the low byte, and its message.  A failed attempt is rolled back, so it leaves the file as it was.
\<close>

unbundle bit_operations_syntax

section \<open>Files\<close>

datatype cell = Text string | Integer int

record SqlTable =
  tbColumns :: "string list"
  tbRows :: "cell list list"

record SqlFile =
  sfTables :: "(string \<times> SqlTable) list"
  sfIndexes :: "(string \<times> string) list"

text \<open>An error is the result code of the driver's error in it, if there is one, and its message.\<close>

type_synonym sqlerr = "int option \<times> string"

definition SQLITE_ERROR :: int where
  "SQLITE_ERROR = 1"

definition SQLITE_BUSY :: int where
  "SQLITE_BUSY = 5"

datatype SchemaStmt = SchemaBegin | SchemaCommit | SchemaExec | ColumnsBefore string | ColumnsAfter string
  | RenameTable string | CountIndex | DropIndex

type_synonym schema_faults = "SchemaStmt \<Rightarrow> sqlerr option"

definition sql_then :: "sqlerr + 'a \<Rightarrow> ('a \<Rightarrow> sqlerr + 'b) \<Rightarrow> sqlerr + 'b" where
  "sql_then r f = (case r of Inl err \<Rightarrow> Inl err | Inr x \<Rightarrow> f x)"

definition sql_exec :: "schema_faults \<Rightarrow> SchemaStmt \<Rightarrow> string \<Rightarrow> sqlerr + 'a \<Rightarrow> sqlerr + 'a" where
  "sql_exec fault st pre r =
     (case fault st of
        Some (code, msg) \<Rightarrow> Inl (code, pre @ msg)
      | None \<Rightarrow> (case r of Inl (code, msg) \<Rightarrow> Inl (code, pre @ msg) | Inr x \<Rightarrow> Inr x))"

section \<open>The schema\<close>

definition entry_columns :: "string list" where
  "entry_columns = [''scope'', ''name'', ''content'', ''meta'', ''hash'', ''updated'']"

definition journal_columns :: "string list" where
  "journal_columns = [''seq'', ''scope'', ''name'', ''line'']"

definition fts_columns :: "string list" where
  "fts_columns = [''scope'', ''name'', ''meta'', ''content'']"

definition sql_tables :: "(string \<times> string \<times> string list) list" where
  "sql_tables =
     [(''memory_entries'', ''entries'', entry_columns),
      (''memory_journal'', ''journal'', journal_columns),
      (''memory_entries_fts'', ''entries_fts'', fts_columns)]"

definition has_name :: "string \<Rightarrow> SqlFile \<Rightarrow> bool" where
  "has_name n f \<longleftrightarrow> n \<in> fst ` set (sfTables f) \<or> n \<in> fst ` set (sfIndexes f)"

definition create_table :: "string \<Rightarrow> string list \<Rightarrow> SqlFile \<Rightarrow> sqlerr + SqlFile" where
  "create_table name cols f =
     (if map_of (sfTables f) name \<noteq> None then Inr f
      else if has_name name f then Inl (Some SQLITE_ERROR, [])
      else Inr (f\<lparr>sfTables := sfTables f @ [(name, \<lparr>tbColumns = cols, tbRows = []\<rparr>)]\<rparr>))"

definition create_index :: "string \<Rightarrow> string \<Rightarrow> string list \<Rightarrow> SqlFile \<Rightarrow> sqlerr + SqlFile" where
  "create_index name table cols f =
     (if map_of (sfIndexes f) name \<noteq> None then Inr f
      else if has_name name f then Inl (Some SQLITE_ERROR, [])
      else case map_of (sfTables f) table of
             None \<Rightarrow> Inl (Some SQLITE_ERROR, [])
           | Some t \<Rightarrow> if list_all (\<lambda>c. c \<in> set (tbColumns t)) cols then Inr (f\<lparr>sfIndexes := sfIndexes f @ [(name, table)]\<rparr>) else Inl (Some SQLITE_ERROR, []))"

definition exec_schema :: "SqlFile \<Rightarrow> sqlerr + SqlFile" where
  "exec_schema f =
     sql_then (create_table ''memory_entries'' entry_columns f) (\<lambda>f.
     sql_then (create_table ''memory_journal'' journal_columns f) (\<lambda>f.
     sql_then (create_index ''memory_journal_entry'' ''memory_journal'' [''scope'', ''name'', ''seq''] f) (\<lambda>f.
     create_table ''memory_entries_fts'' fts_columns f)))"

text \<open>No table has no columns, so the empty list is \<^verbatim>\<open>nil\<close>.\<close>

definition columns :: "string \<Rightarrow> SqlFile \<Rightarrow> string list" where
  "columns table f = (case map_of (sfTables f) table of None \<Rightarrow> [] | Some t \<Rightarrow> tbColumns t)"

section \<open>Migration\<close>

text \<open>The first loop of \<^verbatim>\<open>migrate\<close>: whether it runs to its end.\<close>

fun is_legacy :: "schema_faults \<Rightarrow> SqlFile \<Rightarrow> (string \<times> string \<times> string list) list \<Rightarrow> sqlerr + bool" where
  "is_legacy fault f [] = Inr True"
| "is_legacy fault f ((name, legacy, cols) # ts) =
     sql_then (sql_exec fault (ColumnsBefore name) (''sqlite: columns of '' @ name @ '': '') (Inr (columns name f))) (\<lambda>have.
     if have \<noteq> [] then Inr False
     else sql_then (sql_exec fault (ColumnsBefore legacy) (''sqlite: columns of '' @ legacy @ '': '') (Inr (columns legacy f))) (\<lambda>have.
       if have \<noteq> cols then Inr False else is_legacy fault f ts))"

definition rename_table :: "string \<Rightarrow> string \<Rightarrow> SqlFile \<Rightarrow> sqlerr + SqlFile" where
  "rename_table legacy name f =
     (if has_name name f then Inl (Some SQLITE_ERROR, [])
      else Inr (f\<lparr>sfTables := map (\<lambda>(n, t). (if n = legacy then name else n, t)) (sfTables f),
                  sfIndexes := map (\<lambda>(i, n). (i, if n = legacy then name else n)) (sfIndexes f)\<rparr>))"

fun rename_tables :: "schema_faults \<Rightarrow> (string \<times> string \<times> string list) list \<Rightarrow> SqlFile \<Rightarrow> sqlerr + SqlFile" where
  "rename_tables fault [] f = Inr f"
| "rename_tables fault ((name, legacy, cols) # ts) f =
     sql_then (sql_exec fault (RenameTable legacy) (''sqlite: migrate: rename '' @ legacy @ '': '') (rename_table legacy name f)) (\<lambda>f.
     rename_tables fault ts f)"

definition migrate :: "schema_faults \<Rightarrow> SqlFile \<Rightarrow> sqlerr + SqlFile" where
  "migrate fault f =
     sql_then (is_legacy fault f sql_tables) (\<lambda>legacy.
     if \<not> legacy then Inr f
     else sql_then (rename_tables fault sql_tables f) (\<lambda>f.
       sql_then (sql_exec fault CountIndex ''sqlite: migrate: ''
         (Inr (length (filter (\<lambda>i. i = (''journal_entry'', ''memory_journal'')) (sfIndexes f))))) (\<lambda>n.
       if n > 0
       then sql_exec fault DropIndex ''sqlite: migrate: drop journal_entry: ''
              (Inr (f\<lparr>sfIndexes := filter (\<lambda>(i, t). i \<noteq> ''journal_entry'') (sfIndexes f)\<rparr>))
       else Inr f)))"

section \<open>Opening\<close>

fun check_columns :: "schema_faults \<Rightarrow> SqlFile \<Rightarrow> (string \<times> string \<times> string list) list \<Rightarrow> sqlerr option" where
  "check_columns fault f [] = None"
| "check_columns fault f ((name, legacy, cols) # ts) =
     (case sql_exec fault (ColumnsAfter name) (''sqlite: columns of '' @ name @ '': '') (Inr (columns name f)) of
        Inl err \<Rightarrow> Some err
      | Inr have \<Rightarrow>
          if have \<noteq> cols
          then Some (None, ''sqlite: table '' @ name @ '' has columns ('' @ Join have '', '' @ ''), want ('' @ Join cols '', '' @
                       ''): the database holds another program's table of that name'')
          else check_columns fault f ts)"

definition applySchemaOnce :: "schema_faults \<Rightarrow> SqlFile \<Rightarrow> sqlerr option \<times> SqlFile" where
  "applySchemaOnce fault f =
     (case sql_then (sql_exec fault SchemaBegin ''sqlite: begin: '' (Inr f)) (\<lambda>f.
           sql_then (migrate fault f) (\<lambda>f.
           sql_then (sql_exec fault SchemaExec ''sqlite: apply schema: '' (exec_schema f)) (\<lambda>f.
           case check_columns fault f sql_tables of
             Some err \<Rightarrow> Inl err
           | None \<Rightarrow> sql_exec fault SchemaCommit ''sqlite: apply schema: '' (Inr f)))) of
        Inl err \<Rightarrow> (Some err, f)
      | Inr f' \<Rightarrow> (None, f'))"

definition isBusy :: "sqlerr \<Rightarrow> bool" where
  "isBusy err = (case fst err of None \<Rightarrow> False | Some code \<Rightarrow> code AND 0xff = SQLITE_BUSY)"

definition busyTimeout :: time where "busyTimeout = 5 * 10 ^ 9"

text \<open>\<open>env i\<close> is how SQLite fails attempt \<open>i\<close>, \<open>others i\<close> what other processes did to the file before it and \<open>clock i\<close> the reading after it.\<close>

partial_function (option) schema_loop ::
  "(nat \<Rightarrow> schema_faults) \<Rightarrow> (nat \<Rightarrow> SqlFile \<Rightarrow> SqlFile) \<Rightarrow> (nat \<Rightarrow> time) \<Rightarrow> time \<Rightarrow> nat \<Rightarrow> time \<Rightarrow> SqlFile \<Rightarrow> (sqlerr option \<times> SqlFile) option" where
  "schema_loop env others clock deadline i pause f =
     (let (err, f) = applySchemaOnce (env i) (others i f) in
      if err = None \<or> \<not> isBusy (the err) \<or> clock i + pause > deadline then Some (err, f)
      else schema_loop env others clock deadline (Suc i) (min (2 * pause) (50 * 10 ^ 6)) f)"

declare schema_loop.simps [code]

definition applySchema :: "(nat \<Rightarrow> schema_faults) \<Rightarrow> (nat \<Rightarrow> SqlFile \<Rightarrow> SqlFile) \<Rightarrow> time \<Rightarrow> (nat \<Rightarrow> time) \<Rightarrow> SqlFile \<Rightarrow> (sqlerr option \<times> SqlFile) option" where
  "applySchema env others start clock f = schema_loop env others clock (start + busyTimeout) 0 (10 ^ 6) f"

text \<open>The rows of a table as the store reads them.\<close>

fun entry_cells :: "cell list \<Rightarrow> EntryRow option" where
  "entry_cells [Text sc, Text n, Text c, Text m, Text h, Text u] =
     Some \<lparr>rScope = sc, rName = n, rContent = c, rMeta = m, rHash = h, rUpdated = u\<rparr>"
| "entry_cells _ = None"

fun journal_cells :: "cell list \<Rightarrow> JournalRow option" where
  "journal_cells [Integer q, Text sc, Text n, Text ln] = Some \<lparr>jSeq = q, jScope = sc, jName = n, jLine = ln\<rparr>"
| "journal_cells _ = None"

fun fts_cells :: "cell list \<Rightarrow> FtsRow option" where
  "fts_cells [Text sc, Text n, Text m, Text c] = Some \<lparr>fScope = sc, fName = n, fMeta = m, fContent = c\<rparr>"
| "fts_cells _ = None"

definition table_rows :: "string \<Rightarrow> SqlFile \<Rightarrow> cell list list" where
  "table_rows name f = (case map_of (sfTables f) name of None \<Rightarrow> [] | Some t \<Rightarrow> tbRows t)"

definition sql_db :: "SqlFile \<Rightarrow> Db" where
  "sql_db f = \<lparr>dbEntries = List.map_filter entry_cells (table_rows ''memory_entries'' f),
     dbJournal = List.map_filter journal_cells (table_rows ''memory_journal'' f),
     dbFts = List.map_filter fts_cells (table_rows ''memory_entries_fts'' f)\<rparr>"

definition SqlOpen :: "SqlOption list \<Rightarrow> (nat \<Rightarrow> schema_faults) \<Rightarrow> (nat \<Rightarrow> SqlFile \<Rightarrow> SqlFile) \<Rightarrow> time \<Rightarrow> (nat \<Rightarrow> time) \<Rightarrow> SqlFile \<Rightarrow> ((sqlerr + SqlStore) \<times> SqlFile) option" where
  "SqlOpen opts env others start clock f =
     (let s = foldl (\<lambda>s opt. opt s) \<lparr>qMax = DefaultMaxEntryBytes, qDb = \<lparr>dbEntries = [], dbJournal = [], dbFts = []\<rparr>\<rparr> opts in
      case applySchema env others start clock f of
        None \<Rightarrow> None
      | Some (Some err, f) \<Rightarrow> Some (Inl err, f)
      | Some (None, f) \<Rightarrow> Some (Inr (s\<lparr>qDb := sql_db f\<rparr>), f))"

end
