(* ===== verification/SqlMigrate.thy ===== *)
theory SqlMigrate
  imports SqlSchema
begin

text \<open>
  What opening a database does to the file: no table loses a row, an earlier release's tables come under the prefixed names,
  another program's tables stay as they are, opening again changes nothing, and the retry ends.
\<close>

lemma sql_then_Inr [simp]: "sql_then (Inr x) f = f x" "sql_then r f = Inr y \<longleftrightarrow> (\<exists>x. r = Inr x \<and> f x = Inr y)"
  by (auto simp: sql_then_def split: sum.splits)

lemma sql_exec_Inr [simp]: "sql_exec fault st pre r = Inr x \<longleftrightarrow> fault st = None \<and> r = Inr x"
  by (auto simp: sql_exec_def split: option.splits sum.splits)

definition no_schema_fault :: schema_faults where
  "no_schema_fault = (\<lambda>st. None)"

lemma sql_exec_no_fault [simp]: "sql_exec no_schema_fault st pre (Inr x) = Inr x"
  by (simp add: no_schema_fault_def)

section \<open>The schema\<close>

lemma create_table_run:
  assumes "create_table name cols f = Inr f'"
  shows "map_of (sfTables f') = (map_of (sfTables f))(name := Some (case map_of (sfTables f) name of None \<Rightarrow> \<lparr>tbColumns = cols, tbRows = []\<rparr> | Some t \<Rightarrow> t))"
    and "sfIndexes f' = sfIndexes f"
  using assms by (auto simp: create_table_def map_add_def fun_eq_iff split: if_splits option.splits)

lemma create_index_run: "create_index name table cols f = Inr f' \<Longrightarrow> sfTables f' = sfTables f \<and> map_of (sfIndexes f') name \<noteq> None"
  by (auto simp: create_index_def map_add_def split: if_splits option.splits)

lemma create_table_same: "map_of (sfTables f) name \<noteq> None \<Longrightarrow> create_table name cols f = Inr f"
  by (simp add: create_table_def)

lemma create_index_same: "map_of (sfIndexes f) name \<noteq> None \<Longrightarrow> create_index name table cols f = Inr f"
  by (simp add: create_index_def)

lemma exec_schema_run:
  assumes "exec_schema f = Inr f'"
  shows "map_of (sfTables f) n = Some t \<Longrightarrow> map_of (sfTables f') n = Some t"
    and "n \<notin> fst ` set sql_tables \<Longrightarrow> map_of (sfTables f') n = map_of (sfTables f) n"
    and "map_of (sfIndexes f') ''memory_journal_entry'' \<noteq> None"
    and "n \<in> fst ` set sql_tables \<Longrightarrow> map_of (sfTables f') n \<noteq> None"
proof -
  obtain a b c where r: "create_table ''memory_entries'' entry_columns f = Inr a" "create_table ''memory_journal'' journal_columns a = Inr b"
      "create_index ''memory_journal_entry'' ''memory_journal'' [''scope'', ''name'', ''seq''] b = Inr c" "create_table ''memory_entries_fts'' fts_columns c = Inr f'"
    using assms by (auto simp: exec_schema_def)
  note t = create_table_run(1) [OF r(1)] create_table_run(1) [OF r(2)] create_index_run [OF r(3)] create_table_run [OF r(4)]
  show "map_of (sfTables f) n = Some t \<Longrightarrow> map_of (sfTables f') n = Some t" for n t using t by auto
  show "n \<notin> fst ` set sql_tables \<Longrightarrow> map_of (sfTables f') n = map_of (sfTables f) n" using t by (auto simp: sql_tables_def)
  show "map_of (sfIndexes f') ''memory_journal_entry'' \<noteq> None" using t by simp
  show "n \<in> fst ` set sql_tables \<Longrightarrow> map_of (sfTables f') n \<noteq> None" using t by (auto simp: sql_tables_def)
qed

lemma exec_schema_same:
  assumes "\<And>n. n \<in> fst ` set sql_tables \<Longrightarrow> map_of (sfTables f) n \<noteq> None" "map_of (sfIndexes f) ''memory_journal_entry'' \<noteq> None"
  shows "exec_schema f = Inr f"
  using assms by (simp add: exec_schema_def sql_tables_def create_table_same create_index_same del: map_of_eq_None_iff)

section \<open>The migration\<close>

lemma rename_table_run:
  assumes "rename_table legacy name f = Inr f'" "legacy \<noteq> name"
  shows "map_of (sfTables f') = (map_of (sfTables f))(name := map_of (sfTables f) legacy, legacy := None)" "map_of (sfTables f) name = None"
proof -
  have n: "name \<notin> fst ` set (sfTables f)" and f': "sfTables f' = map (\<lambda>(n, t). (if n = legacy then name else n, t)) (sfTables f)"
    using assms(1) by (auto simp: rename_table_def has_name_def split: if_splits)
  have "name \<notin> fst ` set ts \<Longrightarrow> map_of (map (\<lambda>(n, t). (if n = legacy then name else n, t)) ts) =
      (map_of ts)(name := map_of ts legacy, legacy := None)" for ts :: "(string \<times> SqlTable) list"
    using assms(2) by (induction ts) (auto simp: fun_eq_iff)
  with n f' show "map_of (sfTables f') = (map_of (sfTables f))(name := map_of (sfTables f) legacy, legacy := None)" by simp
  show "map_of (sfTables f) name = None" using n by (simp add: map_of_eq_None_iff)
qed

lemma is_legacy_True:
  assumes "is_legacy fault f ts = Inr True" "(new, old, cols) \<in> set ts"
  shows "columns new f = [] \<and> columns old f = cols"
  using assms by (induction ts) (auto split: if_splits)

text \<open>The tables under their new names.\<close>

definition migrated :: "(string \<rightharpoonup> SqlTable) \<Rightarrow> string \<rightharpoonup> SqlTable" where
  "migrated m = m(''memory_entries'' := m ''entries'', ''entries'' := None, ''memory_journal'' := m ''journal'', ''journal'' := None,
     ''memory_entries_fts'' := m ''entries_fts'', ''entries_fts'' := None)"

definition legacy_tables :: "(string \<rightharpoonup> SqlTable) \<Rightarrow> bool" where
  "legacy_tables m \<longleftrightarrow> (\<forall>(new, old, cols) \<in> set sql_tables. m new = None \<and> (\<exists>t. m old = Some t \<and> tbColumns t = cols))"

lemma columns_table: "columns n f = c # cs \<Longrightarrow> \<exists>t. map_of (sfTables f) n = Some t \<and> tbColumns t = c # cs"
  by (simp add: columns_def split: option.splits)

lemma migrate_legacy:
  assumes "migrate fault f = Inr f'" "is_legacy fault f sql_tables = Inr True"
  shows "map_of (sfTables f') = migrated (map_of (sfTables f))" "legacy_tables (map_of (sfTables f))"
proof -
  obtain c where c: "rename_tables fault sql_tables f = Inr c" and f': "sfTables f' = sfTables c"
    using assms unfolding migrate_def by (auto split: if_splits)
  obtain a b where r: "rename_table ''entries'' ''memory_entries'' f = Inr a" "rename_table ''journal'' ''memory_journal'' a = Inr b"
      "rename_table ''entries_fts'' ''memory_entries_fts'' b = Inr c"
    using c unfolding sql_tables_def by auto
  have n: "''entries'' \<noteq> ''memory_entries''" "''journal'' \<noteq> ''memory_journal''" "''entries_fts'' \<noteq> ''memory_entries_fts''" by simp_all
  note t = rename_table_run [OF r(1) n(1)] rename_table_run [OF r(2) n(2)] rename_table_run [OF r(3) n(3)]
  have m: "map_of (sfTables f) ''memory_entries'' = None" "map_of (sfTables f) ''memory_journal'' = None" "map_of (sfTables f) ''memory_entries_fts'' = None"
    using t(2,4,6) unfolding t(1,3) by simp_all
  have "\<forall>(new, old, cols) \<in> set sql_tables. columns old f = cols" using is_legacy_True [OF assms(2)] by auto
  then have "columns ''entries'' f = entry_columns" "columns ''journal'' f = journal_columns" "columns ''entries_fts'' f = fts_columns"
    by (simp_all add: sql_tables_def)
  then show "legacy_tables (map_of (sfTables f))"
    using m columns_table by (simp add: legacy_tables_def sql_tables_def entry_columns_def journal_columns_def fts_columns_def)
  show "map_of (sfTables f') = migrated (map_of (sfTables f))" unfolding f' t(1,3,5) migrated_def by simp
qed

lemma migrate_run:
  assumes "migrate fault f = Inr f'"
  shows "f' = f \<or> map_of (sfTables f') = migrated (map_of (sfTables f)) \<and> legacy_tables (map_of (sfTables f))"
proof -
  obtain l where l: "is_legacy fault f sql_tables = Inr l" using assms by (auto simp: migrate_def)
  then show ?thesis using assms migrate_legacy [OF assms] by (cases l) (simp_all add: migrate_def)
qed

lemma applySchemaOnce_cases:
  assumes "applySchemaOnce fault f = (err, f')"
  obtains (err) e where "err = Some e" "f' = f"
  | (ok) g where "err = None" "migrate fault f = Inr g" "exec_schema g = Inr f'" "check_columns fault f' sql_tables = None"
  using assms by (cases "check_columns fault f' sql_tables") (auto simp: applySchemaOnce_def split: sum.splits option.splits)

lemma check_columns_None: "check_columns fault f ts = None \<Longrightarrow> (new, old, cols) \<in> set ts \<Longrightarrow> columns new f = cols"
  by (induction ts) (auto split: sum.splits if_splits)

lemma opened_tables:
  assumes "applySchemaOnce fault f = (None, f')"
  shows "(new, old, cols) \<in> set sql_tables \<Longrightarrow> \<exists>t. map_of (sfTables f') new = Some t \<and> tbColumns t = cols"
    and "map_of (sfIndexes f') ''memory_journal_entry'' \<noteq> None"
proof -
  from assms obtain g where g: "exec_schema g = Inr f'" "check_columns fault f' sql_tables = None" by (cases rule: applySchemaOnce_cases) auto
  show "\<exists>t. map_of (sfTables f') new = Some t \<and> tbColumns t = cols" if m: "(new, old, cols) \<in> set sql_tables"
  proof -
    have "new \<in> fst ` set sql_tables" using m by force
    then obtain t where "map_of (sfTables f') new = Some t" using exec_schema_run(4) [OF g(1)] by blast
    then show ?thesis using check_columns_None [OF g(2) m] by (simp add: columns_def)
  qed
  show "map_of (sfIndexes f') ''memory_journal_entry'' \<noteq> None" by (rule exec_schema_run(3) [OF g(1)])
qed

lemma check_columns_ok:
  "(\<And>new old cols. (new, old, cols) \<in> set ts \<Longrightarrow> columns new f = cols) \<Longrightarrow> check_columns no_schema_fault f ts = None"
  by (induction no_schema_fault f ts rule: check_columns.induct) auto

section \<open>What an open leaves\<close>

definition store_name :: "string \<Rightarrow> bool" where
  "store_name n \<longleftrightarrow> n \<in> fst ` set sql_tables \<or> n \<in> (fst \<circ> snd) ` set sql_tables"

lemma store_name_iff: "store_name n \<longleftrightarrow> n \<in> {''memory_entries'', ''memory_journal'', ''memory_entries_fts'', ''entries'', ''journal'', ''entries_fts''}"
  by (auto simp: store_name_def sql_tables_def)

lemma migrated_frame: "\<not> store_name n \<Longrightarrow> migrated m n = m n"
  by (simp add: store_name_iff migrated_def)

lemma migrated_at: "migrated m ''memory_entries'' = m ''entries''" "migrated m ''memory_journal'' = m ''journal''" "migrated m ''memory_entries_fts'' = m ''entries_fts''"
  by (simp_all add: migrated_def)

lemma migrated_keeps:
  assumes "legacy_tables m" "store_name n" "m n = Some t"
  shows "\<exists>new. (new, n, tbColumns t) \<in> set sql_tables \<and> migrated m new = Some t"
proof -
  have l: "m ''memory_entries'' = None" "m ''memory_journal'' = None" "m ''memory_entries_fts'' = None"
      "\<exists>t. m ''entries'' = Some t \<and> tbColumns t = entry_columns" "\<exists>t. m ''journal'' = Some t \<and> tbColumns t = journal_columns"
      "\<exists>t. m ''entries_fts'' = Some t \<and> tbColumns t = fts_columns"
    using assms(1) by (simp_all add: legacy_tables_def sql_tables_def)
  with assms(2,3) consider "n = ''entries''" "tbColumns t = entry_columns" | "n = ''journal''" "tbColumns t = journal_columns"
      | "n = ''entries_fts''" "tbColumns t = fts_columns"
    unfolding store_name_iff insert_iff empty_iff by (elim disjE) simp_all
  then show ?thesis
  proof cases
    case 1 then show ?thesis using assms(3) by (intro exI [of _ "''memory_entries''"]) (simp add: sql_tables_def migrated_at)
  next
    case 2 then show ?thesis using assms(3) by (intro exI [of _ "''memory_journal''"]) (simp add: sql_tables_def migrated_at)
  next
    case 3 then show ?thesis using assms(3) by (intro exI [of _ "''memory_entries_fts''"]) (simp add: sql_tables_def migrated_at)
  qed
qed

text \<open>C7: opening a database loses no row and touches no other program's table.  An attempt that fails leaves the file as it was.  After one
  that succeeds every table the file had is still there with its columns and rows, under its own name, or, when all three
  tables of an earlier release were there with this store's columns, under the new name of that table; a table of any other name is as
  it was.\<close>

theorem opening_loses_no_table:
  assumes "applySchemaOnce fault f = (err, f')"
  shows "if err \<noteq> None then f' = f
    else (\<forall>n. \<not> store_name n \<longrightarrow> map_of (sfTables f') n = map_of (sfTables f) n) \<and>
      (\<forall>n t. map_of (sfTables f) n = Some t \<longrightarrow> map_of (sfTables f') n = Some t \<or>
        (\<exists>new. (new, n, tbColumns t) \<in> set sql_tables \<and> map_of (sfTables f') new = Some t))"
  using assms
proof (cases rule: applySchemaOnce_cases)
  case (ok g)
  note x = exec_schema_run(1,2) [OF ok(3)]
  have other: "map_of (sfTables f') n = map_of (sfTables f) n" if n: "\<not> store_name n" for n
  proof -
    have "map_of (sfTables g) n = map_of (sfTables f) n"
      using migrate_run [OF ok(2)] migrated_frame [OF n] by auto
    then show ?thesis using x(2) n by (auto simp: store_name_def)
  qed
  have "map_of (sfTables f') n = Some t \<or> (\<exists>new. (new, n, tbColumns t) \<in> set sql_tables \<and> map_of (sfTables f') new = Some t)"
    if t: "map_of (sfTables f) n = Some t" for n t
    using migrate_run [OF ok(2)]
  proof
    assume "g = f"
    then show ?thesis using x(1) t by blast
  next
    assume m: "map_of (sfTables g) = migrated (map_of (sfTables f)) \<and> legacy_tables (map_of (sfTables f))"
    show ?thesis
    proof (cases "store_name n")
      case True
      then obtain new where "(new, n, tbColumns t) \<in> set sql_tables" "map_of (sfTables g) new = Some t"
        using migrated_keeps m t by metis
      then show ?thesis using x(1) by blast
    qed (use other t in simp)
  qed
  with other ok(1) show ?thesis by simp
qed simp

definition foreign_file :: SqlFile where
  "foreign_file = \<lparr>sfTables = [(''entries'', \<lparr>tbColumns = [''id'', ''body''], tbRows = [[Text ''s1'', Text ''hello'']]\<rparr>)], sfIndexes = []\<rparr>"

lemma foreign_file_opens: "fst (applySchemaOnce no_schema_fault foreign_file) = None"
  by code_simp

theorem opening_loses_no_table_witness:
  "map_of (sfTables (snd (applySchemaOnce no_schema_fault foreign_file))) ''entries'' = map_of (sfTables foreign_file) ''entries''"
proof -
  let ?t = "\<lparr>tbColumns = [''id'', ''body''], tbRows = [[Text ''s1'', Text ''hello'']]\<rparr>"
  obtain f' where f': "applySchemaOnce no_schema_fault foreign_file = (None, f')" using foreign_file_opens by (cases "applySchemaOnce no_schema_fault foreign_file") auto
  have e: "map_of (sfTables foreign_file) ''entries'' = Some ?t" by (simp add: foreign_file_def)
  have n: "(new, ''entries'', tbColumns ?t) \<notin> set sql_tables" for new by (simp add: sql_tables_def entry_columns_def)
  have "\<forall>n t. map_of (sfTables foreign_file) n = Some t \<longrightarrow> map_of (sfTables f') n = Some t \<or>
        (\<exists>new. (new, n, tbColumns t) \<in> set sql_tables \<and> map_of (sfTables f') new = Some t)"
    using opening_loses_no_table [OF f'] by simp
  with e n show ?thesis by (metis f' snd_conv)
qed

text \<open>Opening an opened database again, when no statement fails, succeeds and leaves the file exactly as it is.\<close>

theorem opening_again_changes_nothing:
  assumes "applySchemaOnce fault f = (None, f')"
  shows "applySchemaOnce no_schema_fault f' = (None, f')"
proof -
  have t: "\<exists>t. map_of (sfTables f') new = Some t \<and> tbColumns t = cols" if "(new, old, cols) \<in> set sql_tables" for new old cols
    using opened_tables(1) [OF assms that] .
  then have c: "columns new f' = cols" if "(new, old, cols) \<in> set sql_tables" for new old cols using that by (fastforce simp: columns_def)
  have e: "columns ''memory_entries'' f' = entry_columns" using c [of "''memory_entries''" "''entries''"] by (simp add: sql_tables_def)
  have "is_legacy no_schema_fault f' sql_tables = Inr False" unfolding sql_tables_def by (simp add: e) (simp add: entry_columns_def)
  then have "migrate no_schema_fault f' = Inr f'" by (simp add: migrate_def)
  moreover have "exec_schema f' = Inr f'"
  proof (rule exec_schema_same [OF _ opened_tables(2) [OF assms]])
    fix n assume "n \<in> fst ` set sql_tables"
    then show "map_of (sfTables f') n \<noteq> None" using t by force
  qed
  moreover have "check_columns no_schema_fault f' sql_tables = None" using c by (rule check_columns_ok)
  ultimately show ?thesis by (simp add: applySchemaOnce_def)
qed

theorem opening_again_changes_nothing_witness:
  "applySchemaOnce no_schema_fault (snd (applySchemaOnce no_schema_fault foreign_file)) = (None, snd (applySchemaOnce no_schema_fault foreign_file))"
proof -
  have "applySchemaOnce no_schema_fault foreign_file = (None, snd (applySchemaOnce no_schema_fault foreign_file))"
    using foreign_file_opens by (cases "applySchemaOnce no_schema_fault foreign_file") simp
  from opening_again_changes_nothing [OF this] show ?thesis .
qed

section \<open>An earlier release's database\<close>

lemma legacy_is_legacy:
  assumes "legacy_tables (map_of (sfTables f))" "is_legacy fault f sql_tables = Inr l"
  shows l
proof -
  have "columns new f = [] \<and> columns old f = cols" if "(new, old, cols) \<in> set sql_tables" for new old cols
    using assms(1) that by (force simp: legacy_tables_def columns_def)
  moreover have "\<forall>(new, old, cols) \<in> set ts. columns new f = [] \<and> columns old f = cols \<Longrightarrow> is_legacy fault f ts = Inr l \<Longrightarrow> l" for ts
    by (induction ts) (auto split: if_splits)
  ultimately show ?thesis using assms(2) by blast
qed

definition row_cells :: "EntryRow \<Rightarrow> cell list" where
  "row_cells r = [Text (rScope r), Text (rName r), Text (rContent r), Text (rMeta r), Text (rHash r), Text (rUpdated r)]"

definition line_cells :: "JournalRow \<Rightarrow> cell list" where
  "line_cells r = [Integer (jSeq r), Text (jScope r), Text (jName r), Text (jLine r)]"

definition index_cells :: "FtsRow \<Rightarrow> cell list" where
  "index_cells r = [Text (fScope r), Text (fName r), Text (fMeta r), Text (fContent r)]"

lemma cells_read_back: "List.map_filter entry_cells (map row_cells rs) = rs" "List.map_filter journal_cells (map line_cells js) = js"
  "List.map_filter fts_cells (map index_cells fs) = fs"
proof -
  show "List.map_filter entry_cells (map row_cells rs) = rs" by (induction rs) (simp_all add: map_filter_simps row_cells_def)
  show "List.map_filter journal_cells (map line_cells js) = js" by (induction js) (simp_all add: map_filter_simps line_cells_def)
  show "List.map_filter fts_cells (map index_cells fs) = fs" by (induction fs) (simp_all add: map_filter_simps index_cells_def)
qed

text \<open>The tables of an earlier release, holding the rows of \<open>d\<close>.\<close>

definition legacy_rows :: "SqlFile \<Rightarrow> Db \<Rightarrow> bool" where
  "legacy_rows f d \<longleftrightarrow> legacy_tables (map_of (sfTables f)) \<and> table_rows ''entries'' f = map row_cells (dbEntries d) \<and>
     table_rows ''journal'' f = map line_cells (dbJournal d) \<and> table_rows ''entries_fts'' f = map index_cells (dbFts d)"

lemma legacy_once:
  assumes "legacy_rows f d" "applySchemaOnce fault f = (None, f')"
  shows "sql_db f' = d"
  using assms(2)
proof (cases rule: applySchemaOnce_cases)
  case (ok g)
  have l: "legacy_tables (map_of (sfTables f))" using assms(1) by (simp add: legacy_rows_def)
  obtain x where x: "is_legacy fault f sql_tables = Inr x" using ok(2) by (auto simp: migrate_def)
  with legacy_is_legacy [OF l x] have g: "map_of (sfTables g) = migrated (map_of (sfTables f))" by (intro migrate_legacy(1) [OF ok(2)]) simp
  obtain t1 t2 t3 where t: "map_of (sfTables f) ''entries'' = Some t1" "map_of (sfTables f) ''journal'' = Some t2" "map_of (sfTables f) ''entries_fts'' = Some t3"
    using l by (auto simp: legacy_tables_def sql_tables_def)
  have "map_of (sfTables f') ''memory_entries'' = Some t1" "map_of (sfTables f') ''memory_journal'' = Some t2" "map_of (sfTables f') ''memory_entries_fts'' = Some t3"
    using exec_schema_run(1) [OF ok(3)] t unfolding g by (simp_all add: migrated_at)
  with assms(1) t show ?thesis by (simp add: sql_db_def legacy_rows_def table_rows_def cells_read_back)
qed simp

section \<open>The retry\<close>

fun pause_at :: "nat \<Rightarrow> time" where
  "pause_at 0 = 10 ^ 6"
| "pause_at (Suc i) = min (2 * pause_at i) (50 * 10 ^ 6)"

lemma pause_at_pos: "0 < pause_at i"
  by (induction i) auto

text \<open>A run of the loop from attempt \<open>i\<close> on ends with the outcome of one attempt, whose error is not \<^verbatim>\<open>SQLITE_BUSY\<close> unless the deadline has come.\<close>

lemma schema_loop_ends:
  assumes "\<And>j. clock j + pause_at j \<le> clock (Suc j)"
  shows "\<exists>err f'. schema_loop env others clock deadline i (pause_at i) f = Some (err, f') \<and>
    (\<exists>j g. applySchemaOnce (env j) (others j g) = (err, f') \<and> (err \<noteq> None \<longrightarrow> isBusy (the err) \<longrightarrow> deadline < clock j + pause_at j))"
proof (induction "nat (deadline - clock i)" arbitrary: i f rule: less_induct)
  case less
  obtain err g where once: "applySchemaOnce (env i) (others i f) = (err, g)" by fastforce
  show ?case
  proof (cases "err = None \<or> \<not> isBusy (the err) \<or> clock i + pause_at i > deadline")
    case True
    then have "schema_loop env others clock deadline i (pause_at i) f = Some (err, g)" by (simp add: schema_loop.simps [of _ _ _ _ i] once)
    with True once show ?thesis by blast
  next
    case False
    then have r: "schema_loop env others clock deadline i (pause_at i) f = schema_loop env others clock deadline (Suc i) (pause_at (Suc i)) g"
      by (auto simp: schema_loop.simps [of _ _ _ _ i] once)
    have "nat (deadline - clock (Suc i)) < nat (deadline - clock i)" using False assms [of i] pause_at_pos [of i] by auto
    from less [OF this, of g] show ?thesis unfolding r .
  qed
qed

lemma schema_loop_alone:
  assumes "schema_loop env others clock deadline i pause f = Some r" "others = (\<lambda>i f. f)" "fst r = None"
  shows "\<exists>j. applySchemaOnce (env j) f = r"
proof -
  let ?P = "\<lambda>env others clock deadline i pause f r. others = (\<lambda>i f. f) \<longrightarrow> fst r = None \<longrightarrow> (\<exists>j. applySchemaOnce (env j) f = r)"
  have "?P env others clock deadline i pause f r"
  proof (rule schema_loop.raw_induct [where P = ?P, OF _ assms(1)], intro impI)
    fix loop env others clock deadline i pause f r
    assume IH: "\<And>env others clock deadline i pause f r. loop env others clock deadline i pause f = Some r \<Longrightarrow> ?P env others clock deadline i pause f r"
      and body: "(let (err, f) = applySchemaOnce (env i) (others i f)
        in if err = None \<or> \<not> isBusy (the err) \<or> deadline < clock i + pause then Some (err, f)
           else loop env others clock deadline (Suc i) (min (2 * pause) (50 * 10 ^ 6)) f) = Some r"
      and alone: "others = (\<lambda>i f. f)" and r: "fst r = None"
    obtain err g where once: "applySchemaOnce (env i) f = (err, g)" by fastforce
    show "\<exists>j. applySchemaOnce (env j) f = r"
    proof (cases "err = None \<or> \<not> isBusy (the err) \<or> deadline < clock i + pause")
      case True
      then have "r = (err, g)" using body unfolding alone Let_def once by simp
      then show ?thesis using once by blast
    next
      case False
      then have l: "loop env others clock deadline (Suc i) (min (2 * pause) (50 * 10 ^ 6)) g = Some r"
        using body unfolding alone Let_def once by (simp del: not_None_eq)
      have "g = f" using once False by (cases rule: applySchemaOnce_cases) simp_all
      with IH [OF l] alone r show ?thesis by simp
    qed
  qed
  with assms(2,3) show ?thesis by simp
qed

text \<open>C9: the retry ends.  Whatever SQLite reports and whatever other processes do to the file, as long as a sleep takes at least its time, applying the
  schema returns after finitely many attempts, with the outcome of one of them; it gives up on a busy database only when the next pause would pass
  the busy timeout.\<close>

theorem schema_retry_ends:
  assumes "\<forall>i. clock i + pause_at i \<le> clock (Suc i)"
  shows "\<exists>err f'. applySchema env others start clock f = Some (err, f') \<and>
    (\<exists>i g. applySchemaOnce (env i) (others i g) = (err, f') \<and> (err \<noteq> None \<longrightarrow> isBusy (the err) \<longrightarrow> start + busyTimeout < clock i + pause_at i))"
  using schema_loop_ends [of clock env others "start + busyTimeout" 0 f] assms by (simp add: applySchema_def)

definition tick :: "nat \<Rightarrow> time" where
  "tick i = 10 ^ 8 * int i"

lemma tick_pauses: "\<forall>i. tick i + pause_at i \<le> tick (Suc i)"
proof
  fix i
  have "pause_at i \<le> 50 * 10 ^ 6" by (cases i) auto
  then show "tick i + pause_at i \<le> tick (Suc i)" by (simp add: tick_def algebra_simps)
qed

theorem schema_retry_ends_witness:
  "\<exists>err f'. applySchema (\<lambda>i st. Some (Some 261, ''database is locked'')) (\<lambda>i f. f) 0 tick foreign_file = Some (err, f')"
  using schema_retry_ends [OF tick_pauses] by blast

text \<open>C8: a database that an earlier release wrote opens with everything in it.  Whichever statements of whichever attempts fail, when the open
  succeeds the store reads the very rows the old tables held: entries, journal and index.\<close>

theorem legacy_database_opens:
  assumes "legacy_rows f d" "SqlOpen opts env (\<lambda>i g. g) start clock f = Some (Inr s, f')"
  shows "qDb s = d"
proof -
  obtain s0 where s: "applySchema env (\<lambda>i g. g) start clock f = Some (None, f')" "s = s0\<lparr>qDb := sql_db f'\<rparr>"
    using assms(2) by (auto simp: SqlOpen_def Let_def split: option.splits)
  then obtain j where "applySchemaOnce (env j) f = (None, f')" using schema_loop_alone [of env "\<lambda>i g. g"] unfolding applySchema_def by fastforce
  from legacy_once [OF assms(1) this] show ?thesis by (simp add: s(2))
qed

definition old_db :: Db where
  "old_db = \<lparr>dbEntries = [\<lparr>rScope = ''user'', rName = ''tea'', rContent = ''green'', rMeta = ''{}'', rHash = ''h'', rUpdated = ''u''\<rparr>],
     dbJournal = [\<lparr>jSeq = 1, jScope = ''user'', jName = ''tea'', jLine = ''l''\<rparr>],
     dbFts = [\<lparr>fScope = ''user'', fName = ''tea'', fMeta = [], fContent = ''green''\<rparr>]\<rparr>"

definition old_file :: SqlFile where
  "old_file = \<lparr>sfTables = [(''entries'', \<lparr>tbColumns = entry_columns, tbRows = map row_cells (dbEntries old_db)\<rparr>),
     (''journal'', \<lparr>tbColumns = journal_columns, tbRows = map line_cells (dbJournal old_db)\<rparr>),
     (''entries_fts'', \<lparr>tbColumns = fts_columns, tbRows = map index_cells (dbFts old_db)\<rparr>)],
     sfIndexes = [(''journal_entry'', ''journal'')]\<rparr>"

lemma old_file_rows: "legacy_rows old_file old_db"
  by (simp add: legacy_rows_def legacy_tables_def sql_tables_def old_file_def table_rows_def)

lemma old_file_once: "fst (applySchemaOnce no_schema_fault old_file) = None"
  by code_simp

theorem legacy_database_opens_witness:
  "\<exists>s f'. SqlOpen [] (\<lambda>i. no_schema_fault) (\<lambda>i g. g) 0 tick old_file = Some (Inr s, f') \<and> qDb s = old_db"
proof -
  obtain f' where "applySchemaOnce no_schema_fault old_file = (None, f')" using old_file_once by (cases "applySchemaOnce no_schema_fault old_file") auto
  then have "applySchema (\<lambda>i. no_schema_fault) (\<lambda>i g. g) 0 tick old_file = Some (None, f')" by (simp add: applySchema_def schema_loop.simps)
  then obtain s where s: "SqlOpen [] (\<lambda>i. no_schema_fault) (\<lambda>i g. g) 0 tick old_file = Some (Inr s, f')" by (simp add: SqlOpen_def Let_def)
  with legacy_database_opens [OF old_file_rows s] show ?thesis by blast
qed

end
