(* ===== verification/SqlProps.thy ===== *)
theory SqlProps
  imports SqlMigrate MemStore
begin

text \<open>
  What the SQLite store gives its users: in every state it reaches, whichever statements fail, its tables are in step; a search returns
  the matching live entries in order of relevance, the same with and without the limit in SQL; a word of a query cannot leave its quotes;
  and a journal cursor works up to the largest \<^verbatim>\<open>int64\<close> and not beyond.
\<close>

section \<open>Runs\<close>

text \<open>A write of the store, with whatever statements fail.  A session and a base hash that are not UTF-8 would be rewritten by JSON.\<close>

inductive sql_step :: "SqlStore \<Rightarrow> SqlStore \<Rightarrow> bool" where
  put: "wf_gomap (eMeta e) \<Longrightarrow> ValidString session \<Longrightarrow> ValidString (pBase (ResolvePutOptions opts)) \<Longrightarrow> room s \<Longrightarrow>
    SqlPut fault session now e opts s = (r, s') \<Longrightarrow> sql_step s s'"
| forget: "ValidString session \<Longrightarrow> room s \<Longrightarrow> SqlForget fault session now sc n s = (r, s') \<Longrightarrow> sql_step s s'"

inductive_cases sql_stepE: "sql_step s s'"

lemma SqlPut_inv:
  assumes "sql_inv s" "wf_gomap (eMeta e)" "ValidString session" "ValidString (pBase (ResolvePutOptions opts))" "room s"
    and "SqlPut fault session now e opts s = (r, s')"
  shows "sql_inv s'"
proof (cases r)
  case (Inl err)
  with assms SqlPut_error show ?thesis by blast
next
  case (Inr c)
  then have "transaction fault (put_tx fault (qMax s) session now e (ResolvePutOptions opts)) s = (Inr c, s')"
    using assms(6) by (auto simp: SqlPut_def Let_def split: option.splits)
  then show ?thesis
    by (cases rule: transaction_cases) (use put_tx_step [OF assms(1,5,2-4)] in auto)
qed

lemma SqlForget_inv:
  assumes "sql_inv s" "ValidString session" "room s" "SqlForget fault session now sc n s = (r, s')"
  shows "sql_inv s'"
proof (cases r)
  case (Inl err)
  with assms SqlForget_error show ?thesis by blast
next
  case (Inr c)
  then have "transaction fault (forget_tx fault session now sc n) s = (Inr c, s')"
    using assms(4) by (auto simp: SqlForget_def split: option.splits)
  then show ?thesis by (cases rule: transaction_cases) (use forget_tx_step [OF assms(1,3,2)] in fastforce)+
qed

lemma sql_step_inv: "sql_step s s' \<Longrightarrow> sql_inv s \<Longrightarrow> sql_inv s'"
  by (erule sql_stepE) (blast intro: SqlPut_inv SqlForget_inv)+

lemma sql_steps_inv: "sql_step\<^sup>*\<^sup>* s s' \<Longrightarrow> sql_inv s \<Longrightarrow> sql_inv s'"
  by (induction rule: rtranclp_induct) (auto intro: sql_step_inv)

lemma sql_inv_empty: "sql_inv \<lparr>qMax = k, qDb = \<lparr>dbEntries = [], dbJournal = [], dbFts = []\<rparr>\<rparr>"
  by (simp add: sql_inv_def sql_records_def db_of_def table_is_def abs_inv_def numbered_def replay_def)

definition empty_file :: SqlFile where
  "empty_file = \<lparr>sfTables = [], sfIndexes = []\<rparr>"

lemma empty_once: "applySchemaOnce fault empty_file = (None, f') \<Longrightarrow> sql_db f' = \<lparr>dbEntries = [], dbJournal = [], dbFts = []\<rparr>"
proof (erule applySchemaOnce_cases)
  fix g assume m: "migrate fault empty_file = Inr g" and x: "exec_schema g = Inr f'"
  have "\<not> legacy_tables (map_of (sfTables empty_file))" by (auto simp: legacy_tables_def empty_file_def sql_tables_def)
  then have "g = empty_file" using migrate_run [OF m] by blast
  then show ?thesis
    using x by (auto simp: exec_schema_def empty_file_def create_table_def create_index_def has_name_def journal_columns_def sql_db_def table_rows_def map_filter_simps)
qed simp

lemma opened_empty:
  assumes "SqlOpen opts env (\<lambda>i g. g) start clock empty_file = Some (Inr s, f')"
  shows "sql_inv s"
proof -
  obtain s0 where s: "applySchema env (\<lambda>i g. g) start clock empty_file = Some (None, f')" "s = s0\<lparr>qDb := sql_db f'\<rparr>"
    using assms by (auto simp: SqlOpen_def Let_def split: option.splits)
  then obtain j where "applySchemaOnce (env j) empty_file = (None, f')" using schema_loop_alone [of env "\<lambda>i g. g"] unfolding applySchema_def by fastforce
  from empty_once [OF this] s(2) show ?thesis using sql_inv_empty [of "qMax s0"] by (cases s0) simp
qed

section \<open>Searching\<close>

definition limited :: "int \<Rightarrow> 'a list \<Rightarrow> 'a list" where
  "limited limit xs = (if limit > 0 then take (nat limit) xs else xs)"

definition entry_of :: "EntryRow \<Rightarrow> Entry" where
  "entry_of r = projr (build_row r)"

lemma limited_prefix: "0 < limit \<Longrightarrow> int (length xs) = limit \<Longrightarrow> limited limit (xs @ ys) = xs"
  by (auto simp: limited_def)

lemma keep_rows_limited:
  assumes "list_all (\<lambda>r. \<exists>e. build_row r = Inr e) rows" "0 < limit \<longrightarrow> int (length out) < limit"
  shows "keep_rows opts limit rows out = Inr (limited limit (out @ filter (Keep opts) (map entry_of rows)))"
  using assms
proof (induction rows arbitrary: out)
  case Nil
  then show ?case by (auto simp: limited_def)
next
  case (Cons r rs)
  then obtain e where e: "build_row r = Inr e" by auto
  then have eo: "entry_of r = e" by (simp add: entry_of_def)
  show ?case
  proof (cases "Keep opts e")
    case True
    show ?thesis
    proof (cases "0 < limit \<and> limit \<le> int (length (out @ [e]))")
      case full: True
      then have "int (length (out @ [e])) = limit" using Cons.prems(2) by simp
      then show ?thesis using full True limited_prefix [of limit "out @ [e]"] by (simp add: e eo keep_def Let_def)
    next
      case False
      then have "keep_rows opts limit rs (out @ [e]) = Inr (limited limit ((out @ [e]) @ filter (Keep opts) (map entry_of rs)))"
        using Cons.prems(1) by (intro Cons.IH) auto
      then show ?thesis using False True by (auto simp: e eo keep_def Let_def)
    qed
  next
    case False
    then show ?thesis using Cons by (auto simp: e eo keep_def Let_def)
  qed
qed

lemma keyed_filter:
  "distinct (map kf rows) \<Longrightarrow> filter (\<lambda>r. kf r = k) rows = (case map_of (map (\<lambda>r. (kf r, r)) rows) k of None \<Rightarrow> [] | Some r \<Rightarrow> [r])"
proof (induction rows)
  case (Cons r rows)
  have "kf r \<notin> kf ` set rows" using Cons.prems by simp
  then have "filter (\<lambda>x. kf x = kf r) rows = []" by (simp add: filter_empty_conv) (metis imageI)
  with Cons show ?case by auto
qed simp

text \<open>The entry of an index row.\<close>

definition live_entry :: "SqlStore \<Rightarrow> Entry \<Rightarrow> bool" where
  "live_entry s e \<longleftrightarrow> replay (sql_records (qDb s)) (eScope e, eName e) = Some e"

lemma index_row:
  assumes "sql_inv s"
  shows "f \<in> set (dbFts (qDb s)) \<longleftrightarrow> (\<exists>e. live_entry s e \<and> f = index_of_entry e)"
proof -
  have "fkey (index_of_entry e) = k" if "replay (sql_records (qDb s)) k = Some e" for k e
    using replay_row_ok(2,3) [OF assms, of "fst k" "snd k" e] that by simp
  from table_is_member [OF sql_inv_tables(2) [OF assms] this] show ?thesis
    unfolding live_entry_def using replay_row_ok(2,3) [OF assms] by fastforce
qed

lemma row_of_index:
  assumes "sql_inv s" "live_entry s e"
  shows "filter (row_is (eScope e) (eName e)) (dbEntries (qDb s)) = [row_of e]"
proof -
  have "distinct (map rkey (dbEntries (qDb s)))" "map_of (map (\<lambda>r. (rkey r, r)) (dbEntries (qDb s))) (eScope e, eName e) = Some (row_of e)"
    using sql_inv_tables(1) [OF assms(1)] assms(2) by (simp_all add: table_is_def live_entry_def)
  then show ?thesis unfolding row_is_key [abs_def] by (simp add: keyed_filter)
qed

lemma entry_of_row: "sql_inv s \<Longrightarrow> live_entry s e \<Longrightarrow> build_row (row_of e) = Inr e \<and> entry_of (row_of e) = e"
  using replay_row_ok(1) build_row_of by (auto simp: live_entry_def entry_of_def)

text \<open>The pairs of the join, before the ordering.\<close>

definition match_pairs :: "(FtsRow \<Rightarrow> ('r :: linorder) option) \<Rightarrow> scope list \<Rightarrow> EntryRow list \<Rightarrow> FtsRow list \<Rightarrow> ('r \<times> EntryRow) list" where
  "match_pairs rank scopes rows fs =
     concat (map (\<lambda>f. case rank f of
            None \<Rightarrow> []
          | Some k \<Rightarrow> if fScope f \<in> set scopes then map (Pair k) (filter (row_is (fScope f) (fName f)) rows) else []) fs)"

lemma match_pairs_Cons:
  assumes "sql_inv s" "live_entry s e"
  shows "match_pairs rank scopes (dbEntries (qDb s)) (index_of_entry e # fs) =
      (case rank (index_of_entry e) of Some q \<Rightarrow> if eScope e \<in> set scopes then [(q, row_of e)] else [] | None \<Rightarrow> []) @
      match_pairs rank scopes (dbEntries (qDb s)) fs"
proof -
  have "fScope (index_of_entry e) = eScope e" "fName (index_of_entry e) = eName e" by (simp_all add: index_of_entry_def)
  then show ?thesis by (simp add: match_pairs_def row_of_index [OF assms] split: option.split)
qed

lemma match_pairs_keys:
  assumes "sql_inv s" "set fs \<subseteq> set (dbFts (qDb s))"
  shows "map (rkey \<circ> snd) (match_pairs rank scopes (dbEntries (qDb s)) fs) = map fkey (filter (\<lambda>f. rank f \<noteq> None \<and> fScope f \<in> set scopes) fs)"
  using assms(2)
proof (induction fs)
  case (Cons f fs)
  then obtain e where e: "live_entry s e" "f = index_of_entry e" using index_row [OF assms(1)] by auto
  have "fScope f = eScope e" by (simp add: e(2) index_of_entry_def)
  with Cons show ?case unfolding e(2) match_pairs_Cons [OF assms(1) e(1)] by (auto split: option.split)
qed (simp add: match_pairs_def)

lemma match_pairs_members:
  assumes "sql_inv s" "set fs \<subseteq> set (dbFts (qDb s))"
  shows "(q, r) \<in> set (match_pairs rank scopes (dbEntries (qDb s)) fs) \<longleftrightarrow>
      (\<exists>e. live_entry s e \<and> index_of_entry e \<in> set fs \<and> eScope e \<in> set scopes \<and> rank (index_of_entry e) = Some q \<and> r = row_of e)"
  using assms(2)
proof (induction fs)
  case (Cons f fs)
  then obtain e where e: "live_entry s e" "f = index_of_entry e" using index_row [OF assms(1)] by auto
  have u: "e' = e" if "live_entry s e'" "index_of_entry e' = index_of_entry e" for e'
    using that e(1) by (auto simp: live_entry_def index_of_entry_def)
  have IH: "(q, r) \<in> set (match_pairs rank scopes (dbEntries (qDb s)) fs) \<longleftrightarrow>
      (\<exists>e. live_entry s e \<and> index_of_entry e \<in> set fs \<and> eScope e \<in> set scopes \<and> rank (index_of_entry e) = Some q \<and> r = row_of e)"
    using Cons by simp
  show ?case
    unfolding e(2) match_pairs_Cons [OF assms(1) e(1)] set_append Un_iff IH
    using u e(1) by (auto split: option.splits if_splits)
qed (simp add: match_pairs_def)

lemma match_rows_pairs:
  "match_rows rank scopes db = map snd (sort_key (\<lambda>(k, r). (k, rScope r, rName r)) (match_pairs rank scopes (dbEntries db) (dbFts db)))"
  by (simp add: match_rows_def match_pairs_def)

lemma pair_entry:
  assumes "sql_inv s" "(q, r) \<in> set (match_pairs rank scopes (dbEntries (qDb s)) (dbFts (qDb s)))"
  obtains e where "live_entry s e" "eScope e \<in> set scopes" "rank (index_of_entry e) = Some q" "r = row_of e" "build_row r = Inr e" "entry_of r = e"
proof -
  obtain e where e: "live_entry s e" "eScope e \<in> set scopes" "rank (index_of_entry e) = Some q" "r = row_of e"
    using assms(2) match_pairs_members [OF assms(1) subset_refl] by blast
  with entry_of_row [OF assms(1) e(1)] show ?thesis by (intro that) simp_all
qed

lemma match_rows_build: "sql_inv s \<Longrightarrow> r \<in> set (match_rows rank scopes (qDb s)) \<Longrightarrow> \<exists>e. build_row r = Inr e"
  by (auto simp: match_rows_pairs elim: pair_entry)

lemma match_rows_set:
  assumes "sql_inv s"
  shows "e \<in> set (map entry_of (match_rows rank scopes (qDb s))) \<longleftrightarrow> live_entry s e \<and> eScope e \<in> set scopes \<and> rank (index_of_entry e) \<noteq> None"
proof
  assume "e \<in> set (map entry_of (match_rows rank scopes (qDb s)))"
  then obtain q r where "(q, r) \<in> set (match_pairs rank scopes (dbEntries (qDb s)) (dbFts (qDb s)))" "e = entry_of r" by (auto simp: match_rows_pairs)
  then show "live_entry s e \<and> eScope e \<in> set scopes \<and> rank (index_of_entry e) \<noteq> None" by (auto elim: pair_entry [OF assms])
next
  assume e: "live_entry s e \<and> eScope e \<in> set scopes \<and> rank (index_of_entry e) \<noteq> None"
  then obtain q where "rank (index_of_entry e) = Some q" by blast
  moreover have "index_of_entry e \<in> set (dbFts (qDb s))" using e index_row [OF assms] by blast
  ultimately have "(q, row_of e) \<in> set (match_pairs rank scopes (dbEntries (qDb s)) (dbFts (qDb s)))"
    using e unfolding match_pairs_members [OF assms subset_refl] by blast
  then have "row_of e \<in> set (match_rows rank scopes (qDb s))" unfolding match_rows_pairs set_map set_sort by (metis image_eqI snd_conv)
  moreover have "entry_of (row_of e) = e" using entry_of_row [OF assms] e by blast
  ultimately show "e \<in> set (map entry_of (match_rows rank scopes (qDb s)))" by (metis image_eqI set_map)
qed

lemma match_rows_distinct:
  assumes "sql_inv s"
  shows "distinct (map entry_of (match_rows rank scopes (qDb s)))"
proof -
  let ?ps = "match_pairs rank scopes (dbEntries (qDb s)) (dbFts (qDb s))"
  have "distinct (map fkey (dbFts (qDb s)))" using sql_inv_tables(2) [OF assms] by (simp add: table_is_def)
  then have "distinct (map (rkey \<circ> snd) ?ps)" unfolding match_pairs_keys [OF assms subset_refl] by (rule distinct_map_filter)
  moreover have "map (rkey \<circ> snd) ?ps = map (\<lambda>e. (eScope e, eName e)) (map (entry_of \<circ> snd) ?ps)"
    unfolding map_map
  proof (rule map_cong [OF refl])
    fix x assume "x \<in> set ?ps"
    then have "(fst x, snd x) \<in> set ?ps" by simp
    then show "(rkey \<circ> snd) x = ((\<lambda>e. (eScope e, eName e)) \<circ> (entry_of \<circ> snd)) x" by (rule pair_entry [OF assms]) simp
  qed
  ultimately have "distinct (map (\<lambda>e. (eScope e, eName e)) (map (entry_of \<circ> snd) ?ps))" by (simp only:)
  then have "distinct (map (entry_of \<circ> snd) ?ps)" by (rule distinct_map [THEN iffD1, THEN conjunct1])
  then have "distinct (map (entry_of \<circ> snd) (sort_key (\<lambda>(k, r). (k, rScope r, rName r)) ?ps))" unfolding distinct_map set_sort distinct_sort .
  then show ?thesis unfolding match_rows_pairs map_map .
qed

lemma match_rows_sorted:
  fixes rank :: "FtsRow \<Rightarrow> ('r :: linorder) option"
  assumes "sql_inv s"
  shows "sorted (map (\<lambda>e. (the (rank (index_of_entry e)), eScope e, eName e)) (map entry_of (match_rows rank scopes (qDb s))))"
proof -
  let ?K = "\<lambda>(k, r). (k, rScope r, rName r)"
  let ?ps = "sort_key ?K (match_pairs rank scopes (dbEntries (qDb s)) (dbFts (qDb s)))"
  have "(the (rank (index_of_entry (entry_of (snd x)))), eScope (entry_of (snd x)), eName (entry_of (snd x))) = ?K x" if x: "x \<in> set ?ps" for x
  proof -
    from x have "(fst x, snd x) \<in> set (match_pairs rank scopes (dbEntries (qDb s)) (dbFts (qDb s)))" by simp
    then show ?thesis by (elim pair_entry [OF assms]) (cases x, simp add: row_of_def)
  qed
  then have "map (\<lambda>e. (the (rank (index_of_entry e)), eScope e, eName e)) (map entry_of (match_rows rank scopes (qDb s))) = map ?K ?ps"
    unfolding match_rows_pairs map_map by (intro map_cong) simp_all
  moreover have "sorted (map ?K ?ps)" by (rule sorted_sort_key)
  ultimately show ?thesis by (simp only:)
qed

section \<open>A store in use\<close>

definition new_sql :: SqlStore where
  "new_sql = \<lparr>qMax = DefaultMaxEntryBytes, qDb = \<lparr>dbEntries = [], dbJournal = [], dbFts = []\<rparr>\<rparr>"

lemma new_sql_inv: "sql_inv new_sql" "room new_sql" "sql_records (qDb new_sql) = []"
  using sql_inv_empty by (simp_all add: new_sql_def room_def sql_records_def)

lemma new_sql_opens: "\<exists>f'. SqlOpen [] (\<lambda>i. no_schema_fault) (\<lambda>i g. g) 0 tick empty_file = Some (Inr new_sql, f')"
proof -
  have "fst (applySchemaOnce no_schema_fault empty_file) = None" by code_simp
  then obtain f' where f': "applySchemaOnce no_schema_fault empty_file = (None, f')" by (cases "applySchemaOnce no_schema_fault empty_file") auto
  then have "applySchema (\<lambda>i. no_schema_fault) (\<lambda>i g. g) 0 tick empty_file = Some (None, f')" by (simp add: applySchema_def schema_loop.simps)
  then show ?thesis using empty_once [OF f'] by (simp add: SqlOpen_def Let_def new_sql_def)
qed

lemma sample_fits: "sql_fits ''s1'' 7 sample_entry []"
proof -
  have "ValidString ''s1''" "ValidString []" "year_fits 7" by code_simp+
  then show ?thesis
    by (simp add: sql_fits_def sql_stamp_fits_def sample_entry_def wf_gomap_def sorted_items_def ResolvePutOptions_def zeroPutOptions_def)
qed

lemma sample_sql_put: "\<exists>c s. SqlPut no_fault ''s1'' 7 sample_entry [] new_sql = (Inr c, s) \<and> sql_inv s \<and> sql_records (qDb s) = [c] \<and> cEntry c = stored_form 7 sample_entry"
proof -
  obtain r s where p: "SqlPut no_fault ''s1'' 7 sample_entry [] new_sql = (r, s)" by fastforce
  then have a: "sql_inv s" "abs_put ''s1'' 7 sample_entry [] (sql_view new_sql) = (r, sql_view s)"
    using SqlPut_refines [OF new_sql_inv(1) sample_fits new_sql_inv(2)] by blast+
  have "CheckEntry sample_entry (qMax new_sql) None = None" using sample_entry_ok by (simp add: CheckEntry_None new_sql_def DefaultMaxEntryBytes_def)
  moreover have "Check (ResolvePutOptions []) sc n None = None" for sc n by (simp add: Check_def ResolvePutOptions_def zeroPutOptions_def)
  ultimately obtain c where "r = Inr c" "sql_records (qDb s) = [c]" "cEntry c = stored_form 7 sample_entry"
    using a(2) by (auto simp: abs_put_def Let_def new_sql_inv(3) replay_def sql_view_def)
  with p a(1) show ?thesis by blast
qed

section \<open>Properties\<close>

text \<open>C4: the tables of the SQLite store are in step.  In every state reached from a new database by puts and forgets, whichever of their statements
  fail, the journal is numbered from one without a gap and chained, \<^verbatim>\<open>Get\<close>, which reads the entries table, returns what the journal's
  records leave, and the search index holds exactly one row for each of those entries.\<close>

theorem sql_tables_in_step:
  assumes "SqlOpen opts env (\<lambda>i g. g) start clock empty_file = Some (Inr s, f')" "sql_step\<^sup>*\<^sup>* s t"
  shows "numbered (sql_records (qDb t)) \<and> chained (sql_records (qDb t)) \<and>
    (\<forall>sc n. ValidScope sc \<longrightarrow> ValidName n \<longrightarrow>
      SqlGet no_fault sc n t = (case replay (sql_records (qDb t)) (sc, n) of None \<Rightarrow> Inl (ErrNotFound sc n) | Some e \<Rightarrow> Inr e)) \<and>
    distinct (map fkey (dbFts (qDb t))) \<and>
    (\<forall>f. f \<in> set (dbFts (qDb t)) \<longleftrightarrow> (\<exists>e. replay (sql_records (qDb t)) (eScope e, eName e) = Some e \<and> f = index_of_entry e))"
proof -
  have i: "sql_inv t" using sql_steps_inv [OF assms(2) opened_empty [OF assms(1)]] .
  have "distinct (map fkey (dbFts (qDb t)))" using sql_inv_tables(2) [OF i] by (simp add: table_is_def)
  with sql_inv_tables(5,6) [OF i] index_row [OF i] SqlGet_refines [OF i] show ?thesis
    by (simp add: live_entry_def abs_get_def CheckRef_def CheckScope_def)
qed

theorem sql_tables_in_step_witness:
  "\<exists>c s. SqlPut no_fault ''s1'' 7 sample_entry [] new_sql = (Inr c, s) \<and> chained (sql_records (qDb s))"
proof -
  obtain f' where o1: "SqlOpen [] (\<lambda>i. no_schema_fault) (\<lambda>i g. g) 0 tick empty_file = Some (Inr new_sql, f')" using new_sql_opens by blast
  obtain c s where p: "SqlPut no_fault ''s1'' 7 sample_entry [] new_sql = (Inr c, s)" using sample_sql_put by blast
  have "sql_step new_sql s"
    using sample_fits p new_sql_inv(2) by (intro sql_step.put [where opts = "[]"]) (auto simp: sql_fits_def sql_stamp_fits_def)
  with sql_tables_in_step [OF o1] p show ?thesis by blast
qed

text \<open>C10: every row reads as a value of its type.  In every such state each row of the entries table builds an entry that passes the entry check and carries
  its own hashes, and each line of the journal decodes to a record whose sequence number is the row's key.  So no read of the store
  fails on what the store wrote.\<close>

theorem sql_rows_decode:
  assumes "SqlOpen opts env (\<lambda>i g. g) start clock empty_file = Some (Inr s, f')" "sql_step\<^sup>*\<^sup>* s t"
  shows "(\<forall>r \<in> set (dbEntries (qDb t)). \<exists>e. build_row r = Inr e \<and> (eScope e, eName e) = (rScope r, rName r) \<and> normal_entry (qMax t) e) \<and>
    (\<forall>r \<in> set (dbJournal (qDb t)). \<exists>c. journal_row r = Inr c \<and> uint (cSeq c) = jSeq r \<and> (eScope (cEntry c), eName (cEntry c)) = (jScope r, jName r))"
proof -
  have i: "sql_inv t" using sql_steps_inv [OF assms(2) opened_empty [OF assms(1)]] .
  have "\<exists>e. build_row r = Inr e \<and> (eScope e, eName e) = (rScope r, rName r) \<and> normal_entry (qMax t) e" if "r \<in> set (dbEntries (qDb t))" for r
    using entry_row_builds [OF i that] replay_row_ok(4) [OF i] by (force simp: row_of_def)
  moreover have "\<exists>c. journal_row r = Inr c \<and> uint (cSeq c) = jSeq r \<and> (eScope (cEntry c), eName (cEntry c)) = (jScope r, jName r)"
    if "r \<in> set (dbJournal (qDb t))" for r
    using that sql_inv_tables(7) [OF i] journal_row_line unfolding sql_inv_tables(3) [OF i] by (force simp: line_of_def)
  ultimately show ?thesis by blast
qed

theorem sql_rows_decode_witness:
  "\<exists>c s r. SqlPut no_fault ''s1'' 7 sample_entry [] new_sql = (Inr c, s) \<and> r \<in> set (dbJournal (qDb s)) \<and> (\<exists>d. journal_row r = Inr d)"
proof -
  obtain f' where o1: "SqlOpen [] (\<lambda>i. no_schema_fault) (\<lambda>i g. g) 0 tick empty_file = Some (Inr new_sql, f')" using new_sql_opens by blast
  obtain c s where p: "SqlPut no_fault ''s1'' 7 sample_entry [] new_sql = (Inr c, s)" "sql_inv s" "sql_records (qDb s) = [c]" using sample_sql_put by blast
  have "sql_step new_sql s"
    using sample_fits p new_sql_inv(2) by (intro sql_step.put [where opts = "[]"]) (auto simp: sql_fits_def sql_stamp_fits_def)
  moreover have "line_of c \<in> set (dbJournal (qDb s))" using sql_inv_tables(3) [OF p(2)] p(3) by simp
  ultimately show ?thesis using sql_rows_decode [OF o1] p(1) by blast
qed

text \<open>\<^verbatim>\<open>Put\<close> of the SQLite store does what the abstract store's put does: the same result, record or error, and the same live entries and journal
  afterwards.  The session, the base hash and the clock reading must be ones JSON can carry, the metadata is listed in the order of
  its keys, and the journal has room for one more \<^verbatim>\<open>int64\<close>.\<close>

theorem sql_put_refines:
  assumes "sql_inv s" "sql_fits session now e opts" "room s" "SqlPut no_fault session now e opts s = (r, s')"
  shows "sql_inv s' \<and> abs_put session now e opts (sql_view s) = (r, sql_view s')"
  using sql.good_put [OF assms(1,2), where fts = "\<lambda>fs expr. Inr (\<lambda>f. Some (0 :: int))"] assms(3,4) by (simp add: sqlStore_def room_def)

theorem sql_put_refines_witness:
  "\<exists>c s. SqlPut no_fault ''s1'' 7 sample_entry [] new_sql = (Inr c, s) \<and> abs_put ''s1'' 7 sample_entry [] (sql_view new_sql) = (Inr c, sql_view s)"
proof -
  obtain c s where p: "SqlPut no_fault ''s1'' 7 sample_entry [] new_sql = (Inr c, s)" using sample_sql_put by blast
  with sql_put_refines [OF new_sql_inv(1) sample_fits new_sql_inv(2) p] show ?thesis by blast
qed

text \<open>C5: a write is all or nothing.  Whichever statements of a put fail, the begin and the commit included, either it reports an error and the database is
  exactly as it was, or its result and its effect are those of the put in which nothing failed.\<close>

theorem sql_put_atomic:
  assumes "SqlPut fault session now e opts s = (r, s')"
  shows "(\<exists>err. r = Inl err \<and> s' = s) \<or> (\<exists>c. r = Inr c \<and> SqlPut no_fault session now e opts s = (Inr c, s'))"
  using assms SqlPut_error SqlPut_le by (cases r) blast+

theorem sql_put_atomic_witness:
  "\<exists>err. SqlPut (\<lambda>st. if st = InsertJournal then Some ''disk full'' else None) ''s1'' 7 sample_entry [] new_sql = (Inl err, new_sql)"
proof -
  let ?fault = "\<lambda>st. if st = InsertJournal then Some ''disk full'' else None"
  obtain r s' where p: "SqlPut ?fault ''s1'' 7 sample_entry [] new_sql = (r, s')" by fastforce
  have "\<nexists>c. r = Inr c"
  proof
    assume "\<exists>c. r = Inr c"
    then obtain c where "r = Inr c" by blast
    with p have "transaction ?fault (put_tx ?fault (qMax new_sql) ''s1'' 7 sample_entry (ResolvePutOptions [])) new_sql = (Inr c, s')"
      by (auto simp: SqlPut_def Let_def split: option.splits)
    then obtain db where "put_tx ?fault (qMax new_sql) ''s1'' 7 sample_entry (ResolvePutOptions []) (qDb new_sql) = Inr (c, db)"
      by (cases rule: transaction_cases) auto
    then show False unfolding put_tx_def sql_record_def by (auto simp: Let_def split: option.splits)
  qed
  with sql_put_atomic [OF p] p show ?thesis by blast
qed

text \<open>C6: a search of valid scopes with a query returns exactly the live entries of those scopes that the index ranks and the options keep, each once, in
  order of rank and then of scope and name, cut to the limit.  The limit goes into the SQL only when no option filters the rows afterwards, and the result is
  the same either way.\<close>

theorem sql_search_ranked:
  fixes fts :: "('r :: linorder) fts"
  assumes "sql_inv s" "list_all ValidScope scopes" "CheckOptions opts AllSearchOptions = None" "Fields query \<noteq> []"
    and "fts (dbFts (qDb s)) (match_expr (oAny opts) (Fields query)) = Inr rank"
  shows "\<exists>es. SqlSearchWith fts no_fault scopes query limit opts s = Inr (if limit > 0 then take (nat limit) es else es) \<and> distinct es \<and>
    sorted (map (\<lambda>e. (the (rank (index_of_entry e)), eScope e, eName e)) es) \<and>
    (\<forall>e. e \<in> set es \<longleftrightarrow> SqlGet no_fault (eScope e) (eName e) s = Inr e \<and> eScope e \<in> set scopes \<and> rank (index_of_entry e) \<noteq> None \<and> Keep opts e)"
proof (cases "scopes = []")
  case True
  have "List.find (\<lambda>sc. CheckScope sc \<noteq> None) scopes = None" by (simp add: True)
  with True assms(3) show ?thesis by (intro exI [of _ "[]"]) (simp add: SqlSearchWith_def)
next
  case False
  let ?rows = "match_rows rank scopes (qDb s)"
  let ?es = "filter (Keep opts) (map entry_of ?rows)"
  let ?filtered = "oMeta opts \<noteq> None \<or> \<not> IsZero (oUpdatedAfter opts) \<or> \<not> IsZero (oUpdatedBefore opts)"
  have v: "List.find (\<lambda>sc. CheckScope sc \<noteq> None) scopes = None" using assms(2) by (simp add: find_None_iff CheckScope_def list_all_iff)
  have b: "list_all (\<lambda>r. \<exists>e. build_row r = Inr e) ?rows" "list_all (\<lambda>r. \<exists>e. build_row r = Inr e) (take k ?rows)" for k
    using match_rows_build [OF assms(1)] unfolding list_all_iff by (blast dest: in_set_takeD)+
  have "keep_rows opts limit (if limit > 0 \<and> \<not> ?filtered then take (nat limit) ?rows else ?rows) [] = Inr (limited limit ?es)"
  proof (cases "limit > 0 \<and> \<not> ?filtered")
    case True
    then have "Keep opts e" for e by (simp add: Keep_def)
    then have f: "filter (Keep opts) xs = xs" for xs by simp
    show ?thesis using True keep_rows_limited [OF b(2) [of "nat limit"], where limit = limit and out = "[]" and opts = opts] by (simp add: f limited_def take_map)
  next
    case False
    then show ?thesis using keep_rows_limited [OF b(1), where limit = limit and out = "[]" and opts = opts] by auto
  qed
  then have r: "SqlSearchWith fts no_fault scopes query limit opts s = Inr (limited limit ?es)"
    unfolding SqlSearchWith_def by (simp only: v assms(3-5) False option.case sum.case Let_def exec_simps(1) and_then_simps(1) if_False)
  have live: "live_entry s e \<longleftrightarrow> SqlGet no_fault (eScope e) (eName e) s = Inr e" if e: "eScope e \<in> set scopes" for e
    unfolding SqlGet_plain [OF assms(1)] using replay_row_ok(4) [OF assms(1), of "eScope e" "eName e" e]
    by (auto simp: live_entry_def abs_get_def CheckRef_def CheckScope_def ValidScope_def normal_entry_def entry_ok_def split: option.splits)
  have "distinct ?es" by (intro distinct_filter match_rows_distinct [OF assms(1)])
  moreover have "sorted (map (\<lambda>e. (the (rank (index_of_entry e)), eScope e, eName e)) ?es)" by (intro sorted_filter match_rows_sorted [OF assms(1)])
  moreover have "e \<in> set ?es \<longleftrightarrow> SqlGet no_fault (eScope e) (eName e) s = Inr e \<and> eScope e \<in> set scopes \<and> rank (index_of_entry e) \<noteq> None \<and> Keep opts e" for e
    unfolding set_filter mem_Collect_eq match_rows_set [OF assms(1)] using live [of e] by blast
  ultimately show ?thesis using r unfolding limited_def by blast
qed

theorem sql_search_ranked_witness:
  "\<exists>c s es. SqlPut no_fault ''s1'' 7 sample_entry [] new_sql = (Inr c, s) \<and>
     SqlSearchWith (\<lambda>fs expr. Inr (\<lambda>f. Some (0 :: int))) no_fault [''user''] ''tea'' 0 zeroSearchOptions s = Inr es \<and> distinct es"
proof -
  obtain c s where p: "SqlPut no_fault ''s1'' 7 sample_entry [] new_sql = (Inr c, s)" "sql_inv s" using sample_sql_put by blast
  have "list_all ValidScope [''user'']" "CheckOptions zeroSearchOptions AllSearchOptions = None" "Fields ''tea'' \<noteq> []" by code_simp+
  from sql_search_ranked [OF p(2) this, of "\<lambda>fs expr. Inr (\<lambda>f. Some (0 :: int))" "\<lambda>f. Some 0" 0] p(1) show ?thesis by auto
qed

section \<open>Quoting\<close>

text \<open>A reader of the index's query language, as far as the store uses it: a string in double quotes in which a doubled one stands for
  itself, the star of a prefix, and the operator between two phrases.  The engine reads a C string and stops at a byte of value 0, so for the engine this describes
  the words without one.\<close>

fun read_quoted :: "string \<Rightarrow> (string \<times> string) option" where
  "read_quoted [] = None"
| "read_quoted (c # s) =
     (if c \<noteq> CHR ''\"'' then map_option (\<lambda>(w, rest). (c # w, rest)) (read_quoted s)
      else case s of
             d # s' \<Rightarrow> if d = CHR ''\"'' then map_option (\<lambda>(w, rest). (c # w, rest)) (read_quoted s') else Some ([], s)
           | [] \<Rightarrow> Some ([], []))"

lemma read_quoted_rest: "read_quoted s = Some (w, rest) \<Longrightarrow> length rest < length s"
proof (induction s arbitrary: w rule: read_quoted.induct)
  case (2 c s)
  show ?case
  proof (cases "c = CHR ''\"''")
    case False
    with "2.prems" obtain v where "read_quoted s = Some (v, rest)" by (auto split: if_splits)
    with "2.IH"(1) [OF False] show ?thesis by force
  next
    case c: True
    show ?thesis
    proof (cases s)
      case Nil
      with c "2.prems" show ?thesis by simp
    next
      case (Cons d s')
      show ?thesis
      proof (cases "d = CHR ''\"''")
        case True
        with c Cons "2.prems" obtain v where v: "read_quoted s' = Some (v, rest)" by (auto split: if_splits)
        have "length rest < length s'" using "2.IH"(2) [OF _ Cons True v] c by simp
        with Cons show ?thesis by simp
      next
        case False
        with c Cons "2.prems" show ?thesis by simp
      qed
    qed
  qed
qed simp

function read_match :: "string \<Rightarrow> string \<Rightarrow> string list option" where
  "read_match oper s =
     (if \<not> HasPrefix s ''\"'' then None
      else case read_quoted (drop 1 s) of
             None \<Rightarrow> None
           | Some (w, rest) \<Rightarrow>
               if rest = '' *'' then Some [w]
               else if HasPrefix rest ('' *'' @ oper) then map_option (Cons w) (read_match oper (drop (2 + length oper) rest))
               else None)"
  by pat_completeness auto
termination
  by (relation "measure (\<lambda>(oper, s). length s)") (auto simp: HasPrefix_iff dest: read_quoted_rest)

declare read_match.simps [simp del]

lemma read_quoted_word:
  assumes "s = [] \<or> hd s \<noteq> CHR ''\"''"
  shows "read_quoted (concat (map (\<lambda>c. if c = CHR ''\"'' then ''\"\"'' else [c]) w) @ CHR ''\"'' # s) = Some (w, s)"
  using assms by (induction w) (auto split: list.splits)

lemma read_match_Join:
  assumes "words \<noteq> []"
  shows "read_match oper (Join (map quote_word words) oper) = Some words"
  using assms
proof (induction words)
  case (Cons w ws)
  have h: "read_quoted (drop 1 (quote_word w @ t)) = Some (w, '' *'' @ t)" "HasPrefix (quote_word w @ t) ''\"''" for t
    using read_quoted_word [of "'' *'' @ t" w] by (simp_all add: quote_word_def HasPrefix_iff)
  show ?case
  proof (cases ws)
    case Nil
    with h [of "[]"] show ?thesis by (simp add: read_match.simps)
  next
    case (Cons v vs)
    then have j: "Join (map quote_word (w # ws)) oper = quote_word w @ oper @ Join (map quote_word ws) oper" by simp
    have n: "Join (map quote_word ws) oper \<noteq> []" by (cases vs) (simp_all add: Cons quote_word_def)
    have "read_match oper (Join (map quote_word ws) oper) = Some ws" using Cons.IH Cons by simp
    moreover have "HasPrefix ('' *'' @ oper @ Join (map quote_word ws) oper) ('' *'' @ oper)" by (simp add: HasPrefix_iff)
    ultimately show ?thesis
      unfolding j read_match.simps [of oper "quote_word w @ oper @ Join (map quote_word ws) oper"] h [of "oper @ Join (map quote_word ws) oper"]
      using n h(2) [of "oper @ Join (map quote_word ws) oper"] by simp
  qed
qed simp

text \<open>No word of a query leaves its quotes.  Whatever bytes the query holds, quotes and operators included, the expression the store hands to the
  index reads back as the words of the query, one quoted prefix phrase each.\<close>

theorem match_expr_reads_back:
  assumes "Fields query \<noteq> []"
  shows "read_match (if any_word then '' OR '' else '' AND '') (match_expr any_word (Fields query)) = Some (Fields query)"
  unfolding match_expr_def by (rule read_match_Join [OF assms])

theorem match_expr_reads_back_witness:
  "read_match '' AND '' (match_expr False (Fields ''say \"hi\" OR x'')) = Some (Fields ''say \"hi\" OR x'')"
proof -
  have "Fields ''say \"hi\" OR x'' \<noteq> []" by code_simp
  from match_expr_reads_back [OF this, of False] show ?thesis by simp
qed

section \<open>Cursors\<close>

lemma sint_word:
  fixes w :: uint64
  shows "sint w = (if uint w < 2 ^ 63 then uint w else uint w - 2 ^ 64)"
proof -
  have u: "0 \<le> uint w" "uint w < 2 ^ 64" using uint_lt2p [of w] by simp_all
  have s: "sint w = (uint w + 2 ^ 63) mod 2 ^ 64 - 2 ^ 63"
    by (simp add: sint_uint signed_take_bit_eq_take_bit_shift take_bit_eq_mod)
  show ?thesis
  proof (cases "uint w < 2 ^ 63")
    case True
    with u s show ?thesis by simp
  next
    case False
    have "(uint w + 2 ^ 63) mod 2 ^ 64 = ((uint w - 2 ^ 63) + 2 ^ 64) mod 2 ^ 64" by (simp add: add.commute)
    also have "\<dots> = uint w - 2 ^ 63" using u False by (simp only: mod_add_self2) simp
    finally show ?thesis using False s by simp
  qed
qed

text \<open>C11: a journal cursor gives the records numbered after it, as long as it is an \<^verbatim>\<open>int64\<close>.  The code converts the cursor to \<^verbatim>\<open>int64\<close>, so
  one from \<open>2 ^ 63\<close> on turns negative, and the read gives the whole journal again where it should give nothing.\<close>

theorem sql_journal_cursor:
  assumes "sql_inv s"
  shows "SqlJournal no_fault after s =
    (if uint after < 2 ^ 63 then map Inr (filter (\<lambda>c. after < cSeq c) (sql_records (qDb s))) else map Inr (sql_records (qDb s)))"
proof -
  have "uint after < 2 ^ 64" using uint_lt2p [of after] by simp
  then have "uint after - 2 ^ 64 < uint (cSeq c)" for c using uint_ge_0 [of "cSeq c"] by linarith
  then show ?thesis unfolding SqlJournal_lines [OF assms] sint_word by (auto simp: word_less_def intro!: filter_True)
qed

theorem sql_journal_cursor_witness:
  "\<exists>c s. SqlPut no_fault ''s1'' 7 sample_entry [] new_sql = (Inr c, s) \<and> SqlJournal no_fault (2 ^ 63) s = [Inr c]"
proof -
  obtain c s where p: "SqlPut no_fault ''s1'' 7 sample_entry [] new_sql = (Inr c, s)" "sql_inv s" "sql_records (qDb s) = [c]" using sample_sql_put by blast
  have "\<not> uint (2 ^ 63 :: uint64) < 2 ^ 63" by simp
  with sql_journal_cursor [OF p(2), of "2 ^ 63"] p show ?thesis by auto
qed

end
