(* ===== verification/StoreTest.thy ===== *)
theory StoreTest
  imports LostUpdate
begin

text \<open>
  The conformance suite of \<^verbatim>\<open>storetest/storetest.go\<close>.  A test is a function of a store, of the readings of its clock (the \<open>i\<close>-th write of a
  test reads \<open>clk i\<close>) and of the state of a new store, and its value is the list of the failures it reports: \<^verbatim>\<open>t.Errorf\<close> adds one,
  \<^verbatim>\<open>t.Fatalf\<close> is the last.  The calls that end a test when they fail take the rest of the test as an argument.  A record or entry of the
  model is a value, so that what the tests check of a caller's own copies is that a later read gives the same.
\<close>

section \<open>Failures\<close>

definition errorf_unless :: "bool \<Rightarrow> string \<Rightarrow> string list" where
  "errorf_unless holds what = (if holds then [] else [what])"

definition isInvalid :: "error + 'a \<Rightarrow> bool" where
  "isInvalid r \<longleftrightarrow> (case r of Inl (ErrInvalid _) \<Rightarrow> True | _ \<Rightarrow> False)"

definition isNotFound :: "error + 'a \<Rightarrow> bool" where
  "isNotFound r \<longleftrightarrow> (case r of Inl (ErrNotFound _ _) \<Rightarrow> True | _ \<Rightarrow> False)"

definition isConflict :: "error + 'a \<Rightarrow> bool" where
  "isConflict r \<longleftrightarrow> (case r of Inl (ErrConflict _) \<Rightarrow> True | _ \<Rightarrow> False)"

definition isUnsupported :: "error + 'a \<Rightarrow> bool" where
  "isUnsupported r \<longleftrightarrow> (case r of Inl (ErrUnsupported _) \<Rightarrow> True | _ \<Rightarrow> False)"

definition mustPut :: "'s Store \<Rightarrow> string \<Rightarrow> time \<Rightarrow> Entry \<Rightarrow> PutOption list \<Rightarrow> 's \<Rightarrow> (Change \<Rightarrow> 's \<Rightarrow> string list) \<Rightarrow> string list" where
  "mustPut S session now e opts s k =
     (case sPut S session now e opts s of (Inl err, s') \<Rightarrow> [''Put''] | (Inr c, s') \<Rightarrow> k c s')"

definition mustForget :: "'s Store \<Rightarrow> string \<Rightarrow> time \<Rightarrow> scope \<Rightarrow> string \<Rightarrow> 's \<Rightarrow> (Change \<Rightarrow> 's \<Rightarrow> string list) \<Rightarrow> string list" where
  "mustForget S session now sc n s k =
     (case sForget S session now sc n s of (Inl err, s') \<Rightarrow> [''Forget''] | (Inr c, s') \<Rightarrow> k c s')"

definition mustGet :: "'s Store \<Rightarrow> scope \<Rightarrow> string \<Rightarrow> 's \<Rightarrow> (Entry \<Rightarrow> string list) \<Rightarrow> string list" where
  "mustGet S sc n s k = (case sGet S sc n s of Inl err \<Rightarrow> [''Get''] | Inr e \<Rightarrow> k e)"

definition testEntry :: "scope \<Rightarrow> string \<Rightarrow> string \<Rightarrow> gomap option \<Rightarrow> Entry" where
  "testEntry sc n content meta = \<lparr>eScope = sc, eName = n, eContent = content, eMeta = meta, eHash = [], eMetaHash = [], eUpdated = 0, eDeleted = False\<rparr>"

section \<open>Helpers of the suite\<close>

fun yielded :: "(error + Change) list \<Rightarrow> Change list option" where
  "yielded [] = Some []"
| "yielded (Inl err # ys) = None"
| "yielded (Inr c # ys) = map_option ((#) c) (yielded ys)"

definition collect :: "'s Store \<Rightarrow> uint64 \<Rightarrow> 's \<Rightarrow> (Change list \<Rightarrow> string list) \<Rightarrow> string list" where
  "collect S after s k = (case yielded (sJournal S after s) of None \<Rightarrow> [''Journal''] | Some out \<Rightarrow> k out)"

definition count_records :: "'s Store \<Rightarrow> uint64 \<Rightarrow> 's \<Rightarrow> (nat \<Rightarrow> string list) \<Rightarrow> string list" where
  "count_records S after s k = collect S after s (\<lambda>out. k (length out))"

definition names :: "Entry list \<Rightarrow> string" where
  "names es = Join (map eName es) '',''"

definition keys :: "Entry list \<Rightarrow> string list" where
  "keys es = map (\<lambda>e. eScope e @ ''/'' @ eName e) es"

text \<open>The counts of \<^verbatim>\<open>sameSet\<close> are zero for every string of either list.\<close>

definition sameSet :: "string list \<Rightarrow> string list \<Rightarrow> bool" where
  "sameSet a b \<longleftrightarrow> length a = length b \<and> list_all (\<lambda>w. int (count_list a w) - int (count_list b w) = 0) (a @ b)"

definition DeepEqual :: "gomap option \<Rightarrow> gomap option \<Rightarrow> bool" where
  "DeepEqual a b \<longleftrightarrow>
     (case (a, b) of
        (None, None) \<Rightarrow> True
      | (Some m, Some m') \<Rightarrow> length m = length m' \<and> list_all (\<lambda>(k, v). map_of m' k = Some v) m
      | _ \<Rightarrow> False)"

definition sameEntry :: "Entry \<Rightarrow> Entry \<Rightarrow> bool" where
  "sameEntry a b \<longleftrightarrow>
     eScope a = eScope b \<and> eName a = eName b \<and> eContent a = eContent b \<and>
     (mlen (eMeta a) = 0 \<and> mlen (eMeta b) = 0 \<or> DeepEqual (eMeta a) (eMeta b))"

section \<open>Validation\<close>

definition validation_tests :: "(string \<times> Entry) list" where
  "validation_tests =
     [(''empty scope'', testEntry [] ''a'' ''x'' None),
      (''upper scope'', testEntry ''User'' ''a'' ''x'' None),
      (''path scope'', testEntry ''../etc'' ''a'' ''x'' None),
      (''empty name'', testEntry ''user'' [] ''x'' None),
      (''spaced name'', testEntry ''user'' ''a b'' ''x'' None),
      (''double hyphen'', testEntry ''user'' ''a--b'' ''x'' None),
      (''leading hyphen'', testEntry ''user'' ''-a'' ''x'' None),
      (''dotted name'', testEntry ''user'' ''a.md'' ''x'' None),
      (''long name'', testEntry ''user'' (replicate (MaxNameBytes + 1) (CHR ''a'')) ''x'' None),
      (''empty content'', testEntry ''user'' ''a'' [] None),
      (''bad utf8'', testEntry ''user'' ''a'' [CHR ''x'', CHR 0xFF] None),
      (''meta key'', testEntry ''user'' ''a'' ''x'' (Some [(''Type'', ''y'')])),
      (''reserved meta'', testEntry ''user'' ''a'' ''x'' (Some [(''name'', ''y'')])),
      (''multiline meta'', testEntry ''user'' ''a'' ''x'' (Some [(''description'', ''a'' @ LF # ''b'')])),
      (''padded meta'', testEntry ''user'' ''a'' ''x'' (Some [(''description'', '' a '')])),
      (''meta too big'', testEntry ''user'' ''a'' ''x'' (Some [(''description'', replicate MaxMetaBytes (CHR ''d''))]))]"

fun refused_puts :: "'s Store \<Rightarrow> (nat \<Rightarrow> time) \<Rightarrow> (string \<times> Entry) list \<Rightarrow> nat \<Rightarrow> 's \<Rightarrow> string list \<times> 's" where
  "refused_puts S clk [] i s = ([], s)"
| "refused_puts S clk ((name, e) # tts) i s =
     (let (r, s') = sPut S [] (clk i) e [] s;
          (failures, s'') = refused_puts S clk tts (Suc i) s'
      in (errorf_unless (isInvalid r) name @ failures, s''))"

definition testValidation :: "'s Store \<Rightarrow> (nat \<Rightarrow> time) \<Rightarrow> 's \<Rightarrow> string list" where
  "testValidation S clk s =
     (let (failures, s') = refused_puts S clk validation_tests 0 s
      in failures @ errorf_unless (sList S ''user'' s' = Inr []) ''List after invalid puts'' @
         map (\<lambda>y. ''journal after invalid puts'') (sJournal S 0 s'))"

section \<open>Puts, gets and lists\<close>

definition odd_content :: string where
  "odd_content = ''  ---'' @ LF # ''name: not-meta'' @ LF # ''---'' @ LF #
     ''s'' @ [CHR 0xC3, CHR 0xBC, CHR 0xC3, CHR 0x9F] @ '' '' @ [CHR 0xE2, CHR 0x9C, CHR 0x93] @ '' '' @
     [CHR 0xE6, CHR 0x97, CHR 0xA5, CHR 0xE6, CHR 0x9C, CHR 0xAC]"

definition style_entry :: Entry where
  "style_entry = testEntry ''user'' ''style'' (''Short answers.'' @ [LF]) (Some [(''description'', ''How to answer''), (''type'', ''feedback'')])"

definition odd_entry :: Entry where
  "odd_entry = testEntry ''user'' ''odd'' odd_content None"

definition proj_entry :: Entry where
  "proj_entry = testEntry ''project'' ''build'' ''make check'' None"

definition filled :: "scope \<Rightarrow> Entry \<Rightarrow> bool" where
  "filled sc e \<longleftrightarrow> eHash e = Hash (eContent e) \<and> \<not> IsZero (eUpdated e) \<and> eScope e = sc"

definition put_get_list_replace :: "'s Store \<Rightarrow> (nat \<Rightarrow> time) \<Rightarrow> 's \<Rightarrow> string list" where
  "put_get_list_replace S clk s =
     (let style = style_entry\<lparr>eContent := ''Long answers.'' @ [LF], eMeta := Some [(''type'', ''feedback'')]\<rparr> in
      mustPut S [] (clk 3) style [] s (\<lambda>_ s.
      mustGet S ''user'' ''style'' s (\<lambda>got.
      errorf_unless (sameEntry got style \<and> Description got = []) ''Get after replace'' @
      mustGet S ''user'' ''style'' s (\<lambda>again.
      errorf_unless (mlookup (eMeta again) ''type'' = Some ''feedback'') ''a caller's edit to a returned meta map reached the store'' @
      mustPut S [] (clk 4) (testEntry ''user'' ''bare'' ''x'' (Some [])) [] s (\<lambda>_ s.
      mustGet S ''user'' ''bare'' s (\<lambda>bare.
      errorf_unless (eMeta bare = None) ''empty meta stored''))))))"

definition put_get_list_lists :: "'s Store \<Rightarrow> (nat \<Rightarrow> time) \<Rightarrow> 's \<Rightarrow> string list" where
  "put_get_list_lists S clk s =
     (case sList S ''user'' s of
        Inl err \<Rightarrow> [''List'']
      | Inr es \<Rightarrow>
          errorf_unless (names es = ''odd,style'') ''List(user)'' @
          concat (map (\<lambda>e. errorf_unless (filled ''user'' e) ''List entry not filled'') es) @
          errorf_unless (names (case sList S ''project'' s of Inl err \<Rightarrow> [] | Inr es \<Rightarrow> es) = ''build'') ''List(project)'' @
          put_get_list_replace S clk s)"

definition testPutGetList :: "'s Store \<Rightarrow> (nat \<Rightarrow> time) \<Rightarrow> 's \<Rightarrow> string list" where
  "testPutGetList S clk s =
     errorf_unless (isNotFound (sGet S ''user'' ''missing'' s)) ''Get(missing)'' @
     errorf_unless (sList S ''nowhere'' s = Inr []) ''List(unknown scope)'' @
     mustPut S [] (clk 0) style_entry [] s (\<lambda>_ s.
     mustPut S [] (clk 1) odd_entry [] s (\<lambda>_ s.
     mustPut S [] (clk 2) proj_entry [] s (\<lambda>_ s.
     mustGet S ''user'' ''style'' s (\<lambda>got.
     errorf_unless (eHash got = Hash (eContent style_entry) \<and> \<not> IsZero (eUpdated got) \<and> \<not> eDeleted got) ''Get did not fill the entry'' @
     errorf_unless (sameEntry got style_entry) ''Get'' @
     mustGet S ''user'' ''odd'' s (\<lambda>got.
     errorf_unless (eContent got = eContent odd_entry \<and> eMeta got = None) ''Get(odd)'' @
     put_get_list_lists S clk s)))))"

section \<open>Reads that are refused\<close>

fun refused_scopes :: "'s Store \<Rightarrow> (nat \<Rightarrow> time) \<Rightarrow> scope list \<Rightarrow> nat \<Rightarrow> 's \<Rightarrow> string list \<times> 's" where
  "refused_scopes S clk [] i s = ([], s)"
| "refused_scopes S clk (sc # scs) i s =
     (let (r, s') = sForget S [] (clk i) sc ''a'' s;
          (failures, s'') = refused_scopes S clk scs (Suc i) s'
      in (errorf_unless (isInvalid (sList S sc s)) ''List'' @ errorf_unless (isInvalid (sGet S sc ''a'' s)) ''Get'' @
          errorf_unless (isInvalid r) ''Forget'' @ errorf_unless (isInvalid (sSearch S [''user'', sc] ''x'' 0 s')) ''Search'' @ failures, s''))"

fun refused_names :: "'s Store \<Rightarrow> (nat \<Rightarrow> time) \<Rightarrow> string list \<Rightarrow> nat \<Rightarrow> 's \<Rightarrow> string list \<times> 's" where
  "refused_names S clk [] i s = ([], s)"
| "refused_names S clk (n # ns) i s =
     (let (r, s') = sForget S [] (clk i) ''user'' n s;
          (failures, s'') = refused_names S clk ns (Suc i) s'
      in (errorf_unless (isInvalid (sGet S ''user'' n s)) ''Get'' @ errorf_unless (isInvalid r) ''Forget'' @ failures, s''))"

definition testInvalidReads :: "'s Store \<Rightarrow> (nat \<Rightarrow> time) \<Rightarrow> 's \<Rightarrow> string list" where
  "testInvalidReads S clk s =
     mustPut S [] (clk 0) (testEntry ''user'' ''a'' ''x'' None) [] s (\<lambda>_ s.
     let (failures, s) = refused_scopes S clk [[], ''User'', ''../etc'', ''user/a'', ''a--b''] 1 s;
         (failures', s) = refused_names S clk [[], ''A'', ''../a'', ''a.md'', ''-a''] 6 s
     in failures @ failures' @ count_records S 0 s (\<lambda>n. errorf_unless (n = 1) ''journal after refused reads and forgets''))"

section \<open>Bounds\<close>

definition bounds_replace :: "'s Store \<Rightarrow> (nat \<Rightarrow> time) \<Rightarrow> int \<Rightarrow> 's \<Rightarrow> string list" where
  "bounds_replace S clk limit s =
     (let small = testEntry ''user'' ''small'' ''ten bytes!'' None in
      mustPut S [] (clk 2) small [] s (\<lambda>_ s.
      case sPut S [] (clk 3) (small\<lparr>eContent := replicate (nat (limit + 7)) (CHR ''c'')\<rparr>) [] s of
        (Inl (ErrTooLarge se), s) \<Rightarrow>
          errorf_unless (sStored se = 10 \<and> sSize se = limit + 7) ''SizeError'' @
          errorf_unless (case sGet S ''user'' ''small'' s of Inl err \<Rightarrow> False | Inr got \<Rightarrow> eContent got = ''ten bytes!'') ''a refused replace changed the entry'' @
          errorf_unless (Contains (SizeError_Error se) ''holds 10 bytes now'') ''error does not name the stored size'' @
          count_records S 0 s (\<lambda>n. errorf_unless (n = 2) ''journal'')
      | (_, s) \<Rightarrow> [''Put over the bound'']))"

definition testBounds :: "'s Store \<Rightarrow> (nat \<Rightarrow> time) \<Rightarrow> 's \<Rightarrow> string list" where
  "testBounds S clk s =
     (let limit = sMaxEntryBytes S s in
      if limit < 256 then [''MaxEntryBytes'']
      else
        mustPut S [] (clk 0) (testEntry ''user'' ''at'' (replicate (nat limit) (CHR ''a'')) None) [] s (\<lambda>_ s.
        case sPut S [] (clk 1) (testEntry ''user'' ''over'' (replicate (nat (limit + 1)) (CHR ''b'')) None) [] s of
          (Inl (ErrTooLarge se), s) \<Rightarrow>
            errorf_unless (sSize se = limit + 1 \<and> sLimit se = limit \<and> sStored se = -1 \<and> sScope se = ''user'' \<and> sName se = ''over'') ''SizeError'' @
            errorf_unless (isNotFound (sGet S ''user'' ''over'' s)) ''over-bound content was stored'' @
            bounds_replace S clk limit s
        | (Inl err, s) \<Rightarrow> [''Put over the bound'']
        | (Inr c, s) \<Rightarrow> [''a refused Put returned a record'', ''Put over the bound'']))"

section \<open>Conditional puts\<close>

definition if_hash_recreate :: "'s Store \<Rightarrow> (nat \<Rightarrow> time) \<Rightarrow> Entry \<Rightarrow> 's \<Rightarrow> string list" where
  "if_hash_recreate S clk e s =
     mustPut S [] (clk 6) e [IfHash []] s (\<lambda>_ s.
     let (r, s) = sPut S [] (clk 7) (testEntry ''user'' ''Bad'' ''x'' None) [IfHash []] s in
     errorf_unless (isInvalid r) ''Put(invalid, IfHash)'' @
     count_records S 0 s (\<lambda>n. errorf_unless (n = 4) ''journal''))"

definition if_hash_rest :: "'s Store \<Rightarrow> (nat \<Rightarrow> time) \<Rightarrow> string \<Rightarrow> 's \<Rightarrow> string list" where
  "if_hash_rest S clk h1 s =
     (let e = testEntry ''user'' ''profile'' ''Chris. Prefers Go.'' None in
      mustPut S [] (clk 3) e [IfHash h1] s (\<lambda>_ s.
      let h2 = Hash (eContent e) in
      mustForget S [] (clk 4) ''user'' ''profile'' s (\<lambda>_ s.
      case sPut S [] (clk 5) e [IfHash h2] s of
        (Inl (ErrConflict ce), s) \<Rightarrow>
          if \<not> (kHave ce = [] \<and> kWant ce = h2) then [''Put(IfHash) on a forgotten entry'']
          else if_hash_recreate S clk e s
      | (_, s) \<Rightarrow> [''Put(IfHash) on a forgotten entry''])))"

definition if_hash_stale :: "'s Store \<Rightarrow> (nat \<Rightarrow> time) \<Rightarrow> string \<Rightarrow> 's \<Rightarrow> string list" where
  "if_hash_stale S clk h1 s =
     (case sPut S [] (clk 2) (testEntry ''user'' ''profile'' ''Chris. Prefers Go.'' None) [IfHash (Hash ''stale'')] s of
        (Inl (ErrConflict ce), s) \<Rightarrow>
          if \<not> (kHave ce = h1 \<and> kWant ce = Hash ''stale'') then [''Put(IfHash stale)'']
          else mustGet S ''user'' ''profile'' s (\<lambda>got.
            errorf_unless (eContent got = ''Chris.'') ''a refused conditional Put changed the entry'' @
            if_hash_rest S clk h1 s)
      | (_, s) \<Rightarrow> [''Put(IfHash stale)''])"

definition testIfHash :: "'s Store \<Rightarrow> (nat \<Rightarrow> time) \<Rightarrow> 's \<Rightarrow> string list" where
  "testIfHash S clk s =
     (let e = testEntry ''user'' ''profile'' ''Chris.'' None in
      mustPut S [] (clk 0) e [IfHash []] s (\<lambda>_ s.
      let h1 = Hash (eContent e) in
      case sPut S [] (clk 1) e [IfHash []] s of
        (Inl (ErrConflict ce), s) \<Rightarrow>
          errorf_unless (kWant ce = [] \<and> kHave ce = h1) ''ConflictError'' @ if_hash_stale S clk h1 s
      | (_, s) \<Rightarrow> [''Put(IfHash) on an existing entry'']))"

definition style_meta :: "gomap option" where
  "style_meta = Some [(''description'', ''How to answer''), (''type'', ''feedback'')]"

definition edited_meta :: "gomap option" where
  "edited_meta = Some [(''description'', ''How to answer, briefly''), (''type'', ''feedback'')]"

definition meta_hash_rest :: "'s Store \<Rightarrow> (nat \<Rightarrow> time) \<Rightarrow> Entry \<Rightarrow> 's \<Rightarrow> string list" where
  "meta_hash_rest S clk got s =
     mustGet S ''user'' ''style'' s (\<lambda>now.
     errorf_unless (eContent now = ''Short.'' \<and> Description now = ''How to answer, briefly'') ''a refused conditional Put changed the entry'' @
     mustPut S [] (clk 4) (testEntry ''user'' ''style'' ''Shorter.'' edited_meta) [IfHash (eHash got), IfMetaHash (MetaHash edited_meta)] s (\<lambda>rec s.
     errorf_unless (cPrev rec = eHash got \<and> eMetaHash (cEntry rec) = MetaHash edited_meta) ''record'' @
     mustForget S [] (clk 5) ''user'' ''style'' s (\<lambda>tomb s.
     errorf_unless (eMetaHash (cEntry tomb) = MetaHash edited_meta) ''tombstone MetaHash'' @
     (case sPut S [] (clk 6) (testEntry ''user'' ''style'' ''Back.'' None) [IfMetaHash (MetaHash style_meta)] s of
        (Inl (ErrConflict ce), s) \<Rightarrow> errorf_unless (kMeta ce \<and> kHave ce = []) ''Put(IfMetaHash) on a forgotten entry''
      | (_, s) \<Rightarrow> [''Put(IfMetaHash) on a forgotten entry'']))))"

definition meta_hash_stale :: "'s Store \<Rightarrow> (nat \<Rightarrow> time) \<Rightarrow> Entry \<Rightarrow> 's \<Rightarrow> string list" where
  "meta_hash_stale S clk got s =
     mustPut S [] (clk 2) (testEntry ''user'' ''style'' ''Short.'' edited_meta) [] s (\<lambda>_ s.
     case sPut S [] (clk 3) (testEntry ''user'' ''style'' ''Shorter.'' style_meta) [IfHash (eHash got), IfMetaHash (eMetaHash got)] s of
       (Inl (ErrConflict ce), s) \<Rightarrow>
         if \<not> (kMeta ce \<and> kWant ce = MetaHash style_meta \<and> kHave ce = MetaHash edited_meta) then [''Put(IfMetaHash stale)'']
         else meta_hash_rest S clk got s
     | (_, s) \<Rightarrow> [''Put(IfMetaHash stale)''])"

definition testMetaHash :: "'s Store \<Rightarrow> (nat \<Rightarrow> time) \<Rightarrow> 's \<Rightarrow> string list" where
  "testMetaHash S clk s =
     (let mh = MetaHash style_meta in
      mustPut S [] (clk 0) (testEntry ''user'' ''style'' ''Short.'' style_meta) [IfHash [], IfMetaHash []] s (\<lambda>rec s.
      errorf_unless (eMetaHash (cEntry rec) = mh) ''record MetaHash'' @
      mustPut S [] (clk 1) (testEntry ''user'' ''bare'' ''x'' None) [] s (\<lambda>_ s.
      mustGet S ''user'' ''style'' s (\<lambda>got.
      errorf_unless (eMetaHash got = mh) ''Get MetaHash'' @
      concat (map (\<lambda>e. errorf_unless (eMetaHash e = MetaHash (eMeta e)) ''List MetaHash'')
        (case sList S ''user'' s of Inl err \<Rightarrow> [] | Inr es \<Rightarrow> es)) @
      meta_hash_stale S clk got s))))"

section \<open>Forgetting\<close>

definition tz_entry :: Entry where
  "tz_entry = testEntry ''user'' ''tz'' ''Europe/London'' (Some [(''description'', ''Timezone'')])"

definition forget_journal :: "'s Store \<Rightarrow> (nat \<Rightarrow> time) \<Rightarrow> 's \<Rightarrow> string list" where
  "forget_journal S clk s =
     collect S 0 s (\<lambda>changes.
     if length changes \<noteq> 3 then [''journal'']
     else let tomb = changes ! 2 in
       errorf_unless (eDeleted (cEntry tomb) \<and> eContent (cEntry tomb) = ''Europe/London'' \<and> eHash (cEntry tomb) = Hash ''Europe/London'' \<and>
           cPrev tomb = eHash (cEntry tomb) \<and> cReplaced tomb = eHash (cEntry tomb) \<and> cSession tomb = ''sess-f'' \<and>
           Description (cEntry tomb) = ''Timezone'' \<and> \<not> IsZero (eUpdated (cEntry tomb))) ''tombstone'' @
       mustPut S [] (clk 5) tz_entry [] s (\<lambda>_ s.
       collect S 3 s (\<lambda>changes.
       errorf_unless (case changes of [c] \<Rightarrow> cPrev c = [] \<and> cReplaced c = [] \<and> \<not> eDeleted (cEntry c) | _ \<Rightarrow> False) ''record after recreate'')))"

definition forget_checks :: "'s Store \<Rightarrow> (nat \<Rightarrow> time) \<Rightarrow> 's \<Rightarrow> string list" where
  "forget_checks S clk s =
     errorf_unless (isNotFound (sGet S ''user'' ''tz'' s)) ''Get after Forget'' @
     errorf_unless (names (case sList S ''user'' s of Inl err \<Rightarrow> [] | Inr es \<Rightarrow> es) = ''keep'') ''List after Forget'' @
     (let (r, s) = sForget S [] (clk 4) ''user'' ''tz'' s in
      errorf_unless (isNotFound r) ''second Forget'' @
      errorf_unless ((case sSearch S [''user''] ''London'' 0 s of Inl err \<Rightarrow> [] | Inr found \<Rightarrow> found) = []) ''Search finds a forgotten entry'' @
      forget_journal S clk s)"

definition testForget :: "'s Store \<Rightarrow> (nat \<Rightarrow> time) \<Rightarrow> 's \<Rightarrow> string list" where
  "testForget S clk s =
     (let (r, s) = sForget S [] (clk 0) ''user'' ''missing'' s in
      errorf_unless (isNotFound r) ''Forget(missing)'' @
      mustPut S [] (clk 1) tz_entry [] s (\<lambda>_ s.
      mustPut S [] (clk 2) (testEntry ''user'' ''keep'' ''kept'' None) [] s (\<lambda>_ s.
      mustForget S ''sess-f'' (clk 3) ''user'' ''tz'' s (\<lambda>tombRec s.
      errorf_unless (eDeleted (cEntry tombRec) \<and> cSeq tombRec = 3 \<and> cSession tombRec = ''sess-f'') ''Forget returned'' @
      forget_checks S clk s))))"

section \<open>The journal\<close>

definition journal_tests :: "(string \<times> Entry \<times> string) list" where
  "journal_tests =
     [(''sess-a'', testEntry ''user'' ''one'' ''1'' None, []),
      (''sess-b'', testEntry ''user'' ''two'' ''2'' None, []),
      (''sess-b'', testEntry ''user'' ''one'' ''1b'' None, Hash ''1''),
      ([], testEntry ''project'' ''one'' ''p1'' None, []),
      (''sess-a'', testEntry ''user'' ''one'' ''1c'' (Some [(''k'', ''v'')]), Hash ''1b'')]"

fun journal_puts :: "'s Store \<Rightarrow> (nat \<Rightarrow> time) \<Rightarrow> (string \<times> Entry \<times> string) list \<Rightarrow> nat \<Rightarrow> Change list \<Rightarrow> 's \<Rightarrow>
    (Change list \<Rightarrow> 's \<Rightarrow> string list) \<Rightarrow> string list" where
  "journal_puts S clk [] i returned s k = k returned s"
| "journal_puts S clk ((session, e, prev) # steps) i returned s k =
     mustPut S session (clk i) e [] s (\<lambda>rec s. journal_puts S clk steps (Suc i) (returned @ [rec]) s k)"

definition same_record :: "Change \<Rightarrow> Change \<Rightarrow> bool" where
  "same_record r c \<longleftrightarrow> cSeq r = cSeq c \<and> cPrev r = cPrev c \<and> cReplaced r = cReplaced c \<and> cSession r = cSession c \<and> cAt r = cAt c \<and>
     sameEntry (cEntry r) (cEntry c) \<and> eHash (cEntry r) = eHash (cEntry c) \<and> eDeleted (cEntry r) = eDeleted (cEntry c)"

definition journal_record :: "Change list \<Rightarrow> nat \<Rightarrow> string list" where
  "journal_record changes i =
     (let c = changes ! i; (session, e, prev) = journal_tests ! i in
      errorf_unless (cSeq c = of_nat (i + 1)) ''Seq'' @
      errorf_unless (eScope (cEntry c) = eScope e \<and> eName (cEntry c) = eName e \<and> eContent (cEntry c) = eContent e \<and>
        DeepEqual (eMeta (cEntry c)) (eMeta e)) ''entry'' @
      errorf_unless (eHash (cEntry c) = Hash (eContent e) \<and> \<not> eDeleted (cEntry c) \<and> \<not> IsZero (eUpdated (cEntry c))) ''entry not filled'' @
      errorf_unless (cPrev c = prev) ''Prev'' @
      errorf_unless (cReplaced c = prev) ''Replaced'' @
      errorf_unless (cSession c = session) ''Session'' @
      errorf_unless (\<not> IsZero (cAt c)) ''At is zero'' @
      errorf_unless (cSource c = []) ''Source'' @
      errorf_unless (\<not> (i > 0 \<and> cAt c < cAt (changes ! (i - 1)))) ''At before'')"

fun journal_resumes :: "'s Store \<Rightarrow> nat \<Rightarrow> uint64 list \<Rightarrow> 's \<Rightarrow> string list \<Rightarrow> string list" where
  "journal_resumes S n [] s rest = rest"
| "journal_resumes S n (after # afters) s rest =
     collect S after s (\<lambda>got.
     errorf_unless (length got = (if after < of_nat n then n - unat after else 0)) ''Journal(after)'' @
     errorf_unless (case got of [] \<Rightarrow> True | c # _ \<Rightarrow> cSeq c = after + 1) ''Journal(after) starts'' @
     journal_resumes S n afters s rest)"

definition first_content :: "Change list \<Rightarrow> string" where
  "first_content cs = (case cs of [] \<Rightarrow> [] | c # _ \<Rightarrow> eContent (cEntry c))"

definition journal_checks :: "'s Store \<Rightarrow> Change list \<Rightarrow> Change list \<Rightarrow> 's \<Rightarrow> string list" where
  "journal_checks S returned changes s =
     concat (map (\<lambda>(r, c). errorf_unless (same_record r c) ''Put returned'') (zip returned changes)) @
     collect S 0 s (\<lambda>again.
     errorf_unless (first_content again = first_content changes \<and>
       (case again of [] \<Rightarrow> False | c # _ \<Rightarrow> mlookup (eMeta (cEntry c)) ''k'' \<in> {None, Some []})) ''a caller's edit to the record Put returned reached the store'' @
     (if length changes \<noteq> length journal_tests then [''journal'']
      else concat (map (journal_record changes) [0..<length changes]) @
        mustGet S ''user'' ''one'' s (\<lambda>got.
        errorf_unless (eUpdated got = eUpdated (cEntry (changes ! 4))) ''Get Updated'' @
        journal_resumes S (length journal_tests) [0, 1, 3, 4, 5, 6, 100] s
          (collect S 0 s (\<lambda>again. errorf_unless (first_content again = ''1'') ''a caller's edit to a yielded record reached the store'')))))"

definition testJournal :: "'s Store \<Rightarrow> (nat \<Rightarrow> time) \<Rightarrow> 's \<Rightarrow> string list" where
  "testJournal S clk s =
     map (\<lambda>y. ''empty journal yields'') (sJournal S 0 s) @
     journal_puts S clk journal_tests 0 [] s (\<lambda>returned s.
     collect S 0 s (\<lambda>changes.
     if length returned \<noteq> length changes then [''Put returned'']
     else journal_checks S returned changes s))"

section \<open>Lost updates and the last sequence number\<close>

definition lost_clean :: "'s Store \<Rightarrow> (nat \<Rightarrow> time) \<Rightarrow> 's \<Rightarrow> string list" where
  "lost_clean S clk s =
     (let e = testEntry ''user'' ''profile'' ''one'' None in
      mustPut S [] (clk 3) e [IfHash []] s (\<lambda>_ s.
      mustPut S [] (clk 4) (e\<lparr>eContent := ''two''\<rparr>) [IfHash (Hash ''one'')] s (\<lambda>_ s.
      mustPut S [] (clk 5) (e\<lparr>eContent := ''three''\<rparr>) [BasedOn (Hash ''two'')] s (\<lambda>_ s.
      mustPut S [] (clk 6) (e\<lparr>eContent := ''four''\<rparr>) [] s (\<lambda>_ s.
      mustForget S [] (clk 7) ''user'' ''profile'' s (\<lambda>_ s.
      mustPut S [] (clk 8) (e\<lparr>eContent := ''again''\<rparr>) [] s (\<lambda>_ s.
      errorf_unless (LostUpdates S 0 s = ([], [])) ''LostUpdates over an anchored journal'' @
      mustPut S [] (clk 9) (e\<lparr>eContent := ''again''\<rparr>) [BasedOn (Hash ''by hand'')] s (\<lambda>_ s.
      case LostUpdates S 0 s of
        (outside, []) \<Rightarrow>
          errorf_unless (case outside of
              [lu] \<Rightarrow> cPrev (luChange lu) = Hash ''by hand'' \<and> luOver lu = Hash ''again'' \<and> cReplaced (luChange lu) = Hash ''again''
            | _ \<Rightarrow> False) ''LostUpdates over an edit from outside''
      | (_, errs) \<Rightarrow> [''LostUpdates'']))))))))"

definition testLostUpdates :: "'s Store \<Rightarrow> (nat \<Rightarrow> time) \<Rightarrow> 's \<Rightarrow> string list" where
  "testLostUpdates S clk new =
     mustPut S [] (clk 0) (testEntry ''user'' ''profile'' ''Chris.'' None) [] new (\<lambda>_ s.
     mustGet S ''user'' ''profile'' s (\<lambda>read.
     let slack = read\<lparr>eContent := ''Chris. Lives in Bristol.''\<rparr>; telegram = read\<lparr>eContent := ''Chris. Prefers Go.''\<rparr> in
     mustPut S ''slack'' (clk 1) slack [BasedOn (eHash read)] s (\<lambda>_ s.
     mustPut S ''telegram'' (clk 2) telegram [BasedOn (eHash read)] s (\<lambda>_ s.
     case LostUpdates S 0 s of
       ([got], []) \<Rightarrow>
         errorf_unless (cSeq (luChange got) = 3 \<and> cSession (luChange got) = ''telegram'' \<and> cPrev (luChange got) = eHash read \<and>
           cReplaced (luChange got) = Hash (eContent slack) \<and> luOver got = Hash (eContent slack)) ''LostUpdates[0]'' @
         errorf_unless (case LostUpdates S 2 s of
             ([lu], []) \<Rightarrow> cSeq (luChange lu) = 3 \<and> \<not> luBreak lu \<and> luOver lu = Hash (eContent slack)
           | _ \<Rightarrow> False) ''LostUpdates(after 2)'' @
         errorf_unless (LostUpdates S 3 s = ([], [])) ''LostUpdates(after 3)'' @
         lost_clean S clk new
     | _ \<Rightarrow> [''LostUpdates'']))))"

definition last_seq_check :: "'s Store \<Rightarrow> uint64 \<Rightarrow> 's \<Rightarrow> string list \<Rightarrow> string list" where
  "last_seq_check S want s rest =
     (case sLastSeqer S of Some f \<Rightarrow> errorf_unless (f s = Inr want) ''LastSeq'' | None \<Rightarrow> []) @
     errorf_unless (LastSeq S s = (want, [])) ''agentmemory.LastSeq'' @
     count_records S want s (\<lambda>n. errorf_unless (n = 0) ''records after the last'' @ rest)"

definition testLastSeq :: "'s Store \<Rightarrow> (nat \<Rightarrow> time) \<Rightarrow> 's \<Rightarrow> string list" where
  "testLastSeq S clk s =
     (let put = (\<lambda>i. mustPut S [] (clk i) (testEntry ''user'' (''n'' @ Itoa (int i)) ''c'' None) []) in
      last_seq_check S 0 s (
      put 0 s (\<lambda>_ s. put 1 s (\<lambda>_ s. put 2 s (\<lambda>_ s.
      last_seq_check S 3 s (
      mustForget S [] (clk 3) ''user'' ''n0'' s (\<lambda>_ s.
      last_seq_check S 4 s (
      let (r, s) = sPut S [] (clk 4) (testEntry ''user'' ''n1'' ''x'' None) [IfHash []] s in
      if \<not> isConflict r then [''Put'']
      else last_seq_check S 4 s []))))))))"

end
