(* ===== verification/TestedStore.thy ===== *)
theory TestedStore
  imports StoreTest SqlProps FileConform
begin

text \<open>
  What the conformance suite needs of a store.  The locale \<open>tested_store\<close> adds to the store contract what the suite calls besides: the entry bound,
  the refusal of a bad scope by a search, and the last sequence number.  Its lemmas are the rules by
  which a test is followed: a call that must succeed is replaced by the abstract operation, whose result and new view are then computed.
\<close>

section \<open>Narrowing the contract\<close>

lemma conforming_store_narrow:
  assumes "conforming_store S good view fits stamp_fits cap"
    and "\<And>session now e opts. fits' session now e opts \<Longrightarrow> fits session now e opts" "\<And>session now. stamp_fits' session now \<Longrightarrow> stamp_fits session now"
  shows "conforming_store S good view fits' stamp_fits' cap"
proof (unfold_locales, goal_cases)
  case (5 s session now e opts r s')
  then show ?case using conforming_store.good_put [OF assms(1)] assms(2) by blast
next
  case (6 s session now sc n r s')
  then show ?case using conforming_store.good_forget [OF assms(1)] assms(3) by blast
qed (simp_all add: conforming_store.good_view [OF assms(1)] conforming_store.good_get_plain [OF assms(1)] conforming_store.good_list_bad [OF assms(1)]
    conforming_store.good_list [OF assms(1)] conforming_store.good_journal_from [OF assms(1)])

section \<open>Entries of the suite\<close>

lemmas fits_defs = text_fits_def text_stamp_fits_def sql_fits_def sql_stamp_fits_def text_opts_def

definition clock_ok :: "(nat \<Rightarrow> time) \<Rightarrow> bool" where
  "clock_ok clk \<longleftrightarrow> mono clk \<and> (\<forall>i. clk i \<noteq> 0 \<and> year_fits (clk i))"

definition small_entry :: "Entry \<Rightarrow> bool" where
  "small_entry e \<longleftrightarrow> entry_ok e 256 \<and> wf_gomap (eMeta e) \<and> sorted_items (mitems (eMeta e)) = mitems (eMeta e)"

lemma small_entry_ok: "small_entry e \<Longrightarrow> 256 \<le> limit \<Longrightarrow> entry_ok e limit"
  by (auto simp: small_entry_def entry_ok_def)

lemma small_fits:
  assumes "small_entry e" "clock_ok clk" "ValidString session" "text_opts opts"
  shows "text_fits session (clk i) e opts"
  using assms by (simp add: small_entry_def clock_ok_def fits_defs)

lemma small_entries:
  "small_entry style_entry" "small_entry odd_entry" "small_entry proj_entry" "small_entry tz_entry"
  "small_entry (testEntry ''user'' ''a'' ''x'' None)" "small_entry (testEntry ''user'' ''bare'' ''x'' (Some []))"
  "small_entry (testEntry ''user'' ''bare'' ''x'' None)"
  "small_entry (testEntry ''user'' ''small'' ''ten bytes!'' None)" "small_entry (testEntry ''user'' ''keep'' ''kept'' None)"
  "small_entry (style_entry\<lparr>eContent := ''Long answers.'' @ [LF], eMeta := Some [(''type'', ''feedback'')]\<rparr>)"
  by code_simp+

lemma small_profile:
  "small_entry (testEntry ''user'' ''profile'' ''Chris.'' None)" "small_entry (testEntry ''user'' ''profile'' ''Chris. Prefers Go.'' None)"
  "small_entry (testEntry ''user'' ''profile'' ''one'' None)" "small_entry (testEntry ''user'' ''profile'' ''two'' None)"
  "small_entry (testEntry ''user'' ''profile'' ''three'' None)" "small_entry (testEntry ''user'' ''profile'' ''four'' None)"
  "small_entry (testEntry ''user'' ''profile'' ''again'' None)" "small_entry (testEntry ''user'' ''profile'' ''Chris. Lives in Bristol.'' None)"
  by code_simp+

lemma small_meta:
  "small_entry (testEntry ''user'' ''style'' ''Short.'' style_meta)" "small_entry (testEntry ''user'' ''style'' ''Short.'' edited_meta)"
  "small_entry (testEntry ''user'' ''style'' ''Shorter.'' style_meta)" "small_entry (testEntry ''user'' ''style'' ''Shorter.'' edited_meta)"
  "small_entry (testEntry ''user'' ''style'' ''Back.'' None)"
  by code_simp+

lemma small_journal:
  "small_entry (testEntry ''user'' ''one'' ''1'' None)" "small_entry (testEntry ''user'' ''two'' ''2'' None)" "small_entry (testEntry ''user'' ''one'' ''1b'' None)"
  "small_entry (testEntry ''project'' ''one'' ''p1'' None)" "small_entry (testEntry ''user'' ''one'' ''1c'' (Some [(''k'', ''v'')]))"
  by code_simp+

lemma errorf_append: "holds \<Longrightarrow> rest = [] \<Longrightarrow> errorf_unless holds what @ rest = []"
  by (simp add: errorf_unless_def)

lemma errorf_passes: "holds \<Longrightarrow> errorf_unless holds what = []"
  by (simp add: errorf_unless_def)

lemma yielded_Inr [simp]: "yielded (map Inr cs) = Some cs"
  by (induction cs) simp_all

definition put_change_of :: "string \<Rightarrow> time \<Rightarrow> Entry \<Rightarrow> PutOption list \<Rightarrow> AbsStore \<Rightarrow> Change" where
  "put_change_of session now e opts a =
     \<lparr>cSeq = next_seq (aJournal a), cEntry = stored_form now e, cPrev = BaseFor (ResolvePutOptions opts) (aLive a (eScope e) (eName e)),
      cReplaced = hash_of (aLive a (eScope e) (eName e)), cSession = session, cSource = [], cAt = now\<rparr>"

definition put_view :: "string \<Rightarrow> time \<Rightarrow> Entry \<Rightarrow> PutOption list \<Rightarrow> AbsStore \<Rightarrow> AbsStore" where
  "put_view session now e opts a =
     a\<lparr>aLive := (aLive a)(eScope e := (aLive a (eScope e))(eName e \<mapsto> stored_form now e)), aJournal := aJournal a @ [put_change_of session now e opts a]\<rparr>"

definition forget_change_of :: "string \<Rightarrow> time \<Rightarrow> Entry \<Rightarrow> AbsStore \<Rightarrow> Change" where
  "forget_change_of session now e a =
     \<lparr>cSeq = next_seq (aJournal a), cEntry = e\<lparr>eDeleted := True, eUpdated := now\<rparr>, cPrev = eHash e, cReplaced = eHash e,
      cSession = session, cSource = [], cAt = now\<rparr>"

definition forget_view :: "string \<Rightarrow> time \<Rightarrow> scope \<Rightarrow> string \<Rightarrow> Entry \<Rightarrow> AbsStore \<Rightarrow> AbsStore" where
  "forget_view session now sc n e a =
     a\<lparr>aLive := (aLive a)(sc := (aLive a sc)(n := None)), aJournal := aJournal a @ [forget_change_of session now e a]\<rparr>"

lemma abs_put_ok:
  assumes "entry_ok e (aMax a)" "Check (ResolvePutOptions opts) (eScope e) (eName e) (aLive a (eScope e) (eName e)) = None"
  shows "abs_put session now e opts a = (Inr (put_change_of session now e opts a), put_view session now e opts a)"
  using assms by (simp add: abs_put_def Let_def CheckEntry_None [THEN iffD2] put_change_of_def put_view_def)

lemma abs_forget_ok:
  assumes "CheckRef sc n = None" "aLive a sc n = Some e"
  shows "abs_forget session now sc n a = (Inr (forget_change_of session now e a), forget_view session now sc n e a)"
  using assms by (simp add: abs_forget_def Let_def forget_change_of_def forget_view_def)

lemma read_last_seq_numbered:
  assumes "numbered js" "length js < 2 ^ 64"
  shows "read_last_seq (map Inr js) = (of_nat (length js), [])"
  using assms by (simp add: read_last_seq_def read_last_seq_map_Inr foldl_max_numbered)

definition empty_view :: "int \<Rightarrow> AbsStore" where
  "empty_view limit = \<lparr>aMax = limit, aLive = (\<lambda>_ _. None), aJournal = []\<rparr>"

lemma view_simps:
  "aMax (empty_view limit) = limit" "aLive (empty_view limit) = (\<lambda>_ _. None)" "aJournal (empty_view limit) = []"
  "aMax (put_view session now e opts a) = aMax a" "aMax (forget_view session now sc n x a) = aMax a"
  "aLive (put_view session now e opts a) = (aLive a)(eScope e := (aLive a (eScope e))(eName e \<mapsto> stored_form now e))"
  "aLive (forget_view session now sc n x a) = (aLive a)(sc := (aLive a sc)(n := None))"
  "aJournal (put_view session now e opts a) = aJournal a @ [put_change_of session now e opts a]"
  "aJournal (forget_view session now sc n x a) = aJournal a @ [forget_change_of session now x a]"
  by (simp_all add: empty_view_def put_view_def forget_view_def)

lemma testEntry_simps:
  "eScope (testEntry sc n c m) = sc" "eName (testEntry sc n c m) = n" "eContent (testEntry sc n c m) = c" "eMeta (testEntry sc n c m) = m"
  "(testEntry sc n c m)\<lparr>eContent := c'\<rparr> = testEntry sc n c' m" "(testEntry sc n c m)\<lparr>eMeta := m'\<rparr> = testEntry sc n c m'"
  by (simp_all add: testEntry_def)

lemma eMeta_stored_form: "eMeta (stored_form now e) = (if mitems (eMeta e) = [] then None else eMeta e)"
  by (simp add: stored_form_def cloneEntry_def)

lemma change_simps:
  "cSeq (put_change_of session now e opts a) = next_seq (aJournal a)" "cSeq (forget_change_of session now x a) = next_seq (aJournal a)"
  "cEntry (put_change_of session now e opts a) = stored_form now e" "cEntry (forget_change_of session now x a) = x\<lparr>eDeleted := True, eUpdated := now\<rparr>"
  "cPrev (put_change_of session now e opts a) = BaseFor (ResolvePutOptions opts) (aLive a (eScope e) (eName e))" "cPrev (forget_change_of session now x a) = eHash x"
  "cReplaced (put_change_of session now e opts a) = hash_of (aLive a (eScope e) (eName e))" "cReplaced (forget_change_of session now x a) = eHash x"
  "cSession (put_change_of session now e opts a) = session" "cSession (forget_change_of session now x a) = session"
  "cSource (put_change_of session now e opts a) = []" "cAt (put_change_of session now e opts a) = now"
  "next_seq [] = 1" "next_seq (js @ [c]) = cSeq c + 1" "next_seq (c # js) = cSeq (last (c # js)) + 1" "hash_of None = []" "hash_of (Some x) = eHash x"
  by (simp_all add: put_change_of_def forget_change_of_def next_seq_def hash_of_def)

lemmas suite_simps = text_opts_def valid_Hash view_simps testEntry_simps change_simps Check_def BaseFor_def ResolvePutOptions_def zeroPutOptions_def IfHash_def BasedOn_def IfMetaHash_def Let_def

lemma entry_simps:
  "eScope style_entry = ''user''" "eName style_entry = ''style''" "eContent style_entry = ''Short answers.'' @ [LF]" "eMeta style_entry = style_meta"
  "eScope odd_entry = ''user''" "eName odd_entry = ''odd''" "eContent odd_entry = odd_content" "eMeta odd_entry = None"
  "eScope proj_entry = ''project''" "eName proj_entry = ''build''" "eContent proj_entry = ''make check''" "eMeta proj_entry = None"
  "eScope tz_entry = ''user''" "eName tz_entry = ''tz''" "eContent tz_entry = ''Europe/London''" "Description tz_entry = ''Timezone''"
  by (simp_all add: style_entry_def style_meta_def odd_entry_def proj_entry_def tz_entry_def testEntry_simps Description_def mlookup_def MetaDescription_def)

lemmas suite_entries = entry_simps eMeta_stored_form mlookup_def Description_def MetaDescription_def sameEntry_def DeepEqual_def filled_def IsZero_def names_def
  style_meta_def

lemma stored_meta [simp]: "MetaHash (eMeta (stored_form now e)) = MetaHash (eMeta e)" "Description (stored_form now e) = Description e"
  by (auto intro: MetaHash_items simp: Description_def mlookup_def)

lemma hash_not_Nil [simp]: "Hash w \<noteq> []" "[] \<noteq> Hash w" "MetaHash style_meta \<noteq> []" "[] \<noteq> MetaHash style_meta" "MetaHash edited_meta \<noteq> []"
  by (auto simp: Hash_def MetaHash_def style_meta_def edited_meta_def mlen_def)

lemma description_deleted: "Description (e\<lparr>eDeleted := d, eUpdated := now\<rparr>) = Description e"
  by (simp add: Description_def)

lemma edited_description: "Description (testEntry sc n content edited_meta) = ''How to answer, briefly''"
  by (simp add: Description_def testEntry_def edited_meta_def mlookup_def MetaDescription_def)

lemma clock_not_zero: "clock_ok clk \<Longrightarrow> clk i \<noteq> 0"
  by (simp add: clock_ok_def)

lemma clock_forward: "clock_ok clk \<Longrightarrow> i \<le> j \<Longrightarrow> \<not> clk j < clk i"
  by (simp add: clock_ok_def monoD not_less)

lemma valid_refs:
  "CheckRef ''user'' ''n0'' = None" "CheckRef ''user'' ''style'' = None" "CheckRef ''user'' ''odd'' = None" "CheckRef ''user'' ''bare'' = None"
  "CheckRef ''user'' ''profile'' = None" "CheckRef ''user'' ''tz'' = None" "CheckRef ''user'' ''one'' = None"
  by code_simp+

lemma valid_sessions [simp]:
  "ValidString []" "ValidString ''sess-a''" "ValidString ''sess-b''" "ValidString ''sess-f''" "ValidString ''slack''" "ValidString ''telegram''"
  by code_simp+

lemma small_numbered:
  "small_entry (testEntry ''user'' (''n'' @ Itoa (int 0)) ''c'' None)" "small_entry (testEntry ''user'' (''n'' @ Itoa (int 1)) ''c'' None)"
  "small_entry (testEntry ''user'' (''n'' @ Itoa (int 2)) ''c'' None)" "small_entry (testEntry ''user'' ''n1'' ''x'' None)"
  by code_simp+

lemma Itoa_small: "Itoa (int 0) = ''0''" "Itoa (int 1) = ''1''" "Itoa (int 2) = ''2''"
  by code_simp+

definition bad_entry :: "Entry \<Rightarrow> bool" where
  "bad_entry e \<longleftrightarrow> wf_gomap (eMeta e) \<and> sorted_items (mitems (eMeta e)) = mitems (eMeta e) \<and> \<not> entry_ok e 0"

lemma check_meta_invalid: "check_meta sc n m k = Inl err \<Longrightarrow> \<exists>p. err = ErrInvalid p"
  by (induction sc n m k rule: check_meta.induct) (auto split: if_splits)

lemma CheckEntry_invalid: "CheckEntry e 0 stored = Some err \<Longrightarrow> \<exists>p. err = ErrInvalid p"
  by (auto simp: CheckEntry_def dest: check_meta_invalid split: if_splits sum.splits)

lemma bad_entryE:
  assumes "bad_entry e"
  obtains p where "CheckEntry e limit stored = Some (ErrInvalid p)"
proof -
  obtain err where err: "CheckEntry e 0 None = Some err" using assms CheckEntry_None [of e 0 None] by (auto simp: bad_entry_def)
  with CheckEntry_invalid CheckEntry_early that show ?thesis by blast
qed

lemma bad_entries:
  "bad_entry (testEntry [] ''a'' ''x'' None)" "bad_entry (testEntry ''User'' ''a'' ''x'' None)" "bad_entry (testEntry ''../etc'' ''a'' ''x'' None)"
  "bad_entry (testEntry ''user'' [] ''x'' None)" "bad_entry (testEntry ''user'' ''a b'' ''x'' None)" "bad_entry (testEntry ''user'' ''a--b'' ''x'' None)"
  "bad_entry (testEntry ''user'' ''-a'' ''x'' None)" "bad_entry (testEntry ''user'' ''a.md'' ''x'' None)"
  "bad_entry (testEntry ''user'' (replicate (MaxNameBytes + 1) (CHR ''a'')) ''x'' None)"
  "bad_entry (testEntry ''user'' ''a'' [] None)" "bad_entry (testEntry ''user'' ''a'' [CHR ''x'', CHR 0xFF] None)"
  "bad_entry (testEntry ''user'' ''a'' ''x'' (Some [(''Type'', ''y'')]))" "bad_entry (testEntry ''user'' ''a'' ''x'' (Some [(''name'', ''y'')]))"
  "bad_entry (testEntry ''user'' ''a'' ''x'' (Some [(''description'', ''a'' @ LF # ''b'')]))"
  "bad_entry (testEntry ''user'' ''a'' ''x'' (Some [(''description'', '' a '')]))"
  by code_simp+

lemma bad_profile: "bad_entry (testEntry ''user'' ''Bad'' ''x'' None)"
  by code_simp

lemma big_meta: "bad_entry (testEntry ''user'' ''a'' ''x'' (Some [(''description'', replicate MaxMetaBytes (CHR ''d''))]))"
  by (simp add: bad_entry_def testEntry_def wf_gomap_def sorted_items_def entry_ok_def meta_bytes_def)

lemma validation_entries: "list_all (\<lambda>(name, e). bad_entry e) validation_tests"
  unfolding validation_tests_def list.pred_inject(2) prod.case by (intro conjI bad_entries big_meta list.pred_inject(1))

lemma bad_refs:
  "list_all (\<lambda>sc. \<not> ValidScope sc) [[], ''User'', ''../etc'', ''user/a'', ''a--b'']" "list_all (\<lambda>n. \<not> ValidName n) [[], ''A'', ''../a'', ''a.md'', ''-a'']"
  "ValidScope ''user''" "ValidScope ''project''" "ValidScope ''nowhere''" "CheckRef ''user'' ''missing'' = None"
  by code_simp+

definition long_entry :: "string \<Rightarrow> nat \<Rightarrow> char \<Rightarrow> Entry" where
  "long_entry n k c = testEntry ''user'' n (replicate k c) None"

lemma CheckEntry_too_large:
  assumes "entry_ok e 0" "limit > 0" "int (length (eContent e)) > limit"
  shows "CheckEntry e limit stored = Some (ErrTooLarge \<lparr>sScope = eScope e, sName = eName e, sSize = int (length (eContent e)), sLimit = limit,
    sStored = (case stored of None \<Rightarrow> -1 | Some se \<Rightarrow> int (Size se))\<rparr>)"
proof -
  have "check_meta (eScope e) (eName e) (mitems (eMeta e)) 0 = Inr (meta_bytes (mitems (eMeta e)))"
    using assms(1) by (simp add: check_meta_Inr entry_ok_def)
  with assms show ?thesis by (simp add: CheckEntry_def entry_ok_def ValidScope_def)
qed

lemma long_entry_ok:
  assumes "ValidName n" "byte c < 0x80" "0 < k"
  shows "entry_ok (long_entry n k c) 0" "limit > 0 \<Longrightarrow> int k \<le> limit \<Longrightarrow> entry_ok (long_entry n k c) limit"
    "clock_ok clk \<Longrightarrow> text_fits [] (clk i) (long_entry n k c) []"
proof -
  have "ValidString (replicate k c)" using assms(2) by (intro valid_ascii) simp
  moreover have "ValidName ''user''" using bad_refs(3) by (simp add: ValidScope_def)
  ultimately show "entry_ok (long_entry n k c) 0" "limit > 0 \<Longrightarrow> int k \<le> limit \<Longrightarrow> entry_ok (long_entry n k c) limit"
    "clock_ok clk \<Longrightarrow> text_fits [] (clk i) (long_entry n k c) []"
    using assms by (simp_all add: long_entry_def testEntry_def entry_ok_def meta_ok_def meta_bytes_def Size_def fits_defs clock_ok_def
        wf_gomap_def sorted_items_def ResolvePutOptions_def zeroPutOptions_def)
qed

lemma bounds_names: "ValidName ''at''" "ValidName ''over''" "ValidName ''small''" "byte (CHR ''a'') < 0x80" "byte (CHR ''b'') < 0x80" "byte (CHR ''c'') < 0x80"
  "CheckRef ''user'' ''over'' = None" "CheckRef ''user'' ''small'' = None" "Itoa 10 = ''10''"
  by code_simp+

lemma size_error_names_stored:
  assumes "sStored e = 10"
  shows "Contains (SizeError_Error e) ''holds 10 bytes now''"
proof -
  have "SizeError_Error e =
    (''agentmemory: entry '' @ sScope e @ ''/'' @ sName e @ '' is '' @ Itoa (sSize e) @ '' bytes, over the '' @ Itoa (sLimit e) @ '' byte limit; it '') @
    ''holds 10 bytes now'' @ ''; split it or trim it''"
    by (simp add: SizeError_Error_def Let_def assms bounds_names(9))
  then show ?thesis unfolding Contains_iff by blast
qed

section \<open>What the suite needs of a store\<close>

locale tested_store = conforming_store S good view text_fits text_stamp_fits cap
  for S :: "'s Store" and good view cap +
  assumes cap_ok: "16 \<le> cap" "cap < 2 ^ 63"
    and good_max: "good s \<Longrightarrow> sMaxEntryBytes S s = aMax (view s)"
    and good_search_bad: "good s \<Longrightarrow> sc \<in> set scopes \<Longrightarrow> \<not> ValidScope sc \<Longrightarrow> isInvalid (sSearch S scopes query limit s)"
    and good_last_seq: "good s \<Longrightarrow> length (aJournal (view s)) \<le> cap \<Longrightarrow> sLastSeqer S = Some f \<Longrightarrow>
      f s = Inr (of_nat (length (aJournal (view s))))"
begin

lemma put_answers:
  assumes "good s" "text_fits session now e opts" "length (aJournal (view s)) < cap" "abs_put session now e opts (view s) = (r, a)"
  obtains s' where "sPut S session now e opts s = (r, s')" "good s'" "view s' = a"
proof -
  obtain r' s' where p: "sPut S session now e opts s = (r', s')" by fastforce
  with good_put [OF assms(1-3) p] assms(4) show ?thesis by (intro that [of s']) simp_all
qed

lemma forget_answers:
  assumes "good s" "text_stamp_fits session now" "length (aJournal (view s)) < cap" "abs_forget session now sc n (view s) = (r, a)" "CheckRef sc n = None"
  obtains s' where "sForget S session now sc n s = (r, s')" "good s'" "view s' = a"
proof -
  obtain r' s' where p: "sForget S session now sc n s = (r', s')" by fastforce
  with good_forget [OF assms(1-3) p] assms(4,5) show ?thesis by (intro that [of s']) (auto simp: abs_forget_def Let_def split: option.splits)
qed

lemma mustPut_passes:
  assumes "good s" "length (aJournal (view s)) < cap" "text_fits session now e opts" "entry_ok e (aMax (view s))"
    "Check (ResolvePutOptions opts) (eScope e) (eName e) (aLive (view s) (eScope e) (eName e)) = None"
    "\<And>s'. good s' \<Longrightarrow> view s' = put_view session now e opts (view s) \<Longrightarrow> k (put_change_of session now e opts (view s)) s' = []"
  shows "mustPut S session now e opts s k = []"
proof -
  obtain s' where "sPut S session now e opts s = (Inr (put_change_of session now e opts (view s)), s')" "good s'" "view s' = put_view session now e opts (view s)"
    using put_answers [OF assms(1,3,2) abs_put_ok [OF assms(4,5)]] by blast
  with assms(6) show ?thesis by (simp add: mustPut_def)
qed

lemma mustPut_small:
  assumes "good s" "length (aJournal (view s)) < cap" "small_entry e" "256 \<le> aMax (view s)" "clock_ok clk" "ValidString session"
    "text_opts opts"
    "Check (ResolvePutOptions opts) (eScope e) (eName e) (aLive (view s) (eScope e) (eName e)) = None"
    "\<And>s'. good s' \<Longrightarrow> view s' = put_view session (clk i) e opts (view s) \<Longrightarrow> k (put_change_of session (clk i) e opts (view s)) s' = []"
  shows "mustPut S session (clk i) e opts s k = []"
  using assms by (intro mustPut_passes) (simp_all add: small_fits small_entry_ok)

lemma mustForget_passes:
  assumes "good s" "length (aJournal (view s)) < cap" "clock_ok clk" "ValidString session" "CheckRef sc n = None" "aLive (view s) sc n \<noteq> None"
    "\<And>s'. good s' \<Longrightarrow> view s' = forget_view session (clk i) sc n (the (aLive (view s) sc n)) (view s) \<Longrightarrow>
       k (forget_change_of session (clk i) (the (aLive (view s) sc n)) (view s)) s' = []"
  shows "mustForget S session (clk i) sc n s k = []"
proof -
  obtain e where e: "aLive (view s) sc n = Some e" using assms(6) by blast
  have "text_stamp_fits session (clk i)" using assms(3,4) by (simp add: clock_ok_def fits_defs)
  then obtain s' where "sForget S session (clk i) sc n s = (Inr (forget_change_of session (clk i) e (view s)), s')" "good s'"
      "view s' = forget_view session (clk i) sc n e (view s)"
    using forget_answers [OF assms(1) _ assms(2) abs_forget_ok [OF assms(5) e] assms(5)] by blast
  with assms(7) e show ?thesis by (simp add: mustForget_def)
qed

lemma mustGet_passes:
  assumes "good s" "CheckRef sc n = None" "aLive (view s) sc n \<noteq> None" "k (the (aLive (view s) sc n)) = []"
  shows "mustGet S sc n s k = []"
  using assms by (auto simp: mustGet_def good_get abs_get_def)

lemma good_journal_at:
  assumes "good s" "length (aJournal (view s)) \<le> cap" "n < 2 ^ 63"
  shows "sJournal S (of_nat n) s = map Inr (drop n (aJournal (view s)))"
proof -
  have "unat (of_nat n :: uint64) = n" using assms(3) by (simp only: unat_of_nat) simp
  then show ?thesis using good_journal_from [OF assms(1,2), of "of_nat n"] assms(3) by simp
qed

lemma isInvalid_plain: "isInvalid (plain r) = isInvalid r"
  by (cases r) (auto simp: isInvalid_def elim: plain_error.elims split: error.splits)

lemma bad_get: "good s \<Longrightarrow> CheckRef sc n = Some (ErrInvalid p) \<Longrightarrow> isInvalid (sGet S sc n s)"
  using good_get_plain [of s sc n] isInvalid_plain [of "sGet S sc n s"] by (simp add: abs_get_def isInvalid_def)

lemma bad_list: "good s \<Longrightarrow> \<not> ValidScope sc \<Longrightarrow> isInvalid (sList S sc s)"
  using good_list_bad [of s sc] isInvalid_plain [of "sList S sc s"] by (simp add: isInvalid_def)

lemma collect_passes:
  assumes "good s" "length (aJournal (view s)) \<le> cap" "n < 2 ^ 63" "k (drop n (aJournal (view s))) = []"
  shows "collect S (of_nat n) s k = []"
  using assms by (simp add: collect_def good_journal_at)

lemma collect_all:
  assumes "good s" "length (aJournal (view s)) \<le> cap" "k (aJournal (view s)) = []"
  shows "collect S 0 s k = []"
  using collect_passes [OF assms(1,2), of 0 k] assms(3) by simp

lemma count_passes:
  assumes "good s" "length (aJournal (view s)) \<le> cap" "n < 2 ^ 63" "k (length (aJournal (view s)) - n) = []"
  shows "count_records S (of_nat n) s k = []"
  using assms by (simp add: count_records_def collect_passes)

lemma last_seq_passes:
  assumes "good s" "length (aJournal (view s)) = n" "n \<le> cap" "rest = []"
  shows "last_seq_check S (of_nat n) s rest = []"
proof -
  have "sJournal S 0 s = map Inr (aJournal (view s))" using good_journal assms by simp
  moreover have "numbered (aJournal (view s))" using good_view [OF assms(1)] by (simp add: abs_inv_def)
  moreover have "n < 2 ^ 64" using assms(3) cap_ok by simp
  ultimately have "read_last_seq (sJournal S 0 s) = (of_nat n, [])" using assms(2) by (simp add: read_last_seq_numbered)
  then have "LastSeq S s = (of_nat n, [])" using good_last_seq [OF assms(1)] assms(2,3) by (auto simp: LastSeq_def split: option.split)
  moreover have "count_records S (of_nat n) s (\<lambda>n. errorf_unless (n = 0) ''records after the last'' @ rest) = []"
    using assms cap_ok by (intro count_passes) (simp_all add: errorf_unless_def)
  ultimately show ?thesis using good_last_seq [OF assms(1)] assms(2,3) by (auto simp: last_seq_check_def errorf_unless_def split: option.split)
qed

lemma list_of_names:
  assumes "good s" "ValidScope sc" "sorted_wrt (<) (map eName es)" "\<And>e. e \<in> set es \<longleftrightarrow> aLive (view s) sc (eName e) = Some e"
  shows "sList S sc s = Inr es"
proof -
  obtain es' where "sList S sc s = Inr es'" "sorted_wrt (<) (map eName es')" "\<forall>e. e \<in> set es' \<longleftrightarrow> aLive (view s) sc (eName e) = Some e"
    using good_list [OF assms(1,2)] by blast
  moreover have "es = es'" using calculation assms(3,4) by (intro sorted_names_unique) auto
  ultimately show ?thesis by simp
qed

lemma conflict_passes:
  assumes "good s" "length (aJournal (view s)) < cap" "small_entry e" "256 \<le> aMax (view s)" "clock_ok clk" "ValidString session"
    "text_opts opts"
    "Check (ResolvePutOptions opts) (eScope e) (eName e) (aLive (view s) (eScope e) (eName e)) \<noteq> None"
    "\<And>s'. good s' \<Longrightarrow> view s' = view s \<Longrightarrow>
       k (Inl (the (Check (ResolvePutOptions opts) (eScope e) (eName e) (aLive (view s) (eScope e) (eName e))))) s' = []"
  shows "(case sPut S session (clk i) e opts s of (r, s') \<Rightarrow> k r s') = []"
proof -
  obtain err where err: "Check (ResolvePutOptions opts) (eScope e) (eName e) (aLive (view s) (eScope e) (eName e)) = Some err" using assms(8) by blast
  then have "abs_put session (clk i) e opts (view s) = (Inl err, view s)"
    using assms(3,4) by (simp add: abs_put_def Let_def CheckEntry_None [THEN iffD2] small_entry_ok)
  then obtain s' where "sPut S session (clk i) e opts s = (Inl err, s')" "good s'" "view s' = view s"
    using put_answers [OF assms(1) small_fits assms(2)] assms(3,5-7) by blast
  with assms(9) err show ?thesis by simp
qed

lemma invalid_passes:
  assumes "good s" "length (aJournal (view s)) < cap" "bad_entry e" "clock_ok clk" "text_opts opts"
    "\<And>s' p. good s' \<Longrightarrow> view s' = view s \<Longrightarrow> k (Inl (ErrInvalid p)) s' = []"
  shows "(case sPut S [] (clk i) e opts s of (r, s') \<Rightarrow> k r s') = []"
proof -
  obtain p where p: "CheckEntry e (aMax (view s)) (aLive (view s) (eScope e) (eName e)) = Some (ErrInvalid p)" by (rule bad_entryE [OF assms(3)])
  have "text_fits [] (clk i) e opts" using assms(3-5) by (simp add: bad_entry_def clock_ok_def fits_defs)
  then obtain s' where "sPut S [] (clk i) e opts s = (Inl (ErrInvalid p), s')" "good s'" "view s' = view s"
    using put_answers [OF assms(1) _ assms(2), of "[]" "clk i" e opts "Inl (ErrInvalid p)" "view s"] p by (auto simp: abs_put_def Let_def)
  with assms(6) show ?thesis by simp
qed

lemma forget_missing_passes:
  assumes "good s" "length (aJournal (view s)) < cap" "clock_ok clk" "CheckRef sc n = None" "aLive (view s) sc n = None"
    "\<And>s'. good s' \<Longrightarrow> view s' = view s \<Longrightarrow> k (Inl (ErrNotFound sc n)) s' = []"
  shows "(case sForget S [] (clk i) sc n s of (r, s') \<Rightarrow> k r s') = []"
proof -
  have "text_stamp_fits [] (clk i)" using assms(3) by (simp add: clock_ok_def fits_defs)
  then obtain s' where "sForget S [] (clk i) sc n s = (Inl (ErrNotFound sc n), s')" "good s'" "view s' = view s"
    using forget_answers [OF assms(1) _ assms(2), of "[]" "clk i" sc n "Inl (ErrNotFound sc n)" "view s"] assms(4,5) by (auto simp: abs_forget_def)
  with assms(6) show ?thesis by simp
qed

lemma too_large_passes:
  assumes "good s" "length (aJournal (view s)) < cap" "text_fits session now e []" "entry_ok e 0" "aMax (view s) > 0"
    "int (length (eContent e)) > aMax (view s)"
    "\<And>s'. good s' \<Longrightarrow> view s' = view s \<Longrightarrow>
       k (Inl (ErrTooLarge \<lparr>sScope = eScope e, sName = eName e, sSize = int (length (eContent e)), sLimit = aMax (view s),
         sStored = (case aLive (view s) (eScope e) (eName e) of None \<Rightarrow> -1 | Some se \<Rightarrow> int (Size se))\<rparr>)) s' = []"
  shows "(case sPut S session now e [] s of (r, s') \<Rightarrow> k r s') = []"
proof -
  note large = CheckEntry_too_large [OF assms(4-6), of "aLive (view s) (eScope e) (eName e)"]
  obtain s' where "sPut S session now e [] s = (Inl (the (CheckEntry e (aMax (view s)) (aLive (view s) (eScope e) (eName e)))), s')" "good s'" "view s' = view s"
    using put_answers [OF assms(1,3,2)] large by (auto simp: abs_put_def Let_def)
  with assms(7) large show ?thesis by simp
qed

lemma list_one:
  assumes "good s" "ValidScope sc" "aLive (view s) sc = [n \<mapsto> a]"
  shows "sList S sc s = Inr [a]"
proof -
  have "eName a = n" using abs_inv_live(2) [OF good_view [OF assms(1)], of sc n a] assms(3) by simp
  with assms show ?thesis by (intro list_of_names) auto
qed

lemma list_two:
  assumes "good s" "ValidScope sc" "aLive (view s) sc = [m \<mapsto> b, n \<mapsto> a]" "n < m"
  shows "sList S sc s = Inr [a, b]"
proof -
  have "eName a = n" "eName b = m"
    using abs_inv_live(2) [OF good_view [OF assms(1)], of sc n a] abs_inv_live(2) [OF good_view [OF assms(1)], of sc m b] assms(3,4) by simp_all
  with assms show ?thesis by (intro list_of_names) (auto split: if_splits)
qed

end

section \<open>The stores\<close>

lemma bad_scope_found:
  assumes "sc \<in> set scopes" "\<not> ValidScope sc"
  obtains sc' where "List.find (\<lambda>sc. CheckScope sc \<noteq> None) scopes = Some sc'" "CheckScope sc' = Some (ErrInvalid (BadScope sc'))"
proof -
  have "List.find (\<lambda>sc. CheckScope sc \<noteq> None) scopes \<noteq> None" using assms by (auto simp: find_None_iff CheckScope_def)
  then obtain sc' where f: "List.find (\<lambda>sc. CheckScope sc \<noteq> None) scopes = Some sc'" by blast
  then have "CheckScope sc' = Some (ErrInvalid (BadScope sc'))" by (auto simp: find_Some_iff CheckScope_def split: if_splits)
  with f that show thesis by blast
qed

lemma bad_scope_refused:
  assumes "sc \<in> set scopes" "\<not> ValidScope sc"
  shows "isInvalid (MemSearch u scopes query limit m)" "isInvalid (SqlSearch fts fault scopes query limit s)" "isInvalid (FileSearch u scopes query limit d)"
proof -
  obtain sc' where "List.find (\<lambda>sc. CheckScope sc \<noteq> None) scopes = Some sc'" "CheckScope sc' = Some (ErrInvalid (BadScope sc'))"
    by (rule bad_scope_found [OF assms])
  then show "isInvalid (MemSearch u scopes query limit m)" "isInvalid (SqlSearch fts fault scopes query limit s)" "isInvalid (FileSearch u scopes query limit d)"
    by (simp_all only: MemSearch_def MemSearchWith_def SqlSearch_def SqlSearchWith_def FileSearch_def FileSearchWith_def isInvalid_def option.case option.sel sum.case error.case)
qed

lemma sql_last_seq:
  assumes "sql_inv s" "length (sql_records (qDb s)) < 2 ^ 63"
  shows "SqlLastSeq no_fault s = Inr (of_nat (length (sql_records (qDb s))))"
  using max_seq_lines [OF sql_inv_tables(5) [OF assms(1)] assms(2)] sql_inv_tables(3) [OF assms(1)]
  by (simp add: SqlLastSeq_def exec_def no_fault_def)

interpretation mem_text: conforming_store "memStore u" mem_inv mem_view text_fits text_stamp_fits "2 ^ 63 - 1" for u
  by (rule memory_store_conforms [OF mem.memory_store_axioms]) simp

interpretation sql_text: conforming_store "sqlStore fts no_fault" sql_inv sql_view text_fits text_stamp_fits "2 ^ 63 - 1" for fts :: "('r :: linorder) fts"
  by (rule conforming_store_narrow [OF sql.conforming_store_axioms]) (simp_all add: text_fits_def text_stamp_fits_def)

interpretation mem_tested: tested_store "memStore u" mem_inv mem_view "2 ^ 63 - 1" for u
proof (unfold_locales, goal_cases)
  case (4 s sc scopes query limit)
  then show ?case by (simp add: bad_scope_refused)
qed (simp_all add: MemMaxEntryBytes_def MemLastSeq_def)

interpretation sql_tested: tested_store "sqlStore fts no_fault" sql_inv sql_view "2 ^ 63 - 1" for fts :: "('r :: linorder) fts"
proof (unfold_locales, goal_cases)
  case (4 s sc scopes query limit)
  then show ?case by (simp add: sqlStore_def bad_scope_refused)
next
  case (5 s f)
  then show ?case using sql_last_seq [of s] by (auto simp: sqlStore_def sql_view_def)
qed (simp_all add: sqlStore_def SqlMaxEntryBytes_def sql_view_def)

interpretation file_tested: tested_store "fileStore u" file_good file_view "2 ^ 63 - 1" for u
proof (unfold_locales, goal_cases)
  case (4 s sc scopes query limit)
  then show ?case by (simp add: fileStore_def bad_scope_refused)
next
  case (5 s f)
  then show ?case using FileLastSeq_refines [of s] by (auto simp: fileStore_def)
qed (simp_all add: fileStore_def)

end
