(* ===== verification/Conformance.thy ===== *)
theory Conformance
  imports TestedStore
begin

text \<open>
  The tests of the conformance suite pass on every store that keeps the contract of \<open>tested_store\<close>.
\<close>

context tested_store begin

lemma testLastSeq_passes:
  assumes "good s" "view s = empty_view limit" "256 \<le> limit" "clock_ok clk"
  shows "testLastSeq S clk s = []"
  using assms cap_ok small_numbered valid_refs
  unfolding testLastSeq_def Let_def Itoa_small
  by (intro last_seq_passes [where n = 0, simplified] last_seq_passes [where n = 3, simplified] last_seq_passes [where n = 4, simplified]
      mustPut_small mustForget_passes conflict_passes)
    (simp_all add: suite_simps Itoa_small isConflict_def last_seq_passes [where n = 4, simplified])

lemma refused_puts_pass:
  assumes "list_all (\<lambda>(name, e). bad_entry e) tts" "good s" "length (aJournal (view s)) < cap" "clock_ok clk"
  shows "\<exists>s'. refused_puts S clk tts i s = ([], s') \<and> good s' \<and> view s' = view s"
  using assms(1-3)
proof (induction tts arbitrary: i s)
  case (Cons tt tts)
  obtain name e where tt: "tt = (name, e)" by fastforce
  obtain p where p: "CheckEntry e (aMax (view s)) (aLive (view s) (eScope e) (eName e)) = Some (ErrInvalid p)"
    using bad_entryE [of e "aMax (view s)" "aLive (view s) (eScope e) (eName e)"] Cons.prems(1) tt by auto
  have "text_fits [] (clk i) e []" using Cons.prems(1) assms(4) tt
    by (simp add: bad_entry_def clock_ok_def fits_defs ResolvePutOptions_def zeroPutOptions_def)
  then obtain s' where s': "sPut S [] (clk i) e [] s = (Inl (ErrInvalid p), s')" "good s'" "view s' = view s"
    using put_answers [OF Cons.prems(2) _ Cons.prems(3), of "[]" "clk i" e "[]" "Inl (ErrInvalid p)" "view s"] p by (auto simp: abs_put_def Let_def)
  with Cons.IH [of s' "Suc i"] Cons.prems show ?case by (auto simp: tt isInvalid_def errorf_unless_def)
qed simp

lemma testValidation_passes:
  assumes "good s" "view s = empty_view limit" "clock_ok clk"
  shows "testValidation S clk s = []"
proof -
  obtain s' where s': "refused_puts S clk validation_tests 0 s = ([], s')" "good s'" "view s' = view s"
    using refused_puts_pass [OF validation_entries assms(1) _ assms(3)] assms(2) cap_ok by (auto simp: empty_view_def)
  moreover have "sList S ''user'' s' = Inr []" using s' assms(2) bad_refs by (intro list_of_names) (simp_all add: empty_view_def)
  moreover have "sJournal S 0 s' = []" using good_journal [of s'] s' assms(2) by (simp add: empty_view_def)
  ultimately show ?thesis by (simp add: testValidation_def errorf_unless_def)
qed

lemma forget_refused:
  assumes "good s" "length (aJournal (view s)) < cap" "clock_ok clk" "CheckRef sc n = Some (ErrInvalid p)"
  obtains r s' where "sForget S [] (clk i) sc n s = (r, s')" "isInvalid r" "good s'" "view s' = view s"
proof -
  obtain r s' where p: "sForget S [] (clk i) sc n s = (r, s')" by fastforce
  have "text_stamp_fits [] (clk i)" using assms(3) by (simp add: clock_ok_def fits_defs)
  then have q: "good s'" "view s' = view s" "plain r = Inl (plain_error (ErrInvalid p))"
    using good_forget [OF assms(1) _ assms(2) p] assms(4) by (auto simp: abs_forget_def)
  have "isInvalid r" using isInvalid_plain [of r] q(3) by (simp add: isInvalid_def)
  with p q(1,2) that show ?thesis by blast
qed

lemma refused_scopes_pass:
  assumes "list_all (\<lambda>sc. \<not> ValidScope sc) scs" "good s" "length (aJournal (view s)) < cap" "clock_ok clk"
  shows "\<exists>s'. refused_scopes S clk scs i s = ([], s') \<and> good s' \<and> view s' = view s"
  using assms(1-3)
proof (induction scs arbitrary: i s)
  case (Cons sc scs)
  then have bad: "CheckRef sc ''a'' = Some (ErrInvalid (BadScope sc))" by (simp add: CheckRef_def CheckScope_def)
  obtain r s' where s': "sForget S [] (clk i) sc ''a'' s = (r, s')" "isInvalid r" "good s'" "view s' = view s"
    by (rule forget_refused [OF Cons.prems(2,3) assms(4) bad])
  have "isInvalid (sSearch S [''user'', sc] ''x'' 0 s')" using Cons.prems(1) s'(3) by (intro good_search_bad [of _ sc]) simp_all
  moreover have "isInvalid (sList S sc s)" "isInvalid (sGet S sc ''a'' s)"
    using Cons.prems(1,2) bad by (simp_all add: bad_list bad_get)
  ultimately show ?case using Cons.IH [of s' "Suc i"] Cons.prems s' by (auto simp: errorf_unless_def)
qed simp

lemma refused_names_pass:
  assumes "list_all (\<lambda>n. \<not> ValidName n) ns" "good s" "length (aJournal (view s)) < cap" "clock_ok clk"
  shows "\<exists>s'. refused_names S clk ns i s = ([], s') \<and> good s' \<and> view s' = view s"
  using assms(1-3)
proof (induction ns arbitrary: i s)
  case (Cons n ns)
  then have bad: "CheckRef ''user'' n = Some (ErrInvalid (BadName n))" using bad_refs(3) by (simp add: CheckRef_def CheckScope_def)
  obtain r s' where s': "sForget S [] (clk i) ''user'' n s = (r, s')" "isInvalid r" "good s'" "view s' = view s"
    by (rule forget_refused [OF Cons.prems(2,3) assms(4) bad])
  have "isInvalid (sGet S ''user'' n s)" using Cons.prems(2) bad by (simp add: bad_get)
  then show ?case using Cons.IH [of s' "Suc i"] Cons.prems s' by (auto simp: errorf_unless_def)
qed simp

lemma testInvalidReads_passes:
  assumes "good s" "view s = empty_view limit" "256 \<le> limit" "clock_ok clk"
  shows "testInvalidReads S clk s = []"
  unfolding testInvalidReads_def
proof (rule mustPut_small, goal_cases)
  case (9 t)
  then have n: "length (aJournal (view t)) = 1" using assms(2) by (simp add: suite_simps)
  then have room: "length (aJournal (view t)) < cap" using cap_ok by simp
  obtain u where u: "refused_scopes S clk [[], ''User'', ''../etc'', ''user/a'', ''a--b''] 1 t = ([], u)" "good u" "view u = view t"
    using refused_scopes_pass [OF bad_refs(1) 9(1) room assms(4)] by blast
  obtain v where v: "refused_names S clk [[], ''A'', ''../a'', ''a.md'', ''-a''] 6 u = ([], v)" "good v" "view v = view u"
    using refused_names_pass [OF bad_refs(2) u(2) room [folded u(3)] assms(4)] by blast
  have "count_records S 0 v (\<lambda>n. errorf_unless (n = 1) ''journal after refused reads and forgets'') = []"
    using count_passes [of v 0] v(2,3) u(3) n cap_ok by (simp add: errorf_unless_def)
  with u(1) v(1) show ?case by simp
qed (use assms cap_ok small_entries in \<open>simp_all (no_asm_simp) add: suite_simps\<close>)

lemma replace_passes:
  assumes "good s" "length (aJournal (view s)) = 3" "256 \<le> aMax (view s)" "clock_ok clk"
  shows "put_get_list_replace S clk s = []"
  using assms cap_ok small_entries(6) small_entries(10) [simplified] valid_refs
  unfolding put_get_list_replace_def Let_def
  by (intro errorf_append errorf_passes mustPut_small mustGet_passes) (simp_all (no_asm_simp) add: suite_simps suite_entries)

lemma lists_pass:
  assumes "good s" "view s = put_view [] (clk 2) proj_entry [] (put_view [] (clk 1) odd_entry [] (put_view [] (clk 0) style_entry [] (empty_view limit)))"
    "256 \<le> limit" "clock_ok clk"
  shows "put_get_list_lists S clk s = []"
proof -
  have "aLive (view s) ''user'' = [''style'' \<mapsto> stored_form (clk 0) style_entry, ''odd'' \<mapsto> stored_form (clk 1) odd_entry]"
    "aLive (view s) ''project'' = [''build'' \<mapsto> stored_form (clk 2) proj_entry]"
    by (simp_all add: assms(2) suite_simps entry_simps)
  then have "sList S ''user'' s = Inr [stored_form (clk 1) odd_entry, stored_form (clk 0) style_entry]"
    "sList S ''project'' s = Inr [stored_form (clk 2) proj_entry]"
    using list_two [OF assms(1) bad_refs(3)] list_one [OF assms(1) bad_refs(4)] by simp_all
  moreover have "put_get_list_replace S clk s = []" using assms by (intro replace_passes) (simp_all add: suite_simps)
  ultimately show ?thesis using assms(4)
    by (simp add: put_get_list_lists_def errorf_unless_def) (simp add: names_def filled_def IsZero_def clock_not_zero entry_simps)
qed

lemma testPutGetList_passes:
  assumes "good s" "view s = empty_view limit" "256 \<le> limit" "clock_ok clk"
  shows "testPutGetList S clk s = []"
proof -
  have "sList S ''nowhere'' s = Inr []" using assms bad_refs by (intro list_of_names) (simp_all add: empty_view_def)
  moreover have "isNotFound (sGet S ''user'' ''missing'' s)" using assms(1,2) bad_refs by (simp add: good_get abs_get_def isNotFound_def empty_view_def)
  ultimately show ?thesis
    using assms cap_ok small_entries(1-3) valid_refs unfolding testPutGetList_def
    by (intro errorf_append mustPut_small mustGet_passes lists_pass) (simp_all (no_asm_simp) add: suite_simps suite_entries clock_not_zero)
qed

lemma bounds_replace_passes:
  assumes "good s" "length (aJournal (view s)) = 1" "aMax (view s) = limit" "256 \<le> limit" "clock_ok clk" "aLive (view s) ''user'' ''small'' = None"
  shows "bounds_replace S clk limit s = []"
proof -
  have big: "(testEntry ''user'' ''small'' ''ten bytes!'' None)\<lparr>eContent := replicate (nat (limit + 7)) (CHR ''c'')\<rparr> = long_entry ''small'' (nat (limit + 7)) (CHR ''c'')"
    by (simp add: long_entry_def testEntry_def)
  have long: "entry_ok (long_entry ''small'' (nat (limit + 7)) (CHR ''c'')) 0" "text_fits [] (clk 3) (long_entry ''small'' (nat (limit + 7)) (CHR ''c'')) []"
    using assms(4,5) bounds_names by (intro long_entry_ok; simp)+
  have len: "eContent (long_entry n k c) = replicate k c" "eScope (long_entry n k c) = ''user''" "eName (long_entry n k c) = n" for n k c
    by (simp_all add: long_entry_def testEntry_def)
  show ?thesis
    unfolding bounds_replace_def Let_def big
  proof (rule mustPut_small, goal_cases)
    case (9 t)
    let ?small = "stored_form (clk 2) (testEntry ''user'' ''small'' ''ten bytes!'' None)"
    have t: "aMax (view t) = limit" "length (aJournal (view t)) = 2" "aLive (view t) ''user'' ''small'' = Some ?small"
      using 9(2) assms(2,3) by (simp_all add: suite_simps)
    have size: "Size ?small = 10" "eContent ?small = ''ten bytes!''" by (simp_all add: Size_def testEntry_def)
    show ?case
    proof (rule too_large_passes, goal_cases)
      case (7 u)
      have "sGet S ''user'' ''small'' u = Inr ?small" using 7 t(3) bounds_names by (simp add: good_get abs_get_def)
      moreover have "count_records S 0 u (\<lambda>n. errorf_unless (n = 2) ''journal'') = []"
        using count_passes [of u 0] 7 t(2) cap_ok by (simp add: errorf_unless_def)
      ultimately show ?case using assms(4) t(1) by (simp add: len t(3) size(1) errorf_unless_def size_error_names_stored) (simp add: testEntry_def)
    qed (use 9(1) t long assms(4) cap_ok in \<open>simp_all add: len\<close>)
  qed (use assms cap_ok small_entries(8) in \<open>simp_all (no_asm_simp) add: suite_simps\<close>)
qed

lemma testBounds_passes:
  assumes "good s" "view s = empty_view limit" "256 \<le> limit" "clock_ok clk"
  shows "testBounds S clk s = []"
proof -
  have max: "sMaxEntryBytes S s = limit" using good_max assms(1,2) by (simp add: empty_view_def)
  have at: "entry_ok (long_entry ''at'' (nat limit) (CHR ''a'')) limit" "text_fits [] (clk 0) (long_entry ''at'' (nat limit) (CHR ''a'')) []"
    "entry_ok (long_entry ''over'' (nat (limit + 1)) (CHR ''b'')) 0" "text_fits [] (clk 1) (long_entry ''over'' (nat (limit + 1)) (CHR ''b'')) []"
    using assms(3,4) bounds_names by (intro long_entry_ok; simp)+
  have not_less: "\<not> limit < 256" using assms(3) by simp
  show ?thesis
    unfolding testBounds_def Let_def max if_not_P [OF not_less] long_entry_def [symmetric]
  proof (rule mustPut_passes, goal_cases)
    case (6 t)
    then have t: "aMax (view t) = limit" "length (aJournal (view t)) = 1" "aLive (view t) ''user'' ''over'' = None" "aLive (view t) ''user'' ''small'' = None"
      using assms(2) by (simp_all add: suite_simps long_entry_def)
    show ?case
    proof (rule too_large_passes, goal_cases)
      case (7 u)
      have "isNotFound (sGet S ''user'' ''over'' u)" using 7 t(3) bounds_names by (simp add: good_get abs_get_def isNotFound_def)
      moreover have "bounds_replace S clk limit u = []" using 7 t assms(3,4) by (intro bounds_replace_passes) simp_all
      ultimately show ?case using assms(3) t(1) by (simp add: long_entry_def testEntry_def t(3) errorf_unless_def)
    qed (use 6(1) t at assms(3) cap_ok in \<open>simp_all add: long_entry_def testEntry_def\<close>)
  qed (use assms at cap_ok in \<open>simp_all (no_asm_simp) add: suite_simps\<close>)
qed

lemma recreate_passes:
  assumes "good s" "length (aJournal (view s)) = 3" "256 \<le> aMax (view s)" "clock_ok clk" "aLive (view s) ''user'' ''profile'' = None"
  shows "if_hash_recreate S clk (testEntry ''user'' ''profile'' ''Chris. Prefers Go.'' None) s = []"
  unfolding if_hash_recreate_def Let_def
proof (intro mustPut_small invalid_passes, goal_cases)
  case (14 t u p)
  then have "length (aJournal (view u)) = 4" using assms(2) by (simp add: suite_simps)
  with 14 count_passes [of u 0] cap_ok show ?case by (simp add: errorf_unless_def isInvalid_def)
qed (use assms cap_ok small_profile(2) bad_profile in \<open>simp_all (no_asm_simp) add: suite_simps\<close>)

lemma if_hash_rest_passes:
  assumes "good s" "view s = put_view [] (clk 0) (testEntry ''user'' ''profile'' ''Chris.'' None) [IfHash []] (empty_view limit)" "256 \<le> limit" "clock_ok clk"
  shows "if_hash_rest S clk (Hash ''Chris.'') s = []"
  unfolding if_hash_rest_def Let_def
proof (intro mustPut_small mustForget_passes conflict_passes, goal_cases)
  case (23 t u v)
  then have "if_hash_recreate S clk (testEntry ''user'' ''profile'' ''Chris. Prefers Go.'' None) v = []"
    using assms by (intro recreate_passes) (simp_all add: suite_simps)
  with 23 show ?case by (simp add: suite_simps)
qed (use assms cap_ok small_profile(2) valid_refs in \<open>simp_all (no_asm_simp) add: suite_simps\<close>)

lemma if_hash_stale_passes:
  assumes "good s" "view s = put_view [] (clk 0) (testEntry ''user'' ''profile'' ''Chris.'' None) [IfHash []] (empty_view limit)" "256 \<le> limit" "clock_ok clk"
    "Hash ''Chris.'' \<noteq> Hash ''stale''"
  shows "if_hash_stale S clk (Hash ''Chris.'') s = []"
  unfolding if_hash_stale_def
proof (rule conflict_passes, goal_cases)
  case (9 t)
  then have t: "view t = put_view [] (clk 0) (testEntry ''user'' ''profile'' ''Chris.'' None) [IfHash []] (empty_view limit)" using assms(2) by simp
  from if_hash_rest_passes [OF 9(1) t assms(3,4)] have "mustGet S ''user'' ''profile'' t (\<lambda>got.
      errorf_unless (eContent got = ''Chris.'') ''a refused conditional Put changed the entry'' @ if_hash_rest S clk (Hash ''Chris.'') t) = []"
    using 9(1) valid_refs by (intro mustGet_passes) (simp_all add: t suite_simps errorf_unless_def)
  with assms(2,5) show ?case by (simp add: suite_simps)
qed (use assms cap_ok small_profile(2) in \<open>simp_all add: suite_simps\<close>)

lemma testIfHash_passes:
  assumes "good s" "view s = empty_view limit" "256 \<le> limit" "clock_ok clk" "Hash ''Chris.'' \<noteq> Hash ''stale''"
  shows "testIfHash S clk s = []"
  unfolding testIfHash_def Let_def
proof (intro mustPut_small conflict_passes, goal_cases)
  case (17 t u)
  then have "if_hash_stale S clk (Hash ''Chris.'') u = []" using assms by (intro if_hash_stale_passes) simp_all
  with 17 assms(2) show ?case by (simp add: suite_simps errorf_unless_def)
qed (use assms cap_ok small_profile(1) in \<open>simp_all (no_asm_simp) add: suite_simps\<close>)

end

end
