(* ===== verification/ConformanceJournal.thy ===== *)
theory ConformanceJournal
  imports TestedStore
begin

text \<open>
  The tests of conditions on metadata, of lost updates, of the journal and of forgetting pass on every store that keeps the contract of \<open>tested_store\<close>.
\<close>

section \<open>The records of the journal test\<close>

definition journal_view :: "(nat \<Rightarrow> time) \<Rightarrow> int \<Rightarrow> AbsStore" where
  "journal_view clk limit =
     put_view ''sess-a'' (clk 4) (testEntry ''user'' ''one'' ''1c'' (Some [(''k'', ''v'')])) []
     (put_view [] (clk 3) (testEntry ''project'' ''one'' ''p1'' None) []
     (put_view ''sess-b'' (clk 2) (testEntry ''user'' ''one'' ''1b'' None) []
     (put_view ''sess-b'' (clk 1) (testEntry ''user'' ''two'' ''2'' None) []
     (put_view ''sess-a'' (clk 0) (testEntry ''user'' ''one'' ''1'' None) [] (empty_view limit)))))"

lemma journal_records:
  "aJournal (journal_view clk limit) =
     [\<lparr>cSeq = 1, cEntry = stored_form (clk 0) (testEntry ''user'' ''one'' ''1'' None), cPrev = [], cReplaced = [], cSession = ''sess-a'', cSource = [], cAt = clk 0\<rparr>,
      \<lparr>cSeq = 2, cEntry = stored_form (clk 1) (testEntry ''user'' ''two'' ''2'' None), cPrev = [], cReplaced = [], cSession = ''sess-b'', cSource = [], cAt = clk 1\<rparr>,
      \<lparr>cSeq = 3, cEntry = stored_form (clk 2) (testEntry ''user'' ''one'' ''1b'' None), cPrev = Hash ''1'', cReplaced = Hash ''1'', cSession = ''sess-b'', cSource = [], cAt = clk 2\<rparr>,
      \<lparr>cSeq = 4, cEntry = stored_form (clk 3) (testEntry ''project'' ''one'' ''p1'' None), cPrev = [], cReplaced = [], cSession = [], cSource = [], cAt = clk 3\<rparr>,
      \<lparr>cSeq = 5, cEntry = stored_form (clk 4) (testEntry ''user'' ''one'' ''1c'' (Some [(''k'', ''v'')])), cPrev = Hash ''1b'', cReplaced = Hash ''1b'', cSession = ''sess-a'',
        cSource = [], cAt = clk 4\<rparr>]"
  by (simp add: journal_view_def suite_simps put_change_of_def)

lemma journal_records_pass:
  assumes "clock_ok clk" "i < 5"
  shows "journal_record (aJournal (journal_view clk limit)) i = []"
proof -
  consider "i = 0" | "i = 1" | "i = 2" | "i = 3" | "i = 4" using assms(2) by linarith
  then show ?thesis
    by cases (simp_all add: journal_records journal_record_def journal_tests_def errorf_unless_def testEntry_simps eMeta_stored_form DeepEqual_def IsZero_def
      clock_not_zero [OF assms(1)] clock_forward [OF assms(1)])
qed

context tested_store begin

section \<open>Conditions on the metadata\<close>

lemma meta_hash_rest_passes:
  assumes "good s" "length (aJournal (view s)) = 3" "256 \<le> aMax (view s)" "clock_ok clk" "eHash got = Hash ''Short.''"
    "aLive (view s) ''user'' ''style'' = Some (stored_form (clk 2) (testEntry ''user'' ''style'' ''Short.'' edited_meta))"
  shows "meta_hash_rest S clk got s = []"
  unfolding meta_hash_rest_def assms(5)
  using assms cap_ok small_meta(4,5) valid_refs(2) edited_description
  by (intro mustPut_small mustForget_passes conflict_passes mustGet_passes errorf_append) (simp_all (no_asm_simp) add: suite_simps errorf_unless_def)

lemma meta_hash_stale_passes:
  assumes "good s" "length (aJournal (view s)) = 2" "256 \<le> aMax (view s)" "clock_ok clk" "eHash got = Hash ''Short.''" "eMetaHash got = MetaHash style_meta"
    "aLive (view s) ''user'' ''style'' = Some (stored_form (clk 0) (testEntry ''user'' ''style'' ''Short.'' style_meta))"
    "MetaHash style_meta \<noteq> MetaHash edited_meta"
  shows "meta_hash_stale S clk got s = []"
  unfolding meta_hash_stale_def assms(5,6)
proof (intro mustPut_small conflict_passes, goal_cases)
  case (17 t u)
  then have "meta_hash_rest S clk got u = []"
    using assms by (intro meta_hash_rest_passes) (simp_all add: suite_simps)
  with 17 assms(7,8) show ?case by (simp add: suite_simps)
qed (use assms cap_ok small_meta valid_refs in \<open>simp_all add: suite_simps\<close>)

lemma testMetaHash_passes:
  assumes "good s" "view s = empty_view limit" "256 \<le> limit" "clock_ok clk" "MetaHash style_meta \<noteq> MetaHash edited_meta"
  shows "testMetaHash S clk s = []"
  unfolding testMetaHash_def Let_def
proof (intro mustPut_small mustGet_passes errorf_append, goal_cases)
  case (22 t u)
  let ?style = "stored_form (clk 0) (testEntry ''user'' ''style'' ''Short.'' style_meta)" and ?bare = "stored_form (clk 1) (testEntry ''user'' ''bare'' ''x'' None)"
  have u: "aLive (view u) ''user'' = [''style'' \<mapsto> ?style, ''bare'' \<mapsto> ?bare]" "length (aJournal (view u)) = 2" "aMax (view u) = limit"
    using 22 assms(2) by (simp_all add: suite_simps)
  have "sList S ''user'' u = Inr [?bare, ?style]" using list_two [OF 22(3) bad_refs(3) u(1)] by simp
  moreover have "meta_hash_stale S clk ?style u = []"
    using 22 u assms by (intro meta_hash_stale_passes) (simp_all add: testEntry_def)
  ultimately show ?case using u by (simp add: errorf_unless_def)
qed (use assms cap_ok small_meta(1) small_entries(7) valid_refs(2) in \<open>simp_all add: suite_simps\<close>)

section \<open>Lost updates\<close>

lemma LostUpdates_all:
  assumes "good s" "length (aJournal (view s)) \<le> cap"
  shows "LostUpdates S 0 s = (map lu_fork (filter (\<lambda>c. cPrev c \<noteq> cReplaced c) (aJournal (view s))), [])"
proof -
  have "abs_inv (view s)" using assms(1) by (rule good_view)
  then have "lost_updates 0 (map Inr (aJournal (view s))) = (map lu_fork (filter (\<lambda>c. cPrev c \<noteq> cReplaced c) (aJournal (view s))), [])"
    using numbered_hd by (intro lost_updates_chained) (auto simp: abs_inv_named abs_inv_def)
  then show ?thesis using good_journal assms by (simp add: LostUpdates_def)
qed

lemma LostUpdates_from:
  assumes "good s" "length (aJournal (view s)) \<le> cap"
  shows "LostUpdates S 2 s = lost_updates 2 (map Inr (drop 2 (aJournal (view s))))" "LostUpdates S 3 s = lost_updates 3 (map Inr (drop 3 (aJournal (view s))))"
  using assms good_journal_at [of s 2] good_journal_at [of s 3] by (simp_all add: LostUpdates_def)

lemma lost_clean_passes:
  assumes "good s" "view s = empty_view limit" "256 \<le> limit" "clock_ok clk" "Hash ''by hand'' \<noteq> Hash ''again''"
  shows "lost_clean S clk s = []"
  unfolding lost_clean_def Let_def testEntry_simps
  using assms cap_ok small_profile valid_refs(5) valid_Hash
  by (intro mustPut_small mustForget_passes errorf_append)
    (simp_all (no_asm_simp) add: suite_simps LostUpdates_all lu_fork_def errorf_unless_def)

lemma testLostUpdates_passes:
  assumes "good s" "view s = empty_view limit" "256 \<le> limit" "clock_ok clk" "Hash ''by hand'' \<noteq> Hash ''again''" "Hash ''Chris.'' \<noteq> Hash ''Chris. Lives in Bristol.''"
  shows "testLostUpdates S clk s = []"
proof -
  let ?p = "\<lambda>c. (stored_form (clk 0) (testEntry ''user'' ''profile'' ''Chris.'' None))\<lparr>eContent := c\<rparr>"
  have "small_entry (?p ''Chris. Lives in Bristol.'')" "small_entry (?p ''Chris. Prefers Go.'')"
    using small_profile by (simp_all add: small_entry_def entry_ok_def Size_def eMeta_stored_form testEntry_simps)
  then show ?thesis
    unfolding testLostUpdates_def Let_def
    using assms cap_ok small_profile(1) valid_refs(5) valid_Hash lost_clean_passes [OF assms(1-5)]
    by (intro mustPut_small mustGet_passes)
      (simp_all (no_asm_simp) add: suite_simps LostUpdates_all lu_fork_def errorf_unless_def LostUpdates_from lost_updates_def lu_init_def lu_record_def lu_held_def)
qed

section \<open>The journal\<close>

lemma resume_passes:
  assumes "good s" "length (aJournal (view s)) = n" "n \<le> cap" "a < 2 ^ 63" "journal_resumes S n afters s rest = []"
  shows "journal_resumes S n (of_nat a # afters) s rest = []"
proof -
  have u: "unat (of_nat a :: uint64) = a" "unat (of_nat n :: uint64) = n"
    using assms(3,4) cap_ok by (simp_all only: unat_of_nat) simp_all
  have "numbered (aJournal (view s))" using good_view [OF assms(1)] by (simp add: abs_inv_def)
  then have hd: "cSeq (hd (drop a (aJournal (view s)))) = of_nat a + 1" if "a < n"
    using that assms(2) by (simp add: hd_drop_conv_nth numbered_def)
  have "case drop a (aJournal (view s)) of [] \<Rightarrow> True | c # _ \<Rightarrow> cSeq c = of_nat a + 1"
  proof (cases "drop a (aJournal (view s))")
    case (Cons c cs)
    then have "a < n" using assms(2) by (metis drop_eq_Nil2 list.distinct(1) not_le)
    with hd Cons show ?thesis by simp
  qed simp
  moreover have "length (drop a (aJournal (view s))) = (if (of_nat a :: uint64) < of_nat n then n - unat (of_nat a :: uint64) else 0)"
    using assms(2) u by (simp add: word_less_nat_alt)
  ultimately show ?thesis using assms
    unfolding journal_resumes.simps by (intro collect_passes errorf_append) simp_all
qed

lemma resumes_pass:
  assumes "good s" "length (aJournal (view s)) = n" "n \<le> cap" "rest = []" "list_all (\<lambda>a. a < 2 ^ 63) afters"
  shows "journal_resumes S n (map of_nat afters) s rest = []"
  using assms(5) by (induction afters) (simp_all add: assms(4) resume_passes [OF assms(1-3)] del: journal_resumes.simps(2))

lemma journal_checks_pass:
  assumes "good s" "view s = journal_view clk limit" "clock_ok clk"
  shows "journal_checks S (aJournal (journal_view clk limit)) (aJournal (journal_view clk limit)) s = []"
proof -
  let ?js = "aJournal (journal_view clk limit)"
  have all: "collect S 0 s k = k ?js" for k using good_journal [of s] assms(1,2) cap_ok by (simp add: collect_def journal_records)
  have len: "length ?js = 5" "length journal_tests = 5" by (simp_all add: journal_records journal_tests_def)
  have "concat (map (\<lambda>(r, c). errorf_unless (same_record r c) ''Put returned'') (zip ?js ?js)) = []"
    by (simp add: journal_records errorf_unless_def same_record_def sameEntry_def DeepEqual_def eMeta_stored_form testEntry_simps)
  moreover have "concat (map (journal_record ?js) [0..<length ?js]) = []"
    using journal_records_pass [OF assms(3)] by (simp add: len del: upt_Suc)
  moreover have first: "first_content ?js = ''1''" "?js \<noteq> []" "mlookup (eMeta (cEntry (hd ?js))) ''k'' = None"
    by (simp_all add: journal_records first_content_def testEntry_simps eMeta_stored_form mlookup_def)
  moreover have "journal_resumes S 5 [0, 1, 3, 4, 5, 6, 100] s rest = []" if "rest = []" for rest
  proof -
    have "length (aJournal (view s)) = 5" "5 \<le> cap" using assms(2) len cap_ok by simp_all
    from resumes_pass [OF assms(1) this that, of "[0, 1, 3, 4, 5, 6, 100]"] show ?thesis by (simp del: journal_resumes.simps(2))
  qed
  moreover have "mustGet S ''user'' ''one'' s k = k (stored_form (clk 4) (testEntry ''user'' ''one'' ''1c'' (Some [(''k'', ''v'')])))" for k
    using assms(1,2) valid_refs(7) by (simp add: mustGet_def good_get abs_get_def journal_view_def view_simps testEntry_simps)
  moreover have "eUpdated (cEntry (?js ! 4)) = clk 4" by (simp add: journal_records)
  ultimately show ?thesis
    by (simp add: journal_checks_def all len errorf_unless_def del: journal_resumes.simps(2)) (cases ?js; simp)
qed

lemma testJournal_passes:
  assumes "good s" "view s = empty_view limit" "256 \<le> limit" "clock_ok clk"
  shows "testJournal S clk s = []"
proof -
  have j: "sJournal S 0 s = []" using good_journal [of s] assms(1,2) by (simp add: empty_view_def)
  show ?thesis
    unfolding testJournal_def journal_tests_def journal_puts.simps j list.map append_Nil
  proof (intro mustPut_small collect_all, goal_cases)
    case (43 t u v w x)
    then have x: "view x = journal_view clk limit" using assms(2) by (simp add: journal_view_def numeral_eq_Suc)
    have "journal_checks S (aJournal (view x)) (aJournal (view x)) x = []" using journal_checks_pass [OF 43(9) x assms(4)] by (simp add: x)
    with 43 assms(2) show ?case by (simp add: view_simps)
  qed (use assms cap_ok small_journal in \<open>simp_all (no_asm_simp) add: suite_simps\<close>)
qed

section \<open>Forgetting\<close>

lemma forget_journal_passes:
  assumes "good s" "256 \<le> limit" "clock_ok clk"
    "view s = forget_view ''sess-f'' (clk 3) ''user'' ''tz'' (stored_form (clk 1) tz_entry)
       (put_view [] (clk 2) (testEntry ''user'' ''keep'' ''kept'' None) [] (put_view [] (clk 1) tz_entry [] (empty_view limit)))"
  shows "forget_journal S clk s = []"
proof -
  have len: "length (aJournal (view s)) = 3" by (simp add: assms(4) view_simps)
  have "mustPut S [] (clk 5) tz_entry [] s (\<lambda>_ s. collect S 3 s (\<lambda>changes.
      errorf_unless (case changes of [c] \<Rightarrow> cPrev c = [] \<and> cReplaced c = [] \<and> \<not> eDeleted (cEntry c) | _ \<Rightarrow> False) ''record after recreate'')) = []"
    using assms cap_ok small_entries(4)
    by (intro mustPut_small collect_passes [where n = 3, simplified]) (simp_all (no_asm_simp) add: suite_simps entry_simps errorf_unless_def)
  then show ?thesis using assms(1,3) len cap_ok
    unfolding forget_journal_def by (intro collect_all) (simp_all add: assms(4) suite_simps entry_simps errorf_unless_def IsZero_def clock_not_zero description_deleted)
qed

text \<open>What a search finds is the store's own; the test asks that it does not find the entry that was forgotten.\<close>

lemma testForget_passes:
  assumes "good s" "view s = empty_view limit" "256 \<le> limit" "clock_ok clk"
    and search: "\<And>t. good t \<Longrightarrow> aLive (view t) ''user'' = [''keep'' \<mapsto> stored_form (clk 2) (testEntry ''user'' ''keep'' ''kept'' None)] \<Longrightarrow>
      sSearch S [''user''] ''London'' 0 t = Inr []"
  shows "testForget S clk s = []"
proof -
  let ?keep = "stored_form (clk 2) (testEntry ''user'' ''keep'' ''kept'' None)"
  let ?a = "forget_view ''sess-f'' (clk 3) ''user'' ''tz'' (stored_form (clk 1) tz_entry)
       (put_view [] (clk 2) (testEntry ''user'' ''keep'' ''kept'' None) [] (put_view [] (clk 1) tz_entry [] (empty_view limit)))"
  have live: "aLive ?a ''user'' = [''keep'' \<mapsto> ?keep]" "length (aJournal ?a) = 3" by (auto simp: view_simps testEntry_simps entry_simps)
  have checks: "forget_checks S clk t = []" if "good t" "view t = ?a" for t
  proof -
    have "sList S ''user'' t = Inr [?keep]" using list_one [OF that(1) bad_refs(3)] live that(2) by simp
    moreover have "isNotFound (sGet S ''user'' ''tz'' t)" using that live valid_refs(6) by (simp add: good_get abs_get_def isNotFound_def)
    ultimately show ?thesis
      unfolding forget_checks_def Let_def using that live cap_ok assms(4) valid_refs(6)
      by (intro errorf_append forget_missing_passes)
        (simp_all add: names_def testEntry_simps isNotFound_def search forget_journal_passes [OF _ assms(3,4)])
  qed
  show ?thesis
    unfolding testForget_def Let_def
  proof (intro forget_missing_passes errorf_append mustPut_small mustForget_passes, goal_cases)
    case (30 t u v w)
    then have "view w = ?a" using assms(2) by (simp add: view_simps testEntry_simps entry_simps)
    with 30 show ?case by (intro checks)
  qed (use assms cap_ok small_entries(4,9) valid_refs(6) bad_refs(6) in \<open>simp_all (no_asm_simp) add: suite_simps entry_simps isNotFound_def\<close>)
qed

end

lemma keep_not_found: "FilterEntries u zeroSearchOptions [stored_form now (testEntry ''user'' ''keep'' ''kept'' None)] ''London'' 0 = []"
proof -
  have "queryWords u ''London'' = [''london'']" by code_simp
  moreover have "ToLower u (match_text (testEntry ''user'' ''keep'' ''kept'' None)) = ''keep'' @ LF # ''kept''" by code_simp
  moreover have "match_text (stored_form now e) = match_text e" for e by (simp add: match_text_def)
  ultimately show ?thesis by (simp add: FilterEntries_def Let_def zeroSearchOptions_def matchCount_def Keep_def HasPrefix_def)
qed

end
