(* ===== verification/SearchTest.thy ===== *)
theory SearchTest
  imports StoreTest
begin

text \<open>
  The search tests of \<^verbatim>\<open>storetest/storetest.go\<close>.  A failure inside a case of a table, which is a test of its own, ends that case only.
\<close>

section \<open>Search\<close>

fun put_all :: "'s Store \<Rightarrow> (nat \<Rightarrow> time) \<Rightarrow> nat \<Rightarrow> Entry list \<Rightarrow> 's \<Rightarrow> ('s \<Rightarrow> string list) \<Rightarrow> string list" where
  "put_all S clk i [] s k = k s"
| "put_all S clk i (e # es) s k = mustPut S [] (clk i) e [] s (\<lambda>_ s. put_all S clk (Suc i) es s k)"

definition search_puts :: "Entry list" where
  "search_puts =
     [testEntry ''user'' ''editor'' ''Uses Neovim with a dark theme.'' (Some [(''description'', ''Editor preference'')]),
      testEntry ''user'' ''language'' ''Prefers Go over Python for tools.'' (Some [(''description'', ''Language preference'')]),
      testEntry ''user'' ''timezone'' ''Europe/London'' None,
      testEntry ''project'' ''build'' ''Run make check before a commit; the Go toolchain is 1.25.'' None,
      testEntry ''hidden'' ''secret'' ''Go is also mentioned here.'' None]"

definition search_tests :: "(string \<times> scope list \<times> string \<times> int \<times> string list) list" where
  "search_tests =
     [(''one word, one scope'', [''user''], ''neovim'', 0, [''user/editor'']),
      (''case'', [''user''], ''NEOVIM'', 0, [''user/editor'']),
      (''across scopes'', [''user'', ''project''], ''Go'', 0, [''user/language'', ''project/build'']),
      (''scope restricts'', [''user''], ''Go'', 0, [''user/language'']),
      (''all words must match'', [''user'', ''project''], ''Go Python'', 0, [''user/language'']),
      (''name matches'', [''user''], ''timezone'', 0, [''user/timezone'']),
      (''description matches'', [''user''], ''preference'', 0, [''user/editor'', ''user/language'']),
      (''no match'', [''user'', ''project''], ''rust'', 0, []),
      (''unknown scope'', [''nowhere''], ''go'', 0, []),
      (''limit'', [''user'', ''project''], ''Go'', 1, [])]"

definition search_case :: "'s Store \<Rightarrow> 's \<Rightarrow> string \<times> scope list \<times> string \<times> int \<times> string list \<Rightarrow> string list" where
  "search_case S s tt =
     (case tt of (name, scopes, query, limit, want) \<Rightarrow>
        (case sSearch S scopes query limit s of
           Inl err \<Rightarrow> [name]
         | Inr got \<Rightarrow>
             if limit > 0 then errorf_unless (int (length got) = limit) name
             else errorf_unless (sameSet (keys got) want) name @
               concat (map (\<lambda>e. errorf_unless (\<not> (eHash e = [] \<or> IsZero (eUpdated e) \<or> eDeleted e)) ''Search entry not filled'') got)))"

definition testSearch :: "'s Store \<Rightarrow> (nat \<Rightarrow> time) \<Rightarrow> 's \<Rightarrow> string list" where
  "testSearch S clk s = put_all S clk 0 search_puts s (\<lambda>s. concat (map (search_case S s) search_tests))"

section \<open>Search options\<close>

definition option_puts :: "Entry list" where
  "option_puts =
     [testEntry ''user'' ''editor'' ''Uses Neovim with a dark theme.'' (Some [(''description'', ''Editor preference''), (''type'', ''tool'')]),
      testEntry ''user'' ''language'' ''Prefers Go over Python for tools.'' (Some [(''description'', ''Language preference''), (''type'', ''taste'')]),
      testEntry ''user'' ''timezone'' ''Europe/London'' None,
      testEntry ''project'' ''build'' ''Run make check before a commit; the Go toolchain is 1.25.'' (Some [(''type'', ''tool'')])]"

definition option_tests :: "time \<Rightarrow> (string \<times> string \<times> string \<times> SearchOptions \<times> string list \<times> bool) list" where
  "option_tests t0 =
     [(''any word'', SearchAny, ''neovim rust'', zeroSearchOptions\<lparr>oAny := True\<rparr>, [''user/editor''], False),
      (''any ranks the entry holding more words first'', SearchAny, ''python go'', zeroSearchOptions\<lparr>oAny := True\<rparr>, [''user/language'', ''project/build''], True),
      (''any with no word held'', SearchAny, ''rust'', zeroSearchOptions\<lparr>oAny := True\<rparr>, [], False),
      (''meta'', SearchMeta, [], zeroSearchOptions\<lparr>oMeta := Some [(''type'', ''tool'')]\<rparr>, [''user/editor'', ''project/build''], False),
      (''meta and query'', SearchMeta, ''go'', zeroSearchOptions\<lparr>oMeta := Some [(''type'', ''tool'')]\<rparr>, [''project/build''], False),
      (''meta every key'', SearchMeta, [], zeroSearchOptions\<lparr>oMeta := Some [(''type'', ''tool''), (''description'', ''Editor preference'')]\<rparr>, [''user/editor''], False),
      (''meta exact value'', SearchMeta, [], zeroSearchOptions\<lparr>oMeta := Some [(''type'', ''too'')]\<rparr>, [], False),
      (''updated after is exclusive'', SearchUpdatedAfter, ''neovim'', zeroSearchOptions\<lparr>oUpdatedAfter := t0\<rparr>, [], False),
      (''updated after'', SearchUpdatedAfter, ''neovim'', zeroSearchOptions\<lparr>oUpdatedAfter := t0 - 1\<rparr>, [''user/editor''], False),
      (''updated before is exclusive'', SearchUpdatedBefore, ''neovim'', zeroSearchOptions\<lparr>oUpdatedBefore := t0\<rparr>, [], False),
      (''updated before'', SearchUpdatedBefore, ''neovim'', zeroSearchOptions\<lparr>oUpdatedBefore := t0 + 1\<rparr>, [''user/editor''], False)]"

definition option_case :: "'s Store \<Rightarrow> 's \<Rightarrow> string \<times> string \<times> string \<times> SearchOptions \<times> string list \<times> bool \<Rightarrow> string list" where
  "option_case S s tt =
     (case tt of (name, option, query, so, want, order) \<Rightarrow>
        let got = SearchWith S [''user'', ''project''] query 0 so s in
        if option \<notin> set (SearchSupport S) then errorf_unless (isUnsupported got) name
        else case got of
          Inl err \<Rightarrow> [name]
        | Inr got \<Rightarrow> errorf_unless (\<not> (order \<and> keys got \<noteq> want)) name @ errorf_unless (sameSet (keys got) want) name)"

text \<open>The checks after the table: a metadata key that is not a name, no options, and a limit.\<close>

definition option_rest :: "'s Store \<Rightarrow> 's \<Rightarrow> string list" where
  "option_rest S s =
     (let both = [''user'', ''project''] in
      (if SearchMeta \<in> set (SearchSupport S)
       then errorf_unless (isInvalid (SearchWith S both [] 0 (zeroSearchOptions\<lparr>oMeta := Some [(''Type'', ''tool'')]\<rparr>) s)) ''SearchWith(meta key Type)'' else []) @
      errorf_unless (case SearchWith S both ''go'' 0 zeroSearchOptions s of
          Inl err \<Rightarrow> False | Inr got \<Rightarrow> sameSet (keys got) [''user/language'', ''project/build'']) ''SearchWith(no options)'' @
      errorf_unless (case SearchWith S both ''go'' 1 (zeroSearchOptions\<lparr>oAny := SearchAny \<in> set (SearchSupport S)\<rparr>) s of
          Inl err \<Rightarrow> False | Inr got \<Rightarrow> length got = 1) ''SearchWith with limit 1'')"

definition testSearchOptions :: "'s Store \<Rightarrow> (nat \<Rightarrow> time) \<Rightarrow> 's \<Rightarrow> string list" where
  "testSearchOptions S clk s =
     put_all S clk 0 option_puts s (\<lambda>s.
     concat (map (\<lambda>n. errorf_unless (n \<in> {SearchAny, SearchMeta, SearchUpdatedAfter, SearchUpdatedBefore}) ''SearchOptions names what is not an option'') (SearchSupport S)) @
     mustGet S ''user'' ''editor'' s (\<lambda>editor.
       concat (map (option_case S s) (option_tests (eUpdated editor))) @ option_rest S s))"

section \<open>The suite\<close>

text \<open>The tests \<^verbatim>\<open>Run\<close> runs on a store of its own each, from the new store \<open>s\<close>; its last two need writers in parallel and a second handle.\<close>

definition Run :: "'s Store \<Rightarrow> (nat \<Rightarrow> time) \<Rightarrow> 's \<Rightarrow> string list" where
  "Run S clk s =
     testValidation S clk s @ testPutGetList S clk s @ testInvalidReads S clk s @ testBounds S clk s @ testIfHash S clk s @ testMetaHash S clk s @
     testForget S clk s @ testJournal S clk s @ testLostUpdates S clk s @ testLastSeq S clk s @ testSearch S clk s @ testSearchOptions S clk s"

end
