(* ===== verification/ConformanceSearch.thy ===== *)
theory ConformanceSearch
  imports Conformance ConformanceJournal SearchTest
begin

text \<open>
  The search tests pass on every store that searches by the reference filter over what it lists, which the in-memory store and the file store do.
  With them the whole suite \<open>Run\<close> passes there, up to collisions of the hash between contents of the tests.
\<close>

section \<open>What the searches count\<close>

lemma search_queries:
  "queryWords u ''neovim'' = [''neovim'']" "queryWords u ''NEOVIM'' = [''neovim'']" "queryWords u ''Go'' = [''go'']" "queryWords u ''go'' = [''go'']"
  "queryWords u ''Go Python'' = [''go'', ''python'']" "queryWords u ''timezone'' = [''timezone'']" "queryWords u ''preference'' = [''preference'']"
  "queryWords u ''rust'' = [''rust'']" "queryWords u ''neovim rust'' = [''neovim'', ''rust'']" "queryWords u ''python go'' = [''python'', ''go'']" "queryWords u [] = []"
  by code_simp+

definition hits :: "string list \<Rightarrow> string list \<Rightarrow> nat list" where
  "hits texts ws = map (\<lambda>t. length (filter (Contains t) ws)) texts"

lemma matchCount_hits: "ws \<noteq> [] \<Longrightarrow> map (\<lambda>e. ToLower u (match_text e)) es = texts \<Longrightarrow> map (\<lambda>e. matchCount u e ws) es = hits texts ws"
  by (auto simp: matchCount_def hits_def)

definition search_texts :: "string list" where
  "search_texts =
     [''editor'' @ LF # ''editor preference'' @ LF # ''uses neovim with a dark theme.'', ''language'' @ LF # ''language preference'' @ LF # ''prefers go over python for tools.'',
      ''timezone'' @ LF # ''europe/london'', ''build'' @ LF # ''run make check before a commit; the go toolchain is 1.25.'', ''secret'' @ LF # ''go is also mentioned here.'']"

definition option_texts :: "string list" where
  "option_texts =
     [''editor'' @ LF # ''editor preference'' @ LF # ''tool'' @ LF # ''uses neovim with a dark theme.'',
      ''language'' @ LF # ''language preference'' @ LF # ''taste'' @ LF # ''prefers go over python for tools.'',
      ''timezone'' @ LF # ''europe/london'', ''build'' @ LF # ''tool'' @ LF # ''run make check before a commit; the go toolchain is 1.25.'']"

lemma lowered: "map (\<lambda>e. ToLower u (match_text e)) search_puts = search_texts" "map (\<lambda>e. ToLower u (match_text e)) option_puts = option_texts"
  by code_simp+

lemma search_hits:
  "hits search_texts [''neovim''] = [1, 0, 0, 0, 0]" "hits search_texts [''go''] = [0, 1, 0, 1, 1]" "hits search_texts [''go'', ''python''] = [0, 2, 0, 1, 1]"
  "hits search_texts [''timezone''] = [0, 0, 1, 0, 0]" "hits search_texts [''preference''] = [1, 1, 0, 0, 0]" "hits search_texts [''rust''] = [0, 0, 0, 0, 0]"
  by code_simp+

lemma option_hits:
  "hits option_texts [''neovim'', ''rust''] = [1, 0, 0, 0]" "hits option_texts [''python'', ''go''] = [0, 2, 0, 1]" "hits option_texts [''rust''] = [0, 0, 0, 0]"
  "hits option_texts [''go''] = [0, 1, 0, 1]" "hits option_texts [''neovim''] = [1, 0, 0, 0]"
  by code_simp+

lemma matchCount_stored [simp]: "matchCount u (stored_form now e) ws = matchCount u e ws"
  by (simp add: matchCount_def match_text_def)

lemma small_searched: "list_all small_entry search_puts" "list_all small_entry option_puts"
  by code_simp+

lemma search_names: "map (\<lambda>e. (eScope e, eName e)) search_puts =
    [(''user'', ''editor''), (''user'', ''language''), (''user'', ''timezone''), (''project'', ''build''), (''hidden'', ''secret'')]"
  by (simp add: search_puts_def testEntry_def)

lemma option_names: "map (\<lambda>e. (eScope e, eName e, eMeta e)) option_puts =
    [(''user'', ''editor'', Some [(''description'', ''Editor preference''), (''type'', ''tool'')]),
     (''user'', ''language'', Some [(''description'', ''Language preference''), (''type'', ''taste'')]),
     (''user'', ''timezone'', None), (''project'', ''build'', Some [(''type'', ''tool'')])]"
  by (simp add: option_puts_def testEntry_def)

lemma search_counts:
  assumes "search_puts = [a, b, c, d, h]" "ws \<noteq> []"
  shows "[matchCount u a ws, matchCount u b ws, matchCount u c ws, matchCount u d ws, matchCount u h ws] = hits search_texts ws"
  using matchCount_hits [OF assms(2) lowered(1)] by (simp add: assms(1))

lemma option_counts:
  assumes "option_puts = [a, b, c, d]" "ws \<noteq> []"
  shows "[matchCount u a ws, matchCount u b ws, matchCount u c ws, matchCount u d ws] = hits option_texts ws"
  using matchCount_hits [OF assms(2) lowered(2)] by (simp add: assms(1))

lemma Keep_zero [simp]: "Keep zeroSearchOptions e" "Keep (zeroSearchOptions\<lparr>oAny := x\<rparr>) e"
  by (simp_all add: Keep_def zeroSearchOptions_def IsZero_def)

lemma zero_options [simp]: "oAny zeroSearchOptions = False" "oMeta zeroSearchOptions = None" "oUpdatedAfter zeroSearchOptions = 0" "oUpdatedBefore zeroSearchOptions = 0"
  by (simp_all add: zeroSearchOptions_def)

lemma search_results:
  assumes p: "search_puts = [a, b, c, d, h]"
  shows "FilterEntries u zeroSearchOptions [stored_form t1 a, stored_form t2 b, stored_form t3 c] ''neovim'' 0 = [stored_form t1 a]"
    "FilterEntries u zeroSearchOptions [stored_form t1 a, stored_form t2 b, stored_form t3 c] ''NEOVIM'' 0 = [stored_form t1 a]"
    "FilterEntries u zeroSearchOptions [stored_form t1 a, stored_form t2 b, stored_form t3 c, stored_form t4 d] ''Go'' 0 = [stored_form t2 b, stored_form t4 d]"
    "FilterEntries u zeroSearchOptions [stored_form t1 a, stored_form t2 b, stored_form t3 c] ''Go'' 0 = [stored_form t2 b]"
    "FilterEntries u zeroSearchOptions [stored_form t1 a, stored_form t2 b, stored_form t3 c, stored_form t4 d] ''Go Python'' 0 = [stored_form t2 b]"
    "FilterEntries u zeroSearchOptions [stored_form t1 a, stored_form t2 b, stored_form t3 c] ''timezone'' 0 = [stored_form t3 c]"
    "FilterEntries u zeroSearchOptions [stored_form t1 a, stored_form t2 b, stored_form t3 c] ''preference'' 0 = [stored_form t1 a, stored_form t2 b]"
    "FilterEntries u zeroSearchOptions [stored_form t1 a, stored_form t2 b, stored_form t3 c, stored_form t4 d] ''rust'' 0 = []"
    "FilterEntries u zeroSearchOptions [] ''go'' 0 = []"
    "FilterEntries u zeroSearchOptions [stored_form t1 a, stored_form t2 b, stored_form t3 c, stored_form t4 d] ''Go'' 1 = [stored_form t2 b]"
  using search_counts [OF p, of "[''neovim'']" u] search_counts [OF p, of "[''go'']" u] search_counts [OF p, of "[''go'', ''python'']" u]
    search_counts [OF p, of "[''timezone'']" u] search_counts [OF p, of "[''preference'']" u] search_counts [OF p, of "[''rust'']" u]
  unfolding search_hits FilterEntries_def search_queries Let_def by simp_all

lemma sameSet_refl [simp]: "sameSet w w"
  by (simp add: sameSet_def list_all_iff)

lemma option_results:
  fixes t1 t2 t3 t4 :: time and a b c d :: Entry and u
  assumes p: "option_puts = [a, b, c, d]" and t: "t1 \<noteq> 0"
  defines "es \<equiv> [stored_form t1 a, stored_form t2 b, stored_form t3 c, stored_form t4 d]"
  shows "FilterEntries u (zeroSearchOptions\<lparr>oAny := True\<rparr>) es ''neovim rust'' 0 = [stored_form t1 a]"
    "FilterEntries u (zeroSearchOptions\<lparr>oAny := True\<rparr>) es ''python go'' 0 = [stored_form t2 b, stored_form t4 d]"
    "FilterEntries u (zeroSearchOptions\<lparr>oAny := True\<rparr>) es ''rust'' 0 = []"
    "FilterEntries u (zeroSearchOptions\<lparr>oMeta := Some [(''type'', ''tool'')]\<rparr>) es [] 0 = [stored_form t1 a, stored_form t4 d]"
    "FilterEntries u (zeroSearchOptions\<lparr>oMeta := Some [(''type'', ''tool'')]\<rparr>) es ''go'' 0 = [stored_form t4 d]"
    "FilterEntries u (zeroSearchOptions\<lparr>oMeta := Some [(''type'', ''tool''), (''description'', ''Editor preference'')]\<rparr>) es [] 0 = [stored_form t1 a]"
    "FilterEntries u (zeroSearchOptions\<lparr>oMeta := Some [(''type'', ''too'')]\<rparr>) es [] 0 = []"
    "FilterEntries u (zeroSearchOptions\<lparr>oUpdatedAfter := t1\<rparr>) es ''neovim'' 0 = []"
    "FilterEntries u (zeroSearchOptions\<lparr>oUpdatedAfter := t1 - 1\<rparr>) es ''neovim'' 0 = [stored_form t1 a]"
    "FilterEntries u (zeroSearchOptions\<lparr>oUpdatedBefore := t1\<rparr>) es ''neovim'' 0 = []"
    "FilterEntries u (zeroSearchOptions\<lparr>oUpdatedBefore := t1 + 1\<rparr>) es ''neovim'' 0 = [stored_form t1 a]"
    "FilterEntries u zeroSearchOptions es ''go'' 0 = [stored_form t2 b, stored_form t4 d]"
    "FilterEntries u (zeroSearchOptions\<lparr>oAny := True\<rparr>) es ''go'' 1 = [stored_form t2 b]"
proof -
  have m: "eMeta a = Some [(''description'', ''Editor preference''), (''type'', ''tool'')]" "eMeta b = Some [(''description'', ''Language preference''), (''type'', ''taste'')]"
    "eMeta c = None" "eMeta d = Some [(''type'', ''tool'')]"
    using option_names by (simp_all add: p)
  note counts = option_counts [OF p, of "[''neovim'', ''rust'']" u, unfolded option_hits] option_counts [OF p, of "[''python'', ''go'']" u, unfolded option_hits]
    option_counts [OF p, of "[''rust'']" u, unfolded option_hits] option_counts [OF p, of "[''go'']" u, unfolded option_hits]
    option_counts [OF p, of "[''neovim'']" u, unfolded option_hits]
  note defs = es_def FilterEntries_def search_queries Let_def
  show "FilterEntries u (zeroSearchOptions\<lparr>oAny := True\<rparr>) es ''neovim rust'' 0 = [stored_form t1 a]"
    "FilterEntries u (zeroSearchOptions\<lparr>oAny := True\<rparr>) es ''python go'' 0 = [stored_form t2 b, stored_form t4 d]"
    "FilterEntries u (zeroSearchOptions\<lparr>oAny := True\<rparr>) es ''rust'' 0 = []"
    "FilterEntries u zeroSearchOptions es ''go'' 0 = [stored_form t2 b, stored_form t4 d]"
    "FilterEntries u (zeroSearchOptions\<lparr>oAny := True\<rparr>) es ''go'' 1 = [stored_form t2 b]"
    using counts unfolding defs by simp_all
  show "FilterEntries u (zeroSearchOptions\<lparr>oMeta := Some [(''type'', ''tool'')]\<rparr>) es [] 0 = [stored_form t1 a, stored_form t4 d]"
    "FilterEntries u (zeroSearchOptions\<lparr>oMeta := Some [(''type'', ''tool'')]\<rparr>) es ''go'' 0 = [stored_form t4 d]"
    "FilterEntries u (zeroSearchOptions\<lparr>oMeta := Some [(''type'', ''tool''), (''description'', ''Editor preference'')]\<rparr>) es [] 0 = [stored_form t1 a]"
    "FilterEntries u (zeroSearchOptions\<lparr>oMeta := Some [(''type'', ''too'')]\<rparr>) es [] 0 = []"
    using counts unfolding defs by (simp_all add: Keep_def IsZero_def mlookup_def eMeta_stored_form m)
  show "FilterEntries u (zeroSearchOptions\<lparr>oUpdatedAfter := t1\<rparr>) es ''neovim'' 0 = []"
    "FilterEntries u (zeroSearchOptions\<lparr>oUpdatedAfter := t1 - 1\<rparr>) es ''neovim'' 0 = [stored_form t1 a]"
    "FilterEntries u (zeroSearchOptions\<lparr>oUpdatedBefore := t1\<rparr>) es ''neovim'' 0 = []"
    "FilterEntries u (zeroSearchOptions\<lparr>oUpdatedBefore := t1 + 1\<rparr>) es ''neovim'' 0 = [stored_form t1 a]"
    using counts t unfolding defs by (simp_all add: Keep_def IsZero_def)
qed

lemma option_checks:
  "CheckOptions zeroSearchOptions AllSearchOptions = None" "CheckOptions (zeroSearchOptions\<lparr>oAny := True\<rparr>) AllSearchOptions = None"
  "CheckOptions (zeroSearchOptions\<lparr>oMeta := Some [(''type'', ''tool'')]\<rparr>) AllSearchOptions = None"
  "CheckOptions (zeroSearchOptions\<lparr>oMeta := Some [(''type'', ''tool''), (''description'', ''Editor preference'')]\<rparr>) AllSearchOptions = None"
  "CheckOptions (zeroSearchOptions\<lparr>oMeta := Some [(''type'', ''too'')]\<rparr>) AllSearchOptions = None"
  "CheckOptions (zeroSearchOptions\<lparr>oMeta := Some [(''Type'', ''tool'')]\<rparr>) AllSearchOptions = Some (ErrInvalid (BadSearchKey ''Type''))"
  by code_simp+

lemma editor_ref: "CheckRef ''user'' ''editor'' = None"
  by code_simp

lemma time_checks:
  "CheckOptions (zeroSearchOptions\<lparr>oUpdatedAfter := t\<rparr>) AllSearchOptions = None" "CheckOptions (zeroSearchOptions\<lparr>oUpdatedBefore := t\<rparr>) AllSearchOptions = None"
  by (simp_all add: CheckOptions_def Names_def IsZero_def AllSearchOptions_def)

section \<open>A store that searches by the reference filter\<close>

locale searched_store = tested_store S good view cap for S :: "'s Store" and good view cap +
  fixes u :: "int \<Rightarrow> int"
  assumes good_plain: "sSearch S scopes query limit s = SearchWith S scopes query limit zeroSearchOptions s"
    and good_support: "SearchSupport S = AllSearchOptions"
    and good_search: "good s \<Longrightarrow> list_all2 (\<lambda>sc es. sList S sc s = Inr es) scopes ess \<Longrightarrow>
      SearchWith S scopes query limit so s =
        (case CheckOptions so AllSearchOptions of Some err \<Rightarrow> Inl err | None \<Rightarrow> Inr (FilterEntries u so (concat ess) query limit))"
begin

lemma plain_search:
  assumes "good s" "list_all2 (\<lambda>sc es. sList S sc s = Inr es) scopes ess"
  shows "sSearch S scopes query limit s = Inr (FilterEntries u zeroSearchOptions (concat ess) query limit)"
  using good_search [OF assms] by (simp add: good_plain CheckOptions_def Names_def zeroSearchOptions_def IsZero_def)

lemma list_three:
  assumes "good s" "ValidScope sc" "aLive (view s) sc = [n1 \<mapsto> a, n2 \<mapsto> b, n3 \<mapsto> c]" "n1 < n2" "n2 < n3"
  shows "sList S sc s = Inr [a, b, c]"
proof -
  have "n1 < n3" using assms(4,5) by simp
  then have "eName a = n1" "eName b = n2" "eName c = n3"
    using abs_inv_live(2) [OF good_view [OF assms(1)], of sc n1 a] abs_inv_live(2) [OF good_view [OF assms(1)], of sc n2 b]
      abs_inv_live(2) [OF good_view [OF assms(1)], of sc n3 c] assms(3-5) by simp_all
  with assms \<open>n1 < n3\<close> show ?thesis by (intro list_of_names) (auto split: if_splits)
qed

lemma search_case_passes:
  assumes "good s" "list_all2 (\<lambda>sc es. sList S sc s = Inr es) scopes ess"
    "let got = FilterEntries u zeroSearchOptions (concat ess) query limit in
       if limit > 0 then int (length got) = limit else keys got = want \<and> list_all (\<lambda>e. eHash e \<noteq> [] \<and> eUpdated e \<noteq> 0 \<and> \<not> eDeleted e) got"
  shows "search_case S s (name, scopes, query, limit, want) = []"
  using assms(3) by (auto simp: search_case_def plain_search [OF assms(1,2)] errorf_unless_def IsZero_def list_all_iff Let_def split: if_splits)

lemma search_cases_pass:
  assumes "good s" "search_puts = [a, b, c, d, h]" "t1 \<noteq> 0" "t2 \<noteq> 0" "t3 \<noteq> 0" "t4 \<noteq> 0"
    and lists: "sList S ''user'' s = Inr [stored_form t1 a, stored_form t2 b, stored_form t3 c]" "sList S ''project'' s = Inr [stored_form t4 d]" "sList S ''nowhere'' s = Inr []"
  shows "concat (map (search_case S s) search_tests) = []"
proof -
  have user: "list_all2 (\<lambda>sc es. sList S sc s = Inr es) [''user''] [[stored_form t1 a, stored_form t2 b, stored_form t3 c]]"
    and both: "list_all2 (\<lambda>sc es. sList S sc s = Inr es) [''user'', ''project''] [[stored_form t1 a, stored_form t2 b, stored_form t3 c], [stored_form t4 d]]"
    and none: "list_all2 (\<lambda>sc es. sList S sc s = Inr es) [''nowhere''] [[]]"
    using lists by simp_all
  note rule = search_case_passes [OF assms(1) user] search_case_passes [OF assms(1) both] search_case_passes [OF assms(1) none]
  have e: "eScope a = ''user''" "eScope b = ''user''" "eScope c = ''user''" "eScope d = ''project''" "eName a = ''editor''" "eName b = ''language''" "eName c = ''timezone''" "eName d = ''build''"
    using search_names by (simp_all add: assms(2))
  have "list_all (\<lambda>tt. search_case S s tt = []) search_tests"
    unfolding search_tests_def list.pred_inject(2)
    by (intro conjI rule list.pred_inject(1))
      (use assms(3-6) in \<open>simp_all (no_asm_simp) add: search_results [OF assms(2)] keys_def e\<close>)
  then show ?thesis by (simp add: list_all_iff)
qed

lemma testSearch_passes:
  assumes "good s" "view s = empty_view limit" "256 \<le> limit" "clock_ok clk"
  shows "testSearch S clk s = []"
proof -
  obtain a b c d h where p: "search_puts = [a, b, c, d, h]" by (simp add: search_puts_def)
  have small: "small_entry a" "small_entry b" "small_entry c" "small_entry d" "small_entry h" using small_searched(1) by (simp_all add: p)
  have e: "eScope a = ''user''" "eScope b = ''user''" "eScope c = ''user''" "eScope d = ''project''" "eScope h = ''hidden''"
    "eName a = ''editor''" "eName b = ''language''" "eName c = ''timezone''" "eName d = ''build''" "eName h = ''secret''"
    using search_names by (simp_all add: p)
  show ?thesis
    unfolding testSearch_def p put_all.simps
  proof (intro mustPut_small, goal_cases)
    case (41 s1 s2 s3 s4 s5)
    then have "aLive (view s5) ''user'' = [''editor'' \<mapsto> stored_form (clk 0) a, ''language'' \<mapsto> stored_form (clk (Suc 0)) b, ''timezone'' \<mapsto> stored_form (clk (Suc (Suc 0))) c]"
      "aLive (view s5) ''project'' = [''build'' \<mapsto> stored_form (clk (Suc (Suc (Suc 0)))) d]" "aLive (view s5) ''nowhere'' = Map.empty"
      using assms(2) by (simp_all add: suite_simps e)
    then have "sList S ''user'' s5 = Inr [stored_form (clk 0) a, stored_form (clk (Suc 0)) b, stored_form (clk (Suc (Suc 0))) c]"
      "sList S ''project'' s5 = Inr [stored_form (clk (Suc (Suc (Suc 0)))) d]" "sList S ''nowhere'' s5 = Inr []"
      using list_three [OF 41(9) bad_refs(3)] list_one [OF 41(9) bad_refs(4)] list_of_names [OF 41(9) bad_refs(5), of "[]"] by simp_all
    from search_cases_pass [OF 41(9) p _ _ _ _ this] show ?case using clock_not_zero [OF assms(4)] by simp
  qed (use assms small cap_ok in \<open>simp_all (no_asm_simp) add: suite_simps e\<close>)
qed

lemma option_case_passes:
  assumes "good s" "list_all2 (\<lambda>sc es. sList S sc s = Inr es) [''user'', ''project''] ess" "CheckOptions so AllSearchOptions = None"
    "keys (FilterEntries u so (concat ess) query 0) = want" "option \<in> set AllSearchOptions"
  shows "option_case S s (name, option, query, so, want, order) = []"
  using assms(3-5) by (simp add: option_case_def good_search [OF assms(1,2)] good_support errorf_unless_def)

lemma option_cases_pass:
  assumes "good s" "option_puts = [a, b, c, d]" "t1 \<noteq> 0"
    and lists: "sList S ''user'' s = Inr [stored_form t1 a, stored_form t2 b, stored_form t3 c]" "sList S ''project'' s = Inr [stored_form t4 d]"
  shows "concat (map (option_case S s) (option_tests t1)) = []" "option_rest S s = []"
proof -
  have both: "list_all2 (\<lambda>sc es. sList S sc s = Inr es) [''user'', ''project''] [[stored_form t1 a, stored_form t2 b, stored_form t3 c], [stored_form t4 d]]"
    using lists by simp
  have e: "eScope a = ''user''" "eScope b = ''user''" "eScope d = ''project''" "eName a = ''editor''" "eName b = ''language''" "eName d = ''build''"
    using option_names by (simp_all add: assms(2))
  note r = option_results [OF assms(2,3), where u = u]
  have names: "set AllSearchOptions = {SearchAny, SearchMeta, SearchUpdatedAfter, SearchUpdatedBefore}" by (simp add: AllSearchOptions_def)
  have "list_all (\<lambda>tt. option_case S s tt = []) (option_tests t1)"
    unfolding option_tests_def list.pred_inject(2)
    by (intro conjI option_case_passes [OF assms(1) both] list.pred_inject(1) option_checks time_checks) (simp_all (no_asm_simp) add: r keys_def e names)
  then show "concat (map (option_case S s) (option_tests t1)) = []" by (simp add: list_all_iff)
  show "option_rest S s = []"
    unfolding option_rest_def Let_def good_support good_search [OF assms(1) both]
    by (simp add: errorf_unless_def option_checks isInvalid_def r names) (simp add: keys_def e)
qed

lemma testSearchOptions_passes:
  assumes "good s" "view s = empty_view limit" "256 \<le> limit" "clock_ok clk"
  shows "testSearchOptions S clk s = []"
proof -
  obtain a b c d where p: "option_puts = [a, b, c, d]" by (simp add: option_puts_def)
  have small: "small_entry a" "small_entry b" "small_entry c" "small_entry d" using small_searched(2) by (simp_all add: p)
  have e: "eScope a = ''user''" "eScope b = ''user''" "eScope c = ''user''" "eScope d = ''project''"
    "eName a = ''editor''" "eName b = ''language''" "eName c = ''timezone''" "eName d = ''build''"
    using option_names by (simp_all add: p)
  have supported: "concat (map (\<lambda>n. errorf_unless (n \<in> {SearchAny, SearchMeta, SearchUpdatedAfter, SearchUpdatedBefore}) what) (SearchSupport S)) = []" for what
    by (simp add: good_support AllSearchOptions_def errorf_unless_def)
  show ?thesis
    unfolding testSearchOptions_def p put_all.simps supported append_Nil
  proof (intro mustPut_small mustGet_passes, goal_cases)
    case (36 s1 s2 s3 s4)
    then have live: "aLive (view s4) ''user'' = [''editor'' \<mapsto> stored_form (clk 0) a, ''language'' \<mapsto> stored_form (clk (Suc 0)) b, ''timezone'' \<mapsto> stored_form (clk (Suc (Suc 0))) c]"
      "aLive (view s4) ''project'' = [''build'' \<mapsto> stored_form (clk (Suc (Suc (Suc 0)))) d]"
      using assms(2) by (simp_all add: suite_simps e)
    then have "sList S ''user'' s4 = Inr [stored_form (clk 0) a, stored_form (clk (Suc 0)) b, stored_form (clk (Suc (Suc 0))) c]"
      "sList S ''project'' s4 = Inr [stored_form (clk (Suc (Suc (Suc 0)))) d]"
      using list_three [OF 36(7) bad_refs(3)] list_one [OF 36(7) bad_refs(4)] by simp_all
    from option_cases_pass [OF 36(7) p _ this] live(1) show ?case using clock_not_zero [OF assms(4)] by simp
  qed (use assms small cap_ok editor_ref in \<open>simp_all (no_asm_simp) add: suite_simps e\<close>)
qed

lemma Run_passes:
  assumes "good s" "view s = empty_view limit" "256 \<le> limit" "clock_ok clk"
    and hashes: "Hash ''Chris.'' \<noteq> Hash ''stale''" "Hash ''Chris.'' \<noteq> Hash ''Chris. Lives in Bristol.''" "Hash ''by hand'' \<noteq> Hash ''again''"
      "MetaHash style_meta \<noteq> MetaHash edited_meta"
  shows "Run S clk s = []"
proof -
  have "sSearch S [''user''] ''London'' 0 t = Inr []"
    if "good t" "aLive (view t) ''user'' = [''keep'' \<mapsto> stored_form (clk 2) (testEntry ''user'' ''keep'' ''kept'' None)]" for t
    using plain_search [of t "[''user'']" "[[stored_form (clk 2) (testEntry ''user'' ''keep'' ''kept'' None)]]"] list_one [OF that(1) bad_refs(3) that(2)]
      keep_not_found that(1) by simp
  then have "testForget S clk s = []" using testForget_passes [OF assms(1-4)] by blast
  then show ?thesis
    unfolding Run_def
    by (simp add: testValidation_passes [OF assms(1,2,4)] testPutGetList_passes [OF assms(1-4)] testInvalidReads_passes [OF assms(1-4)] testBounds_passes [OF assms(1-4)]
        testIfHash_passes [OF assms(1-4)] testMetaHash_passes [OF assms(1-4)] testJournal_passes [OF assms(1-4)] testLostUpdates_passes [OF assms(1-4)]
        testLastSeq_passes [OF assms(1-4)] testSearch_passes [OF assms(1-4)] testSearchOptions_passes [OF assms(1-4)] hashes)
qed

end

section \<open>The stores that search by the reference filter\<close>

lemma valid_listed:
  assumes "list_all2 (\<lambda>sc es. sList S sc s = Inr es) scopes ess" "\<And>sc. \<not> ValidScope sc \<Longrightarrow> isl (sList S sc s)"
  shows "List.find (\<lambda>sc. CheckScope sc \<noteq> None) scopes = None"
  using assms by (induction rule: list_all2_induct) (auto simp: CheckScope_def, metis sum.disc(2))

interpretation mem_searched: searched_store "memStore u" mem_inv mem_view "2 ^ 63 - 1" u for u
proof (unfold_locales, goal_cases)
  case (3 s scopes ess query limit so)
  have "concat (map (listLocked s) scopes) = concat ess" using 3(2) by (induction rule: list_all2_induct) (auto simp: MemList_def split: option.splits if_splits)
  moreover have "List.find (\<lambda>sc. CheckScope sc \<noteq> None) scopes = None" using valid_listed [OF 3(2)] by (simp add: MemList_def CheckScope_def)
  ultimately show ?case by (simp add: SearchWith_def MemSearchWith_def split: option.split)
qed (simp_all add: SearchWith_def SearchSupport_def MemSearch_def)

interpretation file_searched: searched_store "fileStore u" file_good file_view "2 ^ 63 - 1" u for u
proof (unfold_locales, goal_cases)
  case (3 s scopes ess query limit so)
  have "list_all_scopes scopes s = Inr (concat ess)" using 3(2) by (induction rule: list_all2_induct) (auto simp: fileStore_def)
  moreover have "List.find (\<lambda>sc. CheckScope sc \<noteq> None) scopes = None" using valid_listed [OF 3(2)] by (simp add: fileStore_def FileList_def)
  ultimately show ?case by (simp add: SearchWith_def fileStore_def FileSearchWith_def split: option.split)
qed (simp_all add: SearchWith_def SearchSupport_def fileStore_def FileSearch_def)

end
