(* ===== verification/Spec2Isabelle.thy ===== *)
theory Spec2Isabelle
  imports Prelude Sha256 Utf8 Memory Search Store MemStore LostUpdate NeutraliseProofs Manifest RenderProofs
    Time Fmt Tools Handlers HandlerProofs ToolProps ToolSafety SaveRace
    Utf8Codec Json JsonProofs Records RecordProofs Toolbox ToolboxProofs
    Lock TimeFormat Frontmatter FileJournal FileTail FileRecord FileStore
    FileCursor FileInv FileWrites FileProps FileUse FileReconcile FileQuiet FileConform StoreContract SqlStore
    SqlProofs SqlWrites SqlUse SqlSchema SqlMigrate SqlProps StoreTest TestedStore Conformance ConformanceJournal
    SearchTest ConformanceSearch
begin

text \<open>
  A verification of \<^verbatim>\<open>agentmemory\<close>, which keeps named Markdown entries for an agent between its sessions.

  \<^bold>\<open>The program.\<close>  An entry has a scope, a name, content and metadata, and is known by the hash of its content and of its metadata
  (\<^verbatim>\<open>memory.go\<close>).  A store keeps the live entries and a journal of every change, each record naming the state it was based on and the
  state it replaced.  There are three stores: in memory (\<^verbatim>\<open>memstore.go\<close>), a directory of Markdown files that people may edit
  (\<^verbatim>\<open>filestore/\<close>), and one SQLite file (\<^verbatim>\<open>sqlite/sqlite.go\<close>).  On a store sit the reader of lost updates (\<^verbatim>\<open>lostupdate.go\<close>), the renderer
  that puts the entries into a bounded block of a prompt and records in a manifest what it showed (\<^verbatim>\<open>render.go\<close>), and the tools through which
  a model saves, patches, inserts, forgets and searches (\<^verbatim>\<open>tools.go\<close>, \<^verbatim>\<open>search.go\<close>).

  \<^bold>\<open>Conventions.\<close>  A Go string is a list of bytes, an \<^verbatim>\<open>int\<close> that no code lets overflow is \<^typ>\<open>int\<close>, a \<^verbatim>\<open>uint64\<close> is a 64-bit word, a
  time the nanoseconds since Go's zero time, a map an association list, with \<^const>\<open>None\<close> for nil where the code distinguishes it.  An error is
  a value of \<open>error\<close> in the left summand of a result.  An operation that writes is a function from the state to its result and the state after it.
  What the environment decides is an argument: the session on the context, the reading of the clock, the Unicode case tables, the random
  choices, what other sessions do between two calls, which writes to a disk or statements of a database fail.

  \<^bold>\<open>Theories.\<close>
  \<^item> \<open>Prelude\<close>, \<open>Utf8\<close>, \<open>Utf8Codec\<close>, \<open>Time\<close>, \<open>TimeFormat\<close>, \<open>Fmt\<close>, \<open>Sha256\<close>, \<open>Json\<close>, \<open>JsonProofs\<close>: what the sources use of Go's library, with
    the inverse laws of UTF-8, of times in RFC 3339 and of JSON.
  \<^item> \<open>Memory\<close>, \<open>Search\<close>, \<open>Store\<close>: entries, options, checks and errors; the reference search; the \<^verbatim>\<open>Store\<close> interface as a record of
    operations, the abstract store (a map of live entries and a journal) with its invariant, and the locale \<open>memory_store\<close>, in which an
    implementation refines the abstract store and the clients of a store are proved.
  \<^item> \<open>MemStore\<close>: the in-memory store, which interprets \<open>memory_store\<close>.
  \<^item> \<open>LostUpdate\<close>: the journal reader, which on a chained journal reports exactly the records whose base was not what they replaced.
  \<^item> \<open>Neutralise\<close>, \<open>NeutraliseProofs\<close>, \<open>Manifest\<close>, \<open>Records\<close>, \<open>RecordProofs\<close>, \<open>Render\<close>, \<open>RenderProofs\<close>: the renderer.  Content cannot break out of its
    part, the block stays inside its bound, the manifest says of every entry whether it is shown, and manifests and their deltas read back.
  \<^item> \<open>Tools\<close>, \<open>Handlers\<close>, \<open>HandlerProofs\<close>, \<open>ToolProps\<close>, \<open>ToolSafety\<close>, \<open>SaveRace\<close>, \<open>Toolbox\<close>, \<open>ToolboxProofs\<close>: the tools and the tool set.  A handler runs over a
    store that other sessions change between its calls; the lemmas say what its success means then, that it touches only its scope, and that it ends.
  \<^item> \<open>Lock\<close>: the lock of a store directory as a step relation over the file system calls of any number of writers, whose calls may fail and who may die.
    One writer holds it, and a dead holder's lock is taken over by the calls of one acquisition.
  \<^item> \<open>Frontmatter\<close>, \<open>FileJournal\<close>, \<open>FileTail\<close>, \<open>FileRecord\<close>: entry files and journal lines, which read back.
  \<^item> \<open>FileStore\<close>, \<open>FileCursor\<close>, \<open>FileInv\<close>, \<open>FileWrites\<close>, \<open>FileProps\<close>, \<open>FileUse\<close>, \<open>FileReconcile\<close>: the directory store.  Its states are reached by its own
    operations, by people editing the entry files, by writes that fail or are cut off before a record is whole and by writers that die; in all of them the
    journal is in order and the saved cursor agrees with it.  A person's change to the journal itself is outside the steps, and so is an append cut off just before its
    newline, which \<open>FileRecord\<close> shows to repeat a sequence number.
  \<^item> \<open>FileQuiet\<close>, \<open>FileConform\<close>: the directory store as long as nobody else touches its directory, which then interprets \<open>conforming_store\<close>.
  \<^item> \<open>StoreContract\<close>: the locale \<open>conforming_store\<close>, the contract of a store that writes text, and \<open>store_pair\<close>, in which one sequence of
    calls runs on two stores that keep it.  A store may refuse a scope or a name that is not kebab-case with the short text or the long one.
  \<^item> \<open>SqlStore\<close>, \<open>SqlProofs\<close>, \<open>SqlWrites\<close>, \<open>SqlUse\<close>, \<open>SqlSchema\<close>, \<open>SqlMigrate\<close>, \<open>SqlProps\<close>: the SQLite store, its schema, migration and retry.  It interprets
    \<open>conforming_store\<close>; its tables stay in step whichever statements fail, and opening a database loses no row.
  \<^item> \<open>StoreTest\<close>, \<open>SearchTest\<close>: the tests of \<^verbatim>\<open>storetest/storetest.go\<close> that need one handle and one caller, each a function from a store, its first state and the readings
    of the clock to the failures it reports.
  \<^item> \<open>TestedStore\<close>, \<open>Conformance\<close>, \<open>ConformanceJournal\<close>, \<open>ConformanceSearch\<close>: the locales \<open>tested_store\<close> and \<open>searched_store\<close>, in which those tests report nothing, interpreted
    on the three stores and on the two that search with the reference search.
  This theory holds the properties that span components: the stores answer alike, and the conformance suite finds no failure in them.

  \<^bold>\<open>Bounds and fuel.\<close>  Loops are structural recursions or have a measure.  The retries of the tools and of the renderer's summary have the bounds of
  the code.  Only the retry of the SQLite schema may run for ever, on a clock that stands still; it is a \<^theory_text>\<open>partial_function\<close> and is shown to end when
  a sleep takes its time.  Sequence numbers wrap at 64 bits; the properties of a journal say how long it may be.

  \<^bold>\<open>Not modelled.\<close>  The agent's own packages, whose types the tools are built from, appear as the schemas and handlers they are given.  The texts
  of errors of \<^verbatim>\<open>encoding/json\<close>, \<^verbatim>\<open>time\<close>, the file system and the SQL driver are left out where the code wraps them.  Of file system access the
  temporary file of an atomic write, the race of a symbolic link swapped in between a check and an open, and errors other than a denied
  write are left out, as are the platform files of \<^verbatim>\<open>filestore\<close>, the waiting times of the lock and \<^verbatim>\<open>BreakLock\<close>.  The ranking of the full-text index
  and the connection settings of SQLite are the engine's.  Of the conformance suite the tests of concurrency and of persistence
  are left out, and for SQLite the two tests whose outcome is the engine's ranking and the search in the test of forgetting.
\<close>

section \<open>The stores answer alike\<close>

interpretation mem_rows: conforming_store "memStore u" mem_inv mem_view sql_fits sql_stamp_fits "2 ^ 63 - 1" for u
  by (rule memory_store_conforms [OF mem.memory_store_axioms]) simp

interpretation mem_sql: store_pair "memStore u" mem_inv mem_view "sqlStore fts no_fault" sql_inv sql_view sql_fits sql_stamp_fits "2 ^ 63 - 1"
  for u and fts :: "('r :: linorder) fts"
  by unfold_locales

lemma opened_view:
  assumes "SqlOpen [SqlWithMaxEntryBytes k] env (\<lambda>i g. g) start clock empty_file = Some (Inr s, f')"
  shows "sql_view s = mem_view (NewMemStore [WithMaxEntryBytes k])"
proof -
  have s: "applySchema env (\<lambda>i g. g) start clock empty_file = Some (None, f')" "s = \<lparr>qMax = k, qDb = sql_db f'\<rparr>"
    using assms by (auto simp: SqlOpen_def Let_def SqlWithMaxEntryBytes_def split: option.splits)
  then obtain j where "applySchemaOnce (env j) empty_file = (None, f')" using schema_loop_alone [of env "\<lambda>i g. g"] unfolding applySchema_def by fastforce
  from empty_once [OF this] show ?thesis
    by (simp add: s(2) sql_view_def mem_view_def sql_records_def replay_def NewMemStore_def WithMaxEntryBytes_def live_scope_def)
qed

interpretation mem_file: store_pair "memStore u" mem_inv mem_view "fileStore u" file_good file_view text_fits text_stamp_fits "2 ^ 63 - 1" for u
  by unfold_locales

lemma new_views:
  "mem_view (NewMemStore [WithMaxEntryBytes k]) = empty_view k"
  "year_fits t \<Longrightarrow> file_view (Open [FileMaxEntryBytes k] [] t) = empty_view k"
  using new_file_good(2) [of t "[FileMaxEntryBytes k]"]
  by (simp_all add: empty_view_def mem_view_def file_view_def NewMemStore_def WithMaxEntryBytes_def live_scope_def Open_def replay_def)

text \<open>C1: the in-memory store and the SQLite store answer alike.  Started empty with the same entry bound, every sequence of puts, forgets, gets, lists and
  journal reads from any cursor gets the same replies from both: the same records, entries and lists, and the same errors but for the text with which a get, a list or a forget refuses a scope
  or a name that is not kebab-case, of which \<open>plain_reply\<close> takes the short form for both.  The puts' text must be such that JSON carries it, the cursors below \<^verbatim>\<open>1<<63\<close>, where
  the SQLite store's become negative, and the sequence shorter than the \<^verbatim>\<open>int64\<close> range.\<close>

theorem stores_agree:
  fixes fts :: "('r :: linorder) fts"
  assumes "SqlOpen [SqlWithMaxEntryBytes k] env (\<lambda>i g. g) start clock empty_file = Some (Inr s, f')"
    and "list_all (call_fits sql_fits sql_stamp_fits) calls" "length calls < 2 ^ 63"
  shows "map plain_reply (fst (run_calls (memStore u) calls (NewMemStore [WithMaxEntryBytes k]))) = map plain_reply (fst (run_calls (sqlStore fts no_fault) calls s))"
proof -
  have "mem_sql.alike (NewMemStore [WithMaxEntryBytes k]) s"
    unfolding mem_sql.alike_def using mem_inv_New opened_empty [OF assms(1)] opened_view [OF assms(1)] by simp
  moreover have "length (aJournal (mem_view (NewMemStore [WithMaxEntryBytes k]))) + length calls \<le> 2 ^ 63 - 1"
    using assms(3) by (simp add: NewMemStore_def WithMaxEntryBytes_def)
  ultimately show ?thesis using mem_sql.alike_calls assms(2) by blast
qed

theorem stores_agree_witness:
  "\<exists>s f'. SqlOpen [SqlWithMaxEntryBytes 4096] (\<lambda>i. no_schema_fault) (\<lambda>i g. g) 0 tick empty_file = Some (Inr s, f') \<and>
     map plain_reply (fst (run_calls (memStore (\<lambda>r. r)) [CallPut ''s1'' 7 sample_entry [], CallGet ''User'' ''tea'', CallJournal 1] (NewMemStore [WithMaxEntryBytes 4096]))) =
     map plain_reply (fst (run_calls (sqlStore (\<lambda>fs expr. Inr (\<lambda>f. Some (0 :: int))) no_fault) [CallPut ''s1'' 7 sample_entry [], CallGet ''User'' ''tea'', CallJournal 1] s))"
proof -
  obtain f' where "SqlOpen [] (\<lambda>i. no_schema_fault) (\<lambda>i g. g) 0 tick empty_file = Some (Inr new_sql, f')" using new_sql_opens by blast
  then obtain s where s: "SqlOpen [SqlWithMaxEntryBytes 4096] (\<lambda>i. no_schema_fault) (\<lambda>i g. g) 0 tick empty_file = Some (Inr s, f')"
    by (auto simp: SqlOpen_def Let_def split: option.splits)
  let ?calls = "[CallPut ''s1'' 7 sample_entry [], CallGet ''User'' ''tea'', CallJournal 1]"
  have "list_all (call_fits sql_fits sql_stamp_fits) ?calls" "length ?calls < 2 ^ 63" using sample_fits by simp_all
  from stores_agree [OF s this] s show ?thesis by (intro exI conjI)
qed

text \<open>C2: a file store whose directory nobody else touches answers like the in-memory store.  Opened on an empty directory with the same entry bound, it gives the
  same replies to every sequence of puts, forgets, gets, lists and journal reads, in the sense of the property before, although it keeps the
  entries as Markdown files and the records as lines of JSON that it reads back on each call.\<close>

theorem file_store_agrees:
  assumes "list_all (call_fits text_fits text_stamp_fits) calls" "length calls < 2 ^ 63" "year_fits t"
  shows "map plain_reply (fst (run_calls (memStore u) calls (NewMemStore [WithMaxEntryBytes k]))) =
    map plain_reply (fst (run_calls (fileStore u) calls (Open [FileMaxEntryBytes k] [] t)))"
proof -
  have "mem_file.alike (NewMemStore [WithMaxEntryBytes k]) (Open [FileMaxEntryBytes k] [] t)"
    unfolding mem_file.alike_def using mem_inv_New new_file_good(1) [OF assms(3)] new_views assms(3) by simp
  moreover have "length (aJournal (mem_view (NewMemStore [WithMaxEntryBytes k]))) + length calls \<le> 2 ^ 63 - 1"
    using assms(2) by (simp add: new_views empty_view_def)
  ultimately show ?thesis using mem_file.alike_calls assms(1) by blast
qed

theorem file_store_agrees_witness:
  "map plain_reply (fst (run_calls (memStore (\<lambda>r. r)) [CallPut ''s1'' 7 sample_entry [], CallForget ''s2'' 9 ''user'' ''tea'', CallJournal 1] (NewMemStore [WithMaxEntryBytes 4096]))) =
   map plain_reply (fst (run_calls (fileStore (\<lambda>r. r)) [CallPut ''s1'' 7 sample_entry [], CallForget ''s2'' 9 ''user'' ''tea'', CallJournal 1] (Open [FileMaxEntryBytes 4096] [] 5)))"
proof (rule file_store_agrees)
  have "year_fits 9" "year_fits 5" "ValidString ''s2''" by code_simp+
  then show "list_all (call_fits text_fits text_stamp_fits) [CallPut ''s1'' 7 sample_entry [], CallForget ''s2'' 9 ''user'' ''tea'', CallJournal 1]" "year_fits 5"
    using sample_fits by (simp_all add: text_fits_def text_stamp_fits_def sql_fits_def sql_stamp_fits_def ResolvePutOptions_def zeroPutOptions_def)
qed simp

section \<open>The conformance suite\<close>

text \<open>The hash of one content of the tests of conditions and lost updates is the hash of another.\<close>

definition suite_collision :: bool where
  "suite_collision \<longleftrightarrow> Hash ''Chris.'' = Hash ''stale'' \<or> Hash ''Chris.'' = Hash ''Chris. Lives in Bristol.'' \<or> Hash ''by hand'' = Hash ''again'' \<or>
     MetaHash style_meta = MetaHash edited_meta"

text \<open>The tests of the suite whose outcome does not depend on the full-text index: of those in \<^verbatim>\<open>Run\<close> all but \<^verbatim>\<open>testSearch\<close>, \<^verbatim>\<open>testSearchOptions\<close> and \<^verbatim>\<open>testForget\<close>,
  which looks for the forgotten entry.\<close>

definition run_unranked :: "'s Store \<Rightarrow> (nat \<Rightarrow> time) \<Rightarrow> 's \<Rightarrow> string list" where
  "run_unranked S clk s = testValidation S clk s @ testPutGetList S clk s @ testInvalidReads S clk s @ testBounds S clk s @ testIfHash S clk s @
     testMetaHash S clk s @ testJournal S clk s @ testLostUpdates S clk s @ testLastSeq S clk s"

lemma sql_run_unranked:
  fixes fts :: "('r :: linorder) fts"
  assumes "sql_inv s" "sql_view s = empty_view k" "256 \<le> k" "clock_ok clk"
  shows "run_unranked (sqlStore fts no_fault) clk s = [] \<or> suite_collision"
  using sql_tested.testValidation_passes [OF assms(1,2,4), of fts] sql_tested.testPutGetList_passes [OF assms, of fts] sql_tested.testInvalidReads_passes [OF assms, of fts]
    sql_tested.testBounds_passes [OF assms, of fts] sql_tested.testJournal_passes [OF assms, of fts] sql_tested.testLastSeq_passes [OF assms, of fts]
    sql_tested.testIfHash_passes [OF assms, of fts] sql_tested.testMetaHash_passes [OF assms, of fts] sql_tested.testLostUpdates_passes [OF assms, of fts]
  unfolding run_unranked_def suite_collision_def by auto

text \<open>C3: the conformance suite finds no failure in the stores.  Every test of \<^verbatim>\<open>storetest.Run\<close> that needs one handle and one caller passes on a new in-memory store and on
  a new file store whose directory nobody else touches, with any entry bound from 256 bytes, whatever the clock reads as long as it does not go back: validation, reads
  and lists, bounds, conditions on content and metadata, forgetting, the journal, lost updates, the last sequence number, search and its options.  On a new SQLite database in which no
  statement fails, those of them whose outcome does not depend on the full-text index pass whatever the index ranks.  A test of conditions or lost updates could fail only if two particular short
  contents had the same SHA-256.\<close>

theorem conformance_suite:
  fixes fts :: "('r :: linorder) fts"
  assumes "256 \<le> k" "clock_ok clk" "year_fits t"
    "SqlOpen [SqlWithMaxEntryBytes k] env (\<lambda>i g. g) start clock empty_file = Some (Inr s, f')"
  shows "Run (memStore u) clk (NewMemStore [WithMaxEntryBytes k]) = [] \<and> Run (fileStore u) clk (Open [FileMaxEntryBytes k] [] t) = [] \<and>
      run_unranked (sqlStore fts no_fault) clk s = [] \<or> suite_collision"
proof -
  have "sql_inv s" "sql_view s = empty_view k" using opened_empty [OF assms(4)] opened_view [OF assms(4)] new_views(1) by simp_all
  then have "run_unranked (sqlStore fts no_fault) clk s = [] \<or> suite_collision" using sql_run_unranked assms(1,2) by blast
  moreover have "Run (memStore u) clk (NewMemStore [WithMaxEntryBytes k]) = [] \<or> suite_collision"
    "Run (fileStore u) clk (Open [FileMaxEntryBytes k] [] t) = [] \<or> suite_collision"
    using mem_searched.Run_passes [of "NewMemStore [WithMaxEntryBytes k]" k clk] file_searched.Run_passes [of "Open [FileMaxEntryBytes k] [] t" k clk]
      mem_inv_New new_file_good(1) [OF assms(3)] new_views assms(1-3) unfolding suite_collision_def by blast+
  ultimately show ?thesis by blast
qed

theorem conformance_suite_witness:
  "\<exists>s f'. SqlOpen [SqlWithMaxEntryBytes 4096] (\<lambda>i. no_schema_fault) (\<lambda>i g. g) 0 tick empty_file = Some (Inr s, f') \<and>
     (Run (memStore (\<lambda>r. r)) (\<lambda>i. 7) (NewMemStore [WithMaxEntryBytes 4096]) = [] \<and> Run (fileStore (\<lambda>r. r)) (\<lambda>i. 7) (Open [FileMaxEntryBytes 4096] [] 5) = [] \<and>
      run_unranked (sqlStore (\<lambda>fs expr. Inr (\<lambda>f. Some (0 :: int))) no_fault) (\<lambda>i. 7) s = [] \<or> suite_collision)"
proof -
  obtain f' where "SqlOpen [] (\<lambda>i. no_schema_fault) (\<lambda>i g. g) 0 tick empty_file = Some (Inr new_sql, f')" using new_sql_opens by blast
  then obtain s where s: "SqlOpen [SqlWithMaxEntryBytes 4096] (\<lambda>i. no_schema_fault) (\<lambda>i g. g) 0 tick empty_file = Some (Inr s, f')"
    by (auto simp: SqlOpen_def Let_def split: option.splits)
  have y: "year_fits 5" "year_fits 7" by code_simp+
  then have clk: "clock_ok (\<lambda>i. 7)" by (simp add: clock_ok_def mono_def)
  have k: "(256 :: int) \<le> 4096" by simp
  from conformance_suite [OF k clk y(1) s, of "\<lambda>r. r" "\<lambda>fs expr. Inr (\<lambda>f. Some (0 :: int))"] s show ?thesis by blast
qed

end
